(* ===== verification/Prelude.thy ===== *)
theory Prelude
  imports Main "HOL-Library.Word" "HOL-Library.Monad_Syntax"
begin

text \<open>
  Shared vocabulary of the development: the machine integers of the receiver and of its
  error-correction library, arrays whose accesses are checked, counted loops over a state,
  and the lemmas on lists, options and words that several components use.

  A C array is a list together with checked access: \<open>rd\<close> and \<open>wr\<close> answer \<open>None\<close> when the
  index is outside the array, which is undefined behaviour in the source. A function that
  returns \<open>Some\<close> therefore made no access outside its arrays, and \<open>None\<close> stands for undefined
  behaviour (or, where a theory says so, for a loop that does not end).
\<close>

unbundle bit_operations_syntax

named_theorems mem_simps "evaluation of checked array accesses that are in range"
named_theorems len_simps "lengths of the arrays kept by the operations of a component"

type_synonym u8 = "8 word"
type_synonym u16 = "16 word"
type_synonym u32 = "32 word"
type_synonym u64 = "64 word"

section \<open>Checked arrays\<close>

definition rd :: "'a list \<Rightarrow> nat \<Rightarrow> 'a option" where
  "rd xs i = (if i < length xs then Some (xs ! i) else None)"

definition wr :: "'a list \<Rightarrow> nat \<Rightarrow> 'a \<Rightarrow> 'a list option" where
  "wr xs i v = (if i < length xs then Some (xs[i := v]) else None)"

text \<open>The memory an allocation returns is arbitrary: \<open>junk\<close> gives its bytes.\<close>

definition malloc :: "(nat \<Rightarrow> 'a) \<Rightarrow> nat \<Rightarrow> 'a list" where
  "malloc junk n = map junk [0..<n]"

text \<open>\<open>memset\<close> of the first \<open>n\<close> entries, \<open>memcpy\<close> of the first \<open>n\<close> entries of another array.\<close>

definition fill :: "'a list \<Rightarrow> nat \<Rightarrow> nat \<Rightarrow> 'a \<Rightarrow> 'a list option" where
  "fill xs at n v =
     (if at + n \<le> length xs then Some (take at xs @ replicate n v @ drop (at + n) xs) else None)"

definition blit :: "'a list \<Rightarrow> nat \<Rightarrow> 'a list \<Rightarrow> 'a list option" where
  "blit xs at ys =
     (if at + length ys \<le> length xs then Some (take at xs @ ys @ drop (at + length ys) xs) else None)"

definition copy_of :: "'a list \<Rightarrow> nat \<Rightarrow> nat \<Rightarrow> 'a list option" where
  "copy_of xs at n = (if at + n \<le> length xs then Some (take n (drop at xs)) else None)"

lemma rd_in [simp, mem_simps]: "i < length xs \<Longrightarrow> rd xs i = Some (xs ! i)"
  by (simp add: rd_def)

lemma wr_in [simp, mem_simps]: "i < length xs \<Longrightarrow> wr xs i v = Some (xs[i := v])"
  by (simp add: wr_def)

lemma rd_first [simp]: "xs \<noteq> [] \<Longrightarrow> rd xs 0 = Some (xs ! 0)"
  by (simp add: rd_def)

lemma wr_first [simp]: "xs \<noteq> [] \<Longrightarrow> wr xs 0 v = Some (xs[0 := v])"
  by (simp add: wr_def)

lemma rd_eq_Some: "rd xs i = Some v \<longleftrightarrow> i < length xs \<and> v = xs ! i"
  by (auto simp: rd_def)

lemma wr_eq_Some: "wr xs i v = Some ys \<longleftrightarrow> i < length xs \<and> ys = xs[i := v]"
  by (auto simp: wr_def)

lemma rd_eq_None [simp]: "rd xs i = None \<longleftrightarrow> length xs \<le> i"
  by (auto simp: rd_def)

lemma wr_eq_None [simp]: "wr xs i v = None \<longleftrightarrow> length xs \<le> i"
  by (auto simp: wr_def)

lemma length_malloc [simp]: "length (malloc junk n) = n"
  by (simp add: malloc_def)

lemma fill_in [mem_simps]:
  "at + n \<le> length xs \<Longrightarrow> fill xs at n v = Some (take at xs @ replicate n v @ drop (at + n) xs)"
  by (simp add: fill_def)

lemma fill_length: "fill xs at n v = Some ys \<Longrightarrow> length ys = length xs"
  by (auto simp: fill_def split: if_splits)

lemma fill_nth:
  "fill xs at n v = Some ys \<Longrightarrow> i < length xs \<Longrightarrow>
   ys ! i = (if at \<le> i \<and> i < at + n then v else xs ! i)"
  by (auto simp: fill_def nth_append split: if_splits)

lemma blit_length: "blit xs at vs = Some ys \<Longrightarrow> length ys = length xs"
  by (auto simp: blit_def split: if_splits)

lemma blit_nth:
  "blit xs at vs = Some ys \<Longrightarrow> i < length xs \<Longrightarrow>
   ys ! i = (if at \<le> i \<and> i < at + length vs then vs ! (i - at) else xs ! i)"
  by (auto simp: blit_def nth_append split: if_splits)

section \<open>Unsigned arithmetic\<close>

text \<open>\<open>unsigned int\<close> addition and subtraction, which wrap.\<close>

definition uint_add :: "nat \<Rightarrow> nat \<Rightarrow> nat" where
  "uint_add a b = (a + b) mod 2 ^ 32"

definition uint_sub :: "nat \<Rightarrow> nat \<Rightarrow> nat" where
  "uint_sub a b = (a + 2 ^ 32 - b) mod 2 ^ 32"

lemma uint_add_small: "a + b < 2 ^ 32 \<Longrightarrow> uint_add a b = a + b"
  by (simp add: uint_add_def)

lemma uint_sub_le:
  assumes "b \<le> a" "a < 2 ^ 32"
  shows "uint_sub a b = a - b"
proof -
  have "a + 2 ^ 32 - b = a - b + 2 ^ 32" using assms(1) by (rule diff_add_assoc2)
  moreover have "(a - b + 2 ^ 32) mod 2 ^ 32 = (a - b) mod 2 ^ 32" by (rule mod_add_self2)
  moreover have "a - b < 2 ^ 32" using assms(2) by (rule le_less_trans [OF diff_le_self])
  ultimately show ?thesis unfolding uint_sub_def by (metis mod_less)
qed

lemma uint_add_less: "uint_add a b < 2 ^ 32"
  by (simp add: uint_add_def)

section \<open>Counted loops\<close>

text \<open>
  \<open>for_each is f s\<close> runs \<open>f\<close> over the values of the loop variable, stopping at the first
  undefined access. \<open>for (i = lo; i < hi; i++)\<close> is \<open>for_each [lo..<hi]\<close>, and
  \<open>for (j = n; j >= 0; j--)\<close> is \<open>for_each (rev [0..<Suc n])\<close>.
\<close>

fun for_each :: "'i list \<Rightarrow> ('i \<Rightarrow> 's \<Rightarrow> 's option) \<Rightarrow> 's \<Rightarrow> 's option" where
  "for_each [] f s = Some s"
| "for_each (i # is) f s = (case f i s of None \<Rightarrow> None | Some s' \<Rightarrow> for_each is f s')"

lemma for_each_append:
  "for_each (is @ js) f s = (case for_each is f s of None \<Rightarrow> None | Some s' \<Rightarrow> for_each js f s')"
  by (induction "is" arbitrary: s) (auto split: option.splits)

lemma for_each_cong [fundef_cong]:
  "is = js \<Longrightarrow> s = t \<Longrightarrow> (\<And>i s. i \<in> set js \<Longrightarrow> f i s = g i s) \<Longrightarrow> for_each is f s = for_each js g t"
  by (induction js arbitrary: "is" s t) (auto split: option.splits)

text \<open>The invariant rules: total (the loop ends without an undefined access) and partial.\<close>

lemma for_range_total:
  assumes "P lo s" and "lo \<le> hi"
    and step: "\<And>i s. lo \<le> i \<Longrightarrow> i < hi \<Longrightarrow> P i s \<Longrightarrow> \<exists>s'. f i s = Some s' \<and> P (Suc i) s'"
  shows "\<exists>s'. for_each [lo..<hi] f s = Some s' \<and> P hi s'"
  using assms
proof (induction "hi - lo" arbitrary: lo s)
  case 0
  then show ?case by simp
next
  case (Suc n)
  then have lt: "lo < hi" by simp
  with Suc.prems obtain s1 where s1: "f lo s = Some s1" "P (Suc lo) s1" by blast
  have "\<exists>s'. for_each [Suc lo..<hi] f s1 = Some s' \<and> P hi s'"
    by (rule Suc.hyps(1)) (use Suc s1 lt in auto)
  with s1 lt show ?case by (simp add: upt_conv_Cons)
qed

lemma for_range_partial:
  assumes "for_each [lo..<hi] f s = Some s'" and "P lo s" and "lo \<le> hi"
    and step: "\<And>i s s'. lo \<le> i \<Longrightarrow> i < hi \<Longrightarrow> P i s \<Longrightarrow> f i s = Some s' \<Longrightarrow> P (Suc i) s'"
  shows "P hi s'"
  using assms
proof (induction "hi - lo" arbitrary: lo s)
  case 0
  then show ?case by simp
next
  case (Suc n)
  then have lt: "lo < hi" by simp
  with Suc.prems(1) obtain s1 where s1: "f lo s = Some s1" "for_each [Suc lo..<hi] f s1 = Some s'"
    by (auto simp: upt_conv_Cons split: option.splits)
  show ?case
    by (rule Suc.hyps(1) [OF _ s1(2)]) (use Suc s1 lt in auto)
qed

lemma for_each_total_inv:
  assumes "P s" and "\<And>i s. i \<in> set is \<Longrightarrow> P s \<Longrightarrow> \<exists>s'. f i s = Some s' \<and> P s'"
  shows "\<exists>s'. for_each is f s = Some s' \<and> P s'"
  using assms
proof (induction "is" arbitrary: s)
  case Nil
  then show ?case by simp
next
  case (Cons i "is")
  from Cons.prems(2) [of i s] Cons.prems(1) obtain s1 where "f i s = Some s1" "P s1" by auto
  with Cons show ?case by simp
qed

lemma for_each_fold:
  assumes "P s" and "\<And>i s. i \<in> set is \<Longrightarrow> P s \<Longrightarrow> f i s = Some (g i s) \<and> P (g i s)"
  shows "for_each is f s = Some (fold g is s) \<and> P (fold g is s)"
  using assms by (induction "is" arbitrary: s) auto

section \<open>Options\<close>

lemma bind_eq_Some: "Option.bind x f = Some v \<longleftrightarrow> (\<exists>y. x = Some y \<and> f y = Some v)"
  by (cases x) auto

section \<open>Words\<close>

lemma unat_u8_lt [simp]: "unat (x :: u8) < 256"
  using unsigned_less [of x] by simp

lemma unat_u8_le [simp]: "unat (x :: u8) \<le> 255"
  using unat_u8_lt [of x] by linarith

lemma unat_u16_lt: "unat (x :: u16) < 65536"
  using unsigned_less [of x] by simp

lemma unat_u32_lt: "unat (x :: u32) < 4294967296"
  using unsigned_less [of x] by simp

lemma unat_of_nat_u8 [simp]: "n < 256 \<Longrightarrow> unat (of_nat n :: u8) = n"
  by (simp add: unat_of_nat take_bit_eq_mod)

lemma unat_of_nat_u16 [simp]: "n < 65536 \<Longrightarrow> unat (of_nat n :: u16) = n"
  by (simp add: unat_of_nat take_bit_eq_mod)

lemma unat_of_nat_u32 [simp]: "n < 4294967296 \<Longrightarrow> unat (of_nat n :: u32) = n"
  by (simp add: unat_of_nat take_bit_eq_mod)

lemma unat_eq_0_u8 [simp]: "unat (x :: u8) = 0 \<longleftrightarrow> x = 0"
  by (simp add: unat_eq_zero)

lemma of_nat_unat_u8 [simp]: "of_nat (unat (x :: u8)) = x"
  by simp

lemma unat_ucast_u8_u16 [simp]: "unat (ucast (x :: u8) :: u16) = unat x"
proof -
  have "unat x < 65536" using unat_u8_lt [of x] by linarith
  then show ?thesis by (simp add: unsigned_ucast_eq take_bit_eq_mod)
qed

lemma unat_ucast_u16_u8: "unat (ucast (x :: u16) :: u8) = unat x mod 256"
  by (simp add: unsigned_ucast_eq take_bit_eq_mod)

lemma ucast_u8_u16_u8 [simp]: "ucast (ucast (x :: u8) :: u16) = x"
  by (rule bit_word_eqI) (auto simp: bit_simps)

lemma xor_if_distrib:
  "(if p \<noteq> q then (a XOR b) XOR m else a XOR b) =
   (if p then a XOR m else a) XOR (if q then b XOR m else (b :: 'a :: len word))"
  by (rule bit_word_eqI) (auto simp: bit_simps)

end
