(* ===== verification/GaloisField.thy ===== *)
theory GaloisField
  imports Prelude
begin

text \<open>
  The arithmetic of GF(2^8) that Reed-Solomon uses
  (libcorrect, include/correct/reed-solomon/field.h).

  The code keeps two tables, \<open>exp\<close> with 512 entries and \<open>log\<close> with 256, built by
  \<open>field_create\<close> in memory that \<open>malloc\<close> returned, and every operation looks up
  in them. \<open>field_t\<close> is the pair of tables, each operation is a definition with checked
  lookups (\<open>None\<close> is a read outside a table). The specification is \<open>gmul\<close>: carry-less
  multiplication of the bits reduced by the primitive polynomial, with no table. The type
  \<open>gf256\<close> wraps a byte; it is made a field, so that sums, powers and the laws of the
  library apply to it, and the lookups are shown to compute its operations.
\<close>

unbundle bit_operations_syntax

section \<open>The code\<close>

record field_t =
  fexp :: "u8 list"
  flog :: "u8 list"

definition field_create_step :: "u16 \<Rightarrow> nat \<Rightarrow> u16 \<times> u8 list \<times> u8 list \<Rightarrow> (u16 \<times> u8 list \<times> u8 list) option" where
  "field_create_step primitive_poly i = (\<lambda>(element, exp, log). do {
     let element = element * 2;
     let element = (if element > 255 then element XOR primitive_poly else element);
     exp \<leftarrow> wr exp i (ucast element);
     log \<leftarrow> (if i < 256 then wr log (unat element) (of_nat i) else Some log);
     Some (element, exp, log)
   })"

definition field_create :: "(nat \<Rightarrow> u8) \<Rightarrow> (nat \<Rightarrow> u8) \<Rightarrow> u16 \<Rightarrow> field_t option" where
  "field_create junk_exp junk_log primitive_poly = do {
     let exp = malloc junk_exp 512;
     let log = malloc junk_log 256;
     let element = (1 :: u16);
     exp \<leftarrow> wr exp 0 (ucast element);
     log \<leftarrow> wr log 0 0;
     (element, exp, log) \<leftarrow> for_each [1..<512] (field_create_step primitive_poly) (element, exp, log);
     Some \<lparr>fexp = exp, flog = log\<rparr>
   }"

definition field_add :: "field_t \<Rightarrow> u8 \<Rightarrow> u8 \<Rightarrow> u8" where
  "field_add field l r = l XOR r"

definition field_sub :: "field_t \<Rightarrow> u8 \<Rightarrow> u8 \<Rightarrow> u8" where
  "field_sub field l r = l XOR r"

definition field_sum :: "field_t \<Rightarrow> u8 \<Rightarrow> u32 \<Rightarrow> u8" where
  "field_sum field elem n = (if n mod 2 \<noteq> 0 then elem else 0)"

definition field_mul_log_element :: "field_t \<Rightarrow> u8 \<Rightarrow> u8 \<Rightarrow> u8 option" where
  "field_mul_log_element field l r = (
     let res = (ucast l :: u16) + ucast r
     in rd (fexp field) (unat res))"

definition field_mul :: "field_t \<Rightarrow> u8 \<Rightarrow> u8 \<Rightarrow> u8 option" where
  "field_mul field l r =
    (if l = 0 \<or> r = 0 then Some 0
     else do {
       ll \<leftarrow> rd (flog field) (unat l);
       lr \<leftarrow> rd (flog field) (unat r);
       let res = (ucast ll :: u16) + ucast lr;
       rd (fexp field) (unat res)
     })"

definition field_div :: "field_t \<Rightarrow> u8 \<Rightarrow> u8 \<Rightarrow> u8 option" where
  "field_div field l r =
    (if l = 0 then Some 0
     else if r = 0 then Some 0
     else do {
       ll \<leftarrow> rd (flog field) (unat l);
       lr \<leftarrow> rd (flog field) (unat r);
       let res = (255 :: u16) + ucast ll - ucast lr;
       rd (fexp field) (unat res)
     })"

definition field_mul_log :: "field_t \<Rightarrow> u8 \<Rightarrow> u8 \<Rightarrow> u8" where
  "field_mul_log field l r = (
     let res = (ucast l :: u16) + ucast r
     in if res > 255 then ucast (res - 255) else ucast res)"

definition field_div_log :: "field_t \<Rightarrow> u8 \<Rightarrow> u8 \<Rightarrow> u8" where
  "field_div_log field l r = (
     let res = (255 :: u16) + ucast l - ucast r
     in if res > 255 then ucast (res - 255) else ucast res)"

text \<open>\<open>int\<close> arithmetic: the product of a logarithm and the exponent is taken as an integer
  (the overflow of \<open>int\<close>, undefined in C, is \<open>None\<close>), and \<open>%\<close> truncates towards zero.\<close>

definition c_int :: "int \<Rightarrow> int option" where
  "c_int z = (if - 2147483648 \<le> z \<and> z \<le> 2147483647 then Some z else None)"

definition c_rem :: "int \<Rightarrow> int \<Rightarrow> int" where
  "c_rem a b = sgn a * (\<bar>a\<bar> mod \<bar>b\<bar>)"

definition field_pow :: "field_t \<Rightarrow> u8 \<Rightarrow> int \<Rightarrow> u8 option" where
  "field_pow field elem p = do {
     log \<leftarrow> rd (flog field) (unat elem);
     res_log \<leftarrow> c_int (uint log * p);
     let m = c_rem res_log 255;
     let m = (if m < 0 then m + 255 else m);
     rd (fexp field) (nat m)
   }"

text \<open>The primitive polynomial the receiver's decoder and encoder use
  (\<open>correct_rs_primitive_polynomial_8_7_2_1_0\<close>, correct.h).\<close>

definition rs_primitive_polynomial :: u16 where
  "rs_primitive_polynomial = 0x187"

section \<open>The specification: multiplication without tables\<close>

definition xt :: "u8 \<Rightarrow> u8" where
  "xt a = (if bit a 7 then push_bit 1 a XOR 0x87 else push_bit 1 a)"

definition gmul :: "u8 \<Rightarrow> u8 \<Rightarrow> u8" where
  "gmul a b = fold (\<lambda>i acc. if bit b i then acc XOR (xt ^^ i) a else acc) [0..<8] 0"

definition alpha :: "nat \<Rightarrow> u8" where
  "alpha i = (xt ^^ i) 1"

lemma xt_0 [simp]: "xt 0 = 0"
  by (simp add: xt_def)

lemma xt_xor: "xt (a XOR b) = xt a XOR xt b"
  by (rule bit_word_eqI) (auto simp: xt_def bit_simps)

lemma xtn_xor: "(xt ^^ n) (a XOR b) = (xt ^^ n) a XOR (xt ^^ n) b"
  by (induction n) (simp_all add: xt_xor)

lemma xtn_0 [simp]: "(xt ^^ n) 0 = 0"
  by (induction n) simp_all

text \<open>A linear statement about bytes has to be checked on the eight unit bytes only.\<close>

lemma take_bit_Suc_word:
  "take_bit (Suc n) (x :: u8) = take_bit n x XOR (if bit x n then push_bit n 1 else 0)"
  by (rule bit_word_eqI) (auto simp: bit_simps less_Suc_eq)

lemma byte_linear_induct:
  assumes "P 0" and "\<And>a b. P a \<Longrightarrow> P b \<Longrightarrow> P (a XOR b)" and "\<And>i. i < 8 \<Longrightarrow> P (push_bit i 1)"
  shows "P (x :: u8)"
proof -
  have "n \<le> 8 \<Longrightarrow> P (take_bit n x)" for n
  proof (induction n)
    case (Suc n)
    then show ?case using assms by (simp add: take_bit_Suc_word)
  qed (simp add: assms)
  from this [of 8] show ?thesis by (simp add: take_bit_word_eq_self)
qed

lemma less_8_cases: "i < (8::nat) \<Longrightarrow> i = 0 \<or> i = 1 \<or> i = 2 \<or> i = 3 \<or> i = 4 \<or> i = 5 \<or> i = 6 \<or> i = 7"
  by linarith

lemma xt8: "(xt ^^ 8) a = a XOR xt a XOR (xt ^^ 2) a XOR (xt ^^ 7) a"
proof (induction a rule: byte_linear_induct)
  case (2 a b)
  then show ?case by (simp add: xtn_xor xt_xor ac_simps)
next
  case (3 i)
  have "\<forall>i\<in>set [0..<8]. (xt ^^ 8) (push_bit i 1) =
    push_bit i 1 XOR xt (push_bit i 1) XOR (xt ^^ 2) (push_bit i 1) XOR (xt ^^ 7) (push_bit i 1)"
    by code_simp
  with 3 show ?case by simp
qed simp

lemma gmul_fold_xor:
  "fold (\<lambda>i acc. if bit (b XOR c) i then acc XOR f i else acc) is (u XOR v) =
   fold (\<lambda>i acc. if bit b i then acc XOR f i else acc) is u XOR
   fold (\<lambda>i acc. if bit c i then acc XOR f i else acc) is (v :: u8)"
proof (induction "is" arbitrary: u v)
  case (Cons i "is")
  have "(if bit (b XOR c) i then (u XOR v) XOR f i else u XOR v) =
    (if bit b i then u XOR f i else u) XOR (if bit c i then v XOR f i else v)"
    by (rule bit_word_eqI) (auto simp: bit_simps)
  then show ?case
    using Cons [of "if bit b i then u XOR f i else u" "if bit c i then v XOR f i else v"]
    by simp
qed simp

lemma gmul_xor_right: "gmul a (b XOR c) = gmul a b XOR gmul a c"
  unfolding gmul_def using gmul_fold_xor [of b c "\<lambda>i. (xt ^^ i) a" "[0..<8]" 0 0] by simp

lemma fold_ignore: "fold (\<lambda>i acc. acc) is s = s"
  by (induction "is") simp_all

lemma gmul_0_right [simp]: "gmul a 0 = 0"
  by (simp add: gmul_def fold_ignore)

lemma gmul_0_left [simp]: "gmul 0 b = 0"
proof -
  have "fold (\<lambda>i acc. if bit b i then acc XOR (xt ^^ i) 0 else acc) is 0 = 0" for "is"
  proof (induction "is")
    case (Cons i "is")
    have "(if bit b i then 0 XOR (xt ^^ i) 0 else 0) = 0" by simp
    with Cons show ?case by (simp only: fold_Cons o_apply)
  qed (simp only: fold_Nil id_apply)
  then show ?thesis unfolding gmul_def .
qed

lemma gmul_unit: "i < 8 \<Longrightarrow> gmul a (push_bit i 1) = (xt ^^ i) a"
  by (drule less_8_cases) (auto simp: gmul_def bit_simps upt_rec numeral_eq_Suc)

lemma gmul_xt_right: "gmul a (xt b) = xt (gmul a b)"
proof (induction b rule: byte_linear_induct)
  case (2 b c)
  then show ?case by (simp add: xt_xor gmul_xor_right)
next
  case (3 i)
  show ?case
  proof (cases "i = 7")
    case True
    have "xt (push_bit 7 1) = push_bit 0 1 XOR push_bit 1 1 XOR push_bit 2 1 XOR push_bit 7 1"
      by code_simp
    then show ?thesis
      using xt8 [of a] gmul_unit [of 0 a] gmul_unit [of 1 a] gmul_unit [of 2 a] gmul_unit [of 7 a]
      by (simp only: True gmul_xor_right) (simp add: eval_nat_numeral ac_simps)
  next
    case False
    with 3 have "i < 7" by simp
    then have "xt (push_bit i 1) = push_bit (Suc i) 1"
      by (simp add: xt_def bit_simps)
    then have "gmul a (xt (push_bit i 1)) = gmul a (push_bit (Suc i) 1)" by (simp only:)
    also have "\<dots> = xt (gmul a (push_bit i 1))"
      using \<open>i < 7\<close> gmul_unit [of "Suc i" a] gmul_unit [of i a] by (simp only: funpow.simps o_apply)
    finally show ?thesis .
  qed
qed simp

lemma gmul_1_right [simp]: "gmul a 1 = a"
  using gmul_unit [of 0 a] by simp

lemma gmul_xtn_right: "gmul a ((xt ^^ n) b) = (xt ^^ n) (gmul a b)"
  by (induction n) (simp_all add: gmul_xt_right)

lemma gmul_alpha: "gmul a (alpha n) = (xt ^^ n) a"
  by (simp add: alpha_def gmul_xtn_right)

section \<open>The powers of alpha\<close>

lemma alpha_0 [simp]: "alpha 0 = 1"
  by (simp add: alpha_def)

lemma alpha_Suc: "alpha (Suc n) = xt (alpha n)"
  by (simp add: alpha_def)

lemma alpha_add: "alpha (m + n) = (xt ^^ m) (alpha n)"
  by (simp add: alpha_def funpow_add)

lemma alpha_mult: "gmul (alpha m) (alpha n) = alpha (m + n)"
  by (simp add: gmul_alpha alpha_add [symmetric] add.commute)

lemma alpha_sum:
  "alpha m = a \<Longrightarrow> alpha n = b \<Longrightarrow> k = m + n \<Longrightarrow> gmul a b = c \<Longrightarrow> alpha k = c"
  using alpha_mult [of m n] by simp

lemma alpha_chain:
  shows "alpha 1 = 2" and "alpha 2 = 4" and "alpha 3 = 8" and "alpha 4 = 16" and "alpha 5 = 32" and "alpha 6 = 64" and "alpha 7 = 128" and "alpha 8 = 135" and "alpha 10 = 149" and "alpha 12 = 221" and "alpha 15 = 244" and "alpha 20 = 236" and "alpha 24 = 113" and "alpha 30 = 165" and "alpha 40 = 98" and "alpha 48 = 206" and "alpha 51 = 108" and "alpha 60 = 254" and "alpha 80 = 76" and "alpha 85 = 170" and "alpha 120 = 225" and "alpha 240 = 51" and "alpha 255 = 1"
proof -
  note ev = gmul_def xt_def upt_rec
  show a1: "alpha 1 = 2" by (simp add: alpha_def xt_def)
  show a2: "alpha 2 = 4" by (rule alpha_sum [OF a1 a1]) (simp_all add: ev)
  show a3: "alpha 3 = 8" by (rule alpha_sum [OF a1 a2]) (simp_all add: ev)
  show a4: "alpha 4 = 16" by (rule alpha_sum [OF a2 a2]) (simp_all add: ev)
  show a5: "alpha 5 = 32" by (rule alpha_sum [OF a1 a4]) (simp_all add: ev)
  show a6: "alpha 6 = 64" by (rule alpha_sum [OF a3 a3]) (simp_all add: ev)
  show a7: "alpha 7 = 128" by (rule alpha_sum [OF a1 a6]) (simp_all add: ev)
  show a8: "alpha 8 = 135" by (rule alpha_sum [OF a4 a4]) (simp_all add: ev)
  show a10: "alpha 10 = 149" by (rule alpha_sum [OF a5 a5]) (simp_all add: ev)
  show a12: "alpha 12 = 221" by (rule alpha_sum [OF a6 a6]) (simp_all add: ev)
  show a15: "alpha 15 = 244" by (rule alpha_sum [OF a7 a8]) (simp_all add: ev)
  show a20: "alpha 20 = 236" by (rule alpha_sum [OF a10 a10]) (simp_all add: ev)
  show a24: "alpha 24 = 113" by (rule alpha_sum [OF a12 a12]) (simp_all add: ev)
  show a30: "alpha 30 = 165" by (rule alpha_sum [OF a15 a15]) (simp_all add: ev)
  show a40: "alpha 40 = 98" by (rule alpha_sum [OF a20 a20]) (simp_all add: ev)
  show a48: "alpha 48 = 206" by (rule alpha_sum [OF a24 a24]) (simp_all add: ev)
  show a51: "alpha 51 = 108" by (rule alpha_sum [OF a3 a48]) (simp_all add: ev)
  show a60: "alpha 60 = 254" by (rule alpha_sum [OF a30 a30]) (simp_all add: ev)
  show a80: "alpha 80 = 76" by (rule alpha_sum [OF a40 a40]) (simp_all add: ev)
  show a85: "alpha 85 = 170" by (rule alpha_sum [OF a5 a80]) (simp_all add: ev)
  show a120: "alpha 120 = 225" by (rule alpha_sum [OF a60 a60]) (simp_all add: ev)
  show a240: "alpha 240 = 51" by (rule alpha_sum [OF a120 a120]) (simp_all add: ev)
  show a255: "alpha 255 = 1" by (rule alpha_sum [OF a15 a240]) (simp_all add: ev)
qed

lemma alpha_255 [simp]: "alpha 255 = 1"
  by (rule alpha_chain)

lemma alpha_mod: "alpha n = alpha (n mod 255)"
proof -
  have p: "alpha (255 * k) = 1" for k
  proof (induction k)
    case (Suc k)
    have "alpha (255 * Suc k) = gmul (alpha 255) (alpha (255 * k))"
      using alpha_mult [of 255 "255 * k"] by (simp add: algebra_simps)
    with Suc show ?case by simp
  qed simp
  have "alpha n = gmul (alpha (n mod 255)) (alpha (255 * (n div 255)))"
    by (simp only: alpha_mult) (simp add: add.commute)
  with p show ?thesis by simp
qed

lemma alpha_period: "alpha (n + 255) = alpha n"
  using alpha_mod [of n] alpha_mod [of "n + 255"] by simp

lemma xtn_inj: "inj (xt ^^ n)"
proof -
  have "xt a = xt b \<Longrightarrow> a = b" for a b
  proof -
    assume eq: "xt a = xt b"
    have "(xt ^^ 254) (xt a) = a" for a
    proof -
      have "1 = xt (alpha 254)" using alpha_Suc [of 254] by simp
      then have "gmul a 1 = gmul a (xt (alpha 254))" by (rule arg_cong)
      then have "gmul a 1 = xt ((xt ^^ 254) a)" by (simp only: gmul_xt_right gmul_alpha)
      then show ?thesis by (simp only: funpow_swap1 gmul_1_right)
    qed
    with eq show ?thesis by metis
  qed
  then have "inj xt" by (auto intro: injI)
  then show ?thesis by (induction n) (auto intro: inj_compose simp: id_def)
qed

text \<open>The order of \<open>alpha\<close> divides 255 and none of 85, 51, 15: it is 255.\<close>

lemma alpha_order:
  assumes "0 < d" "alpha d = 1"
  shows "255 dvd d"
proof -
  define g where "g = gcd d 255"
  have mul: "alpha (d * k) = 1" for k
  proof (induction k)
    case (Suc k)
    then show ?case using alpha_mult [of d "d * k"] assms(2) by simp
  qed simp
  obtain x y where xy: "d * x = 255 * y + gcd d 255"
    using bezout_nat [of d 255] assms(1) by (metis less_numeral_extra(3))
  have "alpha (255 * y + g) = alpha g"
    using alpha_mod [of "255 * y + g"] alpha_mod [of g] by simp
  with mul [of x] xy have one: "alpha g = 1" by (simp add: g_def)
  have onek: "alpha (g * k) = 1" for k
  proof (induction k)
    case (Suc k)
    then show ?case using alpha_mult [of g "g * k"] one by simp
  qed simp
  have "g dvd 255" by (simp add: g_def)
  moreover have "\<not> g dvd 85" "\<not> g dvd 51" "\<not> g dvd 15"
    using onek alpha_chain by (auto elim!: dvdE)
  moreover have "g \<in> {1, 3, 5, 15, 17, 51, 85, 255}"
  proof -
    have "g \<le> 255" using \<open>g dvd 255\<close> by (simp add: dvd_imp_le)
    then have "g \<in> set [0..<256]" by simp
    moreover have "\<forall>n\<in>set [0..<256]. n dvd 255 \<longrightarrow> n \<in> {1, 3, 5, 15, 17, 51, 85, 255}" by code_simp
    ultimately show ?thesis using \<open>g dvd 255\<close> by blast
  qed
  ultimately have "g = 255" by auto
  then show ?thesis by (metis gcd_dvd1 g_def)
qed


lemma alpha_eq_iff: "alpha i = alpha j \<longleftrightarrow> i mod 255 = j mod 255"
proof
  show "i mod 255 = j mod 255 \<Longrightarrow> alpha i = alpha j"
    using alpha_mod [of i] alpha_mod [of j] by simp
  have *: "i mod 255 = j mod 255" if "i \<le> j" "alpha i = alpha j" for i j
  proof (cases "i = j")
    case False
    with that have "0 < j - i" by simp
    moreover have "alpha (j - i) = 1"
    proof -
      have "(xt ^^ i) (alpha (j - i)) = (xt ^^ i) 1"
        using that alpha_add [of i "j - i"] by (simp add: alpha_def)
      then show ?thesis by (rule injD [OF xtn_inj])
    qed
    ultimately have "255 dvd j - i" by (rule alpha_order)
    with that(1) mod_eq_dvd_iff_nat [of i j 255] show ?thesis by simp
  qed simp
  assume "alpha i = alpha j"
  with * [of i j] * [of j i] nat_le_linear [of i j] show "i mod 255 = j mod 255" by metis
qed

lemma alpha_inj:
  assumes "1 \<le> i" "1 \<le> j" "unat (alpha i) = unat (alpha j)" "i \<le> 255" "j \<le> 255"
  shows "i = j"
proof -
  from assms(3) have "alpha i = alpha j" by (metis of_nat_unat_u8)
  then have "i mod 255 = j mod 255" by (simp only: alpha_eq_iff)
  with assms show ?thesis by (cases "i = 255"; cases "j = 255") auto
qed

lemma alpha_nonzero [simp]: "alpha n \<noteq> 0"
proof
  assume "alpha n = 0"
  then have "(xt ^^ n) 1 = (xt ^^ n) 0" by (simp add: alpha_def)
  then show False using injD [OF xtn_inj] by fastforce
qed

text \<open>So the 255 powers are all the non-zero bytes.\<close>

lemma alpha_surj:
  assumes "x \<noteq> 0"
  obtains i where "1 \<le> i" "i \<le> 255" "alpha i = x"
proof -
  have inj: "inj_on alpha {1..255}"
  proof (rule inj_onI)
    fix i j assume "i \<in> {1..255::nat}" "j \<in> {1..255}" "alpha i = alpha j"
    then show "i = j" using alpha_inj [of i j] by simp
  qed
  have "card (UNIV :: u8 set) = 256" by (simp add: card_word)
  then have "card (UNIV - {0 :: u8}) = 255" by (simp add: card_Diff_singleton)
  moreover have "card (alpha ` {1..255}) = 255" using card_image [OF inj] by simp
  moreover have "alpha ` {1..255} \<subseteq> UNIV - {0}" by auto
  ultimately have "alpha ` {1..255} = UNIV - {0}"
    by (metis card_subset_eq finite)
  with assms have "x \<in> alpha ` {1..255}" by simp
  with that show ?thesis by auto
qed

section \<open>The multiplication is a commutative ring without zero divisors\<close>

lemma gmul_comm: "gmul a b = gmul b a"
proof (cases "a = 0 \<or> b = 0")
  case False
  then obtain i j where "a = alpha i" "b = alpha j" using alpha_surj by metis
  then show ?thesis by (simp add: alpha_mult add.commute)
qed auto

lemma gmul_xor_left: "gmul (a XOR b) c = gmul a c XOR gmul b c"
  by (simp add: gmul_comm [of _ c] gmul_xor_right)

lemma gmul_assoc: "gmul (gmul a b) c = gmul a (gmul b c)"
proof (cases "a = 0 \<or> b = 0 \<or> c = 0")
  case False
  then obtain i j k where "a = alpha i" "b = alpha j" "c = alpha k" using alpha_surj by metis
  then show ?thesis by (simp add: alpha_mult add.assoc)
qed auto

lemma gmul_1_left [simp]: "gmul 1 a = a"
  by (simp add: gmul_comm [of 1])

lemma gmul_eq_0 [simp]: "gmul a b = 0 \<longleftrightarrow> a = 0 \<or> b = 0"
proof (cases "a = 0 \<or> b = 0")
  case False
  then obtain i j where "a = alpha i" "b = alpha j" using alpha_surj by metis
  then show ?thesis by (simp add: alpha_mult)
qed auto


section \<open>The field of bytes\<close>

datatype gf256 = GF (ungf: u8)

instantiation gf256 :: comm_ring_1
begin

definition zero_gf256 :: gf256 where "zero_gf256 = GF 0"

definition one_gf256 :: gf256 where "one_gf256 = GF 1"

definition plus_gf256 :: "gf256 \<Rightarrow> gf256 \<Rightarrow> gf256" where
  "plus_gf256 x y = GF (ungf x XOR ungf y)"

definition minus_gf256 :: "gf256 \<Rightarrow> gf256 \<Rightarrow> gf256" where
  "minus_gf256 x y = GF (ungf x XOR ungf y)"

definition uminus_gf256 :: "gf256 \<Rightarrow> gf256" where
  "uminus_gf256 x = x"

definition times_gf256 :: "gf256 \<Rightarrow> gf256 \<Rightarrow> gf256" where
  "times_gf256 x y = GF (gmul (ungf x) (ungf y))"

instance
  by standard
    (auto simp: zero_gf256_def one_gf256_def plus_gf256_def minus_gf256_def uminus_gf256_def
      times_gf256_def gmul_assoc gmul_xor_left gmul_xor_right xor.assoc xor.commute xor.left_commute
      intro: gf256.expand gmul_comm)

end

lemmas gf256_defs =
  zero_gf256_def one_gf256_def plus_gf256_def minus_gf256_def uminus_gf256_def times_gf256_def

lemma GF_0 [simp]: "GF a = 0 \<longleftrightarrow> a = 0"
  by (simp add: zero_gf256_def)

lemma ungf_0 [simp]: "ungf 0 = 0"
  by (simp add: zero_gf256_def)

lemma ungf_1 [simp]: "ungf 1 = 1"
  by (simp add: one_gf256_def)

lemma GF_00 [simp]: "GF 0 = 0"
  by (simp add: zero_gf256_def)

lemma GF_eq_1 [simp]: "GF a = 1 \<longleftrightarrow> a = 1"
  by (simp add: one_gf256_def)

lemma GF_1 [simp]: "GF 1 = 1"
  by (simp add: one_gf256_def)

lemma GF_xor: "GF (a XOR b) = GF a + GF b"
  by (simp add: plus_gf256_def)

lemma GF_gmul: "GF (gmul a b) = GF a * GF b"
  by (simp add: times_gf256_def)

lemma gf_add_self [simp]: "(x :: gf256) + x = 0"
  by (simp add: plus_gf256_def)

lemma gf_minus_plus: "(x :: gf256) - y = x + y"
  by (simp add: plus_gf256_def minus_gf256_def)

lemma gf_uminus [simp]: "- (x :: gf256) = x"
  by (simp add: uminus_gf256_def)

instantiation gf256 :: field
begin

definition inverse_gf256 :: "gf256 \<Rightarrow> gf256" where
  "inverse_gf256 x = (if x = 0 then 0 else x ^ 254)"

definition divide_gf256 :: "gf256 \<Rightarrow> gf256 \<Rightarrow> gf256" where
  "divide_gf256 x y = x * inverse y"

lemma GF_alpha: "GF (alpha n) = GF 2 ^ n"
proof (induction n)
  case (Suc n)
  have "alpha (Suc n) = gmul 2 (alpha n)"
    using alpha_mult [of 1 n] alpha_chain(1) by simp
  with Suc show ?case by (simp add: GF_gmul)
qed simp

lemma gf_pow_255:
  assumes "x \<noteq> 0"
  shows "x ^ 255 = (1 :: gf256)"
proof -
  obtain b where x: "x = GF b" by (cases x)
  with assms have "b \<noteq> 0" by simp
  then obtain i where "alpha i = b" by (rule alpha_surj)
  with x have "x ^ 255 = GF (alpha (i * 255))"
    by (simp only: GF_alpha power_mult) (simp add: GF_alpha [symmetric])
  also have "\<dots> = 1" using alpha_mod [of "i * 255"] by simp
  finally show ?thesis .
qed

instance
proof
  fix x y :: gf256
  show "x \<noteq> 0 \<Longrightarrow> inverse x * x = 1"
    using gf_pow_255 [of x] power_Suc2 [of x 254] by (simp add: inverse_gf256_def)
  show "x div y = x * inverse y" by (simp add: divide_gf256_def)
  show "inverse (0 :: gf256) = 0" by (simp add: inverse_gf256_def)
qed

end


section \<open>The tables\<close>

text \<open>\<open>gf\<close> is the field \<open>field_create\<close> builds, whatever the memory held before.\<close>

definition gf :: field_t where
  "gf = \<lparr>fexp = map alpha [0..<512],
         flog = map (\<lambda>x. if x = 0 then 0 else of_nat (LEAST i. 1 \<le> i \<and> alpha i = of_nat x)) [0..<256]\<rparr>"

definition lg :: "u8 \<Rightarrow> u8" where
  "lg x = flog gf ! unat x"

lemma length_gf [simp, len_simps]: "length (fexp gf) = 512" "length (flog gf) = 256"
  by (simp_all add: gf_def)

lemma fexp_gf [simp, mem_simps]: "n < 512 \<Longrightarrow> fexp gf ! n = alpha n"
  by (simp add: gf_def)

lemma lg_0 [simp]: "lg 0 = 0"
  by (simp add: lg_def gf_def)

lemma lg_alpha:
  assumes "1 \<le> i" "i \<le> 255"
  shows "lg (alpha i) = of_nat i"
proof -
  have "(LEAST j. 1 \<le> j \<and> alpha j = alpha i) = i"
  proof (rule Least_equality)
    fix j assume j: "1 \<le> j \<and> alpha j = alpha i"
    show "i \<le> j"
    proof (rule ccontr)
      assume "\<not> i \<le> j"
      with j assms have "j mod 255 = j" "i mod 255 = (if i = 255 then 0 else i)" by auto
      with j \<open>\<not> i \<le> j\<close> show False by (auto simp: alpha_eq_iff split: if_splits)
    qed
  qed (use assms in simp)
  then show ?thesis by (simp add: lg_def gf_def)
qed

lemma lg_props:
  assumes "x \<noteq> 0"
  shows "1 \<le> unat (lg x)" "alpha (unat (lg x)) = x" "lg x \<noteq> 0"
proof -
  obtain i where i: "1 \<le> i" "i \<le> 255" "alpha i = x" by (rule alpha_surj [OF assms])
  then have l: "lg x = of_nat i" using lg_alpha by blast
  with i have "unat (lg x) = i" by simp
  with i show "1 \<le> unat (lg x)" "alpha (unat (lg x)) = x" by simp_all
  with i l show "lg x \<noteq> 0" by (metis not_one_le_zero unat_eq_0_u8)
qed

lemma rd_flog [simp, mem_simps]: "rd (flog gf) (unat x) = Some (lg (x :: u8))"
  by (simp add: lg_def)

lemma rd_fexp: "n < 512 \<Longrightarrow> rd (fexp gf) n = Some (alpha n)"
  by simp

lemma bit7_iff: "bit (a :: u8) 7 \<longleftrightarrow> 128 \<le> unat a"
proof -
  have "bit a 7 \<longleftrightarrow> odd (unat a div 128)"
    using bit_unsigned_iff [where 'a = nat and w = a and n = 7] by (simp add: bit_iff_odd [of "unat a"])
  also have "\<dots> \<longleftrightarrow> 128 \<le> unat a"
  proof -
    have "unat a div 128 < 2" using unat_u8_lt [of a] by (simp add: less_mult_imp_div_less)
    then have "unat a div 128 = 0 \<or> unat a div 128 = 1" by linarith
    then show ?thesis by (auto simp: div_eq_0_iff)
  qed
  finally show ?thesis .
qed

lemma ucast_xt:
  "(if bit a 7 then push_bit 1 (ucast a) XOR 0x187 else push_bit 1 (ucast a)) = (ucast (xt a) :: u16)"
proof (induction a rule: byte_linear_induct)
  case (2 a b)
  then show ?case
    by (simp only: xt_xor unsigned_xor_eq push_bit_xor bit_xor_iff xor_if_distrib)
next
  case (3 i)
  have "\<forall>i\<in>set [0..<8]. (let a = push_bit i 1 in
      (if bit a 7 then push_bit 1 (ucast a) XOR 0x187 else push_bit 1 (ucast a)) = (ucast (xt a) :: u16))"
    by code_simp
  with 3 show ?case by (simp only: Let_def) simp
qed simp

lemma field_create_element:
  "(if ucast a * 2 > (255 :: u16) then ucast a * 2 XOR 0x187 else ucast a * 2) = (ucast (xt a) :: u16)"
proof -
  have "unat a * 2 < 65536" using unat_u8_lt [of a] by linarith
  then have u: "unat (ucast a * 2 :: u16) = unat a * 2"
    by (simp add: unat_word_ariths)
  then have c: "ucast a * 2 > (255 :: u16) \<longleftrightarrow> bit a 7"
    by (auto simp: bit7_iff word_less_nat_alt)
  have m: "ucast a * 2 = (push_bit 1 (ucast a) :: u16)"
    by (simp add: push_bit_eq_mult)
  show ?thesis
    unfolding c unfolding m by (rule ucast_xt)
qed


text \<open>The tables do not depend on what the memory held, because every entry is written:
  \<open>log\<close> has an entry for each power up to 255, which is the entry of the byte 1.\<close>

lemma field_create_gf:
  "field_create junk_exp junk_log rs_primitive_polynomial = Some gf"
proof -
  define I where "I = (\<lambda>i (e :: u16, exp, log). e = ucast (alpha (i - 1)) \<and> length exp = 512 \<and>
    length log = 256 \<and> (\<forall>k<i. exp ! k = alpha k) \<and> log ! 0 = (0 :: u8) \<and>
    (\<forall>k. 1 \<le> k \<and> k < i \<and> k \<le> 255 \<longrightarrow> log ! unat (alpha k) = of_nat k))"
  define exp where "exp = (malloc junk_exp 512)[0 := ucast (1 :: u16)]"
  define log where "log = (malloc junk_log 256)[0 := 0]"
  have init: "I 1 (1, exp, log)" by (auto simp: I_def exp_def log_def)
  have "\<exists>s'. for_each [1..<512] (field_create_step rs_primitive_polynomial) (1, exp, log) = Some s' \<and> I 512 s'"
  proof (rule for_range_total [where P = I, OF init])
    fix i s assume i: "(1::nat) \<le> i" "i < 512" and "I i s"
    then obtain exp log where s: "s = (ucast (alpha (i - 1)), exp, log)"
      and inv: "I i (ucast (alpha (i - 1)), exp, log)"
      by (cases s) (auto simp: I_def)
    have el: "(let e = ucast (alpha (i - 1)) * 2 in if 255 < e then e XOR rs_primitive_polynomial else e)
      = (ucast (alpha i) :: u16)"
      using field_create_element [of "alpha (i - 1)"] alpha_Suc [of "i - 1"] i
      by (simp only: rs_primitive_polynomial_def Let_def) simp
    have len: "length exp = 512" "length log = 256" using inv by (simp_all add: I_def)
    have "field_create_step rs_primitive_polynomial i s =
      Some (ucast (alpha i), exp[i := alpha i],
        if i < 256 then log[unat (alpha i) := of_nat i] else log)"
      using el i len by (simp add: s field_create_step_def Let_def)
    moreover have "I (Suc i) (ucast (alpha i), exp[i := alpha i],
        if i < 256 then log[unat (alpha i) := of_nat i] else log)"
      using inv i by (auto simp: I_def nth_list_update less_Suc_eq dest: alpha_inj [rotated 2])
    ultimately show "\<exists>s'. field_create_step rs_primitive_polynomial i s = Some s' \<and> I (Suc i) s'"
      by blast
  qed simp
  then obtain e exp' log' where r: "for_each [1..<512] (field_create_step rs_primitive_polynomial)
      (1, exp, log) = Some (e, exp', log')" "I 512 (e, exp', log')"
    by (metis prod_cases3)
  have "exp' = fexp gf"
    using r(2) by (auto simp: I_def intro: nth_equalityI)
  moreover have "log' = flog gf"
  proof (rule nth_equalityI)
    show "length log' = length (flog gf)" using r(2) by (simp add: I_def)
    fix x assume "x < length log'"
    then have x: "x < 256" using r(2) by (simp add: I_def)
    show "log' ! x = flog gf ! x"
    proof (cases "x = 0")
      case True
      then show ?thesis using r(2) lg_0 by (simp add: I_def lg_def)
    next
      case False
      then have "(of_nat x :: u8) \<noteq> 0" using unat_of_nat_u8 [OF x] by (metis unat_eq_0_u8)
      then obtain k where k: "1 \<le> k" "k \<le> 255" "alpha k = of_nat x" by (rule alpha_surj)
      then have "log' ! x = of_nat k"
        using r(2) x unat_of_nat_u8 [OF x] by (auto simp: I_def dest!: spec [of _ k])
      also have "\<dots> = flog gf ! x"
        using lg_alpha [OF k(1,2)] k(3) x by (simp add: lg_def)
      finally show ?thesis .
    qed
  qed
  ultimately show ?thesis
    using r(1) by (simp add: field_create_def exp_def log_def)
qed

section \<open>The operations compute the field's operations\<close>

lemma field_add_GF: "GF (field_add f l r) = GF l + GF r"
  by (simp add: field_add_def GF_xor)

lemma field_sub_GF: "GF (field_sub f l r) = GF l - GF r"
  by (simp add: field_sub_def GF_xor gf_minus_plus)

lemma gf_of_nat: "of_nat n = (if odd n then 1 else 0 :: gf256)"
  by (induction n) auto

lemma field_sum_GF: "GF (field_sum f x n) = of_nat (unat n) * GF x"
proof -
  have "n mod 2 \<noteq> 0 \<longleftrightarrow> odd (unat n)"
    by (simp add: unat_mod odd_iff_mod_2_eq_one flip: unat_eq_zero)
  then show ?thesis by (simp add: field_sum_def gf_of_nat)
qed

lemma unat_ucast_sum: "unat ((ucast (l :: u8) :: u16) + ucast r) = unat l + unat (r :: u8)"
proof -
  have "unat l + unat r < 65536" using unat_u8_lt [of l] unat_u8_lt [of r] by linarith
  then show ?thesis by (simp add: unat_word_ariths)
qed

lemma unat_ucast_diff: "unat (255 + (ucast (l :: u8) :: u16) - ucast r) = 255 + unat l - unat (r :: u8)"
proof -
  have "255 + unat l < 65536" using unat_u8_lt [of l] by linarith
  then have "unat (255 + (ucast l :: u16)) = 255 + unat l"
    by (simp add: unat_word_ariths)
  moreover have "unat r \<le> 255 + unat l" using unat_u8_le [of r] by linarith
  ultimately show ?thesis by (simp add: unat_sub word_le_nat_alt)
qed

lemma field_mul_log_element_gf:
  "field_mul_log_element gf l r = Some (alpha (unat l + unat r))"
proof -
  have "unat l + unat r < 512" using unat_u8_lt [of l] unat_u8_lt [of r] by linarith
  then show ?thesis by (simp add: field_mul_log_element_def unat_ucast_sum)
qed

lemma field_mul_gf: "field_mul gf l r = Some (gmul l r)"
proof (cases "l = 0 \<or> r = 0")
  case False
  then have "gmul l r = alpha (unat (lg l) + unat (lg r))"
    using lg_props [of l] lg_props [of r] by (metis alpha_mult)
  with False show ?thesis
    using field_mul_log_element_gf [of "lg l" "lg r"]
    by (simp add: field_mul_def field_mul_log_element_def)
qed (auto simp: field_mul_def)

lemma field_mul_log_element_GF:
  "l \<noteq> 0 \<Longrightarrow> field_mul_log_element gf (lg l) r = Some (gmul l (alpha (unat r)))"
  using lg_props [of l] by (metis field_mul_log_element_gf alpha_mult)

lemma field_div_gf: "field_div gf l r = Some (ungf (GF l / GF r))"
proof (cases "l = 0 \<or> r = 0")
  case False
  then have lr: "l \<noteq> 0" "r \<noteq> 0" by auto
  let ?d = "255 + unat (lg l) - unat (lg r)"
  have le: "unat (lg r) \<le> 255" by simp
  have lt: "?d < 512" using unat_u8_lt [of "lg l"] by linarith
  have "alpha ?d = ungf (GF l / GF r)"
  proof -
    have "?d + unat (lg r) = unat (lg l) + 255" using le by linarith
    then have "gmul (alpha ?d) (alpha (unat (lg r))) = alpha (unat (lg l) + 255)"
      by (simp only: alpha_mult)
    then have "gmul (alpha ?d) r = l"
      using lg_props lr by (simp add: alpha_period)
    then have "GF (alpha ?d) * GF r = GF l" by (simp add: GF_gmul [symmetric])
    then have "GF (alpha ?d) = GF l / GF r" using lr by (simp add: eq_divide_eq)
    then show ?thesis by (metis gf256.sel)
  qed
  with lt lr show ?thesis by (simp add: field_div_def unat_ucast_diff)
qed (auto simp: field_div_def)


text \<open>A logarithm that \<open>field_mul_log\<close> and \<open>field_div_log\<close> return stays in 1..255 when the
  arguments are (255 stands for the exponent 0), and its power is the product or quotient.\<close>

lemma field_mul_log_unat:
  "unat (field_mul_log f l r) =
    (if unat l + unat r > 255 then unat l + unat r - 255 else unat l + unat r)"
proof -
  let ?s = "(ucast l :: u16) + ucast r"
  have s: "unat ?s = unat l + unat r" by (rule unat_ucast_sum)
  have b: "unat l + unat r \<le> 510" using unat_u8_le [of l] unat_u8_le [of r] by linarith
  have d: "unat (?s - 255) = unat l + unat r - 255" if "255 < unat l + unat r"
    using that s by (simp add: unat_sub word_le_nat_alt)
  have lt: "255 < ?s \<longleftrightarrow> 255 < unat l + unat r"
    by (simp add: word_less_nat_alt s)
  show ?thesis
    unfolding field_mul_log_def Let_def lt using b by (simp add: unat_ucast_u16_u8 s d)
qed

lemma field_div_log_unat:
  assumes "1 \<le> unat r"
  shows "unat (field_div_log f l r) =
    (if unat l > unat r then unat l - unat r else 255 + unat l - unat r)"
proof -
  let ?s = "255 + (ucast l :: u16) - ucast r"
  have s: "unat ?s = 255 + unat l - unat r" by (rule unat_ucast_diff)
  have b: "unat l \<le> 255" "unat r \<le> 255" by simp_all
  have d: "unat ((ucast l :: u16) - ucast r) = unat l - unat r" if "unat r < unat l"
    using that by (simp add: unat_sub word_le_nat_alt)
  have lt: "255 < ?s \<longleftrightarrow> unat r < unat l"
    using b by (simp add: word_less_nat_alt s) linarith
  show ?thesis
    unfolding field_div_log_def Let_def lt using b assms
    by (cases "unat r < unat l") (simp_all add: unat_ucast_u16_u8 s d less_imp_diff_less)
qed

lemma alpha_field_mul_log [simp]:
  "alpha (unat (field_mul_log f l r)) = gmul (alpha (unat l)) (alpha (unat r))"
proof (cases "unat l + unat r > 255")
  case True
  then have "unat l + unat r = unat l + unat r - 255 + 255" by simp
  then have "alpha (unat l + unat r) = alpha (unat l + unat r - 255)"
    using alpha_period by metis
  with True show ?thesis by (simp add: field_mul_log_unat alpha_mult)
qed (simp add: field_mul_log_unat alpha_mult)

lemma alpha_field_div_log:
  assumes "1 \<le> unat r"
  shows "gmul (alpha (unat (field_div_log f l r))) (alpha (unat r)) = alpha (unat l)"
proof (cases "unat l > unat r")
  case False
  have "unat r \<le> 255" by simp
  with False have "255 + unat l - unat r + unat r = unat l + 255" by linarith
  with False assms show ?thesis by (simp add: field_div_log_unat alpha_mult alpha_period)
qed (use assms in \<open>simp add: field_div_log_unat alpha_mult\<close>)

lemma field_mul_log_nonzero:
  "1 \<le> unat l \<Longrightarrow> 1 \<le> unat (field_mul_log f l r)"
  unfolding field_mul_log_unat by presburger

lemma c_int_Some: "- 2147483648 \<le> z \<Longrightarrow> z \<le> 2147483647 \<Longrightarrow> c_int z = Some z"
  by (simp add: c_int_def)

text \<open>\<open>field_pow\<close>, negative exponents included. The code takes the logarithm 0 for the byte 0,
  so its \<open>field_pow\<close> of 0 is 1 whatever the exponent is.\<close>

lemma c_rem_255: "(let m = c_rem z 255 in if m < 0 then m + 255 else m) = z mod 255"
proof -
  have "(-z) mod 255 = (if z mod 255 = 0 then 0 else 255 - z mod 255)" for z :: int
    by (simp add: zmod_zminus1_eq_if)
  moreover have "0 \<le> z mod 255" "z mod 255 < 255" by simp_all
  ultimately show ?thesis
    by (cases "z < 0"; cases "z = 0") (auto simp: c_rem_def Let_def sgn_if)
qed

lemma field_pow_gf:
  assumes "- 8421504 \<le> p" "p \<le> 8421504"
  shows "field_pow gf x p = Some (alpha (nat ((int (unat (lg x)) * p) mod 255)))"
proof -
  let ?l = "int (unat (lg x))"
  have l: "0 \<le> ?l" "?l \<le> 255" using unat_u8_le [of "lg x"] by linarith+
  have "\<bar>?l * p\<bar> \<le> 255 * 8421504"
    unfolding abs_mult using l assms by (intro mult_mono) auto
  then have c: "c_int (?l * p) = Some (?l * p)"
    by (intro c_int_Some) linarith+
  have u: "uint (lg x) = ?l" by (rule uint_nat)
  have "nat (?l * p mod 255) < 512"
    using pos_mod_bound [of 255 "?l * p"] by linarith
  then have "rd (fexp gf) (nat (?l * p mod 255)) = Some (alpha (nat (?l * p mod 255)))"
    by (rule rd_fexp)
  moreover have "field_pow gf x p = rd (fexp gf) (nat (?l * p mod 255))"
    by (simp only: field_pow_def rd_flog u c Option.bind.simps c_rem_255 [unfolded Let_def] Let_def)
  ultimately show ?thesis by (simp only:)
qed

lemma field_pow_GF:
  assumes "x \<noteq> 0" "- 8421504 \<le> p" "p \<le> 8421504"
  shows "field_pow gf x p = Some (ungf (GF x powi p))"
proof -
  let ?l = "int (unat (lg x))"
  have x: "GF x = GF 2 ^ unat (lg x)" using lg_props [OF assms(1)] by (metis GF_alpha)
  have z: "GF (alpha (nat (z mod 255))) = GF 2 powi z" for z
  proof -
    have two: "GF 2 \<noteq> 0" by simp
    have o: "GF 2 powi 255 = (1 :: gf256)"
      using gf_pow_255 [OF two] by (simp add: power_int_def)
    have "GF 2 powi z = GF 2 powi (255 * (z div 255) + z mod 255)" by simp
    also have "\<dots> = GF 2 powi (z mod 255)"
      using two power_int_add [of "GF 2" "255 * (z div 255)" "z mod 255"]
        power_int_mult [of "GF 2" 255 "z div 255"] o by simp
    also have "\<dots> = GF (alpha (nat (z mod 255)))"
      by (simp add: GF_alpha power_int_def)
    finally show ?thesis ..
  qed
  have "GF x powi p = GF 2 powi (?l * p)"
    unfolding x power_int_mult power_int_of_nat ..
  with z [of "?l * p"] have "alpha (nat (?l * p mod 255)) = ungf (GF x powi p)"
    by (metis gf256.sel)
  with assms show ?thesis by (simp add: field_pow_gf)
qed

end
