(* ===== verification/RsPolynomial.thy ===== *)
theory RsPolynomial
  imports GaloisField
begin

text \<open>
  Polynomials over GF(2^8) (libcorrect, src/reed-solomon/polynomial.c).

  A polynomial is an array of coefficients, lowest order first, and an order; the array may
  be longer than the order needs. Each function of the source is a definition that returns
  the polynomial it writes, \<open>None\<close> being an access outside an array. The specification is
  \<open>peval\<close>, the sum of coefficient times power in the field of bytes: multiplication,
  remainder, evaluation with its three table variants, the derivative and the product of the
  linear factors of a list of roots are each shown to compute it.
\<close>

section \<open>The code\<close>

record polynomial_t =
  pcoeff :: "u8 list"
  porder :: nat

definition polynomial_create :: "(nat \<Rightarrow> u8) \<Rightarrow> nat \<Rightarrow> polynomial_t" where
  "polynomial_create junk order = \<lparr>pcoeff = malloc junk ((order + 1) mod 2 ^ 32), porder = order\<rparr>"

definition polynomial_mul_inner ::
  "field_t \<Rightarrow> polynomial_t \<Rightarrow> polynomial_t \<Rightarrow> nat \<Rightarrow> nat \<Rightarrow> u8 list \<Rightarrow> u8 list option" where
  "polynomial_mul_inner field l r i j c = do {
     cij \<leftarrow> rd c (i + j);
     li \<leftarrow> rd (pcoeff l) i;
     rj \<leftarrow> rd (pcoeff r) j;
     p \<leftarrow> field_mul field li rj;
     wr c (i + j) (field_add field cij p)
   }"

definition polynomial_mul ::
  "field_t \<Rightarrow> polynomial_t \<Rightarrow> polynomial_t \<Rightarrow> polynomial_t \<Rightarrow> polynomial_t option" where
  "polynomial_mul field l r res = do {
     c \<leftarrow> fill (pcoeff res) 0 (porder res + 1) 0;
     c \<leftarrow> for_each [0..<porder l + 1] (\<lambda>i c.
        if i > porder res then Some c
        else
          let j_limit = (if porder r > porder res - i then porder res - i else porder r)
          in for_each [0..<j_limit + 1] (polynomial_mul_inner field l r i) c) c;
     Some (res\<lparr>pcoeff := c\<rparr>)
   }"

definition polynomial_mod_row ::
  "field_t \<Rightarrow> polynomial_t \<Rightarrow> u8 \<Rightarrow> nat \<Rightarrow> nat \<Rightarrow> u8 list \<Rightarrow> u8 list option" where
  "polynomial_mod_row field divisor q_coeff q_order j m = do {
     dj \<leftarrow> rd (pcoeff divisor) j;
     if dj = 0 then Some m
     else do {
       mj \<leftarrow> rd m (j + q_order);
       lj \<leftarrow> rd (flog field) (unat dj);
       p \<leftarrow> field_mul_log_element field lj q_coeff;
       wr m (j + q_order) (field_add field mj p)
     }
   }"

fun polynomial_mod_loop ::
  "field_t \<Rightarrow> polynomial_t \<Rightarrow> u8 \<Rightarrow> nat \<Rightarrow> u8 list \<Rightarrow> u8 list option" where
  "polynomial_mod_loop field divisor divisor_leading 0 m = Some m"
| "polynomial_mod_loop field divisor divisor_leading (Suc k) m =
    (let i = Suc k in
     if i < porder divisor then Some m
     else do {
       mi \<leftarrow> rd m i;
       if mi = 0 then polynomial_mod_loop field divisor divisor_leading k m
       else do {
         let q_order = i - porder divisor;
         lm \<leftarrow> rd (flog field) (unat mi);
         let q_coeff = field_div_log field lm divisor_leading;
         m \<leftarrow> for_each [0..<porder divisor + 1] (polynomial_mod_row field divisor q_coeff q_order) m;
         polynomial_mod_loop field divisor divisor_leading k m
       }
     })"

definition polynomial_mod ::
  "field_t \<Rightarrow> polynomial_t \<Rightarrow> polynomial_t \<Rightarrow> polynomial_t \<Rightarrow> polynomial_t option" where
  "polynomial_mod field dividend divisor m =
    (if porder m < porder dividend then Some m
     else do {
       src \<leftarrow> copy_of (pcoeff dividend) 0 (porder dividend + 1);
       c \<leftarrow> blit (pcoeff m) 0 src;
       top \<leftarrow> rd (pcoeff divisor) (porder divisor);
       divisor_leading \<leftarrow> rd (flog field) (unat top);
       c \<leftarrow> polynomial_mod_loop field divisor divisor_leading (porder dividend) c;
       Some (m\<lparr>pcoeff := c\<rparr>)
     })"

definition polynomial_formal_derivative :: "field_t \<Rightarrow> polynomial_t \<Rightarrow> polynomial_t \<Rightarrow> polynomial_t option" where
  "polynomial_formal_derivative field poly der = do {
     c \<leftarrow> fill (pcoeff der) 0 ((porder der + 1) mod 2 ^ 32) 0;
     c \<leftarrow> for_each [0..<porder der + 1] (\<lambda>i c. do {
        a \<leftarrow> rd (pcoeff poly) (i + 1);
        wr c i (field_sum field a (of_nat (i + 1))) }) c;
     Some (der\<lparr>pcoeff := c\<rparr>)
   }"

definition polynomial_eval :: "field_t \<Rightarrow> polynomial_t \<Rightarrow> u8 \<Rightarrow> u8 option" where
  "polynomial_eval field poly val =
    (if val = 0 then rd (pcoeff poly) 0
     else do {
       val_exponentiated \<leftarrow> rd (flog field) 1;
       val_log \<leftarrow> rd (flog field) (unat val);
       (res, val_exponentiated) \<leftarrow> for_each [0..<porder poly + 1] (\<lambda>i (res, val_exponentiated). do {
          c \<leftarrow> rd (pcoeff poly) i;
          res \<leftarrow> (if c \<noteq> 0 then do {
             lc \<leftarrow> rd (flog field) (unat c);
             p \<leftarrow> field_mul_log_element field lc val_exponentiated;
             Some (field_add field res p) } else Some res);
          Some (res, field_mul_log field val_exponentiated val_log) }) (0, val_exponentiated);
       Some res
     })"

definition polynomial_eval_lut :: "field_t \<Rightarrow> polynomial_t \<Rightarrow> u8 list \<Rightarrow> u8 option" where
  "polynomial_eval_lut field poly val_exp = do {
     v0 \<leftarrow> rd val_exp 0;
     if v0 = 0 then rd (pcoeff poly) 0
     else for_each [0..<porder poly + 1] (\<lambda>i res. do {
       c \<leftarrow> rd (pcoeff poly) i;
       if c \<noteq> 0 then do {
         lc \<leftarrow> rd (flog field) (unat c);
         v \<leftarrow> rd val_exp i;
         p \<leftarrow> field_mul_log_element field lc v;
         Some (field_add field res p) }
       else Some res }) 0
   }"

definition polynomial_eval_log_lut :: "field_t \<Rightarrow> polynomial_t \<Rightarrow> u8 list \<Rightarrow> u8 option" where
  "polynomial_eval_log_lut field poly_log val_exp = do {
     v0 \<leftarrow> rd val_exp 0;
     if v0 = 0 then do {
       c0 \<leftarrow> rd (pcoeff poly_log) 0;
       if c0 = 0 then Some 0 else rd (fexp field) (unat c0) }
     else for_each [0..<porder poly_log + 1] (\<lambda>i res. do {
       c \<leftarrow> rd (pcoeff poly_log) i;
       if c \<noteq> 0 then do {
         v \<leftarrow> rd val_exp i;
         p \<leftarrow> field_mul_log_element field c v;
         Some (field_add field res p) }
       else Some res }) 0
   }"

definition polynomial_build_exp_lut :: "field_t \<Rightarrow> u8 \<Rightarrow> nat \<Rightarrow> u8 list \<Rightarrow> u8 list option" where
  "polynomial_build_exp_lut field val order val_exp = do {
     val_exponentiated \<leftarrow> rd (flog field) 1;
     val_log \<leftarrow> rd (flog field) (unat val);
     (val_exp, val_exponentiated) \<leftarrow> for_each [0..<order + 1] (\<lambda>i (val_exp, val_exponentiated).
        if val = 0 then do { val_exp \<leftarrow> wr val_exp i 0; Some (val_exp, val_exponentiated) }
        else do {
          val_exp \<leftarrow> wr val_exp i val_exponentiated;
          Some (val_exp, field_mul_log field val_exponentiated val_log) }) (val_exp, val_exponentiated);
     Some val_exp
   }"

text \<open>The two functions that multiply out a list of roots share this loop; they differ in
  where the memory of the factors comes from. \<open>r\<close> holds the two polynomials that are the
  result and the right factor in turn.\<close>

definition roots_step ::
  "field_t \<Rightarrow> u8 list \<Rightarrow> nat \<Rightarrow> polynomial_t \<times> polynomial_t list \<times> nat \<Rightarrow>
   (polynomial_t \<times> polynomial_t list \<times> nat) option" where
  "roots_step field roots i = (\<lambda>(l, r, rcoeffres). do {
     root \<leftarrow> rd roots i;
     lc \<leftarrow> wr (pcoeff l) 0 root;
     let l = l\<lparr>pcoeff := lc\<rparr>;
     let nextrcoeff = rcoeffres;
     let rcoeffres = (rcoeffres + 1) mod 2;
     right \<leftarrow> rd r nextrcoeff;
     res \<leftarrow> rd r rcoeffres;
     res \<leftarrow> polynomial_mul field l right (res\<lparr>porder := i + 1\<rparr>);
     r \<leftarrow> wr r rcoeffres res;
     Some (l, r, rcoeffres)
   })"

definition roots_start :: "u8 list \<Rightarrow> polynomial_t \<Rightarrow> polynomial_t option" where
  "roots_start roots r0 = do {
     root0 \<leftarrow> rd roots 0;
     c \<leftarrow> wr (pcoeff r0) 1 1;
     c \<leftarrow> wr c 0 root0;
     Some \<lparr>pcoeff = c, porder = 1\<rparr>
   }"

definition polynomial_init_from_roots ::
  "field_t \<Rightarrow> (nat \<Rightarrow> u8) \<Rightarrow> nat \<Rightarrow> u8 list \<Rightarrow> polynomial_t \<Rightarrow> polynomial_t list \<Rightarrow>
   (polynomial_t \<times> polynomial_t list) option" where
  "polynomial_init_from_roots field junk nroots roots poly scratch = do {
     let order = nroots;
     s0 \<leftarrow> rd scratch 0;
     r0 \<leftarrow> roots_start roots s0;
     r \<leftarrow> wr scratch 0 r0;
     lc \<leftarrow> wr (malloc junk 2) 1 1;
     (l, r, rcoeffres) \<leftarrow> for_each [1..<nroots] (roots_step field roots)
        (\<lparr>pcoeff = lc, porder = 1\<rparr>, r, 0);
     res \<leftarrow> rd r rcoeffres;
     src \<leftarrow> copy_of (pcoeff res) 0 (order + 1);
     c \<leftarrow> blit (pcoeff poly) 0 src;
     Some (\<lparr>pcoeff = c, porder = order\<rparr>, map2 (\<lambda>q old. q\<lparr>porder := porder old\<rparr>) r scratch)
   }"

definition polynomial_create_from_roots ::
  "field_t \<Rightarrow> (nat \<Rightarrow> u8) \<Rightarrow> nat \<Rightarrow> u8 list \<Rightarrow> polynomial_t option" where
  "polynomial_create_from_roots field junk nroots roots =
    (let poly = polynomial_create junk nroots
     in if nroots = 0 then Some poly
     else do {
       let order = nroots;
       let l = \<lparr>pcoeff = replicate 2 0, porder = 1\<rparr>;
       r0 \<leftarrow> roots_start roots \<lparr>pcoeff = replicate (order + 1) 0, porder = 0\<rparr>;
       lc \<leftarrow> wr (pcoeff l) 1 1;
       (l, r, rcoeffres) \<leftarrow> for_each [1..<nroots] (roots_step field roots)
          (l\<lparr>pcoeff := lc\<rparr>, [r0, \<lparr>pcoeff = replicate (order + 1) 0, porder = 0\<rparr>], 0);
       res \<leftarrow> rd r rcoeffres;
       src \<leftarrow> copy_of (pcoeff res) 0 (order + 1);
       c \<leftarrow> blit (pcoeff poly) 0 src;
       Some \<lparr>pcoeff = c, porder = order\<rparr>
     })"


section \<open>Coefficients and values\<close>

definition wf_poly :: "polynomial_t \<Rightarrow> bool" where
  "wf_poly p \<longleftrightarrow> porder p < length (pcoeff p)"

definition cf :: "polynomial_t \<Rightarrow> nat \<Rightarrow> gf256" where
  "cf p i = (if i \<le> porder p then GF (pcoeff p ! i) else 0)"

definition peval :: "polynomial_t \<Rightarrow> gf256 \<Rightarrow> gf256" where
  "peval p x = (\<Sum>i\<le>porder p. GF (pcoeff p ! i) * x ^ i)"

lemma peval_cf: "peval p x = (\<Sum>i\<le>porder p. cf p i * x ^ i)"
  by (simp add: peval_def cf_def)

lemma peval_cf_upto:
  assumes "porder p \<le> n"
  shows "peval p x = (\<Sum>i\<le>n. cf p i * x ^ i)"
  unfolding peval_cf
  by (rule sum.mono_neutral_left) (use assms in \<open>auto simp: cf_def\<close>)

section \<open>Multiplication\<close>

lemma mul_inner_loop:
  assumes "i < length (pcoeff l)" "J \<le> length (pcoeff r)" "i + J \<le> length c"
  shows "\<exists>c'. for_each [0..<J] (polynomial_mul_inner gf l r i) c = Some c' \<and> length c' = length c \<and>
    (\<forall>k<length c. GF (c' ! k) = GF (c ! k) +
      (if i \<le> k \<and> k < i + J then GF (pcoeff l ! i) * GF (pcoeff r ! (k - i)) else 0))"
proof -
  define P where "P = (\<lambda>j c'. length c' = length c \<and>
    (\<forall>k<length c. GF (c' ! k) = GF (c ! k) +
      (if i \<le> k \<and> k < i + j then GF (pcoeff l ! i) * GF (pcoeff r ! (k - i)) else 0)))"
  have "\<exists>c'. for_each [0..<J] (polynomial_mul_inner gf l r i) c = Some c' \<and> P J c'"
  proof (rule for_range_total)
    show "P 0 c" by (auto simp: P_def)
    fix j c' assume j: "0 \<le> j" "j < J" and P: "P j c'"
    then have bnd: "i + j < length c'" "j < length (pcoeff r)" using assms by (auto simp: P_def)
    then have "polynomial_mul_inner gf l r i j c' = Some (c'[i + j :=
        field_add gf (c' ! (i + j)) (gmul (pcoeff l ! i) (pcoeff r ! j))])"
      using assms(1) by (simp add: polynomial_mul_inner_def field_mul_gf)
    moreover have "P (Suc j) (c'[i + j := field_add gf (c' ! (i + j)) (gmul (pcoeff l ! i) (pcoeff r ! j))])"
      using P bnd by (auto simp: P_def nth_list_update field_add_GF GF_gmul less_Suc_eq)
    ultimately show "\<exists>s'. polynomial_mul_inner gf l r i j c' = Some s' \<and> P (Suc j) s'" by blast
  qed simp
  then show ?thesis by (simp add: P_def)
qed

definition mul_cf :: "polynomial_t \<Rightarrow> polynomial_t \<Rightarrow> nat \<Rightarrow> gf256" where
  "mul_cf l r k = (\<Sum>i\<le>k. cf l i * cf r (k - i))"

lemma polynomial_mul_spec:
  assumes "wf_poly l" "wf_poly r" "wf_poly res"
  shows "\<exists>res'. polynomial_mul gf l r res = Some res' \<and> porder res' = porder res \<and>
    length (pcoeff res') = length (pcoeff res) \<and>
    (\<forall>k\<le>porder res. GF (pcoeff res' ! k) = mul_cf l r k) \<and>
    (\<forall>k<length (pcoeff res). porder res < k \<longrightarrow> pcoeff res' ! k = pcoeff res ! k)"
proof -
  let ?n = "porder res"
  obtain c0 where c0: "fill (pcoeff res) 0 (?n + 1) 0 = Some c0"
    using assms(3) by (simp add: wf_poly_def fill_def)
  have len0: "length c0 = length (pcoeff res)" using fill_length [OF c0] .
  have c0_nth: "c0 ! k = (if k \<le> ?n then 0 else pcoeff res ! k)" if "k < length (pcoeff res)" for k
    using fill_nth [OF c0 that] by (simp add: less_Suc_eq_le)
  define body where "body = (\<lambda>i c. if i > ?n then Some c
        else
          let j_limit = (if porder r > ?n - i then ?n - i else porder r)
          in for_each [0..<j_limit + 1] (polynomial_mul_inner gf l r i) c)"
  define P where "P = (\<lambda>I c. length c = length (pcoeff res) \<and>
    (\<forall>k\<le>?n. GF (c ! k) = (\<Sum>i | i < I \<and> i \<le> k. cf l i * cf r (k - i))) \<and>
    (\<forall>k<length c. ?n < k \<longrightarrow> c ! k = pcoeff res ! k))"
  have "\<exists>c. for_each [0..<porder l + 1] body c0 = Some c \<and> P (porder l + 1) c"
  proof (rule for_range_total)
    show "P 0 c0" using len0 c0_nth assms(3) by (auto simp: P_def wf_poly_def)
    fix I c assume I: "0 \<le> I" "I < porder l + 1" and P: "P I c"
    have split: "(\<Sum>i | i < Suc I \<and> i \<le> k. cf l i * cf r (k - i)) =
       (\<Sum>i | i < I \<and> i \<le> k. cf l i * cf r (k - i)) + (if I \<le> k then cf l I * cf r (k - I) else 0)" for k
    proof -
      have "{i. i < Suc I \<and> i \<le> k} = (if I \<le> k then insert I {i. i < I \<and> i \<le> k} else {i. i < I \<and> i \<le> k})"
        by (auto simp: less_Suc_eq)
      then show ?thesis by (simp add: add.commute)
    qed
    show "\<exists>s'. body I c = Some s' \<and> P (Suc I) s'"
    proof (cases "I > ?n")
      case True
      with P show ?thesis unfolding P_def split by (auto simp: body_def)
    next
      case False
      let ?J = "(if porder r > ?n - I then ?n - I else porder r) + 1"
      have len: "length c = length (pcoeff res)" using P by (simp add: P_def)
      have "I < length (pcoeff l)" "?J \<le> length (pcoeff r)" "I + ?J \<le> length c"
        using assms I False len by (auto simp: wf_poly_def)
      from mul_inner_loop [OF this] obtain c' where c': "for_each [0..<?J] (polynomial_mul_inner gf l r I) c = Some c'"
        "length c' = length c"
        "\<forall>k<length c. GF (c' ! k) = GF (c ! k) +
          (if I \<le> k \<and> k < I + ?J then GF (pcoeff l ! I) * GF (pcoeff r ! (k - I)) else 0)"
        by blast
      have "P (Suc I) c'"
        unfolding P_def
      proof (intro conjI allI impI)
        show "length c' = length (pcoeff res)" using c' len by simp
        fix k
        { assume k: "k \<le> ?n"
          then have "k < length c" using assms(3) len by (simp add: wf_poly_def)
          moreover have "(if I \<le> k \<and> k < I + ?J then GF (pcoeff l ! I) * GF (pcoeff r ! (k - I)) else 0) =
            (if I \<le> k then cf l I * cf r (k - I) else 0)"
            using I k False by (auto simp: cf_def)
          ultimately show "GF (c' ! k) = (\<Sum>i | i < Suc I \<and> i \<le> k. cf l i * cf r (k - i))"
            unfolding split using c'(3) P k by (simp add: P_def) }
        { assume k: "k < length c'" "?n < k"
          then have "\<not> (I \<le> k \<and> k < I + ?J)" using False by auto
          moreover have "GF (c' ! k) = GF (c ! k) +
            (if I \<le> k \<and> k < I + ?J then GF (pcoeff l ! I) * GF (pcoeff r ! (k - I)) else 0)"
            using c'(2,3) k by simp
          ultimately have "GF (c' ! k) = GF (c ! k)" by (simp only: if_False add_0_right)
          then show "c' ! k = pcoeff res ! k" using P k c'(2) by (simp add: P_def) }
      qed
      with c'(1) False show ?thesis by (auto simp: body_def Let_def)
    qed
  qed simp
  then obtain c where c: "for_each [0..<porder l + 1] body c0 = Some c" "P (porder l + 1) c" by blast
  have "GF (c ! k) = mul_cf l r k" if "k \<le> ?n" for k
  proof -
    have "(\<Sum>i | i < porder l + 1 \<and> i \<le> k. cf l i * cf r (k - i)) = mul_cf l r k"
      unfolding mul_cf_def by (rule sum.mono_neutral_left) (auto simp: cf_def)
    with c(2) that show ?thesis by (simp add: P_def)
  qed
  moreover have "polynomial_mul gf l r res = Some (res\<lparr>pcoeff := c\<rparr>)"
    using c0 c(1) by (simp add: polynomial_mul_def body_def)
  ultimately show ?thesis using c(2) by (auto simp: P_def)
qed


lemma peval_mul:
  assumes "wf_poly l" "wf_poly r" "wf_poly res" "porder res = porder l + porder r"
    and "polynomial_mul gf l r res = Some res'"
  shows "peval res' x = peval l x * peval r x"
proof -
  from polynomial_mul_spec [OF assms(1-3)] assms(5)
  have o: "porder res' = porder l + porder r"
    and c: "\<forall>k\<le>porder res. GF (pcoeff res' ! k) = mul_cf l r k"
    using assms(4) by auto
  have "peval res' x = (\<Sum>k\<le>porder l + porder r. mul_cf l r k * x ^ k)"
    unfolding peval_def o using c assms(4) by simp
  also have "\<dots> = peval l x * peval r x"
    unfolding peval_cf mul_cf_def by (rule polynomial_product [symmetric]) (simp_all add: cf_def)
  finally show ?thesis .
qed

section \<open>Remainder\<close>

definition meval :: "nat \<Rightarrow> u8 list \<Rightarrow> gf256 \<Rightarrow> gf256" where
  "meval n m x = (\<Sum>i\<le>n. GF (m ! i) * x ^ i)"

lemma mod_row_loop:
  assumes "porder d < length (pcoeff d)" "q + porder d < length m"
  shows "\<exists>m'. for_each [0..<porder d + 1] (polynomial_mod_row gf d a q) m = Some m' \<and> length m' = length m \<and>
    (\<forall>k<length m. GF (m' ! k) = GF (m ! k) +
      (if q \<le> k \<and> k < q + (porder d + 1) then GF (pcoeff d ! (k - q)) * GF (alpha (unat a)) else 0))"
proof -
  define P where "P = (\<lambda>j m'. length m' = length m \<and>
    (\<forall>k<length m. GF (m' ! k) = GF (m ! k) +
      (if q \<le> k \<and> k < q + j then GF (pcoeff d ! (k - q)) * GF (alpha (unat a)) else 0)))"
  have "\<exists>m'. for_each [0..<porder d + 1] (polynomial_mod_row gf d a q) m = Some m' \<and> P (porder d + 1) m'"
  proof (rule for_range_total)
    show "P 0 m" by (auto simp: P_def)
    fix j m' assume j: "0 \<le> j" "j < porder d + 1" and P: "P j m'"
    then have bnd: "j + q < length m'" "j < length (pcoeff d)" using assms by (auto simp: P_def)
    show "\<exists>s'. polynomial_mod_row gf d a q j m' = Some s' \<and> P (Suc j) s'"
    proof (cases "pcoeff d ! j = 0")
      case True
      then have "P (Suc j) m'" using P by (auto simp: P_def less_Suc_eq)
      with True bnd show ?thesis by (simp add: polynomial_mod_row_def)
    next
      case False
      let ?v = "field_add gf (m' ! (j + q)) (gmul (pcoeff d ! j) (alpha (unat a)))"
      have "polynomial_mod_row gf d a q j m' = Some (m'[j + q := ?v])"
        using False bnd by (simp add: polynomial_mod_row_def field_mul_log_element_GF)
      moreover have "P (Suc j) (m'[j + q := ?v])"
        using P bnd by (auto simp: P_def nth_list_update field_add_GF GF_gmul less_Suc_eq)
      ultimately show ?thesis by blast
    qed
  qed simp
  then show ?thesis by (simp add: P_def)
qed

lemma meval_shifted:
  assumes "q + porder d \<le> n"
    and "\<And>k. k \<le> n \<Longrightarrow> GF (m' ! k) = GF (m ! k) +
      (if q \<le> k \<and> k < q + (porder d + 1) then GF (pcoeff d ! (k - q)) * A else 0)"
  shows "meval n m x = A * x ^ q * peval d x + meval n m' x"
proof -
  have "meval n m' x = meval n m x +
    (\<Sum>k\<le>n. (if q \<le> k \<and> k < q + (porder d + 1) then GF (pcoeff d ! (k - q)) * A else 0) * x ^ k)"
    unfolding meval_def using assms(2) by (simp add: algebra_simps sum.distrib)
  also have "(\<Sum>k\<le>n. (if q \<le> k \<and> k < q + (porder d + 1) then GF (pcoeff d ! (k - q)) * A else 0) * x ^ k)
    = (\<Sum>k\<in>{q..q + porder d}. GF (pcoeff d ! (k - q)) * A * x ^ k)"
    by (rule sum.mono_neutral_cong_right) (use assms(1) in auto)
  also have "\<dots> = (\<Sum>j\<le>porder d. GF (pcoeff d ! j) * A * x ^ (j + q))"
    by (rule sum.reindex_bij_witness [of _ "\<lambda>j. j + q" "\<lambda>k. k - q"]) auto
  also have "\<dots> = A * x ^ q * peval d x"
    by (simp add: peval_def sum_distrib_left power_add ac_simps)
  finally have "meval n m' x = meval n m x + A * x ^ q * peval d x" .
  then have "A * x ^ q * peval d x + meval n m' x =
      (A * x ^ q * peval d x + A * x ^ q * peval d x) + meval n m x" by (simp only: ac_simps)
  then show ?thesis by simp
qed

lemma mod_loop_spec:
  assumes "wf_poly d" "pcoeff d ! porder d \<noteq> 0" "1 \<le> porder d"
    and "k \<le> n" "n < length m"
  shows "\<exists>m' q. polynomial_mod_loop gf d (lg (pcoeff d ! porder d)) k m = Some m' \<and> length m' = length m \<and>
    (\<forall>x. meval n m x = (\<Sum>i\<le>n. q i * x ^ i) * peval d x + meval n m' x) \<and>
    (\<forall>i. porder d \<le> i \<and> i \<le> k \<longrightarrow> m' ! i = 0) \<and> (\<forall>i>k. i < length m \<longrightarrow> m' ! i = m ! i)"
  using assms(4,5)
proof (induction k arbitrary: m)
  case 0
  then show ?case using assms(3) by (intro exI [of _ m] exI [of _ "\<lambda>_. 0"]) auto
next
  case (Suc k)
  let ?lead = "lg (pcoeff d ! porder d)"
  let ?i = "Suc k"
  have i: "?i < length m" using Suc.prems by simp
  show ?case
  proof (cases "?i < porder d")
    case True
    then show ?thesis by (intro exI [of _ m] exI [of _ "\<lambda>_. 0"]) auto
  next
    case ge: False
    show ?thesis
    proof (cases "m ! ?i = 0")
      case True
      have "k \<le> n" "n < length m" using Suc.prems by simp_all
      from Suc.IH [OF this] obtain m' q where IH: "polynomial_mod_loop gf d ?lead k m = Some m'"
        "length m' = length m" "\<forall>x. meval n m x = (\<Sum>i\<le>n. q i * x ^ i) * peval d x + meval n m' x"
        "\<forall>i. porder d \<le> i \<and> i \<le> k \<longrightarrow> m' ! i = 0" "\<forall>i>k. i < length m \<longrightarrow> m' ! i = m ! i" by blast
      have "\<forall>i. porder d \<le> i \<and> i \<le> ?i \<longrightarrow> m' ! i = 0" using IH(4,5) True i by (auto simp: le_Suc_eq)
      moreover have "\<forall>i>?i. i < length m \<longrightarrow> m' ! i = m ! i" using IH(5) by simp
      moreover have "polynomial_mod_loop gf d ?lead ?i m = Some m'" using IH(1) True ge i by simp
      ultimately show ?thesis using IH(2,3) by blast
    next
      case False
      let ?q = "?i - porder d"
      let ?a = "field_div_log gf (lg (m ! ?i)) ?lead"
      let ?A = "GF (alpha (unat ?a))"
      have "1 \<le> unat ?lead" using lg_props [OF assms(2)] by simp
      from alpha_field_div_log [OF this, of gf "lg (m ! ?i)"]
      have A: "?A * GF (pcoeff d ! porder d) = GF (m ! ?i)"
        using lg_props [OF assms(2)] lg_props [OF False] by (simp add: GF_gmul [symmetric])
      obtain m1 where m1: "for_each [0..<porder d + 1] (polynomial_mod_row gf d ?a ?q) m = Some m1"
        "length m1 = length m"
        "\<forall>k<length m. GF (m1 ! k) = GF (m ! k) +
          (if ?q \<le> k \<and> k < ?q + (porder d + 1) then GF (pcoeff d ! (k - ?q)) * ?A else 0)"
        using mod_row_loop [of d ?q m ?a] assms(1) ge i by (auto simp: wf_poly_def)
      have step: "meval n m x = ?A * x ^ ?q * peval d x + meval n m1 x" for x
        by (rule meval_shifted) (use m1(3) ge Suc.prems in auto)
      have top: "m1 ! ?i = 0"
      proof -
        have "GF (m1 ! ?i) = GF (m ! ?i) + GF (pcoeff d ! porder d) * ?A"
          using m1(3) i ge by simp
        then have "GF (m1 ! ?i) = 0" using A by (simp add: mult.commute)
        then show ?thesis by simp
      qed
      have above: "m1 ! j = m ! j" if "?i < j" "j < length m" for j
      proof -
        have "\<not> (?q \<le> j \<and> j < ?q + (porder d + 1))" using that ge by auto
        with m1(3) that have "GF (m1 ! j) = GF (m ! j)" by (simp only: if_False add_0_right)
        then show ?thesis by simp
      qed
      have "k \<le> n" "n < length m1" using Suc.prems m1(2) by simp_all
      from Suc.IH [OF this] obtain m' q where IH: "polynomial_mod_loop gf d ?lead k m1 = Some m'"
        "length m' = length m1" "\<forall>x. meval n m1 x = (\<Sum>i\<le>n. q i * x ^ i) * peval d x + meval n m' x"
        "\<forall>i. porder d \<le> i \<and> i \<le> k \<longrightarrow> m' ! i = 0" "\<forall>i>k. i < length m1 \<longrightarrow> m' ! i = m1 ! i" by blast
      have "meval n m x = (\<Sum>i\<le>n. (q i + (if i = ?q then ?A else 0)) * x ^ i) * peval d x + meval n m' x" for x
      proof -
        have "(\<Sum>i\<le>n. (if i = ?q then ?A else 0) * x ^ i) = (\<Sum>i\<le>n. if i = ?q then ?A * x ^ i else 0)"
          by (rule sum.cong) auto
        also have "\<dots> = ?A * x ^ ?q" using Suc.prems by simp
        finally show ?thesis
          using step [of x] IH(3) by (simp add: distrib_right sum.distrib algebra_simps)
      qed
      moreover have "\<forall>i. porder d \<le> i \<and> i \<le> ?i \<longrightarrow> m' ! i = 0"
        using IH(4,5) top i m1(2) by (auto simp: le_Suc_eq)
      moreover have "\<forall>j>?i. j < length m \<longrightarrow> m' ! j = m ! j" using IH(5) above m1(2) by simp
      moreover have "polynomial_mod_loop gf d ?lead ?i m = Some m'" using IH(1) m1(1) False ge i by (simp add: Let_def)
      ultimately show ?thesis using IH(2) m1(2)
        by (intro exI [of _ m'] exI [of _ "\<lambda>i. q i + (if i = ?q then ?A else 0)"]) auto
    qed
  qed
qed


text \<open>\<open>polynomial_mod\<close> leaves the remainder of the division: the dividend is a multiple of the
  divisor plus the result, whose coefficients from the divisor's order on are zero.\<close>

lemma polynomial_mod_spec:
  assumes "wf_poly dd" "wf_poly d" "wf_poly m" "porder dd \<le> porder m"
    and "pcoeff d ! porder d \<noteq> 0" "1 \<le> porder d"
  shows "\<exists>m' q. polynomial_mod gf dd d m = Some m' \<and> porder m' = porder m \<and>
    length (pcoeff m') = length (pcoeff m) \<and>
    (\<forall>x. peval dd x = (\<Sum>i\<le>porder dd. q i * x ^ i) * peval d x + meval (porder dd) (pcoeff m') x) \<and>
    (\<forall>i. porder d \<le> i \<and> i \<le> porder dd \<longrightarrow> pcoeff m' ! i = 0)"
proof -
  let ?n = "porder dd"
  have src: "copy_of (pcoeff dd) 0 (?n + 1) = Some (take (?n + 1) (pcoeff dd))"
    using assms(1) by (simp add: copy_of_def wf_poly_def)
  have len: "?n + 1 \<le> length (pcoeff m)" "?n + 1 \<le> length (pcoeff dd)"
    using assms by (simp_all add: wf_poly_def)
  then obtain c where c: "blit (pcoeff m) 0 (take (?n + 1) (pcoeff dd)) = Some c"
    by (simp add: blit_def)
  have c_nth: "c ! i = pcoeff dd ! i" if "i \<le> ?n" for i
    using blit_nth [OF c, of i] len that by simp
  have lc: "length c = length (pcoeff m)" using blit_length [OF c] .
  have "?n < length c" using len lc by simp
  from mod_loop_spec [OF assms(2,5,6) order.refl this] obtain m' q where
    m': "polynomial_mod_loop gf d (lg (pcoeff d ! porder d)) ?n c = Some m'" "length m' = length c"
      "\<forall>x. meval ?n c x = (\<Sum>i\<le>?n. q i * x ^ i) * peval d x + meval ?n m' x"
      "\<forall>i. porder d \<le> i \<and> i \<le> ?n \<longrightarrow> m' ! i = 0" by blast
  have "meval ?n c x = peval dd x" for x
    by (simp add: meval_def peval_def c_nth)
  moreover have "polynomial_mod gf dd d m = Some (m\<lparr>pcoeff := m'\<rparr>)"
    using assms(2,4) src c m'(1) by (simp add: polynomial_mod_def wf_poly_def)
  ultimately show ?thesis using m' lc
    by (intro exI [of _ "m\<lparr>pcoeff := m'\<rparr>"] exI [of _ q]) auto
qed

section \<open>Evaluation\<close>

lemma lg_1: "lg 1 = 255"
  using lg_alpha [of 255] by simp

lemma rd_flog_1 [simp]: "rd (flog gf) 1 = Some 255" "rd (flog gf) (Suc 0) = Some 255"
  using rd_flog [of 1] lg_1 by simp_all

text \<open>A table of powers: entry \<open>i\<close> is a logarithm of \<open>val ^ i\<close> in 1..255 (255 for 1).\<close>

definition pow_table :: "u8 \<Rightarrow> u8 list \<Rightarrow> bool" where
  "pow_table val t \<longleftrightarrow> (\<forall>i<length t. if val = 0 then t ! i = 0
     else 1 \<le> unat (t ! i) \<and> GF (alpha (unat (t ! i))) = GF val ^ i)"

lemma pow_table_0:
  assumes "pow_table val t" "0 < length t"
  shows "t ! 0 = 0 \<longleftrightarrow> val = 0" "rd t 0 = Some (t ! 0)"
proof -
  from assms(1) [unfolded pow_table_def, rule_format, OF assms(2)]
  show "t ! 0 = 0 \<longleftrightarrow> val = 0" by (auto split: if_splits)
  from assms(2) show "rd t 0 = Some (t ! 0)" by (rule rd_in)
qed

lemma wf_rd_0: "wf_poly p \<Longrightarrow> rd (pcoeff p) 0 = Some (pcoeff p ! 0)"
  by (auto simp: wf_poly_def rd_def)

lemma polynomial_eval_spec:
  assumes "wf_poly p"
  shows "polynomial_eval gf p v = Some (ungf (peval p (GF v)))"
proof (cases "v = 0")
  case True
  have "peval p 0 = GF (pcoeff p ! 0)"
    by (simp add: peval_def sum.atMost_shift power_0_left)
  with True assms show ?thesis by (simp add: polynomial_eval_def wf_rd_0)
next
  case False
  define body where "body = (\<lambda>i (res, e). do {
          c \<leftarrow> rd (pcoeff p) i;
          res \<leftarrow> (if c \<noteq> 0 then do {
             lc \<leftarrow> rd (flog gf) (unat c);
             p \<leftarrow> field_mul_log_element gf lc e;
             Some (field_add gf res p) } else Some res);
          Some (res, field_mul_log gf e (lg v)) })"
  define P where "P = (\<lambda>i (res, e :: u8). GF res = (\<Sum>k<i. GF (pcoeff p ! k) * GF v ^ k) \<and>
     GF (alpha (unat e)) = GF v ^ i)"
  have "\<exists>s. for_each [0..<porder p + 1] body (0, 255) = Some s \<and> P (porder p + 1) s"
  proof (rule for_range_total)
    show "P 0 (0, 255)" by (simp add: P_def)
    fix i s assume i: "0 \<le> i" "i < porder p + 1" and P: "P i s"
    then have lt: "i < length (pcoeff p)" using assms by (simp add: wf_poly_def)
    obtain res e where s: "s = (res, e)" by (cases s)
    let ?c = "pcoeff p ! i"
    let ?res = "if ?c \<noteq> 0 then field_add gf res (gmul ?c (alpha (unat e))) else res"
    have "body i s = Some (?res, field_mul_log gf e (lg v))"
      using lt by (simp add: body_def s field_mul_log_element_GF)
    moreover have "P (Suc i) (?res, field_mul_log gf e (lg v))"
      using P False lg_props [OF False] by (auto simp: P_def s field_add_GF GF_gmul mult.commute)
    ultimately show "\<exists>s'. body i s = Some s' \<and> P (Suc i) s'" by blast
  qed simp
  then obtain res e where r: "for_each [0..<porder p + 1] body (0, 255) = Some (res, e)"
    "P (porder p + 1) (res, e)" by (metis surj_pair)
  then have "res = ungf (peval p (GF v))"
    by (simp add: P_def peval_def lessThan_Suc_atMost) (metis gf256.sel)
  with False r(1) show ?thesis by (simp add: polynomial_eval_def body_def)
qed

text \<open>The loop of the two table variants: a coefficient that is zero is skipped, every other
  term is looked up with the logarithm \<open>lc i\<close> of the coefficient.\<close>

lemma lut_loop:
  assumes "\<And>i. i \<le> n \<Longrightarrow> \<exists>res'. body i = (\<lambda>res. Some (if a i = 0 then res else field_add gf res (gmul (a i) (alpha (e i)))))"
  shows "for_each [0..<n + 1] body res0 = Some (ungf (GF res0 + (\<Sum>i\<le>n. GF (a i) * GF (alpha (e i)))))"
proof -
  define P where "P = (\<lambda>i res. GF res = GF res0 + (\<Sum>k<i. GF (a k) * GF (alpha (e k))))"
  have "\<exists>s. for_each [0..<n + 1] body res0 = Some s \<and> P (n + 1) s"
  proof (rule for_range_total)
    show "P 0 res0" by (simp add: P_def)
    fix i res assume "0 \<le> i" "i < n + 1" and P: "P i res"
    then have "body i res = Some (if a i = 0 then res else field_add gf res (gmul (a i) (alpha (e i))))"
      using assms [of i] by simp
    moreover have "P (Suc i) (if a i = 0 then res else field_add gf res (gmul (a i) (alpha (e i))))"
      using P by (auto simp: P_def field_add_GF GF_gmul add.assoc)
    ultimately show "\<exists>s'. body i res = Some s' \<and> P (Suc i) s'" by blast
  qed simp
  then show ?thesis by (auto simp: P_def lessThan_Suc_atMost) (metis gf256.sel)
qed

lemma polynomial_eval_lut_spec:
  assumes "wf_poly p" "pow_table v t" "porder p < length t"
  shows "polynomial_eval_lut gf p t = Some (ungf (peval p (GF v)))"
proof (cases "v = 0")
  case True
  have "peval p 0 = GF (pcoeff p ! 0)"
    by (simp add: peval_def sum.atMost_shift power_0_left)
  moreover have "rd t 0 = Some 0" 
  proof -
    have "0 < length t" using assms(3) by linarith
    then show ?thesis using pow_table_0 [OF assms(2)] True by simp
  qed
  ultimately show ?thesis using True assms(1) by (simp add: polynomial_eval_lut_def wf_rd_0)
next
  case False
  have "0 < length t" using assms(3) by linarith
  then have t0: "t ! 0 \<noteq> 0" "0 < length t" using pow_table_0 [OF assms(2)] False by auto
  have "for_each [0..<porder p + 1] (\<lambda>i res. do {
       c \<leftarrow> rd (pcoeff p) i;
       if c \<noteq> 0 then do {
         lc \<leftarrow> rd (flog gf) (unat c);
         v \<leftarrow> rd t i;
         p \<leftarrow> field_mul_log_element gf lc v;
         Some (field_add gf res p) }
       else Some res }) 0 = Some (ungf (GF 0 + (\<Sum>i\<le>porder p. GF (pcoeff p ! i) * GF (alpha (unat (t ! i))))))"
    by (rule lut_loop) (use assms in \<open>auto simp: wf_poly_def field_mul_log_element_GF fun_eq_iff\<close>)
  moreover have "(\<Sum>i\<le>porder p. GF (pcoeff p ! i) * GF (alpha (unat (t ! i)))) = peval p (GF v)"
    unfolding peval_def by (rule sum.cong) (use assms False in \<open>auto simp: pow_table_def\<close>)
  ultimately show ?thesis using t0 by (simp add: polynomial_eval_lut_def)
qed

text \<open>\<open>polynomial_eval_log_lut\<close> takes the logarithms of the coefficients, 0 standing for the
  coefficient 0. It reads entry \<open>i\<close> of the table only where the coefficient is not 0.\<close>

lemma polynomial_eval_log_lut_spec:
  assumes "wf_poly p" "pow_table v t" "0 < length t"
    and log: "wf_poly pl" "porder pl = porder p" "\<And>i. i \<le> porder p \<Longrightarrow> pcoeff pl ! i = lg (pcoeff p ! i)"
    and bnd: "\<And>i. i \<le> porder p \<Longrightarrow> pcoeff p ! i \<noteq> 0 \<Longrightarrow> i < length t"
  shows "polynomial_eval_log_lut gf pl t = Some (ungf (peval p (GF v)))"
proof (cases "v = 0")
  case True
  have "peval p 0 = GF (pcoeff p ! 0)"
    by (simp add: peval_def sum.atMost_shift power_0_left)
  moreover have "t ! 0 = 0" using pow_table_0 [OF assms(2)] assms(3) True by simp
  moreover have "unat (lg (pcoeff p ! 0)) < 512" using unat_u8_lt [of "lg (pcoeff p ! 0)"] by linarith
  ultimately show ?thesis
    using True pow_table_0 [OF assms(2,3)] log(3) [of 0] lg_props [of "pcoeff p ! 0"] wf_rd_0 [OF log(1)]
    by (cases "pcoeff p ! 0 = 0") (simp_all add: polynomial_eval_log_lut_def)
next
  case False
  then have t0: "t ! 0 \<noteq> 0" using pow_table_0 [OF assms(2,3)] by simp
  have z: "lg c = 0 \<longleftrightarrow> c = 0" for c using lg_props(3) lg_0 by blast
  have "for_each [0..<porder pl + 1] (\<lambda>i res. do {
       c \<leftarrow> rd (pcoeff pl) i;
       if c \<noteq> 0 then do {
         v \<leftarrow> rd t i;
         p \<leftarrow> field_mul_log_element gf c v;
         Some (field_add gf res p) }
       else Some res }) 0 = Some (ungf (GF 0 + (\<Sum>i\<le>porder pl. GF (pcoeff p ! i) * GF (alpha (unat (t ! i))))))"
    by (rule lut_loop) (use log bnd in \<open>auto simp: wf_poly_def field_mul_log_element_GF fun_eq_iff z\<close>)
  moreover have "(\<Sum>i\<le>porder pl. GF (pcoeff p ! i) * GF (alpha (unat (t ! i)))) = peval p (GF v)"
    unfolding peval_def log(2)
  proof (rule sum.cong)
    fix i assume "i \<in> {..porder p}"
    then show "GF (pcoeff p ! i) * GF (alpha (unat (t ! i))) = GF (pcoeff p ! i) * GF v ^ i"
      using bnd [of i] assms(2) False by (cases "pcoeff p ! i = 0") (auto simp: pow_table_def)
  qed simp
  ultimately show ?thesis using t0 assms(3) by (simp add: polynomial_eval_log_lut_def)
qed


lemma polynomial_build_exp_lut_spec:
  assumes "length t0 = order + 1"
  shows "\<exists>t. polynomial_build_exp_lut gf v order t0 = Some t \<and> length t = order + 1 \<and> pow_table v t"
proof -
  define body where "body = (\<lambda>i (val_exp, val_exponentiated).
        if v = 0 then do { val_exp \<leftarrow> wr val_exp i 0; Some (val_exp, val_exponentiated) }
        else do {
          val_exp \<leftarrow> wr val_exp i val_exponentiated;
          Some (val_exp, field_mul_log gf val_exponentiated (lg v)) })"
  define P where "P = (\<lambda>n (t :: u8 list, e :: u8). length t = order + 1 \<and>
    (\<forall>i<n. if v = 0 then t ! i = 0 else 1 \<le> unat (t ! i) \<and> GF (alpha (unat (t ! i))) = GF v ^ i) \<and>
    (v \<noteq> 0 \<longrightarrow> 1 \<le> unat e \<and> GF (alpha (unat e)) = GF v ^ n))"
  have "\<exists>s. for_each [0..<order + 1] body (t0, 255) = Some s \<and> P (order + 1) s"
  proof (rule for_range_total)
    show "P 0 (t0, 255)" using assms by (simp add: P_def)
    fix i s assume i: "0 \<le> i" "i < order + 1" and P: "P i s"
    obtain t e where s: "s = (t, e)" by (cases s)
    have lt: "i < length t" using P i by (simp add: P_def s)
    show "\<exists>s'. body i s = Some s' \<and> P (Suc i) s'"
    proof (cases "v = 0")
      case True
      with P lt show ?thesis by (auto simp: body_def s P_def nth_list_update less_Suc_eq)
    next
      case False
      have "P (Suc i) (t[i := e], field_mul_log gf e (lg v))"
        using P lt False lg_props [OF False] field_mul_log_nonzero [of e gf "lg v"]
        by (auto simp: P_def s nth_list_update less_Suc_eq GF_gmul mult.commute)
      with False lt show ?thesis by (simp add: body_def s)
    qed
  qed simp
  then obtain t e where r: "for_each [0..<order + 1] body (t0, 255) = Some (t, e)" "P (order + 1) (t, e)"
    by (metis surj_pair)
  then show ?thesis by (auto simp: polynomial_build_exp_lut_def body_def P_def pow_table_def)
qed

section \<open>The formal derivative\<close>

lemma polynomial_formal_derivative_spec:
  assumes "wf_poly der" "porder der + 1 < length (pcoeff p)" "porder der + 1 < 2 ^ 32"
  shows "\<exists>der'. polynomial_formal_derivative gf p der = Some der' \<and> porder der' = porder der \<and>
    length (pcoeff der') = length (pcoeff der) \<and>
    (\<forall>i\<le>porder der. GF (pcoeff der' ! i) = of_nat (i + 1) * GF (pcoeff p ! (i + 1)))"
proof -
  let ?n = "porder der"
  have m: "(?n + 1) mod 2 ^ 32 = ?n + 1" using assms(3) by simp
  obtain c0 where c0: "fill (pcoeff der) 0 (?n + 1) 0 = Some c0"
    using assms(1) by (simp add: wf_poly_def fill_def)
  have len0: "length c0 = length (pcoeff der)" using fill_length [OF c0] .
  define body where "body = (\<lambda>i c. do {
        a \<leftarrow> rd (pcoeff p) (i + 1);
        wr c i (field_sum gf a (of_nat (i + 1))) })"
  define P where "P = (\<lambda>n c. length c = length (pcoeff der) \<and>
     (\<forall>i<n. GF (c ! i) = of_nat (i + 1) * GF (pcoeff p ! (i + 1))))"
  have "\<exists>c. for_each [0..<?n + 1] body c0 = Some c \<and> P (?n + 1) c"
  proof (rule for_range_total)
    show "P 0 c0" using len0 by (simp add: P_def)
    fix i c assume i: "0 \<le> i" "i < ?n + 1" and P: "P i c"
    then have lt: "i < length c" "i + 1 < length (pcoeff p)" using assms by (auto simp: P_def wf_poly_def)
    let ?v = "field_sum gf (pcoeff p ! (i + 1)) (of_nat (i + 1))"
    have u: "unat (of_nat (i + 1) :: u32) = i + 1"
      using i assms(3) by (intro unat_of_nat_u32) simp
    have v: "GF ?v = of_nat (i + 1) * GF (pcoeff p ! (i + 1))"
      unfolding field_sum_GF u ..
    have "body i c = Some (c[i := ?v])" using lt by (simp add: body_def)
    moreover have "P (Suc i) (c[i := ?v])"
      using P lt v by (auto simp: P_def nth_list_update less_Suc_eq simp del: of_nat_Suc)
    ultimately show "\<exists>s'. body i c = Some s' \<and> P (Suc i) s'" by blast
  qed simp
  then obtain c where c: "for_each [0..<?n + 1] body c0 = Some c" "P (?n + 1) c" by blast
  have "polynomial_formal_derivative gf p der = Some (der\<lparr>pcoeff := c\<rparr>)"
    unfolding polynomial_formal_derivative_def m body_def [symmetric] using c0 c(1) by simp
  with c(2) show ?thesis by (auto simp: P_def)
qed

section \<open>Products of linear factors\<close>

definition root_product :: "u8 list \<Rightarrow> nat \<Rightarrow> gf256 \<Rightarrow> gf256" where
  "root_product roots n x = (\<Prod>k<n. x + GF (roots ! k))"

definition roots_inv :: "nat \<Rightarrow> u8 list \<Rightarrow> nat \<Rightarrow> polynomial_t \<times> polynomial_t list \<times> nat \<Rightarrow> bool" where
  "roots_inv n roots i = (\<lambda>(l, r, rc).
     length (pcoeff l) = 2 \<and> pcoeff l ! 1 = 1 \<and> porder l = 1 \<and>
     length r = 2 \<and> rc < 2 \<and> n < length (pcoeff (r ! 0)) \<and> n < length (pcoeff (r ! 1)) \<and>
     porder (r ! rc) = i \<and> pcoeff (r ! rc) ! i = 1 \<and>
     (\<forall>x. peval (r ! rc) x = root_product roots i x))"

lemma roots_step_inv:
  assumes inv: "roots_inv n roots i s" and i: "1 \<le> i" "i < n" and len: "n \<le> length roots"
  shows "\<exists>s'. roots_step gf roots i s = Some s' \<and> roots_inv n roots (Suc i) s'"
proof -
  obtain l r rc where s: "s = (l, r, rc)" by (cases s)
  note I = inv [unfolded s roots_inv_def, simplified]
  let ?rc = "(rc + 1) mod 2"
  have rc: "rc < length r" "?rc < length r" "rc = 0 \<and> ?rc = 1 \<or> rc = 1 \<and> ?rc = 0"
    using I by (auto simp: less_2_cases_iff)
  let ?l = "l\<lparr>pcoeff := (pcoeff l)[0 := roots ! i]\<rparr>"
  let ?res = "(r ! ?rc)\<lparr>porder := i + 1\<rparr>"
  have wf: "wf_poly ?l" "wf_poly (r ! rc)" "wf_poly ?res"
    using I rc(3) i by (auto simp: wf_poly_def)
  obtain res where res: "polynomial_mul gf ?l (r ! rc) ?res = Some res" "porder res = i + 1"
    "length (pcoeff res) = length (pcoeff (r ! ?rc))"
    "\<forall>k\<le>i + 1. GF (pcoeff res ! k) = mul_cf ?l (r ! rc) k"
    using polynomial_mul_spec [OF wf] by auto
  have ev: "peval res x = root_product roots (Suc i) x" for x
  proof -
    have "peval res x = peval ?l x * peval (r ! rc) x"
      by (rule peval_mul [OF wf _ res(1)]) (use I in simp)
    also have "peval ?l x = x + GF (roots ! i)"
      using I by (simp add: peval_def numeral_2_eq_2 length_Suc_conv) (auto simp: add.commute)
    finally show ?thesis using I by (simp add: root_product_def mult.commute)
  qed
  have lead: "pcoeff res ! (i + 1) = 1"
  proof -
    have "mul_cf ?l (r ! rc) (i + 1) = (\<Sum>k\<in>{1}. cf ?l k * cf (r ! rc) (i + 1 - k))"
      unfolding mul_cf_def
      by (rule sum.mono_neutral_right) (use I in \<open>auto simp: cf_def\<close>)
    also have "\<dots> = 1" using I by (simp add: cf_def)
    finally show ?thesis using res(4) by (metis GF_1 gf256.inject order.refl)
  qed
  have "roots_step gf roots i s = Some (?l, r[?rc := res], ?rc)"
  proof -
    have "rd roots i = Some (roots ! i)" "wr (pcoeff l) 0 (roots ! i) = Some ((pcoeff l)[0 := roots ! i])"
      "rd r rc = Some (r ! rc)" "rd r ?rc = Some (r ! ?rc)" "wr r ?rc res = Some (r[?rc := res])"
      using I i len rc by (auto simp: rd_def wr_def)
    then show ?thesis
      by (simp only: s roots_step_def prod.case Option.bind.simps Let_def res(1))
  qed
  moreover have "roots_inv n roots (Suc i) (?l, r[?rc := res], ?rc)"
    using I rc res ev lead by (auto simp: roots_inv_def nth_list_update)
  ultimately show ?thesis by blast
qed

lemma roots_start_inv:
  assumes "1 \<le> n" "n \<le> length roots" "n < length (pcoeff r0)" "n < length (pcoeff r1)"
    and "length (pcoeff l) = 2" "pcoeff l ! 1 = 1" "porder l = 1"
  shows "\<exists>r0'. roots_start roots r0 = Some r0' \<and> roots_inv n roots 1 (l, [r0', r1], 0)"
proof -
  let ?c = "(pcoeff r0)[1 := 1, 0 := roots ! 0]"
  have ne: "roots \<noteq> []" "pcoeff r0 \<noteq> []" using assms by auto
  then have A: "rd roots 0 = Some (roots ! 0)" "wr ((pcoeff r0)[1 := 1]) 0 (roots ! 0) = Some ?c"
    by (simp_all add: rd_def wr_def)
  have "roots_start roots r0 = Some \<lparr>pcoeff = ?c, porder = 1\<rparr>"
    using assms A by (simp add: roots_start_def)
  moreover have "roots_inv n roots 1 (l, [\<lparr>pcoeff = ?c, porder = 1\<rparr>, r1], 0)"
  proof -
    have "?c ! 0 = roots ! 0" "?c ! 1 = 1" using assms ne by (simp_all add: nth_list_update)
    then show ?thesis using assms by (auto simp: roots_inv_def peval_def root_product_def add.commute)
  qed
  ultimately show ?thesis by blast
qed

lemma roots_loop:
  assumes "roots_inv n roots 1 s" "1 \<le> n" "n \<le> length roots"
  shows "\<exists>l r rc. for_each [1..<n] (roots_step gf roots) s = Some (l, r, rc) \<and> roots_inv n roots n (l, r, rc)"
proof -
  have "\<exists>s'. for_each [1..<n] (roots_step gf roots) s = Some s' \<and> roots_inv n roots n s'"
    by (rule for_range_total [where P = "roots_inv n roots", OF assms(1)])
      (use assms roots_step_inv in auto)
  then show ?thesis by auto
qed

lemma roots_result:
  assumes inv: "roots_inv n roots n (l, r, rc)" and len: "n < length c0"
  shows "\<exists>c. copy_of (pcoeff (r ! rc)) 0 (n + 1) = Some (take (n + 1) (pcoeff (r ! rc))) \<and>
    blit c0 0 (take (n + 1) (pcoeff (r ! rc))) = Some c \<and> length c = length c0 \<and> c ! n = 1 \<and>
    (\<forall>x. peval \<lparr>pcoeff = c, porder = n\<rparr> x = root_product roots n x)"
proof -
  note I = inv [unfolded roots_inv_def, simplified]
  have long: "n < length (pcoeff (r ! rc))" using I by (auto simp: less_2_cases_iff)
  then obtain c where c: "blit c0 0 (take (n + 1) (pcoeff (r ! rc))) = Some c"
    using len by (simp add: blit_def)
  have nth: "c ! i = pcoeff (r ! rc) ! i" if "i \<le> n" for i
    using blit_nth [OF c, of i] long len that by simp
  have "peval \<lparr>pcoeff = c, porder = n\<rparr> x = root_product roots n x" for x
  proof -
    have "peval \<lparr>pcoeff = c, porder = n\<rparr> x = peval (r ! rc) x"
      using I nth by (auto simp: peval_def intro!: sum.cong)
    then show ?thesis using I by simp
  qed
  moreover have "copy_of (pcoeff (r ! rc)) 0 (n + 1) = Some (take (n + 1) (pcoeff (r ! rc)))"
    using long by (simp add: copy_of_def)
  ultimately show ?thesis using c I nth blit_length [OF c] by auto
qed

lemma polynomial_create_from_roots_spec:
  assumes "1 \<le> n" "n \<le> length roots" "n + 1 < 2 ^ 32"
  shows "\<exists>p. polynomial_create_from_roots gf junk n roots = Some p \<and> porder p = n \<and>
    length (pcoeff p) = n + 1 \<and> pcoeff p ! n = 1 \<and> (\<forall>x. peval p x = root_product roots n x)"
proof -
  let ?l = "\<lparr>pcoeff = (replicate 2 0)[1 := 1], porder = 1\<rparr>"
  let ?r = "\<lparr>pcoeff = replicate (n + 1) 0, porder = 0\<rparr>"
  obtain r0 where r0: "roots_start roots ?r = Some r0" "roots_inv n roots 1 (?l, [r0, ?r], 0)"
    using roots_start_inv [of n roots ?r ?r ?l] assms by auto
  from roots_loop [OF r0(2) assms(1,2)] obtain l r rc where
    loop: "for_each [1..<n] (roots_step gf roots) (?l, [r0, ?r], 0) = Some (l, r, rc)"
    "roots_inv n roots n (l, r, rc)" by blast
  have "n < length (malloc junk (n + 1))" by simp
  from roots_result [OF loop(2) this] obtain c where c:
    "copy_of (pcoeff (r ! rc)) 0 (n + 1) = Some (take (n + 1) (pcoeff (r ! rc)))"
    "blit (malloc junk (n + 1)) 0 (take (n + 1) (pcoeff (r ! rc))) = Some c" "length c = n + 1" "c ! n = 1"
    "\<forall>x. peval \<lparr>pcoeff = c, porder = n\<rparr> x = root_product roots n x" by auto
  have "rd r rc = Some (r ! rc)" using loop(2) by (simp add: roots_inv_def)
  then have "polynomial_create_from_roots gf junk n roots = Some \<lparr>pcoeff = c, porder = n\<rparr>"
    using assms(1,3) r0(1) loop(1) c(1,2)
    by (simp add: polynomial_create_from_roots_def polynomial_create_def)
  with c show ?thesis by simp
qed

section \<open>The properties of the field and of the polynomials\<close>

text \<open>C4: the log and exponent tables that \<open>field_create\<close> fills compute the field. Whatever
  the two allocations held, table multiplication agrees with shift-and-reduce multiplication on
  all 65536 pairs of bytes, division by a nonzero byte is its inverse, and division of or by zero
  answers zero.\<close>

theorem field_tables_correct:
  assumes "field_create junk_exp junk_log rs_primitive_polynomial = Some field"
  shows "field_mul field a b = Some (gmul a b) \<and> field_mul field a b = field_mul field b a \<and>
    (\<exists>q. field_div field a b = Some q \<and> (if b = 0 then q = 0 else gmul q b = a))"
proof -
  have f: "field = gf" using assms by (simp add: field_create_gf)
  have "gmul (ungf (GF a / GF b)) b = a" if "b \<noteq> 0"
  proof -
    have "GF (gmul (ungf (GF a / GF b)) b) = GF a" using that by (simp add: GF_gmul)
    then show ?thesis by simp
  qed
  then show ?thesis by (simp add: f field_mul_gf field_div_gf gmul_comm)
qed

theorem field_tables_correct_witness:
  "\<exists>f. field_create (\<lambda>_. 3) (\<lambda>_. 5) rs_primitive_polynomial = Some f \<and>
    field_mul f 2 128 = Some 135 \<and> gmul 2 128 = 135"
proof -
  have g: "gmul 2 128 = 135" by code_simp
  have "field_mul gf 2 128 = Some (gmul 2 128)"
    using field_tables_correct [OF field_create_gf, of 2 128] by (rule conjunct1)
  then show ?thesis using field_create_gf g by simp
qed

text \<open>\<open>polynomial_mod\<close> leaves the remainder: what it writes below the degree of the divisor
  differs from the dividend by a multiple of the divisor, and everything from that degree up to
  the degree of the dividend is zeroed.\<close>

theorem polynomial_mod_remainder:
  assumes "field_create junk_exp junk_log rs_primitive_polynomial = Some field"
    and "porder dd < length (pcoeff dd)" "porder d < length (pcoeff d)" "porder m < length (pcoeff m)"
    and "porder dd \<le> porder m" "1 \<le> porder d" "pcoeff d ! porder d \<noteq> 0"
  shows "\<exists>m' q. polynomial_mod field dd d m = Some m' \<and> length (pcoeff m') = length (pcoeff m) \<and>
    (\<forall>x. peval dd x = (\<Sum>i\<le>porder dd. q i * x ^ i) * peval d x +
      (\<Sum>i\<le>porder dd. GF (pcoeff m' ! i) * x ^ i)) \<and>
    (\<forall>i. porder d \<le> i \<and> i \<le> porder dd \<longrightarrow> pcoeff m' ! i = 0)"
proof -
  have f: "field = gf" using assms(1) by (simp add: field_create_gf)
  obtain m' q where "polynomial_mod gf dd d m = Some m'" "length (pcoeff m') = length (pcoeff m)"
    "\<forall>x. peval dd x = (\<Sum>i\<le>porder dd. q i * x ^ i) * peval d x + meval (porder dd) (pcoeff m') x"
    "\<forall>i. porder d \<le> i \<and> i \<le> porder dd \<longrightarrow> pcoeff m' ! i = 0"
    using polynomial_mod_spec [of dd d m] assms unfolding wf_poly_def by blast
  then show ?thesis unfolding f meval_def by blast
qed

theorem polynomial_mod_remainder_witness:
  "\<exists>f m' q. field_create (\<lambda>_. 0) (\<lambda>_. 0) rs_primitive_polynomial = Some f \<and>
    polynomial_mod f \<lparr>pcoeff = [0, 0, 7, 9], porder = 3\<rparr> \<lparr>pcoeff = [3, 1], porder = 1\<rparr>
      \<lparr>pcoeff = [0, 0, 0, 0], porder = 3\<rparr> = Some m' \<and> pcoeff m' ! 1 = 0 \<and>
    peval \<lparr>pcoeff = [0, 0, 7, 9], porder = 3\<rparr> (GF 3) =
      q * peval \<lparr>pcoeff = [3, 1], porder = 1\<rparr> (GF 3) + (\<Sum>i\<le>3. GF (pcoeff m' ! i) * GF 3 ^ i)"
proof -
  let ?dd = "\<lparr>pcoeff = [0, 0, 7, 9], porder = 3\<rparr>" and ?d = "\<lparr>pcoeff = [3, 1], porder = 1\<rparr>"
  let ?m = "\<lparr>pcoeff = [0, 0, 0, 0], porder = 3\<rparr>"
  obtain m' q where "polynomial_mod gf ?dd ?d ?m = Some m'"
    "\<forall>x. peval ?dd x = (\<Sum>i\<le>porder ?dd. q i * x ^ i) * peval ?d x + (\<Sum>i\<le>porder ?dd. GF (pcoeff m' ! i) * x ^ i)"
    "\<forall>i. porder ?d \<le> i \<and> i \<le> porder ?dd \<longrightarrow> pcoeff m' ! i = 0"
    using polynomial_mod_remainder [OF field_create_gf, of ?dd ?d ?m] by auto
  then show ?thesis using field_create_gf [of "\<lambda>_. 0" "\<lambda>_. 0"] by force
qed

text \<open>C5: the optimised evaluations agree with the plain one. With the table of powers that
  \<open>polynomial_build_exp_lut\<close> makes for a point, \<open>polynomial_eval_lut\<close>, and on the logs of the
  coefficients \<open>polynomial_eval_log_lut\<close>, return what \<open>polynomial_eval\<close> returns, and that is the
  value of the polynomial in the field.\<close>

theorem polynomial_lut_equivalence:
  assumes "field_create junk_exp junk_log rs_primitive_polynomial = Some field"
    and "porder p < length (pcoeff p)" "porder p \<le> n" "length buf = n + 1"
    and "porder pl = porder p" "porder pl < length (pcoeff pl)"
    and "\<forall>i\<le>porder p. rd (flog field) (unat (pcoeff p ! i)) = Some (pcoeff pl ! i)"
  shows "\<exists>table. polynomial_build_exp_lut field v n buf = Some table \<and>
    polynomial_eval_lut field p table = polynomial_eval field p v \<and>
    polynomial_eval_log_lut field pl table = polynomial_eval field p v \<and>
    polynomial_eval field p v = Some (ungf (peval p (GF v)))"
proof -
  have f: "field = gf" using assms(1) by (simp add: field_create_gf)
  obtain t where t: "polynomial_build_exp_lut gf v n buf = Some t" "length t = n + 1" "pow_table v t"
    using polynomial_build_exp_lut_spec [OF assms(4), of v] by blast
  have log: "pcoeff pl ! i = lg (pcoeff p ! i)" if "i \<le> porder p" for i
    using assms(7) that unfolding f by simp
  have "polynomial_eval_log_lut gf pl t = Some (ungf (peval p (GF v)))"
    by (rule polynomial_eval_log_lut_spec [OF _ t(3)]) (use assms(2-6) t(2) log in \<open>auto simp: wf_poly_def\<close>)
  moreover have "polynomial_eval_lut gf p t = Some (ungf (peval p (GF v)))"
    by (rule polynomial_eval_lut_spec [OF _ t(3)]) (use assms(2,3) t(2) in \<open>auto simp: wf_poly_def\<close>)
  ultimately show ?thesis using t(1) polynomial_eval_spec [of p v] assms(2) by (simp add: f wf_poly_def)
qed

theorem polynomial_lut_equivalence_witness:
  "\<exists>f table. field_create (\<lambda>_. 0) (\<lambda>_. 0) rs_primitive_polynomial = Some f \<and>
    polynomial_build_exp_lut f 9 2 [0, 0, 0] = Some table \<and>
    polynomial_eval_lut f \<lparr>pcoeff = [0, 1], porder = 1\<rparr> table = polynomial_eval f \<lparr>pcoeff = [0, 1], porder = 1\<rparr> 9"
proof -
  let ?p = "\<lparr>pcoeff = [0, 1], porder = 1\<rparr>" and ?pl = "\<lparr>pcoeff = [lg 0, lg 1], porder = 1\<rparr>"
  have "rd (flog gf) (unat (pcoeff ?p ! i)) = Some (pcoeff ?pl ! i)" if "i \<le> porder ?p" for i
    using that rd_flog [of "pcoeff ?p ! i"] by (auto simp: le_Suc_eq)
  then show ?thesis
    using polynomial_lut_equivalence [OF field_create_gf, of ?p 2 "[0, 0, 0]" ?pl 9 ] field_create_gf by fastforce
qed

end
