(* ===== verification/ReedSolomonCodec.thy ===== *)
theory ReedSolomonCodec
  imports RsPolynomial
begin

text \<open>
  The Reed-Solomon codec (libcorrect, src/reed-solomon/reed-solomon.c, encode.c, decode.c and
  include/correct/reed-solomon.h) and the wrapper the receiver uses (encoder/ReedSolomon.h).

  \<open>correct_reed_solomon\<close> is the C structure, every buffer a list, a null pointer the empty
  list. \<open>mem\<close> gives the contents of the memory that \<open>malloc\<close> returns (its first argument
  numbers the allocation), so no statement depends on uninitialised bytes. Out parameters
  (\<open>encoded\<close>, \<open>msg\<close>) are returned. \<open>None\<close> is an access outside a buffer.
\<close>

section \<open>The code: reed-solomon.h, reed-solomon.c\<close>

definition size_sub :: "nat \<Rightarrow> nat \<Rightarrow> nat" where
  "size_sub a b = (a + 2 ^ 64 - b) mod 2 ^ 64"

record correct_reed_solomon =
  rs_block_length :: nat
  rs_message_length :: nat
  rs_min_distance :: nat
  rs_first_consecutive_root :: u8
  rs_generator_root_gap :: u8
  rs_field :: field_t
  rs_generator :: polynomial_t
  rs_generator_roots :: "u8 list"
  rs_generator_root_exp :: "u8 list list"
  rs_encoded_polynomial :: polynomial_t
  rs_encoded_remainder :: polynomial_t
  rs_syndromes :: "u8 list"
  rs_modified_syndromes :: "u8 list"
  rs_received_polynomial :: polynomial_t
  rs_error_locator :: polynomial_t
  rs_error_locator_log :: polynomial_t
  rs_erasure_locator :: polynomial_t
  rs_error_roots :: "u8 list"
  rs_error_vals :: "u8 list"
  rs_error_locations :: "u8 list"
  rs_element_exp :: "u8 list list"
  rs_last_error_locator :: polynomial_t
  rs_error_evaluator :: polynomial_t
  rs_error_locator_derivative :: polynomial_t
  rs_init_from_roots_scratch :: "polynomial_t list"
  rs_has_init_decode :: bool

definition no_poly :: polynomial_t where
  "no_poly = \<lparr>pcoeff = [], porder = 0\<rparr>"

definition reed_solomon_build_generator ::
  "field_t \<Rightarrow> (nat \<Rightarrow> u8) \<Rightarrow> nat \<Rightarrow> u8 \<Rightarrow> u8 \<Rightarrow> u8 list \<Rightarrow> (polynomial_t \<times> u8 list) option" where
  "reed_solomon_build_generator field junk nroots fcr root_gap roots = do {
     roots \<leftarrow> for_each [0..<nroots] (\<lambda>i roots. do {
        e \<leftarrow> rd (fexp field) ((unat root_gap * (i + unat fcr)) mod 255);
        wr roots i e }) roots;
     p \<leftarrow> polynomial_create_from_roots field junk nroots roots;
     Some (p, roots)
   }"

definition correct_reed_solomon_create ::
  "(nat \<Rightarrow> nat \<Rightarrow> u8) \<Rightarrow> u16 \<Rightarrow> u8 \<Rightarrow> u8 \<Rightarrow> nat \<Rightarrow> correct_reed_solomon option" where
  "correct_reed_solomon_create mem primitive_polynomial fcr gap num_roots = do {
     f \<leftarrow> field_create (mem 0) (mem 1) primitive_polynomial;
     let block = 255;
     (gen, roots) \<leftarrow> reed_solomon_build_generator f (mem 2) num_roots fcr gap (malloc (mem 3) num_roots);
     Some \<lparr>rs_block_length = block, rs_message_length = size_sub block num_roots, rs_min_distance = num_roots,
       rs_first_consecutive_root = fcr, rs_generator_root_gap = gap, rs_field = f,
       rs_generator = gen, rs_generator_roots = roots, rs_generator_root_exp = [],
       rs_encoded_polynomial = polynomial_create (mem 4) (block - 1),
       rs_encoded_remainder = polynomial_create (mem 5) (block - 1),
       rs_syndromes = [], rs_modified_syndromes = [], rs_received_polynomial = no_poly,
       rs_error_locator = no_poly, rs_error_locator_log = no_poly, rs_erasure_locator = no_poly,
       rs_error_roots = [], rs_error_vals = [], rs_error_locations = [], rs_element_exp = [],
       rs_last_error_locator = no_poly, rs_error_evaluator = no_poly,
       rs_error_locator_derivative = no_poly, rs_init_from_roots_scratch = [no_poly, no_poly],
       rs_has_init_decode = False\<rparr>
   }"

section \<open>The code: encode.c\<close>

definition correct_reed_solomon_encode ::
  "correct_reed_solomon \<Rightarrow> u8 list \<Rightarrow> nat \<Rightarrow> u8 list \<Rightarrow> (int \<times> correct_reed_solomon \<times> u8 list) option" where
  "correct_reed_solomon_encode rs msg msg_length encoded =
    (if msg_length > rs_message_length rs then Some (- 1, rs, encoded)
     else do {
       let pad_length = size_sub (rs_message_length rs) msg_length;
       let order = porder (rs_encoded_polynomial rs);
       c \<leftarrow> for_each [0..<msg_length] (\<lambda>i c. do {
          m \<leftarrow> rd msg i;
          wr c (size_sub order (i + pad_length)) m }) (pcoeff (rs_encoded_polynomial rs));
       c \<leftarrow> fill c (size_sub (order + 1) pad_length) pad_length 0;
       c \<leftarrow> fill c 0 (size_sub (order + 1) (rs_message_length rs)) 0;
       let ep = (rs_encoded_polynomial rs)\<lparr>pcoeff := c\<rparr>;
       er \<leftarrow> polynomial_mod (rs_field rs) ep (rs_generator rs) (rs_encoded_remainder rs);
       let rs = rs\<lparr>rs_encoded_polynomial := ep, rs_encoded_remainder := er\<rparr>;
       encoded \<leftarrow> for_each [0..<msg_length] (\<lambda>i encoded. do {
          m \<leftarrow> rd (pcoeff (rs_encoded_polynomial rs)) (size_sub order (i + pad_length));
          wr encoded i m }) encoded;
       encoded \<leftarrow> for_each [0..<rs_min_distance rs] (\<lambda>i encoded. do {
          r \<leftarrow> rd (pcoeff (rs_encoded_remainder rs)) (size_sub (rs_min_distance rs) (i + 1));
          wr encoded (msg_length + i) r }) encoded;
       Some (int (rs_block_length rs), rs, encoded)
     })"

section \<open>The code: decode.c\<close>

definition reed_solomon_find_syndromes ::
  "field_t \<Rightarrow> polynomial_t \<Rightarrow> u8 list list \<Rightarrow> u8 list \<Rightarrow> nat \<Rightarrow> (bool \<times> u8 list) option" where
  "reed_solomon_find_syndromes field msgpoly generator_root_exp syndromes min_distance = do {
     syndromes \<leftarrow> fill syndromes 0 min_distance 0;
     for_each [0..<min_distance] (\<lambda>i (all_zero, syndromes). do {
        row \<leftarrow> rd generator_root_exp i;
        eval \<leftarrow> polynomial_eval_lut field msgpoly row;
        syndromes \<leftarrow> wr syndromes i eval;
        Some (if eval \<noteq> 0 then False else all_zero, syndromes) }) (True, syndromes)
   }"

text \<open>The locals of \<open>reed_solomon_find_error_locator\<close> and the two locators it works on.\<close>

record bm_state =
  el :: polynomial_t
  lel :: polynomial_t
  numerrors :: nat
  last_discrepancy :: u8
  delay_length :: nat

definition bm_discrepancy :: "correct_reed_solomon \<Rightarrow> nat \<Rightarrow> bm_state \<Rightarrow> u8 option" where
  "bm_discrepancy rs i s = do {
     d \<leftarrow> rd (rs_syndromes rs) i;
     for_each [1..<numerrors s + 1] (\<lambda>j d. do {
        c \<leftarrow> rd (pcoeff (el s)) j;
        y \<leftarrow> rd (rs_syndromes rs) (i - j);
        p \<leftarrow> field_mul (rs_field rs) c y;
        Some (field_add (rs_field rs) d p) }) d
   }"

definition bm_lengthen :: "correct_reed_solomon \<Rightarrow> nat \<Rightarrow> u8 \<Rightarrow> bm_state \<Rightarrow> bm_state option" where
  "bm_lengthen rs i discrepancy s = do {
     let delay = delay_length s;
     lc \<leftarrow> for_each (rev [0..<porder (lel s) + 1]) (\<lambda>j lc. do {
        c \<leftarrow> rd lc j;
        m \<leftarrow> field_mul (rs_field rs) c discrepancy;
        v \<leftarrow> field_div (rs_field rs) m (last_discrepancy s);
        wr lc (j + delay) v }) (pcoeff (lel s));
     lc \<leftarrow> for_each (rev [0..<delay]) (\<lambda>j lc. wr lc j 0) lc;
     (ec, lc) \<leftarrow> for_each [0..<porder (lel s) + delay + 1] (\<lambda>j (ec, lc). do {
        temp \<leftarrow> rd ec j;
        l \<leftarrow> rd lc j;
        ec \<leftarrow> wr ec j (field_add (rs_field rs) temp l);
        lc \<leftarrow> wr lc j temp;
        Some (ec, lc) }) (pcoeff (el s), lc);
     let temp_order = porder (el s);
     Some \<lparr>el = \<lparr>pcoeff = ec, porder = porder (lel s) + delay\<rparr>,
           lel = \<lparr>pcoeff = lc, porder = temp_order\<rparr>,
           numerrors = i + 1 - numerrors s,
           last_discrepancy = discrepancy,
           delay_length = 1\<rparr>
   }"

definition bm_adjust :: "correct_reed_solomon \<Rightarrow> u8 \<Rightarrow> bm_state \<Rightarrow> bm_state option" where
  "bm_adjust rs discrepancy s = do {
     let delay = delay_length s;
     ec \<leftarrow> for_each (rev [0..<porder (lel s) + 1]) (\<lambda>j ec. do {
        e \<leftarrow> rd ec (j + delay);
        c \<leftarrow> rd (pcoeff (lel s)) j;
        m \<leftarrow> field_mul (rs_field rs) c discrepancy;
        v \<leftarrow> field_div (rs_field rs) m (last_discrepancy s);
        wr ec (j + delay) (field_add (rs_field rs) e v) }) (pcoeff (el s));
     let order = (if porder (lel s) + delay > porder (el s) then porder (lel s) + delay else porder (el s));
     Some (s\<lparr>el := \<lparr>pcoeff = ec, porder = order\<rparr>, delay_length := delay + 1\<rparr>)
   }"

definition bm_step :: "correct_reed_solomon \<Rightarrow> nat \<Rightarrow> bm_state \<Rightarrow> bm_state option" where
  "bm_step rs i s = do {
     discrepancy \<leftarrow> bm_discrepancy rs i s;
     if discrepancy = 0 then Some (s\<lparr>delay_length := delay_length s + 1\<rparr>)
     else if 2 * numerrors s \<le> i then bm_lengthen rs i discrepancy s
     else bm_adjust rs discrepancy s
   }"

definition reed_solomon_find_error_locator ::
  "correct_reed_solomon \<Rightarrow> nat \<Rightarrow> (nat \<times> correct_reed_solomon) option" where
  "reed_solomon_find_error_locator rs num_erasures = do {
     ec \<leftarrow> fill (pcoeff (rs_error_locator rs)) 0 (rs_min_distance rs + 1) 0;
     ec \<leftarrow> wr ec 0 1;
     src \<leftarrow> copy_of ec 0 (rs_min_distance rs + 1);
     lc \<leftarrow> blit (pcoeff (rs_last_error_locator rs)) 0 src;
     s \<leftarrow> for_each [0..<size_sub (rs_min_distance rs) num_erasures] (bm_step rs)
        \<lparr>el = \<lparr>pcoeff = ec, porder = 0\<rparr>, lel = \<lparr>pcoeff = lc, porder = 0\<rparr>,
         numerrors = 0, last_discrepancy = 1, delay_length = 1\<rparr>;
     Some (porder (el s), rs\<lparr>rs_error_locator := el s, rs_last_error_locator := lel s\<rparr>)
   }"

definition reed_solomon_factorize_error_locator ::
  "field_t \<Rightarrow> nat \<Rightarrow> polynomial_t \<Rightarrow> u8 list \<Rightarrow> u8 list list \<Rightarrow> (bool \<times> u8 list) option" where
  "reed_solomon_factorize_error_locator field num_skip locator_log roots element_exp = do {
     roots \<leftarrow> fill roots num_skip (porder locator_log) 0;
     (root, roots) \<leftarrow> for_each [0..<256] (\<lambda>i (root, roots). do {
        row \<leftarrow> rd element_exp i;
        v \<leftarrow> polynomial_eval_log_lut field locator_log row;
        if v = 0 then do { roots \<leftarrow> wr roots root (of_nat i); Some (root + 1, roots) }
        else Some (root, roots) }) (num_skip, roots);
     Some (root = porder locator_log + num_skip, roots)
   }"

definition reed_solomon_find_error_evaluator ::
  "field_t \<Rightarrow> polynomial_t \<Rightarrow> polynomial_t \<Rightarrow> polynomial_t \<Rightarrow> polynomial_t option" where
  "reed_solomon_find_error_evaluator field locator syndromes error_evaluator =
     polynomial_mul field locator syndromes error_evaluator"

definition find_error_value :: "correct_reed_solomon \<Rightarrow> nat \<Rightarrow> u8 list \<Rightarrow> u8 list option" where
  "find_error_value rs i vals = do {
     root \<leftarrow> rd (rs_error_roots rs) i;
     if root = 0 then Some vals
     else do {
       row \<leftarrow> rd (rs_element_exp rs) (unat root);
       p \<leftarrow> field_pow (rs_field rs) root (int (unat (rs_first_consecutive_root rs)) - 1);
       w \<leftarrow> polynomial_eval_lut (rs_field rs) (rs_error_evaluator rs) row;
       d \<leftarrow> polynomial_eval_lut (rs_field rs) (rs_error_locator_derivative rs) row;
       q \<leftarrow> field_div (rs_field rs) w d;
       v \<leftarrow> field_mul (rs_field rs) p q;
       wr vals i v
     }
   }"

definition reed_solomon_find_error_values :: "correct_reed_solomon \<Rightarrow> correct_reed_solomon option" where
  "reed_solomon_find_error_values rs = do {
     let syndrome_poly = \<lparr>pcoeff = rs_syndromes rs, porder = uint_sub (rs_min_distance rs) 1\<rparr>;
     oc \<leftarrow> fill (pcoeff (rs_error_evaluator rs)) 0 ((porder (rs_error_evaluator rs) + 1) mod 2 ^ 32) 0;
     omega \<leftarrow> reed_solomon_find_error_evaluator (rs_field rs) (rs_error_locator rs) syndrome_poly
        ((rs_error_evaluator rs)\<lparr>pcoeff := oc\<rparr>);
     der \<leftarrow> polynomial_formal_derivative (rs_field rs) (rs_error_locator rs)
        ((rs_error_locator_derivative rs)\<lparr>porder := uint_sub (porder (rs_error_locator rs)) 1\<rparr>);
     let rs = rs\<lparr>rs_error_evaluator := omega, rs_error_locator_derivative := der\<rparr>;
     vals \<leftarrow> for_each [0..<porder (rs_error_locator rs)] (find_error_value rs) (rs_error_vals rs);
     Some (rs\<lparr>rs_error_vals := vals\<rparr>)
   }"

text \<open>The inner loop of \<open>reed_solomon_find_error_locations\<close>: the first byte whose power is the
  location gives the index, and the loop breaks.\<close>

fun find_location :: "field_t \<Rightarrow> u8 \<Rightarrow> u8 \<Rightarrow> nat list \<Rightarrow> u8 option option" where
  "find_location field gap loc [] = Some None"
| "find_location field gap loc (j # js) = do {
     p \<leftarrow> field_pow field (of_nat j) (int (unat gap));
     if p = loc then do { l \<leftarrow> rd (flog field) j; Some (Some l) }
     else find_location field gap loc js
   }"

definition reed_solomon_find_error_locations ::
  "field_t \<Rightarrow> u8 \<Rightarrow> u8 list \<Rightarrow> u8 list \<Rightarrow> nat \<Rightarrow> nat \<Rightarrow> u8 list option" where
  "reed_solomon_find_error_locations field gap error_roots error_locations num_errors num_skip =
     for_each [0..<num_errors] (\<lambda>i locations. do {
       root \<leftarrow> rd error_roots i;
       if root = 0 then Some locations
       else do {
         loc \<leftarrow> field_div field 1 root;
         found \<leftarrow> find_location field gap loc [0..<256];
         (case found of None \<Rightarrow> Some locations | Some l \<Rightarrow> wr locations i l)
       } }) error_locations"

definition reed_solomon_find_error_roots_from_locations ::
  "field_t \<Rightarrow> u8 \<Rightarrow> u8 list \<Rightarrow> u8 list \<Rightarrow> nat \<Rightarrow> u8 list option" where
  "reed_solomon_find_error_roots_from_locations field gap error_locations error_roots num_errors =
     for_each [0..<num_errors] (\<lambda>i roots. do {
       l \<leftarrow> rd error_locations i;
       e \<leftarrow> rd (fexp field) (unat l);
       loc \<leftarrow> field_pow field e (int (unat gap));
       root \<leftarrow> field_div field 1 loc;
       wr roots i root }) error_roots"

definition reed_solomon_find_error_locator_from_roots ::
  "field_t \<Rightarrow> (nat \<Rightarrow> u8) \<Rightarrow> nat \<Rightarrow> u8 list \<Rightarrow> polynomial_t \<Rightarrow> polynomial_t list \<Rightarrow>
   (polynomial_t \<times> polynomial_t list) option" where
  "reed_solomon_find_error_locator_from_roots field junk num_errors error_roots error_locator scratch =
     polynomial_init_from_roots field junk num_errors error_roots error_locator scratch"

definition reed_solomon_find_modified_syndromes ::
  "correct_reed_solomon \<Rightarrow> u8 list \<Rightarrow> polynomial_t \<Rightarrow> u8 list \<Rightarrow> u8 list option" where
  "reed_solomon_find_modified_syndromes rs syndromes error_locator modified_syndromes = do {
     let syndrome_poly = \<lparr>pcoeff = syndromes, porder = uint_sub (rs_min_distance rs) 1\<rparr>;
     let modified = \<lparr>pcoeff = modified_syndromes, porder = uint_sub (rs_min_distance rs) 1\<rparr>;
     modified \<leftarrow> polynomial_mul (rs_field rs) error_locator syndrome_poly modified;
     Some (pcoeff modified)
   }"

definition build_exp_rows ::
  "field_t \<Rightarrow> (nat \<Rightarrow> u8) \<Rightarrow> nat \<Rightarrow> nat \<Rightarrow> u8 list \<Rightarrow> u8 list list option" where
  "build_exp_rows field junk row_length order vals =
     for_each [0..<length vals] (\<lambda>i rows. do {
       row \<leftarrow> polynomial_build_exp_lut field (vals ! i) order (malloc junk row_length);
       Some (rows @ [row]) }) []"

definition correct_reed_solomon_decoder_create ::
  "(nat \<Rightarrow> nat \<Rightarrow> u8) \<Rightarrow> correct_reed_solomon \<Rightarrow> correct_reed_solomon option" where
  "correct_reed_solomon_decoder_create mem rs = do {
     let md = rs_min_distance rs;
     root_exp \<leftarrow> build_exp_rows (rs_field rs) (mem 17) (rs_block_length rs) (rs_block_length rs - 1)
        (take md (rs_generator_roots rs));
     elem_exp \<leftarrow> build_exp_rows (rs_field rs) (mem 18) md (uint_sub md 1) (map of_nat [0..<256]);
     Some (rs\<lparr>rs_has_init_decode := True,
       rs_syndromes := replicate md 0,
       rs_modified_syndromes := replicate (2 * md) 0,
       rs_received_polynomial := polynomial_create (mem 6) (rs_block_length rs - 1),
       rs_error_locator := polynomial_create (mem 7) md,
       rs_error_locator_log := polynomial_create (mem 8) md,
       rs_erasure_locator := polynomial_create (mem 9) md,
       rs_error_roots := replicate (2 * md) 0,
       rs_error_vals := malloc (mem 10) md,
       rs_error_locations := malloc (mem 11) md,
       rs_last_error_locator := polynomial_create (mem 12) md,
       rs_error_evaluator := polynomial_create (mem 13) (uint_sub md 1),
       rs_error_locator_derivative := polynomial_create (mem 14) (uint_sub md 1),
       rs_generator_root_exp := root_exp,
       rs_element_exp := elem_exp,
       rs_init_from_roots_scratch := [polynomial_create (mem 15) md, polynomial_create (mem 16) md]\<rparr>)
   }"


text \<open>Both decoders copy the received bytes in, reversed and padded, and copy the message out.\<close>

definition rs_receive :: "u8 list \<Rightarrow> nat \<Rightarrow> nat \<Rightarrow> polynomial_t \<Rightarrow> polynomial_t option" where
  "rs_receive encoded encoded_length pad_length received = do {
     c \<leftarrow> for_each [0..<encoded_length] (\<lambda>i c. do {
        e \<leftarrow> rd encoded (size_sub encoded_length (i + 1));
        wr c i e }) (pcoeff received);
     c \<leftarrow> for_each [0..<pad_length] (\<lambda>i c. wr c (i + encoded_length) 0) c;
     Some (received\<lparr>pcoeff := c\<rparr>)
   }"

definition rs_emit :: "polynomial_t \<Rightarrow> nat \<Rightarrow> nat \<Rightarrow> u8 list \<Rightarrow> u8 list option" where
  "rs_emit received encoded_length msg_length msg =
     for_each [0..<msg_length] (\<lambda>i msg. do {
       c \<leftarrow> rd (pcoeff received) (size_sub encoded_length (i + 1));
       wr msg i c }) msg"

text \<open>The logarithms of the locator's coefficients, and the correction of the received word.\<close>

definition rs_locator_log :: "correct_reed_solomon \<Rightarrow> polynomial_t option" where
  "rs_locator_log rs = do {
     c \<leftarrow> for_each [0..<porder (rs_error_locator rs) + 1] (\<lambda>i c. do {
        e \<leftarrow> rd (pcoeff (rs_error_locator rs)) i;
        l \<leftarrow> rd (flog (rs_field rs)) (unat e);
        wr c i l }) (pcoeff (rs_error_locator_log rs));
     Some \<lparr>pcoeff = c, porder = porder (rs_error_locator rs)\<rparr>
   }"

definition rs_correct :: "correct_reed_solomon \<Rightarrow> polynomial_t option" where
  "rs_correct rs = do {
     c \<leftarrow> for_each [0..<porder (rs_error_locator rs)] (\<lambda>i c. do {
        at \<leftarrow> rd (rs_error_locations rs) i;
        old \<leftarrow> rd c (unat at);
        v \<leftarrow> rd (rs_error_vals rs) i;
        wr c (unat at) (field_sub (rs_field rs) old v) }) (pcoeff (rs_received_polynomial rs));
     Some ((rs_received_polynomial rs)\<lparr>pcoeff := c\<rparr>)
   }"

definition rs_ready :: "(nat \<Rightarrow> nat \<Rightarrow> u8) \<Rightarrow> correct_reed_solomon \<Rightarrow> correct_reed_solomon option" where
  "rs_ready mem rs =
     (if \<not> rs_has_init_decode rs then correct_reed_solomon_decoder_create mem rs else Some rs)"

definition correct_reed_solomon_decode ::
  "(nat \<Rightarrow> nat \<Rightarrow> u8) \<Rightarrow> correct_reed_solomon \<Rightarrow> u8 list \<Rightarrow> nat \<Rightarrow> u8 list \<Rightarrow>
   (int \<times> correct_reed_solomon \<times> u8 list) option" where
  "correct_reed_solomon_decode mem rs encoded encoded_length msg =
    (if encoded_length > rs_block_length rs then Some (- 1, rs, msg)
     else do {
       let msg_length = size_sub encoded_length (rs_min_distance rs);
       let pad_length = size_sub (rs_block_length rs) encoded_length;
       rs \<leftarrow> rs_ready mem rs;
       received \<leftarrow> rs_receive encoded encoded_length pad_length (rs_received_polynomial rs);
       let rs = rs\<lparr>rs_received_polynomial := received\<rparr>;
       (all_zero, syn) \<leftarrow> reed_solomon_find_syndromes (rs_field rs) (rs_received_polynomial rs)
          (rs_generator_root_exp rs) (rs_syndromes rs) (rs_min_distance rs);
       let rs = rs\<lparr>rs_syndromes := syn\<rparr>;
       if all_zero then do {
         msg \<leftarrow> rs_emit (rs_received_polynomial rs) encoded_length msg_length msg;
         Some (int msg_length, rs, msg) }
       else do {
         (order, rs) \<leftarrow> reed_solomon_find_error_locator rs 0;
         let rs = rs\<lparr>rs_error_locator := (rs_error_locator rs)\<lparr>porder := order\<rparr>\<rparr>;
         lg \<leftarrow> rs_locator_log rs;
         let rs = rs\<lparr>rs_error_locator_log := lg\<rparr>;
         (ok, roots) \<leftarrow> reed_solomon_factorize_error_locator (rs_field rs) 0 (rs_error_locator_log rs)
            (rs_error_roots rs) (rs_element_exp rs);
         let rs = rs\<lparr>rs_error_roots := roots\<rparr>;
         if \<not> ok then Some (- 1, rs, msg)
         else do {
           locations \<leftarrow> reed_solomon_find_error_locations (rs_field rs) (rs_generator_root_gap rs)
              (rs_error_roots rs) (rs_error_locations rs) (porder (rs_error_locator rs)) 0;
           rs \<leftarrow> reed_solomon_find_error_values (rs\<lparr>rs_error_locations := locations\<rparr>);
           received \<leftarrow> rs_correct rs;
           let rs = rs\<lparr>rs_received_polynomial := received\<rparr>;
           msg \<leftarrow> rs_emit (rs_received_polynomial rs) encoded_length msg_length msg;
           Some (int msg_length, rs, msg)
         }
       }
     })"

definition correct_reed_solomon_decode_with_erasures ::
  "(nat \<Rightarrow> nat \<Rightarrow> u8) \<Rightarrow> correct_reed_solomon \<Rightarrow> u8 list \<Rightarrow> nat \<Rightarrow> u8 list \<Rightarrow> nat \<Rightarrow> u8 list \<Rightarrow>
   (int \<times> correct_reed_solomon \<times> u8 list) option" where
  "correct_reed_solomon_decode_with_erasures mem rs encoded encoded_length erasure_locations erasure_length msg =
    (if erasure_length = 0 then correct_reed_solomon_decode mem rs encoded encoded_length msg
     else if encoded_length > rs_block_length rs then Some (- 1, rs, msg)
     else if erasure_length > rs_min_distance rs then Some (- 1, rs, msg)
     else do {
       let msg_length = size_sub encoded_length (rs_min_distance rs);
       let pad_length = size_sub (rs_block_length rs) encoded_length;
       rs \<leftarrow> rs_ready mem rs;
       received \<leftarrow> rs_receive encoded encoded_length pad_length (rs_received_polynomial rs);
       let rs = rs\<lparr>rs_received_polynomial := received\<rparr>;
       locations \<leftarrow> for_each [0..<erasure_length] (\<lambda>i locations. do {
          e \<leftarrow> rd erasure_locations i;
          wr locations i (of_nat (size_sub (rs_block_length rs) (unat e + pad_length + 1))) })
          (rs_error_locations rs);
       roots \<leftarrow> reed_solomon_find_error_roots_from_locations (rs_field rs) (rs_generator_root_gap rs)
          locations (rs_error_roots rs) erasure_length;
       (erasures, scratch) \<leftarrow> reed_solomon_find_error_locator_from_roots (rs_field rs) (mem 19) erasure_length
          roots (rs_erasure_locator rs) (rs_init_from_roots_scratch rs);
       let rs = rs\<lparr>rs_error_locations := locations, rs_error_roots := roots,
          rs_erasure_locator := erasures, rs_init_from_roots_scratch := scratch\<rparr>;
       (all_zero, syn) \<leftarrow> reed_solomon_find_syndromes (rs_field rs) (rs_received_polynomial rs)
          (rs_generator_root_exp rs) (rs_syndromes rs) (rs_min_distance rs);
       let rs = rs\<lparr>rs_syndromes := syn\<rparr>;
       if all_zero then do {
         msg \<leftarrow> rs_emit (rs_received_polynomial rs) encoded_length msg_length msg;
         Some (int msg_length, rs, msg) }
       else do {
         modified \<leftarrow> reed_solomon_find_modified_syndromes rs (rs_syndromes rs) (rs_erasure_locator rs)
            (rs_modified_syndromes rs);
         let rs = rs\<lparr>rs_modified_syndromes := modified\<rparr>;
         syndrome_copy \<leftarrow> copy_of (rs_syndromes rs) 0 (rs_min_distance rs);
         syn \<leftarrow> for_each [erasure_length..<rs_min_distance rs] (\<lambda>i syn. do {
            m \<leftarrow> rd (rs_modified_syndromes rs) i;
            wr syn (i - erasure_length) m }) (rs_syndromes rs);
         (order, rs) \<leftarrow> reed_solomon_find_error_locator (rs\<lparr>rs_syndromes := syn\<rparr>) erasure_length;
         let rs = rs\<lparr>rs_error_locator := (rs_error_locator rs)\<lparr>porder := order\<rparr>\<rparr>;
         lg \<leftarrow> rs_locator_log rs;
         let rs = rs\<lparr>rs_error_locator_log := lg\<rparr>;
         (ok, roots) \<leftarrow> reed_solomon_factorize_error_locator (rs_field rs) erasure_length (rs_error_locator_log rs)
            (rs_error_roots rs) (rs_element_exp rs);
         let rs = rs\<lparr>rs_error_roots := roots\<rparr>;
         if \<not> ok then Some (- 1, rs, msg)
         else do {
           temp_poly \<leftarrow> polynomial_mul (rs_field rs) (rs_erasure_locator rs) (rs_error_locator rs)
              (polynomial_create (mem 20) (porder (rs_error_locator rs) + erasure_length));
           let placeholder_poly = rs_error_locator rs;
           let rs = rs\<lparr>rs_error_locator := temp_poly\<rparr>;
           locations \<leftarrow> reed_solomon_find_error_locations (rs_field rs) (rs_generator_root_gap rs)
              (rs_error_roots rs) (rs_error_locations rs) (porder (rs_error_locator rs)) erasure_length;
           syn \<leftarrow> blit (rs_syndromes rs) 0 syndrome_copy;
           rs \<leftarrow> reed_solomon_find_error_values (rs\<lparr>rs_error_locations := locations, rs_syndromes := syn\<rparr>);
           received \<leftarrow> rs_correct rs;
           let rs = rs\<lparr>rs_received_polynomial := received, rs_error_locator := placeholder_poly\<rparr>;
           msg \<leftarrow> rs_emit (rs_received_polynomial rs) encoded_length msg_length msg;
           Some (int msg_length, rs, msg)
         }
       }
     })"

section \<open>The code: ReedSolomon.h\<close>

record ReedSolomon =
  rsw_rs :: correct_reed_solomon
  rsw_parityBytes :: nat

definition ReedSolomon_create :: "(nat \<Rightarrow> nat \<Rightarrow> u8) \<Rightarrow> nat \<Rightarrow> ReedSolomon option" where
  "ReedSolomon_create mem parity_bytes = do {
     rs \<leftarrow> correct_reed_solomon_create mem rs_primitive_polynomial 1 1 parity_bytes;
     Some \<lparr>rsw_rs = rs, rsw_parityBytes = parity_bytes\<rparr>
   }"

definition ReedSolomon_encode ::
  "ReedSolomon \<Rightarrow> u8 list \<Rightarrow> nat \<Rightarrow> u8 list \<Rightarrow> (int \<times> ReedSolomon \<times> u8 list) option" where
  "ReedSolomon_encode w msg msg_length encoded = do {
     (n, rs, encoded) \<leftarrow> correct_reed_solomon_encode (rsw_rs w) msg msg_length encoded;
     Some (n, w\<lparr>rsw_rs := rs\<rparr>, encoded)
   }"

definition ReedSolomon_decode ::
  "(nat \<Rightarrow> nat \<Rightarrow> u8) \<Rightarrow> ReedSolomon \<Rightarrow> u8 list \<Rightarrow> nat \<Rightarrow> u8 list \<Rightarrow> (int \<times> ReedSolomon \<times> u8 list) option" where
  "ReedSolomon_decode mem w encoded encoded_length msg = do {
     (n, rs, msg) \<leftarrow> correct_reed_solomon_decode mem (rsw_rs w) encoded encoded_length msg;
     Some (n, w\<lparr>rsw_rs := rs\<rparr>, msg)
   }"

section \<open>The structure after creation\<close>

text \<open>\<open>rs_ok t rs\<close>: an encoder and decoder for \<open>t\<close> parity bytes with the first root \<open>alpha\<close> and
  gap 1, as the wrapper creates it, with any contents in its working buffers.\<close>

definition gen_root :: "nat \<Rightarrow> gf256" where
  "gen_root i = GF (alpha (i + 1))"

definition rs_enc_ok :: "nat \<Rightarrow> correct_reed_solomon \<Rightarrow> bool" where
  "rs_enc_ok t rs \<longleftrightarrow>
     1 \<le> t \<and> t < 255 \<and> rs_field rs = gf \<and> rs_block_length rs = 255 \<and> rs_min_distance rs = t \<and>
     rs_message_length rs = 255 - t \<and> rs_first_consecutive_root rs = 1 \<and> rs_generator_root_gap rs = 1 \<and>
     length (rs_generator_roots rs) = t \<and> (\<forall>i<t. GF (rs_generator_roots rs ! i) = gen_root i) \<and>
     porder (rs_generator rs) = t \<and> length (pcoeff (rs_generator rs)) = t + 1 \<and>
     pcoeff (rs_generator rs) ! t = 1 \<and>
     (\<forall>x. peval (rs_generator rs) x = (\<Prod>i<t. x + gen_root i)) \<and>
     porder (rs_encoded_polynomial rs) = 254 \<and> length (pcoeff (rs_encoded_polynomial rs)) = 255 \<and>
     porder (rs_encoded_remainder rs) = 254 \<and> length (pcoeff (rs_encoded_remainder rs)) = 255"

definition rs_dec_ok :: "nat \<Rightarrow> correct_reed_solomon \<Rightarrow> bool" where
  "rs_dec_ok t rs \<longleftrightarrow>
     length (rs_syndromes rs) = t \<and> length (rs_modified_syndromes rs) = 2 * t \<and>
     porder (rs_received_polynomial rs) = 254 \<and> length (pcoeff (rs_received_polynomial rs)) = 255 \<and>
     length (pcoeff (rs_error_locator rs)) = t + 1 \<and> length (pcoeff (rs_error_locator_log rs)) = t + 1 \<and>
     length (pcoeff (rs_erasure_locator rs)) = t + 1 \<and> length (pcoeff (rs_last_error_locator rs)) = t + 1 \<and>
     length (rs_error_roots rs) = 2 * t \<and> length (rs_error_vals rs) = t \<and> length (rs_error_locations rs) = t \<and>
     length (rs_generator_root_exp rs) = t \<and>
     (\<forall>i<t. length (rs_generator_root_exp rs ! i) = 255 \<and>
        pow_table (rs_generator_roots rs ! i) (rs_generator_root_exp rs ! i)) \<and>
     length (rs_element_exp rs) = 256 \<and>
     (\<forall>i<256. length (rs_element_exp rs ! i) = t \<and> pow_table (of_nat i) (rs_element_exp rs ! i)) \<and>
     porder (rs_error_evaluator rs) = t - 1 \<and> length (pcoeff (rs_error_evaluator rs)) = t \<and>
     length (pcoeff (rs_error_locator_derivative rs)) = t \<and>
     length (rs_init_from_roots_scratch rs) = 2 \<and>
     (\<forall>p\<in>set (rs_init_from_roots_scratch rs). length (pcoeff p) = t + 1)"

definition rs_ok :: "nat \<Rightarrow> correct_reed_solomon \<Rightarrow> bool" where
  "rs_ok t rs \<longleftrightarrow> rs_enc_ok t rs \<and> (rs_has_init_decode rs \<longrightarrow> rs_dec_ok t rs)"


named_theorems rs_facts "the fields of a codec that is in order"

lemma rs_enc_okD [rs_facts]:
  assumes "rs_enc_ok t rs"
  shows "rs_field rs = gf" "rs_block_length rs = 255" "rs_min_distance rs = t"
    "rs_message_length rs = 255 - t" "rs_first_consecutive_root rs = 1" "rs_generator_root_gap rs = 1"
    "length (rs_generator_roots rs) = t" "porder (rs_generator rs) = t"
    "length (pcoeff (rs_generator rs)) = t + 1" "pcoeff (rs_generator rs) ! t = 1"
    "porder (rs_encoded_polynomial rs) = 254" "length (pcoeff (rs_encoded_polynomial rs)) = 255"
    "porder (rs_encoded_remainder rs) = 254" "length (pcoeff (rs_encoded_remainder rs)) = 255"
    "1 \<le> t" "t < 255"
  using assms by (simp_all add: rs_enc_ok_def)

lemma size_sub_le [simp]: "b \<le> a \<Longrightarrow> a < 2 ^ 64 \<Longrightarrow> size_sub a b = a - b"
proof -
  assume "b \<le> a" "a < 2 ^ 64"
  then have "(a + 2 ^ 64 - b) mod 2 ^ 64 = (a - b + 2 ^ 64) mod 2 ^ 64" by simp
  also have "\<dots> = a - b" using \<open>a < 2 ^ 64\<close> by simp
  finally show ?thesis by (simp add: size_sub_def)
qed

declare uint_sub_le [simp]

text \<open>A loop that writes entry \<open>i\<close> of an array from \<open>i\<close> alone.\<close>

lemma for_each_write:
  assumes "n + off \<le> length c0" and "\<And>i c. i < n \<Longrightarrow> length c = length c0 \<Longrightarrow> f i c = wr c (i + off) (g i)"
  shows "for_each [0..<n] f c0 = Some (take off c0 @ map g [0..<n] @ drop (n + off) c0)"
proof -
  define P where "P = (\<lambda>m c. c = take off c0 @ map g [0..<m] @ drop (m + off) c0)"
  have "\<exists>c. for_each [0..<n] f c0 = Some c \<and> P n c"
  proof (rule for_range_total)
    show "P 0 c0" by (simp add: P_def)
    fix i c assume i: "0 \<le> i" "i < n" and "P i c"
    then have c: "c = take off c0 @ map g [0..<i] @ drop (i + off) c0" by (simp add: P_def)
    have len: "length c = length c0" using c assms(1) i by simp
    have at: "i + off < length c0" using i assms(1) by simp
    have "c[i + off := g i] = take off c0 @ map g [0..<Suc i] @ drop (Suc i + off) c0"
    proof -
      have "drop (i + off) c0 = c0 ! (i + off) # drop (Suc (i + off)) c0"
        using at by (simp add: Cons_nth_drop_Suc)
      then show ?thesis using at by (simp add: c list_update_append)
    qed
    with assms(2) [OF i(2) len] at len show "\<exists>s'. f i c = Some s' \<and> P (Suc i) s'"
      by (simp add: P_def)
  qed simp
  then show ?thesis by (simp add: P_def)
qed

section \<open>Creation\<close>

lemma build_generator_ok:
  assumes "1 \<le> t" "t < 255" "length r0 = t"
  shows "\<exists>p roots. reed_solomon_build_generator gf junk t 1 1 r0 = Some (p, roots) \<and>
    length roots = t \<and> (\<forall>i<t. GF (roots ! i) = gen_root i) \<and> porder p = t \<and>
    length (pcoeff p) = t + 1 \<and> pcoeff p ! t = 1 \<and> (\<forall>x. peval p x = (\<Prod>i<t. x + gen_root i))"
proof -
  have "for_each [0..<t] (\<lambda>i roots. do {
        e \<leftarrow> rd (fexp gf) ((unat (1 :: u8) * (i + unat (1 :: u8))) mod 255);
        wr roots i e }) r0 = Some (take 0 r0 @ map (\<lambda>i. alpha (i + 1)) [0..<t] @ drop (t + 0) r0)"
    (is "_ = Some ?roots")
    by (rule for_each_write) (use assms in simp_all)
  moreover have R: "length ?roots = t" "\<forall>i<t. GF (?roots ! i) = gen_root i"
    using assms by (simp_all add: gen_root_def)
  moreover obtain p where "polynomial_create_from_roots gf junk t ?roots = Some p" "porder p = t"
    "length (pcoeff p) = t + 1" "pcoeff p ! t = 1" "\<forall>x. peval p x = root_product ?roots t x"
    using polynomial_create_from_roots_spec [of t ?roots junk] assms R(1) by auto
  moreover have "root_product ?roots t x = (\<Prod>i<t. x + gen_root i)" for x
    using R(2) by (simp add: root_product_def)
  ultimately show ?thesis by (simp add: reed_solomon_build_generator_def)
qed

lemma rs_create_ok:
  assumes "1 \<le> t" "t < 255"
  shows "\<exists>rs. correct_reed_solomon_create mem rs_primitive_polynomial 1 1 t = Some rs \<and>
    rs_ok t rs \<and> \<not> rs_has_init_decode rs"
proof -
  obtain p roots where g: "reed_solomon_build_generator gf (mem 2) t 1 1 (malloc (mem 3) t) = Some (p, roots)"
    "length roots = t" "\<forall>i<t. GF (roots ! i) = gen_root i" "porder p = t"
    "length (pcoeff p) = t + 1" "pcoeff p ! t = 1" "\<forall>x. peval p x = (\<Prod>i<t. x + gen_root i)"
    using build_generator_ok [OF assms, of "malloc (mem 3) t" "mem 2"] by auto
  then show ?thesis
    using assms
    by (simp add: correct_reed_solomon_create_def field_create_gf polynomial_create_def rs_ok_def rs_enc_ok_def)
qed


section \<open>Words as polynomials\<close>

text \<open>A word of bytes is a polynomial, highest order first. It is a codeword when it vanishes at
  the roots of the generator.\<close>

definition word_eval :: "u8 list \<Rightarrow> gf256 \<Rightarrow> gf256" where
  "word_eval w x = (\<Sum>j<length w. GF (w ! j) * x ^ (length w - 1 - j))"

definition codeword :: "nat \<Rightarrow> u8 list \<Rightarrow> bool" where
  "codeword t w \<longleftrightarrow> (\<forall>i<t. word_eval w (gen_root i) = 0)"

lemma word_eval_rev: "word_eval w x = (\<Sum>p<length w. GF (w ! (length w - 1 - p)) * x ^ p)"
  unfolding word_eval_def
  by (rule sum.reindex_bij_witness [of _ "\<lambda>p. length w - 1 - p" "\<lambda>j. length w - 1 - j"]) auto

text \<open>A loop that writes entry \<open>at i\<close> from \<open>i\<close> alone, for pairwise different indices.\<close>

lemma for_each_write_at:
  assumes "inj_on at {..<n}" and "\<And>i. i < n \<Longrightarrow> at i < length c0"
    and "\<And>i c. i < n \<Longrightarrow> length c = length c0 \<Longrightarrow> f i c = wr c (at i) (g i)"
  shows "\<exists>c. for_each [0..<n] f c0 = Some c \<and> length c = length c0 \<and> (\<forall>i<n. c ! at i = g i) \<and>
    (\<forall>p<length c0. p \<notin> at ` {..<n} \<longrightarrow> c ! p = c0 ! p)"
proof -
  define P where "P = (\<lambda>m c. length c = length c0 \<and> (\<forall>i<m. c ! at i = g i) \<and>
    (\<forall>p<length c0. p \<notin> at ` {..<m} \<longrightarrow> c ! p = c0 ! p))"
  have "\<exists>c. for_each [0..<n] f c0 = Some c \<and> P n c"
  proof (rule for_range_total)
    show "P 0 c0" by (simp add: P_def)
    fix i c assume i: "0 \<le> i" "i < n" and P: "P i c"
    have lt: "at i < length c" using P i assms(2) by (simp add: P_def)
    have ne: "at i \<noteq> at j" if "j < i" for j
      using inj_onD [OF assms(1), of i j] i that by auto
    have "P (Suc i) (c[at i := g i])"
      using P lt ne by (auto simp: P_def nth_list_update less_Suc_eq lessThan_Suc)
    moreover have "f i c = Some (c[at i := g i])"
      using assms(3) [OF i(2)] P lt by (simp add: P_def)
    ultimately show "\<exists>s'. f i c = Some s' \<and> P (Suc i) s'" by blast
  qed simp
  then show ?thesis by (simp add: P_def)
qed

section \<open>Encoding\<close>

lemma encode_load:
  assumes "length c0 = 255" "k \<le> length msg" "k + t \<le> 255" "t < 255"
    and pad: "pad = 255 - t - k"
  shows "\<exists>c1 c2 c3. for_each [0..<k] (\<lambda>i c. do { m \<leftarrow> rd msg i; wr c (size_sub 254 (i + pad)) m }) c0 = Some c1 \<and>
    fill c1 (size_sub 255 pad) pad 0 = Some c2 \<and> fill c2 0 (size_sub 255 (255 - t)) 0 = Some c3 \<and>
    length c3 = 255 \<and>
    (\<forall>p<255. c3 ! p = (if p < t \<or> k + t \<le> p then 0 else msg ! (k + t - 1 - p)))"
proof -
  let ?at = "\<lambda>i. 254 - (i + pad)"
  have "\<exists>c. for_each [0..<k] (\<lambda>i c. do { m \<leftarrow> rd msg i; wr c (size_sub 254 (i + pad)) m }) c0 = Some c \<and>
    length c = length c0 \<and> (\<forall>i<k. c ! ?at i = msg ! i) \<and>
    (\<forall>p<length c0. p \<notin> ?at ` {..<k} \<longrightarrow> c ! p = c0 ! p)"
    by (rule for_each_write_at) (use assms in \<open>auto simp: inj_on_def\<close>)
  then obtain c1 where c1: "for_each [0..<k] (\<lambda>i c. do { m \<leftarrow> rd msg i; wr c (size_sub 254 (i + pad)) m }) c0 = Some c1"
    "length c1 = 255" "\<forall>i<k. c1 ! ?at i = msg ! i" using assms(1) by auto
  have s1: "size_sub 255 pad = k + t" using assms by simp
  have s2: "size_sub 255 (255 - t) = t" using assms by simp
  have b: "k + t + pad \<le> length c1" "0 + t \<le> length c1" using assms c1(2) by auto
  obtain c2 where c2: "fill c1 (size_sub 255 pad) pad 0 = Some c2"
    using fill_in [OF b(1)] unfolding s1 by blast
  have l2: "length c2 = 255" using fill_length [OF c2] c1(2) by simp
  have b2: "0 + t \<le> length c2" using b(2) l2 c1(2) by simp
  obtain c3 where c3: "fill c2 0 (size_sub 255 (255 - t)) 0 = Some c3"
    using fill_in [OF b2] unfolding s2 by blast
  have l3: "length c3 = 255" using fill_length [OF c3] l2 by simp
  have "c3 ! p = (if p < t \<or> k + t \<le> p then 0 else msg ! (k + t - 1 - p))" if p: "p < 255" for p
  proof -
    have 3: "c3 ! p = (if p < t then 0 else c2 ! p)"
      using fill_nth [OF c3, of p] p l2 unfolding s2 by simp
    have 2: "c2 ! p = (if k + t \<le> p \<and> p < k + t + pad then 0 else c1 ! p)"
      using fill_nth [OF c2, of p] p c1(2) unfolding s1 by simp
    have full: "k + t + pad = 255" using assms by simp
    show ?thesis
    proof (cases "p < t \<or> k + t \<le> p")
      case True
      then show ?thesis using 2 3 full p by auto
    next
      case False
      let ?i = "k + t - 1 - p"
      have "?i < k" "?at ?i = p" using False full by auto
      then have "c1 ! p = msg ! ?i" using c1(3) by metis
      then show ?thesis using 2 3 False by simp
    qed
  qed
  with c1 c2 c3 l3 show ?thesis by blast
qed

lemma rs_gen_root_zero:
  assumes "rs_enc_ok t rs" "i < t"
  shows "peval (rs_generator rs) (gen_root i) = 0"
proof -
  have "peval (rs_generator rs) (gen_root i) = (\<Prod>j<t. gen_root i + gen_root j)"
    using assms(1) by (simp add: rs_enc_ok_def)
  also have "\<dots> = 0" by (rule prod_zero) (use assms(2) in \<open>auto intro!: bexI [of _ i]\<close>)
  finally show ?thesis .
qed

lemma rs_ok_encoded:
  "rs_ok t rs \<Longrightarrow> porder ep = 254 \<Longrightarrow> length (pcoeff ep) = 255 \<Longrightarrow> porder er = 254 \<Longrightarrow> length (pcoeff er) = 255 \<Longrightarrow>
   rs_ok t (rs\<lparr>rs_encoded_polynomial := ep, rs_encoded_remainder := er\<rparr>)"
  by (simp add: rs_ok_def rs_enc_ok_def rs_dec_ok_def)

lemma encode_spec:
  assumes ok: "rs_ok t rs" and k: "k \<le> length msg" "k + t \<le> 255" and out: "k + t \<le> length out"
  shows "\<exists>rs' parity. correct_reed_solomon_encode rs msg k out =
      Some (255, rs', take k msg @ parity @ drop (k + t) out) \<and>
    rs_ok t rs' \<and> length parity = t \<and> codeword t (take k msg @ parity)"
proof -
  have enc: "rs_enc_ok t rs" using ok by (simp add: rs_ok_def)
  note F = rs_enc_okD [OF enc]
  have ml: "k \<le> 255 - t" using k by simp
  let ?pad = "255 - t - k"
  have pad: "size_sub (255 - t) k = ?pad" using ml by simp
  obtain c1 c2 c3 where c: "for_each [0..<k] (\<lambda>i c. do { m \<leftarrow> rd msg i; wr c (size_sub 254 (i + ?pad)) m })
      (pcoeff (rs_encoded_polynomial rs)) = Some c1"
    "fill c1 (size_sub 255 ?pad) ?pad 0 = Some c2" "fill c2 0 (size_sub 255 (255 - t)) 0 = Some c3"
    "length c3 = 255" and nth: "\<forall>p<255. c3 ! p = (if p < t \<or> k + t \<le> p then 0 else msg ! (k + t - 1 - p))"
    using encode_load [OF F(12) k(1,2) F(16) refl] by blast
  let ?ep = "(rs_encoded_polynomial rs)\<lparr>pcoeff := c3\<rparr>"
  have wf: "wf_poly ?ep" "wf_poly (rs_generator rs)" "wf_poly (rs_encoded_remainder rs)"
    "porder ?ep \<le> porder (rs_encoded_remainder rs)" "pcoeff (rs_generator rs) ! porder (rs_generator rs) \<noteq> 0"
    "1 \<le> porder (rs_generator rs)"
    using F c(4) by (simp_all add: wf_poly_def)
  obtain er q where er: "polynomial_mod gf ?ep (rs_generator rs) (rs_encoded_remainder rs) = Some er"
    "porder er = 254" "length (pcoeff er) = 255"
    "\<forall>x. peval ?ep x = (\<Sum>i\<le>254. q i * x ^ i) * peval (rs_generator rs) x + meval 254 (pcoeff er) x"
    "\<forall>i. t \<le> i \<and> i \<le> 254 \<longrightarrow> pcoeff er ! i = 0"
    using polynomial_mod_spec [OF wf] F by auto
  let ?rs = "rs\<lparr>rs_encoded_polynomial := ?ep, rs_encoded_remainder := er\<rparr>"
  let ?parity = "map (\<lambda>i. pcoeff er ! (t - (i + 1))) [0..<t]"
  have msgloop: "for_each [0..<k] (\<lambda>i out. do {
      m \<leftarrow> rd c3 (size_sub 254 (i + ?pad)); wr out i m }) out = Some (take 0 out @ map (\<lambda>i. msg ! i) [0..<k] @ drop (k + 0) out)"
  proof (rule for_each_write)
    fix i and o' :: "u8 list" assume i: "i < k" "length o' = length out"
    then have "254 - (i + ?pad) < 255" "t \<le> 254 - (i + ?pad)" "254 - (i + ?pad) < k + t"
      "k + t - 1 - (254 - (i + ?pad)) = i" using k by auto
    moreover from this have "c3 ! (254 - (i + ?pad)) = msg ! i"
      using nth [rule_format, of "254 - (i + ?pad)"] by simp
    ultimately show "(rd c3 (size_sub 254 (i + ?pad)) \<bind> (\<lambda>m. wr o' i m)) = wr o' (i + 0) (msg ! i)"
      using i k c(4) by simp
  qed (use out in simp)
  have take: "map (\<lambda>i. msg ! i) [0..<k] = take k msg"
    using k(1) by (auto intro: nth_equalityI)
  have parloop: "for_each [0..<t] (\<lambda>i out. do {
      r \<leftarrow> rd (pcoeff er) (size_sub t (i + 1)); wr out (k + i) r }) (take k msg @ drop k out) =
      Some (take k (take k msg @ drop k out) @ ?parity @ drop (t + k) (take k msg @ drop k out))"
    by (rule for_each_write) (use out k F er(3) in \<open>auto simp: add.commute\<close>)
  have tk: "take k (take k msg @ drop k out) = take k msg"
    "drop (t + k) (take k msg @ drop k out) = drop (k + t) out"
    using k(1) by (simp_all add: add.commute)
  have res: "correct_reed_solomon_encode rs msg k out = Some (255, ?rs, take k msg @ ?parity @ drop (k + t) out)"
    using ml c er(1) msgloop parloop
    unfolding correct_reed_solomon_encode_def F pad take tk by (simp add: F pad)
  have "codeword t (take k msg @ ?parity)"
    unfolding codeword_def
  proof (intro allI impI)
    fix i assume i: "i < t"
    let ?x = "gen_root i" and ?w = "take k msg @ ?parity"
    have len: "length ?w = k + t" using k(1) by simp
    have low: "?w ! (k + t - 1 - p) = pcoeff er ! p" if "p < t" for p
      using that k(1) by (auto simp: nth_append)
    have high: "?w ! (k + t - 1 - p) = msg ! (k + t - 1 - p)" if "t \<le> p" "p < k + t" for p
      using that k(1) by (auto simp: nth_append)
    have sumsplit: "(\<Sum>p<k + t. GF (?w ! (k + t - 1 - p)) * ?x ^ p) =
        (\<Sum>p<t. GF (?w ! (k + t - 1 - p)) * ?x ^ p) + (\<Sum>p=t..<k + t. GF (?w ! (k + t - 1 - p)) * ?x ^ p)"
      by (simp add: sum.atLeastLessThan_concat flip: atLeast0LessThan)
    have "(\<Sum>p<t. GF (?w ! (k + t - 1 - p)) * ?x ^ p) = (\<Sum>p<t. GF (pcoeff er ! p) * ?x ^ p)"
      by (rule sum.cong) (simp_all only: low lessThan_iff)
    also have "\<dots> = meval 254 (pcoeff er) ?x"
      unfolding meval_def by (rule sum.mono_neutral_left) (use er(5) F in auto)
    finally have A: "(\<Sum>p<t. GF (?w ! (k + t - 1 - p)) * ?x ^ p) = meval 254 (pcoeff er) ?x" .
    have "(\<Sum>p=t..<k + t. GF (?w ! (k + t - 1 - p)) * ?x ^ p) = (\<Sum>p=t..<k + t. GF (c3 ! p) * ?x ^ p)"
    proof (rule sum.cong)
      fix p assume "p \<in> {t..<k + t}"
      then have "t \<le> p" "p < k + t" "p < 255" "\<not> (p < t \<or> k + t \<le> p)" using k(2) by auto
      then show "GF (?w ! (k + t - 1 - p)) * ?x ^ p = GF (c3 ! p) * ?x ^ p"
        by (simp only: high nth if_False)
    qed simp
    also have "\<dots> = (\<Sum>p\<le>254. GF (c3 ! p) * ?x ^ p)"
      by (rule sum.mono_neutral_left) (use nth k in auto)
    also have "\<dots> = peval ?ep ?x"
      by (simp add: peval_def F(11))
    finally have B: "(\<Sum>p=t..<k + t. GF (?w ! (k + t - 1 - p)) * ?x ^ p) = peval ?ep ?x" .
    have "word_eval ?w ?x = meval 254 (pcoeff er) ?x + peval ?ep ?x"
      unfolding word_eval_rev len sumsplit A B ..
    then show "word_eval ?w ?x = 0"
      using er(4) rs_gen_root_zero [OF enc i] by simp
  qed
  moreover have "rs_ok t ?rs" by (rule rs_ok_encoded [OF ok]) (use er F c(4) in simp_all)
  ultimately show ?thesis using res by (intro exI [of _ ?rs] exI [of _ ?parity]) simp
qed


section \<open>Decoding: the tables and the syndromes\<close>

lemma build_exp_rows_spec:
  "\<exists>rows. build_exp_rows gf junk (order + 1) order vals = Some rows \<and> length rows = length vals \<and>
    (\<forall>i<length vals. length (rows ! i) = order + 1 \<and> pow_table (vals ! i) (rows ! i))"
proof -
  define P where "P = (\<lambda>n rows. length rows = n \<and>
    (\<forall>i<n. length (rows ! i) = order + 1 \<and> pow_table (vals ! i) (rows ! i)))"
  have "\<exists>rows. build_exp_rows gf junk (order + 1) order vals = Some rows \<and> P (length vals) rows"
    unfolding build_exp_rows_def
  proof (rule for_range_total)
    show "P 0 []" by (simp add: P_def)
    fix i rows assume "0 \<le> i" "i < length vals" and P: "P i rows"
    obtain row where "polynomial_build_exp_lut gf (vals ! i) order (malloc junk (order + 1)) = Some row"
      "length row = order + 1" "pow_table (vals ! i) row"
      using polynomial_build_exp_lut_spec [of "malloc junk (order + 1)" order "vals ! i"] by auto
    moreover from this P have "P (Suc i) (rows @ [row])" by (auto simp: P_def nth_append less_Suc_eq)
    ultimately show "\<exists>s'. (do { row \<leftarrow> polynomial_build_exp_lut gf (vals ! i) order (malloc junk (order + 1));
       Some (rows @ [row]) }) = Some s' \<and> P (Suc i) s'" by simp
  qed simp
  then show ?thesis by (auto simp: P_def)
qed

lemma rs_ready_ok:
  assumes "rs_ok t rs"
  shows "\<exists>rs'. rs_ready mem rs = Some rs' \<and> rs_ok t rs' \<and> rs_has_init_decode rs'"
proof (cases "rs_has_init_decode rs")
  case True
  with assms show ?thesis by (simp add: rs_ready_def)
next
  case False
  have enc: "rs_enc_ok t rs" using assms by (simp add: rs_ok_def)
  note F = rs_enc_okD [OF enc]
  obtain re where re: "build_exp_rows gf (mem 17) 255 254 (take t (rs_generator_roots rs)) = Some re"
    "length re = t" "\<forall>i<t. length (re ! i) = 255 \<and> pow_table (rs_generator_roots rs ! i) (re ! i)"
    using build_exp_rows_spec [of "mem 17" 254 "take t (rs_generator_roots rs)"] F by auto
  obtain ee where ee: "build_exp_rows gf (mem 18) t (t - 1) (map of_nat [0..<256]) = Some ee"
    "length ee = 256" "\<forall>i<256. length (ee ! i) = t \<and> pow_table (of_nat i) (ee ! i)"
    using build_exp_rows_spec [of "mem 18" "t - 1" "map of_nat [0..<256]"] F by auto
  have u: "uint_sub t 1 = t - 1" "uint_sub t (Suc 0) = t - 1" using F by simp_all
  have m: "Suc t mod 4294967296 = Suc t" "t mod 4294967296 = t"
    using F(16) by (simp_all add: mod_less)
  show ?thesis
    using enc re ee F
    by (simp add: rs_ready_def False correct_reed_solomon_decoder_create_def F u m polynomial_create_def
        rs_ok_def rs_enc_ok_def rs_dec_ok_def)
qed

lemma rs_dec_okD:
  assumes "rs_ok t rs" "rs_has_init_decode rs"
  shows "rs_enc_ok t rs" "length (rs_syndromes rs) = t"
    "porder (rs_received_polynomial rs) = 254" "length (pcoeff (rs_received_polynomial rs)) = 255"
    "length (pcoeff (rs_error_locator rs)) = t + 1" "length (pcoeff (rs_error_locator_log rs)) = t + 1"
    "length (pcoeff (rs_last_error_locator rs)) = t + 1"
    "length (rs_error_roots rs) = 2 * t" "length (rs_error_vals rs) = t" "length (rs_error_locations rs) = t"
    "length (rs_generator_root_exp rs) = t" "length (rs_element_exp rs) = 256"
    "porder (rs_error_evaluator rs) = t - 1" "length (pcoeff (rs_error_evaluator rs)) = t"
    "length (pcoeff (rs_error_locator_derivative rs)) = t"
  using assms by (simp_all add: rs_ok_def rs_dec_ok_def)

definition received_ok :: "u8 list \<Rightarrow> nat \<Rightarrow> polynomial_t \<Rightarrow> bool" where
  "received_ok w n r \<longleftrightarrow> porder r = 254 \<and> length (pcoeff r) = 255 \<and>
     (\<forall>p<255. pcoeff r ! p = (if p < n then w ! (n - 1 - p) else 0))"

lemma rs_receive_spec:
  assumes "n \<le> length w" "n \<le> 255" "porder r = 254" "length (pcoeff r) = 255"
  shows "\<exists>r'. rs_receive w n (255 - n) r = Some r' \<and> received_ok w n r'"
proof -
  let ?c = "map (\<lambda>i. w ! (n - 1 - i)) [0..<n] @ drop n (pcoeff r)"
  have 1: "for_each [0..<n] (\<lambda>i c. do { e \<leftarrow> rd w (size_sub n (i + 1)); wr c i e }) (pcoeff r) =
    Some (take 0 (pcoeff r) @ map (\<lambda>i. w ! (n - 1 - i)) [0..<n] @ drop (n + 0) (pcoeff r))"
    by (rule for_each_write) (use assms in auto)
  have 2: "for_each [0..<255 - n] (\<lambda>i c. wr c (i + n) 0) ?c =
    Some (take n ?c @ map (\<lambda>_. 0) [0..<255 - n] @ drop (255 - n + n) ?c)"
    by (rule for_each_write) (use assms in auto)
  show ?thesis
    using 1 2 assms by (auto simp: rs_receive_def received_ok_def nth_append)
qed

lemma received_eval:
  assumes "received_ok w n r" "length w = n" "n \<le> 255"
  shows "peval r x = word_eval w x"
proof -
  have "peval r x = (\<Sum>p\<le>254. GF (pcoeff r ! p) * x ^ p)"
    using assms(1) by (simp add: peval_def received_ok_def)
  also have "\<dots> = (\<Sum>p<n. GF (w ! (n - 1 - p)) * x ^ p)"
    by (rule sum.mono_neutral_cong_right) (use assms in \<open>auto simp: received_ok_def\<close>)
  finally show ?thesis using assms(2) by (simp add: word_eval_rev)
qed

lemma find_syndromes_spec:
  assumes ok: "rs_ok t rs" "rs_has_init_decode rs" and r: "porder r = 254" "length (pcoeff r) = 255"
  shows "\<exists>syn. reed_solomon_find_syndromes gf r (rs_generator_root_exp rs) (rs_syndromes rs) t =
      Some (\<forall>i<t. peval r (gen_root i) = 0, syn) \<and> length syn = t \<and>
    (\<forall>i<t. GF (syn ! i) = peval r (gen_root i))"
proof -
  note D = rs_dec_okD [OF ok]
  note F = rs_enc_okD [OF D(1)]
  obtain s0 where s0: "fill (rs_syndromes rs) 0 t 0 = Some s0" "length s0 = t"
    using D(2) fill_in [of 0 t "rs_syndromes rs" 0] by auto
  define P where "P = (\<lambda>n (z, syn). length syn = t \<and> z = (\<forall>i<n. peval r (gen_root i) = 0) \<and>
    (\<forall>i<n. GF (syn ! i) = peval r (gen_root i)))"
  define body where "body = (\<lambda>i (all_zero, syndromes). do {
        row \<leftarrow> rd (rs_generator_root_exp rs) i;
        eval \<leftarrow> polynomial_eval_lut gf r row;
        syndromes \<leftarrow> wr syndromes i eval;
        Some (if eval \<noteq> 0 then False else all_zero, syndromes) })"
  have "\<exists>s. for_each [0..<t] body (True, s0) = Some s \<and> P t s"
  proof (rule for_range_total)
    show "P 0 (True, s0)" using s0(2) by (simp add: P_def)
    fix i s assume i: "0 \<le> i" "i < t" and P: "P i s"
    obtain z syn where s: "s = (z, syn)" by (cases s)
    have "pow_table (rs_generator_roots rs ! i) (rs_generator_root_exp rs ! i)"
      "length (rs_generator_root_exp rs ! i) = 255" "GF (rs_generator_roots rs ! i) = gen_root i"
      using ok i D(1) by (simp_all add: rs_ok_def rs_dec_ok_def rs_enc_ok_def)
    then have ev: "polynomial_eval_lut gf r (rs_generator_root_exp rs ! i) = Some (ungf (peval r (gen_root i)))"
      using polynomial_eval_lut_spec [of r "rs_generator_roots rs ! i"] r by (simp add: wf_poly_def)
    let ?e = "ungf (peval r (gen_root i))"
    have e0: "?e = 0 \<longleftrightarrow> peval r (gen_root i) = 0"
      by (metis GF_0 gf256.exhaust_sel)
    have "body i s = Some (if ?e \<noteq> 0 then False else z, syn[i := ?e])"
      using i D P ev by (simp add: body_def s P_def)
    moreover have "P (Suc i) (if ?e \<noteq> 0 then False else z, syn[i := ?e])"
      using P i by (auto simp: P_def s nth_list_update less_Suc_eq e0)
    ultimately show "\<exists>s'. body i s = Some s' \<and> P (Suc i) s'" by blast
  qed simp
  then obtain z syn where "for_each [0..<t] body (True, s0) = Some (z, syn)" "P t (z, syn)"
    by (metis surj_pair)
  with s0(1) show ?thesis
    by (auto simp: reed_solomon_find_syndromes_def body_def P_def)
qed

lemma rs_emit_spec:
  assumes "received_ok w n r" "n \<le> 255" "k \<le> n" "k \<le> length msg" "length w = n"
  shows "rs_emit r n k msg = Some (take k w @ drop k msg)"
proof -
  have "rs_emit r n k msg = Some (take 0 msg @ map (\<lambda>i. w ! i) [0..<k] @ drop (k + 0) msg)"
    unfolding rs_emit_def
    by (rule for_each_write) (use assms in \<open>auto simp: received_ok_def\<close>)
  moreover have "map (\<lambda>i. w ! i) [0..<k] = take k w"
    using assms by (auto intro: nth_equalityI)
  ultimately show ?thesis by simp
qed

text \<open>A word with no error: the syndromes vanish and the message is copied out.\<close>

lemma decode_codeword:
  assumes ok: "rs_ok t rs" and w: "length w = n" "n \<le> 255" "t \<le> n" and cw: "codeword t w"
    and msg: "n - t \<le> length msg"
  shows "\<exists>rs'. correct_reed_solomon_decode mem rs w n msg =
      Some (int (n - t), rs', take (n - t) w @ drop (n - t) msg) \<and> rs_ok t rs'"
proof -
  obtain rs1 where rs1: "rs_ready mem rs = Some rs1" "rs_ok t rs1" "rs_has_init_decode rs1"
    using rs_ready_ok [OF ok] by blast
  note D = rs_dec_okD [OF rs1(2,3)]
  note F = rs_enc_okD [OF D(1)]
  have F0: "rs_block_length rs = 255" "rs_min_distance rs = t"
    using ok rs_enc_okD [of t rs] by (simp_all add: rs_ok_def)
  obtain r where r: "rs_receive w n (255 - n) (rs_received_polynomial rs1) = Some r" "received_ok w n r"
    using rs_receive_spec [of n w] w D by blast
  have rr: "porder r = 254" "length (pcoeff r) = 255" using r(2) by (simp_all add: received_ok_def)
  obtain syn where syn: "reed_solomon_find_syndromes gf r (rs_generator_root_exp rs1) (rs_syndromes rs1) t =
      Some (\<forall>i<t. peval r (gen_root i) = 0, syn)" "length syn = t"
    using find_syndromes_spec [OF rs1(2,3) rr] by blast
  have z: "(\<forall>i<t. peval r (gen_root i) = 0) = True"
    using cw received_eval [OF r(2) w(1,2)] by (simp add: codeword_def)
  let ?rs = "rs1\<lparr>rs_received_polynomial := r, rs_syndromes := syn\<rparr>"
  have "rs_emit r n (n - t) msg = Some (take (n - t) w @ drop (n - t) msg)"
    by (rule rs_emit_spec [OF r(2)]) (use w msg in auto)
  then have "correct_reed_solomon_decode mem rs w n msg =
      Some (int (n - t), ?rs, take (n - t) w @ drop (n - t) msg)"
    using w rs1(1) r(1) syn(1) z
    by (simp add: correct_reed_solomon_decode_def F0 F Let_def)
  moreover have "rs_ok t ?rs"
    using rs1(2,3) rr syn(2) by (simp add: rs_ok_def rs_enc_ok_def rs_dec_ok_def)
  ultimately show ?thesis by blast
qed


section \<open>Berlekamp-Massey: one step\<close>

definition scaled :: "u8 \<Rightarrow> u8 \<Rightarrow> u8 \<Rightarrow> u8" where
  "scaled d ld c = ungf (GF c * GF d / GF ld)"

lemma mul_div_scaled: "field_mul gf c d = Some (gmul c d)" "field_div gf (gmul c d) ld = Some (scaled d ld c)"
  by (simp_all add: field_mul_gf field_div_gf scaled_def GF_gmul)

lemma GF_scaled: "GF (scaled d ld c) = GF c * GF d / GF ld"
  by (simp add: scaled_def)

text \<open>The shift moves from the top down, so no entry is overwritten before it is read.\<close>

lemma shift_loop:
  fixes d ld :: u8
  assumes "1 \<le> delay" "n + delay \<le> length c"
  defines "f \<equiv> \<lambda>j c. do { x \<leftarrow> rd c j; m \<leftarrow> field_mul gf x d; v \<leftarrow> field_div gf m ld; wr c (j + delay) v }"
  shows "\<exists>c'. for_each (rev [0..<n]) f c = Some c' \<and> length c' = length c \<and>
    (\<forall>p<length c. c' ! p = (if delay \<le> p \<and> p < n + delay then scaled d ld (c ! (p - delay)) else c ! p))"
  using assms(2)
proof (induction n arbitrary: c)
  case 0
  then show ?case by auto
next
  case (Suc n)
  let ?c = "c[n + delay := scaled d ld (c ! n)]"
  have "f n c = Some ?c"
    using Suc.prems assms(1) by (simp add: f_def mul_div_scaled)
  moreover obtain c' where c': "for_each (rev [0..<n]) f ?c = Some c'" "length c' = length c"
    "\<forall>p<length c. c' ! p = (if delay \<le> p \<and> p < n + delay then scaled d ld (?c ! (p - delay)) else ?c ! p)"
    using Suc.IH [of ?c] Suc.prems by auto
  moreover have "c' ! p = (if delay \<le> p \<and> p < Suc n + delay then scaled d ld (c ! (p - delay)) else c ! p)"
    if "p < length c" for p
    using c'(3) that assms(1) by (auto simp: nth_list_update less_Suc_eq)
  ultimately show ?case by auto
qed

lemma zero_loop:
  assumes "n \<le> length c"
  shows "\<exists>c'. for_each (rev [0..<n]) (\<lambda>j lc. wr lc j 0) c = Some c' \<and> length c' = length c \<and>
    (\<forall>p<length c. c' ! p = (if p < n then 0 else c ! p))"
  using assms
proof (induction n arbitrary: c)
  case 0
  then show ?case by simp
next
  case (Suc n)
  obtain c' where c': "for_each (rev [0..<n]) (\<lambda>j lc. wr lc j 0) (c[n := 0]) = Some c'" "length c' = length c"
    "\<forall>p<length c. c' ! p = (if p < n then 0 else c[n := 0] ! p)"
    using Suc.IH [of "c[n := 0]"] Suc.prems by auto
  then show ?case using Suc.prems by (auto simp: nth_list_update less_Suc_eq)
qed

lemma swap_loop:
  assumes "n \<le> length ec" "n \<le> length lc"
  defines "f \<equiv> \<lambda>j (ec, lc). do {
        temp \<leftarrow> rd ec j;
        l \<leftarrow> rd lc j;
        ec \<leftarrow> wr ec j (field_add gf temp l);
        lc \<leftarrow> wr lc j temp;
        Some (ec, lc) }"
  shows "\<exists>ec' lc'. for_each [0..<n] f (ec, lc) = Some (ec', lc') \<and> length ec' = length ec \<and> length lc' = length lc \<and>
    (\<forall>p<length ec. ec' ! p = (if p < n then ec ! p XOR lc ! p else ec ! p)) \<and>
    (\<forall>p<length lc. lc' ! p = (if p < n then ec ! p else lc ! p))"
proof -
  define P where "P = (\<lambda>m (ec', lc'). length ec' = length ec \<and> length lc' = length lc \<and>
    (\<forall>p<length ec. ec' ! p = (if p < m then ec ! p XOR lc ! p else ec ! p)) \<and>
    (\<forall>p<length lc. lc' ! p = (if p < m then ec ! p else lc ! p)))"
  have "\<exists>s. for_each [0..<n] f (ec, lc) = Some s \<and> P n s"
  proof (rule for_range_total)
    show "P 0 (ec, lc)" by (simp add: P_def)
    fix j s assume j: "0 \<le> j" "j < n" and P: "P j s"
    obtain ec' lc' where s: "s = (ec', lc')" by (cases s)
    have "f j s = Some (ec'[j := ec' ! j XOR lc' ! j], lc'[j := ec' ! j])"
      using P j assms(1,2) by (simp add: f_def s P_def field_add_def)
    moreover have "P (Suc j) (ec'[j := ec' ! j XOR lc' ! j], lc'[j := ec' ! j])"
      using P j assms(1,2) by (auto simp: P_def s nth_list_update less_Suc_eq)
    ultimately show "\<exists>s'. f j s = Some s' \<and> P (Suc j) s'" by blast
  qed simp
  then show ?thesis by (auto simp: P_def)
qed

definition bm_mem :: "nat \<Rightarrow> bm_state \<Rightarrow> bool" where
  "bm_mem t s \<longleftrightarrow> length (pcoeff (el s)) = t + 1 \<and> length (pcoeff (lel s)) = t + 1 \<and> 1 \<le> delay_length s"

lemma bm_lengthen_spec:
  assumes "bm_mem t s" "rs_field rs = gf" "porder (lel s) + delay_length s \<le> t"
  shows "\<exists>s'. bm_lengthen rs i d s = Some s' \<and> bm_mem t s' \<and>
    porder (el s') = porder (lel s) + delay_length s \<and> porder (lel s') = porder (el s) \<and>
    numerrors s' = i + 1 - numerrors s \<and> last_discrepancy s' = d \<and> delay_length s' = 1 \<and>
    (\<forall>p\<le>t. GF (pcoeff (el s') ! p) = GF (pcoeff (el s) ! p) +
      (if delay_length s \<le> p \<and> p \<le> porder (lel s) + delay_length s
       then GF (pcoeff (lel s) ! (p - delay_length s)) * GF d / GF (last_discrepancy s) else 0)) \<and>
    (\<forall>p\<le>porder (lel s) + delay_length s. pcoeff (lel s') ! p = pcoeff (el s) ! p)"
proof -
  let ?dl = "delay_length s" and ?o = "porder (lel s)" and ?ld = "last_discrepancy s"
  have len: "length (pcoeff (el s)) = t + 1" "length (pcoeff (lel s)) = t + 1" "1 \<le> ?dl"
    using assms(1) by (simp_all add: bm_mem_def)
  obtain c1 where c1: "for_each (rev [0..<?o + 1]) (\<lambda>j lc. do { x \<leftarrow> rd lc j; m \<leftarrow> field_mul gf x d;
      v \<leftarrow> field_div gf m ?ld; wr lc (j + ?dl) v }) (pcoeff (lel s)) = Some c1" "length c1 = t + 1"
    "\<forall>p<t + 1. c1 ! p = (if ?dl \<le> p \<and> p < ?o + 1 + ?dl then scaled d ?ld (pcoeff (lel s) ! (p - ?dl)) else pcoeff (lel s) ! p)"
  proof -
    have "?o + 1 + ?dl \<le> length (pcoeff (lel s))" using len assms(3) by simp
    from that shift_loop [OF len(3) this] show thesis unfolding len by blast
  qed
  obtain c2 where c2: "for_each (rev [0..<?dl]) (\<lambda>j lc. wr lc j 0) c1 = Some c2" "length c2 = t + 1"
    "\<forall>p<t + 1. c2 ! p = (if p < ?dl then 0 else c1 ! p)"
  proof -
    have "?dl \<le> length c1" using c1(2) assms(3) by simp
    from that zero_loop [OF this] show thesis unfolding c1(2) by blast
  qed
  obtain ec lc where c3: "for_each [0..<?o + ?dl + 1] (\<lambda>j (ec, lc). do {
        temp \<leftarrow> rd ec j; l \<leftarrow> rd lc j; ec \<leftarrow> wr ec j (field_add gf temp l); lc \<leftarrow> wr lc j temp;
        Some (ec, lc) }) (pcoeff (el s), c2) = Some (ec, lc)" "length ec = t + 1" "length lc = t + 1"
    "\<forall>p<t + 1. ec ! p = (if p < ?o + ?dl + 1 then pcoeff (el s) ! p XOR c2 ! p else pcoeff (el s) ! p)"
    "\<forall>p<t + 1. lc ! p = (if p < ?o + ?dl + 1 then pcoeff (el s) ! p else c2 ! p)"
  proof -
    have "?o + ?dl + 1 \<le> length (pcoeff (el s))" "?o + ?dl + 1 \<le> length c2" using len c2(2) assms(3) by simp_all
    from that swap_loop [OF this] show thesis unfolding len c2(2) by blast
  qed
  let ?s = "\<lparr>el = \<lparr>pcoeff = ec, porder = ?o + ?dl\<rparr>, lel = \<lparr>pcoeff = lc, porder = porder (el s)\<rparr>,
     numerrors = i + 1 - numerrors s, last_discrepancy = d, delay_length = 1\<rparr>"
  have "bm_lengthen rs i d s = Some ?s"
    using c1(1) c2(1) c3(1) by (simp add: bm_lengthen_def assms(2) Let_def)
  moreover have "bm_mem t ?s" using c3 by (simp add: bm_mem_def)
  moreover have "GF (ec ! p) = GF (pcoeff (el s) ! p) + (if ?dl \<le> p \<and> p \<le> ?o + ?dl
       then GF (pcoeff (lel s) ! (p - ?dl)) * GF d / GF ?ld else 0)" if "p \<le> t" for p
    using that c1(3) c2(3) c3(4) by (auto simp: GF_xor GF_scaled)
  moreover have "lc ! p = pcoeff (el s) ! p" if "p \<le> ?o + ?dl" for p
    using that c3(5) assms(3) by simp
  ultimately show ?thesis by (intro exI [of _ ?s]) auto
qed

lemma bm_adjust_spec:
  assumes "bm_mem t s" "rs_field rs = gf" "porder (lel s) + delay_length s \<le> t"
  shows "\<exists>s'. bm_adjust rs d s = Some s' \<and> bm_mem t s' \<and>
    porder (el s') = max (porder (lel s) + delay_length s) (porder (el s)) \<and> lel s' = lel s \<and>
    numerrors s' = numerrors s \<and> last_discrepancy s' = last_discrepancy s \<and>
    delay_length s' = delay_length s + 1 \<and>
    (\<forall>p\<le>t. GF (pcoeff (el s') ! p) = GF (pcoeff (el s) ! p) +
      (if delay_length s \<le> p \<and> p \<le> porder (lel s) + delay_length s
       then GF (pcoeff (lel s) ! (p - delay_length s)) * GF d / GF (last_discrepancy s) else 0))"
proof -
  let ?dl = "delay_length s" and ?o = "porder (lel s)" and ?ld = "last_discrepancy s"
  have len: "length (pcoeff (el s)) = t + 1" "length (pcoeff (lel s)) = t + 1" "1 \<le> ?dl"
    using assms(1) by (simp_all add: bm_mem_def)
  define f where "f = (\<lambda>j ec. do {
        e \<leftarrow> rd ec (j + ?dl); c \<leftarrow> rd (pcoeff (lel s)) j; m \<leftarrow> field_mul gf c d;
        v \<leftarrow> field_div gf m ?ld; wr ec (j + ?dl) (field_add gf e v) })"
  have loop: "n + ?dl \<le> length c \<Longrightarrow> n \<le> t + 1 \<Longrightarrow> \<exists>c'. for_each (rev [0..<n]) f c = Some c' \<and> length c' = length c \<and>
    (\<forall>p<length c. GF (c' ! p) = GF (c ! p) +
      (if ?dl \<le> p \<and> p < n + ?dl then GF (pcoeff (lel s) ! (p - ?dl)) * GF d / GF ?ld else 0))" for n c
  proof (induction n arbitrary: c)
    case 0
    then show ?case by auto
  next
    case (Suc n)
    let ?c = "c[n + ?dl := c ! (n + ?dl) XOR scaled d ?ld (pcoeff (lel s) ! n)]"
    have "f n c = Some ?c"
      using Suc.prems len by (simp add: f_def mul_div_scaled field_add_def)
    moreover obtain c' where c': "for_each (rev [0..<n]) f ?c = Some c'" "length c' = length c"
      "\<forall>p<length c. GF (c' ! p) = GF (?c ! p) +
        (if ?dl \<le> p \<and> p < n + ?dl then GF (pcoeff (lel s) ! (p - ?dl)) * GF d / GF ?ld else 0)"
      using Suc.IH [of ?c] Suc.prems by auto
    moreover have "GF (c' ! p) = GF (c ! p) +
        (if ?dl \<le> p \<and> p < Suc n + ?dl then GF (pcoeff (lel s) ! (p - ?dl)) * GF d / GF ?ld else 0)"
      if "p < length c" for p
      using c'(3) that by (auto simp: nth_list_update less_Suc_eq GF_xor GF_scaled)
    ultimately show ?case by auto
  qed
  obtain ec where ec: "for_each (rev [0..<?o + 1]) f (pcoeff (el s)) = Some ec"
    "length ec = t + 1" "\<forall>p<t + 1. GF (ec ! p) = GF (pcoeff (el s) ! p) +
      (if ?dl \<le> p \<and> p < ?o + 1 + ?dl then GF (pcoeff (lel s) ! (p - ?dl)) * GF d / GF ?ld else 0)"
  proof -
    have "?o + 1 + ?dl \<le> length (pcoeff (el s))" "?o + 1 \<le> t + 1" using len assms(3) by simp_all
    from that loop [OF this] show thesis unfolding len by blast
  qed
  let ?s = "s\<lparr>el := \<lparr>pcoeff = ec, porder = if ?o + ?dl > porder (el s) then ?o + ?dl else porder (el s)\<rparr>,
     delay_length := ?dl + 1\<rparr>"
  have "bm_adjust rs d s = Some ?s"
    using ec(1) by (simp add: bm_adjust_def assms(2) Let_def f_def)
  moreover have "bm_mem t ?s" using ec len by (simp add: bm_mem_def)
  moreover have "GF (ec ! p) = GF (pcoeff (el s) ! p) + (if ?dl \<le> p \<and> p \<le> ?o + ?dl
       then GF (pcoeff (lel s) ! (p - ?dl)) * GF d / GF ?ld else 0)" if "p \<le> t" for p
    using that ec(3) by auto
  ultimately show ?thesis by (intro exI [of _ ?s]) auto
qed


lemma bm_discrepancy_spec:
  assumes "bm_mem t s" "rs_field rs = gf" "length (rs_syndromes rs) = t" "i < t" "numerrors s \<le> i"
  shows "\<exists>d. bm_discrepancy rs i s = Some d \<and>
    GF d = GF (rs_syndromes rs ! i) + (\<Sum>j\<in>{1..numerrors s}. GF (pcoeff (el s) ! j) * GF (rs_syndromes rs ! (i - j)))"
proof -
  define P where "P = (\<lambda>m d. GF d = GF (rs_syndromes rs ! i) +
    (\<Sum>j\<in>{1..<m}. GF (pcoeff (el s) ! j) * GF (rs_syndromes rs ! (i - j))))"
  have "\<exists>d. for_each [1..<numerrors s + 1] (\<lambda>j d. do {
        c \<leftarrow> rd (pcoeff (el s)) j;
        y \<leftarrow> rd (rs_syndromes rs) (i - j);
        p \<leftarrow> field_mul gf c y;
        Some (field_add gf d p) }) (rs_syndromes rs ! i) = Some d \<and> P (numerrors s + 1) d"
  proof (rule for_range_total)
    show "P 1 (rs_syndromes rs ! i)" by (simp add: P_def)
    fix j d assume j: "1 \<le> j" "j < numerrors s + 1" and P: "P j d"
    have b: "j < length (pcoeff (el s))" "i - j < length (rs_syndromes rs)"
      using assms j by (auto simp: bm_mem_def)
    have "{1..<Suc j} = insert j {1..<j}" using j by auto
    then have "P (Suc j) (field_add gf d (gmul (pcoeff (el s) ! j) (rs_syndromes rs ! (i - j))))"
      using P by (simp add: P_def field_add_GF GF_gmul ac_simps)
    with b show "\<exists>s'. (do { c \<leftarrow> rd (pcoeff (el s)) j; y \<leftarrow> rd (rs_syndromes rs) (i - j);
        p \<leftarrow> field_mul gf c y; Some (field_add gf d p) }) = Some s' \<and> P (Suc j) s'"
      by (simp add: field_mul_gf)
  qed simp
  then obtain d where d: "for_each [1..<numerrors s + 1] (\<lambda>j d. do {
        c \<leftarrow> rd (pcoeff (el s)) j;
        y \<leftarrow> rd (rs_syndromes rs) (i - j);
        p \<leftarrow> field_mul gf c y;
        Some (field_add gf d p) }) (rs_syndromes rs ! i) = Some d" "P (numerrors s + 1) d" by blast
  have set: "{1..<numerrors s + 1} = {1..numerrors s}" by auto
  have "bm_discrepancy rs i s = Some d"
    unfolding bm_discrepancy_def assms(2) using d(1) assms(3,4) by (simp del: upt_Suc)
  with d(2) show ?thesis unfolding P_def set by blast
qed

text \<open>The invariant of the loop: the order of the locator is the number of errors, and the
  other locator, shifted by the delay, reaches exactly one past what the number of errors
  leaves. While all syndromes so far are zero nothing has moved.\<close>

definition bm_inv :: "nat \<Rightarrow> u8 list \<Rightarrow> nat \<Rightarrow> bm_state \<Rightarrow> bool" where
  "bm_inv t syn i s \<longleftrightarrow> bm_mem t s \<and> numerrors s \<le> i \<and> porder (el s) = numerrors s \<and>
     porder (lel s) + delay_length s = i + 1 - numerrors s \<and>
     pcoeff (el s) ! 0 = 1 \<and> (\<forall>p\<le>t. numerrors s < p \<longrightarrow> pcoeff (el s) ! p = 0) \<and>
     (numerrors s = 0 \<longrightarrow> (\<forall>k<i. syn ! k = 0) \<and> porder (lel s) = 0 \<and> pcoeff (lel s) ! 0 = 1 \<and> last_discrepancy s = 1) \<and>
     (i \<le> numerrors s \<longrightarrow> (\<forall>k<i - 1. syn ! k = 0) \<and> (0 < i \<longrightarrow> syn ! (i - 1) \<noteq> 0 \<and> pcoeff (el s) ! i \<noteq> 0)) \<and>
     ((\<forall>k<i. syn ! k = 0) \<longrightarrow> numerrors s = 0)"

lemma bm_invI:
  assumes "bm_mem t s" "numerrors s \<le> i" "porder (el s) = numerrors s"
    "porder (lel s) + delay_length s = i + 1 - numerrors s"
    "pcoeff (el s) ! 0 = 1" "\<And>p. p \<le> t \<Longrightarrow> numerrors s < p \<Longrightarrow> pcoeff (el s) ! p = 0"
    "numerrors s = 0 \<Longrightarrow> (\<forall>k<i. syn ! k = 0) \<and> porder (lel s) = 0 \<and> pcoeff (lel s) ! 0 = 1 \<and> last_discrepancy s = 1"
    "i \<le> numerrors s \<Longrightarrow> (\<forall>k<i - 1. syn ! k = 0) \<and> (0 < i \<longrightarrow> syn ! (i - 1) \<noteq> 0 \<and> pcoeff (el s) ! i \<noteq> 0)"
    "(\<forall>k<i. syn ! k = 0) \<Longrightarrow> numerrors s = 0"
  shows "bm_inv t syn i s"
  unfolding bm_inv_def using assms by blast

lemma bm_invD:
  assumes "bm_inv t syn i s"
  shows "bm_mem t s" "numerrors s \<le> i" "porder (el s) = numerrors s"
    "porder (lel s) + delay_length s = i + 1 - numerrors s"
    "pcoeff (el s) ! 0 = 1" "\<And>p. p \<le> t \<Longrightarrow> numerrors s < p \<Longrightarrow> pcoeff (el s) ! p = 0"
    "numerrors s = 0 \<Longrightarrow> (\<forall>k<i. syn ! k = 0) \<and> porder (lel s) = 0 \<and> pcoeff (lel s) ! 0 = 1 \<and> last_discrepancy s = 1"
    "i \<le> numerrors s \<Longrightarrow> (\<forall>k<i - 1. syn ! k = 0) \<and> (0 < i \<longrightarrow> syn ! (i - 1) \<noteq> 0 \<and> pcoeff (el s) ! i \<noteq> 0)"
    "(\<forall>k<i. syn ! k = 0) \<Longrightarrow> numerrors s = 0"
  using assms unfolding bm_inv_def by blast+

lemma bm_step_inv:
  assumes "rs_field rs = gf" "length (rs_syndromes rs) = t" "i < t" and I: "bm_inv t (rs_syndromes rs) i s"
  shows "\<exists>s'. bm_step rs i s = Some s' \<and> bm_inv t (rs_syndromes rs) (Suc i) s'"
proof -
  let ?syn = "rs_syndromes rs"
  note mem = bm_invD(1) [OF I] and ne = bm_invD(2) [OF I] and oe = bm_invD(3) [OF I] and ol = bm_invD(4) [OF I]
    and one = bm_invD(5) [OF I] and above = bm_invD(6) [OF I] and zero = bm_invD(7) [OF I]
    and full = bm_invD(8) [OF I] and allz = bm_invD(9) [OF I]
  have bound: "porder (lel s) + delay_length s \<le> t" using ol assms(3) by simp
  have dl: "1 \<le> delay_length s" using mem by (simp add: bm_mem_def)
  obtain d where d: "bm_discrepancy rs i s = Some d"
    "GF d = GF (?syn ! i) + (\<Sum>j\<in>{1..numerrors s}. GF (pcoeff (el s) ! j) * GF (?syn ! (i - j)))"
    using bm_discrepancy_spec [OF mem assms(1-3) ne] by blast
  have d0: "numerrors s = 0 \<Longrightarrow> d = ?syn ! i" using d(2) by simp
  show ?thesis
  proof (cases "d = 0")
    case True
    then have "bm_step rs i s = Some (s\<lparr>delay_length := delay_length s + 1\<rparr>)"
      using d(1) by (simp add: bm_step_def)
    moreover have "bm_inv t ?syn (Suc i) (s\<lparr>delay_length := delay_length s + 1\<rparr>)"
    proof (rule bm_invI)
      assume "numerrors (s\<lparr>delay_length := delay_length s + 1\<rparr>) = 0"
      then show "(\<forall>k<Suc i. ?syn ! k = 0) \<and> porder (lel (s\<lparr>delay_length := delay_length s + 1\<rparr>)) = 0 \<and>
        pcoeff (lel (s\<lparr>delay_length := delay_length s + 1\<rparr>)) ! 0 = 1 \<and>
        last_discrepancy (s\<lparr>delay_length := delay_length s + 1\<rparr>) = 1"
        using zero d0 True by (simp add: less_Suc_eq)
    next
      assume "\<forall>k<Suc i. ?syn ! k = 0"
      then have "\<forall>k<i. ?syn ! k = 0" by simp
      then show "numerrors (s\<lparr>delay_length := delay_length s + 1\<rparr>) = 0" using allz by simp
    next
      fix p assume "p \<le> t" "numerrors (s\<lparr>delay_length := delay_length s + 1\<rparr>) < p"
      then show "pcoeff (el (s\<lparr>delay_length := delay_length s + 1\<rparr>)) ! p = 0" using above [of p] by simp
    next
      assume "Suc i \<le> numerrors (s\<lparr>delay_length := delay_length s + 1\<rparr>)"
      with ne have False by simp
      then show "(\<forall>k<Suc i - 1. ?syn ! k = 0) \<and> (0 < Suc i \<longrightarrow> ?syn ! (Suc i - 1) \<noteq> 0 \<and>
        pcoeff (el (s\<lparr>delay_length := delay_length s + 1\<rparr>)) ! Suc i \<noteq> 0)" ..
    next
      show "bm_mem t (s\<lparr>delay_length := delay_length s + 1\<rparr>)" using mem by (simp add: bm_mem_def)
      show "numerrors (s\<lparr>delay_length := delay_length s + 1\<rparr>) \<le> Suc i" using ne by simp
      show "porder (el (s\<lparr>delay_length := delay_length s + 1\<rparr>)) = numerrors (s\<lparr>delay_length := delay_length s + 1\<rparr>)"
        using oe by simp
      show "pcoeff (el (s\<lparr>delay_length := delay_length s + 1\<rparr>)) ! 0 = 1" using one by simp
      have "porder (lel s) + (delay_length s + 1) = Suc i + 1 - numerrors s" using ol ne by linarith
      then show "porder (lel (s\<lparr>delay_length := delay_length s + 1\<rparr>)) +
        delay_length (s\<lparr>delay_length := delay_length s + 1\<rparr>) = Suc i + 1 - numerrors (s\<lparr>delay_length := delay_length s + 1\<rparr>)"
        by simp
    qed
    ultimately show ?thesis by blast
  next
    case nz: False
    show ?thesis
    proof (cases "2 * numerrors s \<le> i")
      case True
      obtain s' where s': "bm_lengthen rs i d s = Some s'" "bm_mem t s'"
        "porder (el s') = porder (lel s) + delay_length s" "porder (lel s') = porder (el s)"
        "numerrors s' = i + 1 - numerrors s" "last_discrepancy s' = d" "delay_length s' = 1"
        "\<forall>p\<le>t. GF (pcoeff (el s') ! p) = GF (pcoeff (el s) ! p) +
          (if delay_length s \<le> p \<and> p \<le> porder (lel s) + delay_length s
           then GF (pcoeff (lel s) ! (p - delay_length s)) * GF d / GF (last_discrepancy s) else 0)"
        using bm_lengthen_spec [OF mem assms(1) bound, of i d] by blast
      have "GF (pcoeff (el s') ! 0) = 1"
        using s'(8) [rule_format, of 0] dl one by simp
      then have e0: "pcoeff (el s') ! 0 = 1" by simp
      have ea: "pcoeff (el s') ! p = 0" if "p \<le> t" "i + 1 - numerrors s < p" for p
      proof -
        have "\<not> p \<le> porder (lel s) + delay_length s" "numerrors s < p" using that(2) ol True by simp_all
        then have "GF (pcoeff (el s') ! p) = 0"
          using s'(8) [rule_format, OF that(1)] above [OF that(1)] by simp
        then show ?thesis by simp
      qed
      have nzk: "\<not> (\<forall>k<Suc i. ?syn ! k = 0)"
      proof
        assume all: "\<forall>k<Suc i. ?syn ! k = 0"
        with allz have "numerrors s = 0" by simp
        with d0 nz all show False by simp
      qed
      have top: "?syn ! i \<noteq> 0 \<and> pcoeff (el s') ! Suc i \<noteq> 0 \<and> (\<forall>k<i. ?syn ! k = 0)" if "numerrors s = 0"
      proof -
        have "GF (pcoeff (el s') ! Suc i) = GF d"
          using s'(8) [rule_format, of "Suc i"] assms(3) that zero ol above by simp
        then show ?thesis using that d0 nz zero by simp
      qed
      have "bm_inv t ?syn (Suc i) s'"
      proof (rule bm_invI)
        assume "Suc i \<le> numerrors s'"
        then have "numerrors s = 0" using s'(5) True by auto
        then show "(\<forall>k<Suc i - 1. ?syn ! k = 0) \<and> (0 < Suc i \<longrightarrow> ?syn ! (Suc i - 1) \<noteq> 0 \<and> pcoeff (el s') ! Suc i \<noteq> 0)"
          using top by simp
      next
        assume "numerrors s' = 0"
        then have False using s'(5) ne by simp
        then show "(\<forall>k<Suc i. ?syn ! k = 0) \<and> porder (lel s') = 0 \<and> pcoeff (lel s') ! 0 = 1 \<and> last_discrepancy s' = 1" ..
      next
        assume "\<forall>k<Suc i. ?syn ! k = 0"
        with nzk show "numerrors s' = 0" by blast
      qed (use s' e0 ea ne oe ol True in simp_all)
      with d(1) nz True s'(1) show ?thesis by (auto simp: bm_step_def)
    next
      case False
      obtain s' where s': "bm_adjust rs d s = Some s'" "bm_mem t s'"
        "porder (el s') = max (porder (lel s) + delay_length s) (porder (el s))" "lel s' = lel s"
        "numerrors s' = numerrors s" "last_discrepancy s' = last_discrepancy s"
        "delay_length s' = delay_length s + 1"
        "\<forall>p\<le>t. GF (pcoeff (el s') ! p) = GF (pcoeff (el s) ! p) +
          (if delay_length s \<le> p \<and> p \<le> porder (lel s) + delay_length s
           then GF (pcoeff (lel s) ! (p - delay_length s)) * GF d / GF (last_discrepancy s) else 0)"
        using bm_adjust_spec [OF mem assms(1) bound, of d] by blast
      have "GF (pcoeff (el s') ! 0) = 1"
        using s'(8) [rule_format, of 0] dl one by simp
      then have e0: "pcoeff (el s') ! 0 = 1" by simp
      have ea: "pcoeff (el s') ! p = 0" if "p \<le> t" "numerrors s < p" for p
      proof -
        have "\<not> p \<le> porder (lel s) + delay_length s" using that(2) ol False by simp
        then have "GF (pcoeff (el s') ! p) = 0"
          using s'(8) [rule_format, OF that(1)] above [OF that] by simp
        then show ?thesis by simp
      qed
      have "numerrors s \<noteq> 0" using False by simp
      have nall: "\<not> (\<forall>k<i. ?syn ! k = 0)"
      proof
        assume "\<forall>k<i. ?syn ! k = 0"
        from allz [OF this] \<open>numerrors s \<noteq> 0\<close> show False by simp
      qed
      have nz2: "\<not> (\<forall>k<Suc i. ?syn ! k = 0)"
      proof
        assume "\<forall>k<Suc i. ?syn ! k = 0"
        then have "\<forall>k<i. ?syn ! k = 0" by simp
        with nall show False by blast
      qed
      have "bm_inv t ?syn (Suc i) s'"
      proof (rule bm_invI)
        assume "numerrors s' = 0"
        with s'(5) \<open>numerrors s \<noteq> 0\<close> have False by simp
        then show "(\<forall>k<Suc i. ?syn ! k = 0) \<and> porder (lel s') = 0 \<and> pcoeff (lel s') ! 0 = 1 \<and> last_discrepancy s' = 1" ..
      next
        assume "Suc i \<le> numerrors s'"
        with s'(5) ne have False by simp
        then show "(\<forall>k<Suc i - 1. ?syn ! k = 0) \<and> (0 < Suc i \<longrightarrow> ?syn ! (Suc i - 1) \<noteq> 0 \<and> pcoeff (el s') ! Suc i \<noteq> 0)" ..
      next
        assume "\<forall>k<Suc i. ?syn ! k = 0"
        with nz2 show "numerrors s' = 0" by blast
      qed (use s' e0 ea ne oe ol False in simp_all)
      with d(1) nz False s'(1) show ?thesis by (auto simp: bm_step_def)
    qed
  qed
qed

definition last_syndrome_only :: "nat \<Rightarrow> u8 list \<Rightarrow> bool" where
  "last_syndrome_only t syn \<longleftrightarrow> (\<forall>k<t - 1. syn ! k = 0) \<and> syn ! (t - 1) \<noteq> 0"

lemma find_error_locator_run:
  assumes ok: "rs_ok t rs" "rs_has_init_decode rs"
  obtains s0 s where "numerrors s0 = 0" "last_discrepancy s0 = 1" "delay_length s0 = 1" "porder (lel s0) = 0"
    "bm_inv t (rs_syndromes rs) 0 s0" "for_each [0..<t] (bm_step rs) s0 = Some s"
    "bm_inv t (rs_syndromes rs) t s"
    "reed_solomon_find_error_locator rs 0 =
      Some (porder (el s), rs\<lparr>rs_error_locator := el s, rs_last_error_locator := lel s\<rparr>)"
proof -
  note D = rs_dec_okD [OF ok]
  note F = rs_enc_okD [OF D(1)]
  obtain e0 where e0: "fill (pcoeff (rs_error_locator rs)) 0 (t + 1) 0 = Some e0" "length e0 = t + 1"
    "\<forall>p<t + 1. e0 ! p = 0"
    using D(5) fill_in [of 0 "t + 1" "pcoeff (rs_error_locator rs)" 0] fill_nth by fastforce
  let ?e = "e0[0 := 1]"
  obtain l0 where l0: "blit (pcoeff (rs_last_error_locator rs)) 0 (take (t + 1) ?e) = Some l0"
    using D(7) e0(2) by (simp add: blit_def)
  have l0': "length l0 = t + 1" "l0 ! 0 = 1"
    using blit_length [OF l0] blit_nth [OF l0, of 0] D(7) e0(2) by (auto simp: nth_list_update)
  let ?s = "\<lparr>el = \<lparr>pcoeff = ?e, porder = 0\<rparr>, lel = \<lparr>pcoeff = l0, porder = 0\<rparr>,
         numerrors = 0, last_discrepancy = 1, delay_length = 1\<rparr>"
  have init: "bm_inv t (rs_syndromes rs) 0 ?s"
    using e0 l0' by (auto simp: bm_inv_def bm_mem_def nth_list_update)
  have "\<exists>s. for_each [0..<t] (bm_step rs) ?s = Some s \<and> bm_inv t (rs_syndromes rs) t s"
    by (rule for_range_total [where P = "bm_inv t (rs_syndromes rs)", OF init]) (use bm_step_inv F D in auto)
  then obtain s where s: "for_each [0..<t] (bm_step rs) ?s = Some s" "bm_inv t (rs_syndromes rs) t s" by blast
  have "reed_solomon_find_error_locator rs 0 =
      Some (porder (el s), rs\<lparr>rs_error_locator := el s, rs_last_error_locator := lel s\<rparr>)"
  proof -
    have "wr e0 0 1 = Some ?e" using e0(2) by (auto simp: wr_def)
    moreover have "copy_of ?e 0 (t + 1) = Some (take (t + 1) ?e)" using e0(2) by (simp add: copy_of_def)
    moreover have "size_sub t 0 = t" using F by simp
    ultimately show ?thesis
      unfolding reed_solomon_find_error_locator_def F e0(1) using l0 s(1) by simp
  qed
  with init s show thesis by (intro that [of ?s s]) simp_all
qed

lemma find_error_locator_spec:
  assumes ok: "rs_ok t rs" "rs_has_init_decode rs"
    and s: "for_each [0..<t] (bm_step rs) s0 = Some s" "bm_inv t (rs_syndromes rs) t s"
    and s0: "bm_inv t (rs_syndromes rs) 0 s0"
  shows "porder (el s) \<le> t" "length (pcoeff (el s)) = t + 1" "length (pcoeff (lel s)) = t + 1"
    "pcoeff (el s) ! 0 = 1"
    "porder (el s) = 0 \<longleftrightarrow> (\<forall>k<t. rs_syndromes rs ! k = 0)"
    "porder (el s) = t \<longleftrightarrow> last_syndrome_only t (rs_syndromes rs)"
    "porder (el s) = t \<longrightarrow> pcoeff (el s) ! t \<noteq> 0"
proof -
  note D = rs_dec_okD [OF ok]
  note F = rs_enc_okD [OF D(1)]
  have t1: "1 \<le> t" using F by simp
  have full: "porder (el s) = t \<longleftrightarrow> last_syndrome_only t (rs_syndromes rs)"
  proof
    assume "porder (el s) = t"
    then have "t \<le> numerrors s" using bm_invD(3) [OF s(2)] by simp
    from bm_invD(8) [OF s(2) this] t1 show "last_syndrome_only t (rs_syndromes rs)"
      by (simp add: last_syndrome_only_def)
  next
    assume L: "last_syndrome_only t (rs_syndromes rs)"
    obtain s1 where s1: "for_each [0..<t - 1] (bm_step rs) s0 = Some s1" "bm_inv t (rs_syndromes rs) (t - 1) s1"
    proof -
      have "\<exists>s. for_each [0..<t - 1] (bm_step rs) s0 = Some s \<and> bm_inv t (rs_syndromes rs) (t - 1) s"
        by (rule for_range_total [where P = "bm_inv t (rs_syndromes rs)", OF s0]) (use bm_step_inv F D in auto)
      with that show thesis by blast
    qed
    have n0: "numerrors s1 = 0" using bm_invD(9) [OF s1(2)] L by (simp add: last_syndrome_only_def)
    have last: "bm_step rs (t - 1) s1 = Some s"
    proof -
      have "[0..<t] = [0..<t - 1] @ [t - 1]" using t1 by (metis Suc_diff_1 Suc_le_lessD upt_Suc_append zero_le One_nat_def)
      then show ?thesis using s(1) s1(1) by (simp add: for_each_append split: option.splits)
    qed
    obtain d where d: "bm_discrepancy rs (t - 1) s1 = Some d" "GF d = GF (rs_syndromes rs ! (t - 1))"
      using bm_discrepancy_spec [OF bm_invD(1) [OF s1(2)] F(1) D(2), of "t - 1"] t1 n0 by auto
    then have "d \<noteq> 0" using L by (simp add: last_syndrome_only_def)
    then have "bm_lengthen rs (t - 1) d s1 = Some s" using last d(1) n0 by (simp add: bm_step_def)
    moreover have "porder (lel s1) + delay_length s1 = t" "bm_mem t s1"
      using bm_invD(1,4) [OF s1(2)] n0 t1 by simp_all
    ultimately show "porder (el s) = t"
      using bm_lengthen_spec [of t s1 rs "t - 1" d] F by auto
  qed
  from full show "porder (el s) = t \<longleftrightarrow> last_syndrome_only t (rs_syndromes rs)" .
  show "porder (el s) = 0 \<longleftrightarrow> (\<forall>k<t. rs_syndromes rs ! k = 0)"
    using bm_invD(3,7,9) [OF s(2)] by auto
  show "porder (el s) = t \<longrightarrow> pcoeff (el s) ! t \<noteq> 0"
    using bm_invD(3,8) [OF s(2)] t1 by auto
  show "porder (el s) \<le> t" using bm_invD(2,3) [OF s(2)] by simp
  show "length (pcoeff (el s)) = t + 1" "length (pcoeff (lel s)) = t + 1"
    using bm_invD(1) [OF s(2)] by (simp_all add: bm_mem_def)
  show "pcoeff (el s) ! 0 = 1" using bm_invD(5) [OF s(2)] .
qed

section \<open>The property of the encoder\<close>

text \<open>C3: the encoder is systematic and exact. For every message that fits with its parity into a
  block, it writes the message unchanged, then as many parity bytes as the codec was created for,
  such that the word is a multiple of the generator polynomial (it vanishes at every root), writes
  nothing behind them, and returns the block length. A message that is too long is refused with
  -1 and nothing is written.\<close>

theorem encode_systematic_codeword:
  assumes "correct_reed_solomon_create mem rs_primitive_polynomial 1 1 t = Some rs" "1 \<le> t" "t < 255"
    and "k \<le> length msg" "k + t \<le> length out"
  shows "if k + t \<le> 255 then \<exists>rs' parity. correct_reed_solomon_encode rs msg k out =
        Some (255, rs', take k msg @ parity @ drop (k + t) out) \<and>
      length parity = t \<and> codeword t (take k msg @ parity) \<and> rs_ok t rs'
    else correct_reed_solomon_encode rs msg k out = Some (- 1, rs, out)"
proof -
  have ok: "rs_ok t rs" using rs_create_ok [OF assms(2,3), of mem] assms(1) by simp
  show ?thesis
  proof (cases "k + t \<le> 255")
    case True
    then show ?thesis using encode_spec [OF ok assms(4) True assms(5)] by auto
  next
    case False
    then have "255 - t < k" using assms(3) by linarith
    moreover have "rs_message_length rs = 255 - t" using ok by (simp add: rs_ok_def rs_enc_ok_def)
    ultimately show ?thesis using False by (simp add: correct_reed_solomon_encode_def)
  qed
qed

theorem encode_systematic_codeword_witness:
  "\<exists>rs rs' parity. correct_reed_solomon_create (\<lambda>_ _. 0) rs_primitive_polynomial 1 1 30 = Some rs \<and>
    correct_reed_solomon_encode rs (replicate 125 65) 125 (replicate 200 1) =
      Some (255, rs', replicate 125 65 @ parity @ replicate 45 1) \<and> length parity = 30 \<and>
    codeword 30 (replicate 125 65 @ parity)"
proof -
  obtain rs where rs: "correct_reed_solomon_create (\<lambda>_ _. 0) rs_primitive_polynomial 1 1 30 = Some rs"
    using rs_create_ok [of 30 "\<lambda>_ _. 0"] by auto
  show ?thesis
    using encode_systematic_codeword [OF rs, of 125 "replicate 125 65" "replicate 200 1"] rs by auto
qed

end
