(* ===== verification/Streams.thy ===== *)
theory Streams
  imports ReedSolomonCodec "HOL-Library.Sublist"
begin

text \<open>
  The byte pipeline between a decoded frame and what collects its chunks: \<open>aligned_stream.h\<close>,
  \<open>escrow_buffer_writer.h\<close>, \<open>null_stream.h\<close> and \<open>reed_solomon_stream.h\<close>. A stream template
  parameter is a write function (\<open>None\<close> for undefined behaviour) and a \<open>good\<close> predicate; the
  flush callback is a function on its captured state, which receives \<open>None\<close> for a null buffer.
  The locale \<open>chunk_stream\<close> is the contract the aligner relies on: a stream with room for a
  chunk accepts a write of exactly one chunk and stays good. It is interpreted on the escrow
  buffers and on the null stream here and on the fountain sink in its own theory.
\<close>

section \<open>\<open>aligned_stream\<close>\<close>

record ('s, 'c) aligned_stream =
  as_stream :: 's
  as_buffer :: "u8 list"
  as_offset :: nat
  as_alignOffset :: nat
  as_alignIncrement :: nat
  as_seen :: 'c
  as_badChunk :: bool
  as_good :: bool
  as_totalCount :: nat

definition aligned_create :: "'s \<Rightarrow> nat \<Rightarrow> nat \<Rightarrow> 'c \<Rightarrow> ('s, 'c) aligned_stream" where
  "aligned_create stream align_increment align_offset seen = \<lparr>
     as_stream = stream, as_buffer = replicate align_increment 0, as_offset = 0,
     as_alignOffset = align_offset, as_alignIncrement = align_increment, as_seen = seen,
     as_badChunk = False, as_good = True, as_totalCount = 0\<rparr>"

definition aligned_good :: "('s \<Rightarrow> bool) \<Rightarrow> ('s, 'c) aligned_stream \<Rightarrow> bool" where
  "aligned_good sgood s \<longleftrightarrow> as_good s \<and> sgood (as_stream s)"

definition aligned_tellp :: "('s, 'c) aligned_stream \<Rightarrow> nat" where
  "aligned_tellp s = as_totalCount s"

definition aligned_flush ::
  "('s \<Rightarrow> u8 list \<Rightarrow> 's option) \<Rightarrow> (u8 list option \<Rightarrow> 'c \<Rightarrow> 'c) \<Rightarrow> ('s, 'c) aligned_stream \<Rightarrow>
   ('s, 'c) aligned_stream option" where
  "aligned_flush swrite on_flush s = do {
     s \<leftarrow> (if as_offset s > 0 then do {
            d \<leftarrow> copy_of (as_buffer s) 0 (as_offset s);
            st \<leftarrow> swrite (as_stream s) d;
            Some (s\<lparr>as_stream := st, as_seen := on_flush (Some d) (as_seen s)\<rparr>)
          } else Some s);
     Some (s\<lparr>as_totalCount := as_totalCount s + as_offset s, as_offset := 0\<rparr>)
   }"

text \<open>One turn of the loop of \<open>write\<close>: the new state and the data that is left.\<close>

definition aligned_write_turn ::
  "('s \<Rightarrow> u8 list \<Rightarrow> 's option) \<Rightarrow> (u8 list option \<Rightarrow> 'c \<Rightarrow> 'c) \<Rightarrow> ('s, 'c) aligned_stream \<Rightarrow>
   u8 list \<Rightarrow> (('s, 'c) aligned_stream \<times> u8 list) option" where
  "aligned_write_turn swrite on_flush s data =
     (if as_offset s < as_alignOffset s then do {
        let writeLen = min (as_alignOffset s - as_offset s) (length data);
        st \<leftarrow> swrite (as_stream s) (take writeLen data);
        Some (s\<lparr>as_stream := st, as_totalCount := as_totalCount s + writeLen,
               as_alignOffset := as_alignOffset s - writeLen\<rparr>, drop writeLen data)
      } else if uint_add (length data) (as_offset s) \<ge> as_alignIncrement s then do {
        let writeLen = uint_sub (as_alignIncrement s) (as_offset s);
        s \<leftarrow> (if as_badChunk s then
               Some (s\<lparr>as_badChunk := False, as_offset := 0, as_seen := on_flush None (as_seen s)\<rparr>)
             else do {
               d \<leftarrow> copy_of data 0 writeLen;
               b \<leftarrow> blit (as_buffer s) (as_offset s) d;
               aligned_flush swrite on_flush (s\<lparr>as_buffer := b, as_offset := as_offset s + writeLen\<rparr>)
             });
        Some (s, drop writeLen data)
      } else do {
        b \<leftarrow> blit (as_buffer s) (as_offset s) data;
        Some (s\<lparr>as_buffer := b, as_offset := as_offset s + length data\<rparr>, [])
      })"

text \<open>The loop; it may not end (an increment of 0), which is \<open>None\<close>.\<close>

partial_function (option) aligned_write_loop ::
  "('s \<Rightarrow> u8 list \<Rightarrow> 's option) \<Rightarrow> (u8 list option \<Rightarrow> 'c \<Rightarrow> 'c) \<Rightarrow> ('s, 'c) aligned_stream \<Rightarrow>
   u8 list \<Rightarrow> ('s, 'c) aligned_stream option" where
  "aligned_write_loop swrite on_flush s data =
     (if length data > 0 then
        Option.bind (aligned_write_turn swrite on_flush s data)
          (\<lambda>(s, data). aligned_write_loop swrite on_flush s data)
      else Some s)"

definition aligned_write ::
  "('s \<Rightarrow> u8 list \<Rightarrow> 's option) \<Rightarrow> ('s \<Rightarrow> bool) \<Rightarrow> (u8 list option \<Rightarrow> 'c \<Rightarrow> 'c) \<Rightarrow>
   ('s, 'c) aligned_stream \<Rightarrow> u8 list \<Rightarrow> ('s, 'c) aligned_stream option" where
  "aligned_write swrite sgood on_flush s data =
     (if \<not> aligned_good sgood s then Some s else aligned_write_loop swrite on_flush s data)"

text \<open>The remainder by an increment of 0 is undefined.\<close>

definition mark_bad_chunk :: "('s, 'c) aligned_stream \<Rightarrow> nat \<Rightarrow> ('s, 'c) aligned_stream option" where
  "mark_bad_chunk s len =
     (let s1 = s\<lparr>as_badChunk := True\<rparr>;
          s2 = (if as_offset s1 < as_alignOffset s1 then s1\<lparr>as_good := False\<rparr> else s1);
          s3 = s2\<lparr>as_offset := uint_add (as_offset s2) len\<rparr>
      in if as_alignIncrement s3 = 0 then None
         else Some (s3\<lparr>as_offset := as_offset s3 mod as_alignIncrement s3\<rparr>))"

section \<open>\<open>escrow_buffer_writer\<close> and \<open>null_stream\<close>\<close>

record escrow_buffer_writer =
  eb_bufspace :: "u8 list"
  eb_bufcount :: nat
  eb_bufsize :: nat
  eb_bufIdx :: nat
  eb_totalCount :: nat
  eb_good :: bool

definition escrow_create :: "u8 list \<Rightarrow> nat \<Rightarrow> nat \<Rightarrow> escrow_buffer_writer" where
  "escrow_create bufspace bufcount bufsize = \<lparr>eb_bufspace = bufspace, eb_bufcount = bufcount,
     eb_bufsize = bufsize, eb_bufIdx = 0, eb_totalCount = 0, eb_good = True\<rparr>"

definition escrow_write :: "escrow_buffer_writer \<Rightarrow> u8 list \<Rightarrow> escrow_buffer_writer option" where
  "escrow_write w data =
     (let w = (if length data \<noteq> eb_bufsize w \<or> eb_bufIdx w \<ge> eb_bufcount w then w\<lparr>eb_good := False\<rparr> else w)
      in if \<not> eb_good w then Some w
         else do {
           b \<leftarrow> blit (eb_bufspace w) (eb_bufIdx w * eb_bufsize w) data;
           Some (w\<lparr>eb_bufspace := b, eb_totalCount := eb_totalCount w + length data,
                  eb_bufIdx := eb_bufIdx w + 1\<rparr>)
         })"

record null_stream =
  ns_count :: nat

definition null_write :: "null_stream \<Rightarrow> u8 list \<Rightarrow> null_stream option" where
  "null_write s data = Some (s\<lparr>ns_count := ns_count s + length data\<rparr>)"

definition null_good :: "null_stream \<Rightarrow> bool" where
  "null_good s \<longleftrightarrow> True"

section \<open>\<open>reed_solomon_stream\<close>\<close>

record 's reed_solomon_stream =
  rss_buffer :: "u8 list"
  rss_stream :: 's
  rss_rs :: ReedSolomon
  rss_good :: bool

definition rss_create ::
  "(nat \<Rightarrow> nat \<Rightarrow> u8) \<Rightarrow> ('s \<Rightarrow> bool) \<Rightarrow> 's \<Rightarrow> nat \<Rightarrow> nat \<Rightarrow> 's reed_solomon_stream option" where
  "rss_create mem sgood stream ecc buffer_size = do {
     rs \<leftarrow> ReedSolomon_create mem ecc;
     Some \<lparr>rss_buffer = replicate buffer_size 0, rss_stream = stream, rss_rs = rs, rss_good = sgood stream\<rparr>
   }"

text \<open>\<open>readsome\<close> with its default arguments; \<open>sread\<close> is \<open>read\<close> with \<open>gcount\<close> the length of what
  it delivered.\<close>

definition rss_readsome ::
  "('s \<Rightarrow> nat \<Rightarrow> (u8 list \<times> 's) option) \<Rightarrow> 's reed_solomon_stream \<Rightarrow> (int \<times> 's reed_solomon_stream) option" where
  "rss_readsome sread s = do {
     let n = length (rss_buffer s);
     (got, st) \<leftarrow> sread (rss_stream s) (uint_sub n (rsw_parityBytes (rss_rs s)));
     data \<leftarrow> blit (rss_buffer s) 0 got;
     let s = s\<lparr>rss_stream := st, rss_buffer := data\<rparr>;
     (if length got = 0 then Some (0, s\<lparr>rss_good := False\<rparr>)
      else if rsw_parityBytes (rss_rs s) = 0 then Some (int (length got), s)
      else do {
        (_, rs, data) \<leftarrow> ReedSolomon_encode (rss_rs s) data (length got) data;
        Some (int n, s\<lparr>rss_rs := rs, rss_buffer := data\<rparr>)
      })
   }"

text \<open>One turn of the loop of \<open>write\<close>; \<open>sbad\<close> is the stream's \<open>operator<<\<close> for a \<open>BadChunk\<close>.\<close>

definition rss_write_turn ::
  "('s \<Rightarrow> u8 list \<Rightarrow> 's option) \<Rightarrow> ('s \<Rightarrow> nat \<Rightarrow> 's option) \<Rightarrow> (nat \<Rightarrow> nat \<Rightarrow> u8) \<Rightarrow>
   's reed_solomon_stream \<Rightarrow> u8 list \<Rightarrow> 's reed_solomon_stream option" where
  "rss_write_turn swrite sbad mem s block = do {
     (bytes, rs, buffer) \<leftarrow> ReedSolomon_decode mem (rss_rs s) block (length block) (rss_buffer s);
     let s = s\<lparr>rss_rs := rs, rss_buffer := buffer\<rparr>;
     st \<leftarrow> (if bytes \<le> 0 then sbad (rss_stream s) (length (rss_buffer s) - rsw_parityBytes (rss_rs s))
           else do {
             d \<leftarrow> copy_of buffer 0 (nat bytes);
             swrite (rss_stream s) d
           });
     Some (s\<lparr>rss_stream := st\<rparr>)
   }"

partial_function (option) rss_write_loop ::
  "('s \<Rightarrow> u8 list \<Rightarrow> 's option) \<Rightarrow> ('s \<Rightarrow> nat \<Rightarrow> 's option) \<Rightarrow> (nat \<Rightarrow> nat \<Rightarrow> u8) \<Rightarrow>
   's reed_solomon_stream \<Rightarrow> u8 list \<Rightarrow> 's reed_solomon_stream option" where
  "rss_write_loop swrite sbad mem s data =
     (if length data \<ge> length (rss_buffer s) then
        Option.bind (rss_write_turn swrite sbad mem s (take (length (rss_buffer s)) data))
          (\<lambda>s'. rss_write_loop swrite sbad mem s' (drop (length (rss_buffer s)) data))
      else Some s)"

definition rss_write ::
  "('s \<Rightarrow> u8 list \<Rightarrow> 's option) \<Rightarrow> ('s \<Rightarrow> nat \<Rightarrow> 's option) \<Rightarrow> (nat \<Rightarrow> nat \<Rightarrow> u8) \<Rightarrow>
   's reed_solomon_stream \<Rightarrow> u8 list \<Rightarrow> 's reed_solomon_stream option" where
  "rss_write swrite sbad mem s data =
     (if rsw_parityBytes (rss_rs s) = 0 then do {
        st \<leftarrow> swrite (rss_stream s) data;
        Some (s\<lparr>rss_stream := st\<rparr>)
      } else rss_write_loop swrite sbad mem s data)"

section \<open>What the aligner promises\<close>

text \<open>The bytes a frame brings: \<open>Good d\<close> is a decoded block, \<open>Lost n\<close> one that could not be
  decoded. \<open>bytes_of\<close> marks the lost bytes, and \<open>good_chunks c\<close> are the chunks of \<open>c\<close> bytes, at
  multiples of \<open>c\<close>, without a lost byte.\<close>

datatype frame_event = Good "u8 list" | Lost nat

fun bytes_of :: "frame_event list \<Rightarrow> u8 option list" where
  "bytes_of [] = []"
| "bytes_of (Good d # es) = map Some d @ bytes_of es"
| "bytes_of (Lost n # es) = replicate n None @ bytes_of es"

function good_chunks :: "nat \<Rightarrow> 'a option list \<Rightarrow> 'a list list" where
  "good_chunks c xs =
     (if c = 0 \<or> length xs < c then []
      else (if None \<in> set (take c xs) then [] else [map the (take c xs)]) @ good_chunks c (drop c xs))"
  by pat_completeness auto
termination by (relation "measure (\<lambda>(c, xs). length xs)") auto

declare good_chunks.simps [simp del]

text \<open>No lost run ends at a chunk boundary; \<open>off\<close> is the position inside the chunk.\<close>

fun no_exact_fit :: "nat \<Rightarrow> nat \<Rightarrow> frame_event list \<Rightarrow> bool" where
  "no_exact_fit c off [] = True"
| "no_exact_fit c off (Good d # es) = no_exact_fit c ((off + length d) mod c) es"
| "no_exact_fit c off (Lost n # es) = (0 < n \<and> (off + n) mod c \<noteq> 0 \<and> no_exact_fit c ((off + n) mod c) es)"

definition aligned_event ::
  "('s \<Rightarrow> u8 list \<Rightarrow> 's option) \<Rightarrow> ('s \<Rightarrow> bool) \<Rightarrow> (u8 list option \<Rightarrow> 'c \<Rightarrow> 'c) \<Rightarrow> frame_event \<Rightarrow>
   ('s, 'c) aligned_stream \<Rightarrow> ('s, 'c) aligned_stream option" where
  "aligned_event swrite sgood on_flush e s =
     (case e of Good d \<Rightarrow> aligned_write swrite sgood on_flush s d | Lost n \<Rightarrow> mark_bad_chunk s n)"

definition write_all :: "('s \<Rightarrow> u8 list \<Rightarrow> 's option) \<Rightarrow> u8 list list \<Rightarrow> 's \<Rightarrow> 's option" where
  "write_all swrite ds s = for_each ds (\<lambda>d s. swrite s d) s"

lemma good_chunks_short: "length xs < c \<Longrightarrow> good_chunks c xs = []"
  by (simp add: good_chunks.simps)

lemma good_chunks_step:
  assumes "0 < c" "length xs = c"
  shows "good_chunks c (xs @ ys) = (if None \<in> set xs then [] else [map the xs]) @ good_chunks c ys"
  using assms by (subst good_chunks.simps) auto

lemma good_chunks_append:
  assumes "0 < c" "length xs = k * c"
  shows "good_chunks c (xs @ ys) = good_chunks c xs @ good_chunks c ys"
  using assms
proof (induction k arbitrary: xs)
  case 0
  then show ?case by (simp add: good_chunks_short)
next
  case (Suc k)
  have l: "length (take c xs) = c" "length (drop c xs) = k * c" using Suc.prems by simp_all
  have "good_chunks c (take c xs @ drop c xs @ ys) =
      (if None \<in> set (take c xs) then [] else [map the (take c xs)]) @ good_chunks c (drop c xs @ ys)"
    by (rule good_chunks_step) (use Suc.prems l in simp_all)
  moreover have "good_chunks c (take c xs @ drop c xs) =
      (if None \<in> set (take c xs) then [] else [map the (take c xs)]) @ good_chunks c (drop c xs)"
    by (rule good_chunks_step) (use Suc.prems l in simp_all)
  moreover have "take c xs @ drop c xs @ ys = xs @ ys" by (metis append.assoc append_take_drop_id)
  ultimately show ?case using Suc.IH [OF Suc.prems(1) l(2)] by simp
qed

lemma good_chunks_nones: "length cur < c \<Longrightarrow> good_chunks c (cur @ replicate n None) = []"
proof (induction n arbitrary: cur rule: less_induct)
  case (less n)
  let ?x = "cur @ replicate n None" and ?m = "c - length cur"
  show ?case
  proof (cases "length ?x < c")
    case False
    then have m: "?m \<le> n" "0 < ?m" using less.prems by auto
    have "replicate n None = replicate ?m None @ replicate (n - ?m) None"
      using m(1) by (simp add: replicate_add [symmetric])
    then have x: "?x = (cur @ replicate ?m None) @ replicate (n - ?m) None" by simp
    have "good_chunks c ?x = good_chunks c (replicate (n - ?m) None)"
      unfolding x by (subst good_chunks_step) (use less.prems m in auto)
    also have "\<dots> = []" using less.IH [of "n - ?m" "[]"] less.prems m by simp
    finally show ?thesis .
  qed (simp only: good_chunks_short)
qed

lemma good_chunks_length: "d \<in> set (good_chunks c xs) \<Longrightarrow> length d = c"
proof (induction c xs rule: good_chunks.induct)
  case (1 c xs)
  then show ?case using good_chunks.simps [of c xs] by (auto split: if_splits)
qed

lemma good_chunks_count: "0 < c \<Longrightarrow> length (good_chunks c xs) \<le> length xs div c"
proof (induction c xs rule: good_chunks.induct)
  case (1 c xs)
  show ?case
  proof (cases "length xs < c")
    case False
    with 1 have "length (good_chunks c (drop c xs)) \<le> length xs div c - 1"
      by (simp add: div_if [of "length xs"])
    then show ?thesis using False 1(2) good_chunks.simps [of c xs] div_if [of "length xs" c] by auto
  qed (simp add: good_chunks_short)
qed

lemma write_all_append:
  "write_all swrite (ds @ es) s = Option.bind (write_all swrite ds s) (write_all swrite es)"
  by (auto simp: write_all_def for_each_append split: option.splits)

lemma write_all_one [simp]: "write_all swrite [d] s = swrite s d"
  by (simp add: write_all_def split: option.splits)

lemma write_all_nil [simp]: "write_all swrite [] s = Some s"
  by (simp add: write_all_def)

text \<open>The state of an aligner that saw \<open>xs\<close> so far, of which \<open>cur\<close> is the incomplete chunk;
  \<open>exact\<close> says that no lost run ended at a boundary.\<close>

definition aligned_inv ::
  "('s \<Rightarrow> u8 list \<Rightarrow> 's option) \<Rightarrow> nat \<Rightarrow> bool \<Rightarrow> 's \<Rightarrow> nat \<Rightarrow> u8 option list \<Rightarrow> u8 option list \<Rightarrow>
   u8 list list \<Rightarrow> ('s, 'c) aligned_stream \<Rightarrow> bool" where
  "aligned_inv swrite c exact st k pre cur ws s \<longleftrightarrow>
     length pre = k * c \<and> length cur < c \<and> as_offset s = length cur \<and> as_alignOffset s = 0 \<and>
     as_alignIncrement s = c \<and> length (as_buffer s) = c \<and> as_good s \<and>
     (\<not> as_badChunk s \<longrightarrow> cur = map Some (take (length cur) (as_buffer s))) \<and>
     write_all swrite ws st = Some (as_stream s) \<and> subseq ws (good_chunks c pre) \<and>
     (exact \<longrightarrow> ws = good_chunks c pre \<and> (as_badChunk s \<longrightarrow> None \<in> set cur))"

lemma aligned_turn_short:
  assumes inv: "aligned_inv swrite c exact st k pre cur ws s" and short: "length cur + length data < c"
    and big: "length data + c < 2 ^ 32"
  shows "\<exists>s'. aligned_write_turn swrite on_flush s data = Some (s', []) \<and> as_stream s' = as_stream s \<and>
    aligned_inv swrite c exact st k pre (cur @ map Some data) ws s'"
proof -
  note I = inv [unfolded aligned_inv_def]
  have b: "blit (as_buffer s) (length cur) data =
      Some (take (length cur) (as_buffer s) @ data @ drop (length cur + length data) (as_buffer s))"
    using I short by (simp add: blit_def)
  have "uint_add (length data) (length cur) = length data + length cur"
    by (rule uint_add_small) (use short big in linarith)
  then have "aligned_write_turn swrite on_flush s data =
      Some (s\<lparr>as_buffer := take (length cur) (as_buffer s) @ data @ drop (length cur + length data) (as_buffer s),
              as_offset := length cur + length data\<rparr>, [])"
    using I short b by (simp add: aligned_write_turn_def)
  moreover have "take (length cur + length data)
      (take (length cur) (as_buffer s) @ data @ drop (length cur + length data) (as_buffer s)) =
      take (length cur) (as_buffer s) @ data"
    using I short by simp
  ultimately show ?thesis using I short by (auto simp: aligned_inv_def)
qed

lemma aligned_inv_next:
  assumes inv: "aligned_inv swrite c exact st k pre cur ws s" and full: "length cur + length d = c"
    and w: "write_all swrite ws' st = Some (as_stream s')"
    and ws': "ws' = (if as_badChunk s then ws else ws @ [map the (cur @ map Some d)])"
    and s': "as_offset s' = 0" "as_alignOffset s' = 0" "as_alignIncrement s' = c" "length (as_buffer s') = c"
      "as_good s'" "\<not> as_badChunk s'"
  shows "aligned_inv swrite c exact st (Suc k) (pre @ cur @ map Some d) [] ws' s'"
proof -
  note I = inv [unfolded aligned_inv_def]
  have c: "0 < c" using I by auto
  let ?x = "cur @ map Some d"
  have lx: "length ?x = c" using full by simp
  have g: "good_chunks c (pre @ ?x) =
      good_chunks c pre @ (if None \<in> set ?x then [] else [map the ?x])"
    using good_chunks_append [OF c, of pre k ?x] good_chunks_step [OF c lx, of "[]"] I c
    by (simp add: good_chunks_short)
  have "None \<notin> set ?x" if "\<not> as_badChunk s"
  proof -
    obtain ys where "cur = map Some ys" using I \<open>\<not> as_badChunk s\<close> by blast
    then show ?thesis by auto
  qed
  moreover have "None \<in> set ?x" if exact "as_badChunk s" using I that by auto
  ultimately show ?thesis using I g s' w c lx ws'
    by (auto simp: aligned_inv_def intro: list_emb_append_mono subseq_order.trans [OF _ list_emb_prefix])
qed

lemma aligned_turn_full:
  assumes inv: "aligned_inv swrite c exact st k pre cur ws s" and full: "c \<le> length cur + length data"
    and big: "length data + c < 2 ^ 32"
    and wr: "\<And>d. length d = c \<Longrightarrow> swrite (as_stream s) d \<noteq> None"
  shows "\<exists>s' ws'. aligned_write_turn swrite on_flush s data = Some (s', drop (c - length cur) data) \<and>
    aligned_inv swrite c exact st (Suc k) (pre @ cur @ map Some (take (c - length cur) data)) [] ws' s' \<and>
    (as_stream s' = as_stream s \<or> (\<exists>d. length d = c \<and> swrite (as_stream s) d = Some (as_stream s')))"
proof -
  note I = inv [unfolded aligned_inv_def]
  let ?n = "c - length cur" and ?d = "take (c - length cur) data"
  have ld: "length cur + length ?d = c" "length ?d = ?n" using full I by simp_all
  have lt: "length cur < c" using I by simp
  have m: "uint_add (length data) (length cur) = length data + length cur"
    by (rule uint_add_small) (use lt big in linarith)
  have full': "c \<le> length data + length cur" using full by simp
  have n: "uint_sub c (length cur) = ?n"
    by (rule uint_sub_le) (use lt big in linarith)+
  show ?thesis
  proof (cases "as_badChunk s")
    case True
    let ?s = "s\<lparr>as_badChunk := False, as_offset := 0, as_seen := on_flush None (as_seen s)\<rparr>"
    have "aligned_write_turn swrite on_flush s data = Some (?s, drop ?n data)"
      using I True full' by (simp add: aligned_write_turn_def m n)
    moreover have "aligned_inv swrite c exact st (Suc k) (pre @ cur @ map Some ?d) [] ws ?s"
      by (rule aligned_inv_next [OF inv ld(1)]) (use I True in simp_all)
    ultimately show ?thesis by auto
  next
    case False
    let ?b = "take (length cur) (as_buffer s) @ ?d"
    have lb: "length ?b = c" using I ld by simp
    have b: "blit (as_buffer s) (length cur) ?d = Some ?b" using I ld by (simp add: blit_def)
    obtain st' where st': "swrite (as_stream s) ?b = Some st'" using wr [OF lb] by blast
    have "take c ?b = ?b" by (rule take_all) (simp only: lb order.refl)
    moreover have "c - length cur \<le> length data" using full by simp
    ultimately have cp: "copy_of data 0 ?n = Some ?d" "copy_of ?b 0 c = Some ?b"
      unfolding copy_of_def lb by simp_all
    let ?s = "s\<lparr>as_buffer := ?b, as_stream := st', as_seen := on_flush (Some ?b) (as_seen s),
      as_totalCount := as_totalCount s + c, as_offset := 0\<rparr>"
    have "0 < c" "length cur + ?n = c" using I by auto
    then have t: "aligned_write_turn swrite on_flush s data = Some (?s, drop ?n data)"
      using I False full' b cp st'
      by (simp add: aligned_write_turn_def aligned_flush_def m n Let_def)
    have "cur = map Some (take (length cur) (as_buffer s))" using I False by simp
    then have b': "map the (cur @ map Some ?d) = ?b"
      by (metis (no_types, lifting) map_append map_map comp_the_Some list.map_id0 id_apply)
    have "write_all swrite (ws @ [?b]) st = Some st'" using I st' by (simp add: write_all_append)
    then have "aligned_inv swrite c exact st (Suc k) (pre @ cur @ map Some ?d) [] (ws @ [?b]) ?s"
      using I False lb b' by (intro aligned_inv_next [OF inv ld(1)]) simp_all
    then show ?thesis using t st' lb by fastforce
  qed
qed

section \<open>The contract between the aligner and its stream\<close>

text \<open>\<open>room n s\<close>: the stream can take \<open>n\<close> more chunks of \<open>c\<close> bytes.\<close>

locale chunk_stream =
  fixes swrite :: "'s \<Rightarrow> u8 list \<Rightarrow> 's option"
    and sgood :: "'s \<Rightarrow> bool"
    and room :: "nat \<Rightarrow> nat \<Rightarrow> 's \<Rightarrow> bool"
  assumes write_room: "room c (Suc n) s \<Longrightarrow> length d = c \<Longrightarrow> \<exists>s'. swrite s d = Some s' \<and> room c n s'"
    and room_good: "room c n s \<Longrightarrow> sgood s"
    and room_less: "room c (Suc n) s \<Longrightarrow> room c n s"
begin

lemma write_all_room:
  "room c (length ds + n) s \<Longrightarrow> \<forall>d\<in>set ds. length d = c \<Longrightarrow>
    \<exists>s'. write_all swrite ds s = Some s' \<and> room c n s'"
proof (induction ds arbitrary: s)
  case (Cons d ds)
  then obtain s1 where "swrite s d = Some s1" "room c (length ds + n) s1"
    using write_room [of c "length ds + n" s d] by auto
  then show ?case using Cons.IH [of s1] Cons.prems(2) by (simp add: write_all_def)
qed simp

lemma room_le: "room c n s \<Longrightarrow> m \<le> n \<Longrightarrow> room c m s"
proof (induction n)
  case (Suc n)
  then show ?case using room_less by (cases "m = Suc n") auto
qed simp

lemma loop_inv:
  assumes "aligned_inv swrite c exact st k pre cur ws s" "length data + c < 2 ^ 32"
    and "room c (N - k) (as_stream s)" "k * c + length cur + length data < (N + 1) * c"
  shows "\<exists>s' k' pre' cur' ws'. aligned_write_loop swrite on_flush s data = Some s' \<and>
    aligned_inv swrite c exact st k' pre' cur' ws' s' \<and> pre' @ cur' = pre @ cur @ map Some data \<and>
    room c (N - k') (as_stream s')"
  using assms
proof (induction "length data" arbitrary: s k pre cur ws data rule: less_induct)
  case less
  note I = less.prems(1) [unfolded aligned_inv_def]
  show ?case
  proof (cases "data = []")
    case True
    then show ?thesis using less.prems by (subst aligned_write_loop.simps) auto
  next
    case False
    show ?thesis
    proof (cases "length cur + length data < c")
      case True
      from aligned_turn_short [OF less.prems(1) True less.prems(2), of on_flush]
      obtain s' where s': "aligned_write_turn swrite on_flush s data = Some (s', [])"
        "as_stream s' = as_stream s" "aligned_inv swrite c exact st k pre (cur @ map Some data) ws s'" by blast
      moreover have "aligned_write_loop swrite on_flush s' [] = Some s'"
        by (subst aligned_write_loop.simps) simp
      ultimately have "aligned_write_loop swrite on_flush s data = Some s'"
        using False by (subst aligned_write_loop.simps) simp
      then show ?thesis using s' less.prems(3) by fastforce
    next
      case full: False
      let ?n = "c - length cur"
      have c: "0 < c" "length cur < c" using I by auto
      have "(k + 1) * c \<le> k * c + length cur + length data" using full by simp
      then have "(k + 1) * c < (N + 1) * c" using less.prems(4) by linarith
      then have "k < N" by (simp only: mult_less_cancel2) simp
      then have room: "room c (Suc (N - Suc k)) (as_stream s)"
        using less.prems(3) by (simp add: Suc_diff_Suc)
      have "\<exists>s' ws'. aligned_write_turn swrite on_flush s data = Some (s', drop ?n data) \<and>
          aligned_inv swrite c exact st (Suc k) (pre @ cur @ map Some (take ?n data)) [] ws' s' \<and>
          (as_stream s' = as_stream s \<or> (\<exists>d. length d = c \<and> swrite (as_stream s) d = Some (as_stream s')))"
        by (rule aligned_turn_full [OF less.prems(1) _ less.prems(2)]) (use full write_room [OF room] in auto)
      then obtain s1 ws1 where s1: "aligned_write_turn swrite on_flush s data = Some (s1, drop ?n data)"
        "aligned_inv swrite c exact st (Suc k) (pre @ cur @ map Some (take ?n data)) [] ws1 s1"
        "as_stream s1 = as_stream s \<or> (\<exists>d. length d = c \<and> swrite (as_stream s) d = Some (as_stream s1))" by blast
      have "room c (N - Suc k) (as_stream s1)" using s1(3) room_less [OF room] write_room [OF room] by (metis option.inject)
      moreover have "length (drop ?n data) < length data"
        using c(2) False length_greater_0_conv [of data] unfolding length_drop by linarith
      moreover have "length (drop ?n data) + c < 2 ^ 32" using less.prems(2) by simp
      moreover have "Suc k * c + length [] + length (drop ?n data) < (N + 1) * c"
        using less.prems(4) full c by simp
      ultimately obtain s' k' pre' cur' ws' where
        "aligned_write_loop swrite on_flush s1 (drop ?n data) = Some s'"
        "aligned_inv swrite c exact st k' pre' cur' ws' s'"
        "pre' @ cur' = (pre @ cur @ map Some (take ?n data)) @ [] @ map Some (drop ?n data)"
        "room c (N - k') (as_stream s')"
        using less.hyps [OF _ s1(2)] by blast
      moreover from this(3) have "pre' @ cur' = pre @ cur @ map Some data"
        by (simp add: map_append [symmetric] del: map_append)
      moreover have "aligned_write_loop swrite on_flush s data = aligned_write_loop swrite on_flush s1 (drop ?n data)"
        using False s1(1) by (subst aligned_write_loop.simps) simp
      ultimately show ?thesis by metis
    qed
  qed
qed

lemma event_inv:
  assumes inv: "aligned_inv swrite c exact st k pre cur ws s"
    and big: "length (bytes_of [e]) + c < 2 ^ 32"
    and room: "room c (N - k) (as_stream s)" "k * c + length cur + length (bytes_of [e]) < (N + 1) * c"
    and fit: "exact \<longrightarrow> no_exact_fit c (length cur) [e]"
  shows "\<exists>s' k' pre' cur' ws'. aligned_event swrite sgood on_flush e s = Some s' \<and>
    aligned_inv swrite c exact st k' pre' cur' ws' s' \<and> pre' @ cur' = pre @ cur @ bytes_of [e] \<and>
    room c (N - k') (as_stream s')"
proof (cases e)
  case (Good d)
  have "aligned_good sgood s" using inv room_good [OF room(1)] by (simp add: aligned_good_def aligned_inv_def)
  then have "aligned_event swrite sgood on_flush e s = aligned_write_loop swrite on_flush s d"
    by (simp add: Good aligned_event_def aligned_write_def)
  then show ?thesis using loop_inv [OF inv, of d] big room by (simp add: Good)
next
  case (Lost n)
  note I = inv [unfolded aligned_inv_def]
  have c: "0 < c" "length cur < c" using I by auto
  let ?x = "cur @ replicate n None" and ?m = "(length cur + n) div c"
  have le: "length cur + n = length ?x" by simp
  have add: "uint_add (length cur) n = length cur + n"
    by (rule uint_add_small) (use c(2) big Lost in simp)
  define s' where "s' = s\<lparr>as_badChunk := True, as_offset := (length cur + n) mod c\<rparr>"
  have run: "aligned_event swrite sgood on_flush e s = Some s'"
    using I c by (simp add: Lost aligned_event_def mark_bad_chunk_def add s'_def)
  define p q where "p = take (?m * c) ?x" and "q = drop (?m * c) ?x"
  have pq: "?x = p @ q" unfolding p_def q_def by (rule append_take_drop_id [symmetric])
  have mc: "?m * c \<le> length ?x" unfolding le [symmetric] by (rule div_times_less_eq_dividend)
  have lp: "length p = ?m * c" using mc unfolding p_def length_take by (rule min.absorb2)
  have lq: "length q = (length cur + n) mod c" 
    unfolding q_def length_drop le [symmetric] by (rule minus_div_mult_eq_mod)
  have g: "good_chunks c (pre @ p) = good_chunks c pre @ good_chunks c p"
    by (rule good_chunks_append [OF c(1), of _ k]) (use I in simp)
  have "good_chunks c p @ good_chunks c q = []"
    using good_chunks_append [OF c(1) lp, of q] good_chunks_nones [OF c(2), of n] pq by simp
  then have p0: "good_chunks c p = []" by simp
  have q0: "None \<in> set q" if exact
  proof -
    have "q \<noteq> []" "0 < n" using fit that lq by (auto simp: Lost)
    then have "last ?x = None" by simp
    then have "last q = None" using \<open>q \<noteq> []\<close> by (simp add: pq)
    then show ?thesis using \<open>q \<noteq> []\<close> by (metis last_in_set)
  qed
  have "aligned_inv swrite c exact st (k + ?m) (pre @ p) q ws s'"
    using I lp lq c p0 q0 g by (auto simp: aligned_inv_def s'_def add_mult_distrib)
  moreover have "room c (N - (k + ?m)) (as_stream s')"
    using room_le [OF room(1)] by (simp add: s'_def)
  ultimately show ?thesis using run pq by (fastforce simp: Lost)
qed

text \<open>A whole frame: the fold of the events. What is written is a subsequence of the good chunks,
  and all of them if no lost run ends at a boundary.\<close>

lemma feed_inv:
  assumes "aligned_inv swrite c exact st k pre cur ws s" "length (bytes_of es) + c < 2 ^ 32"
    and "room c (N - k) (as_stream s)" "k * c + length cur + length (bytes_of es) < (N + 1) * c"
    and "exact \<longrightarrow> no_exact_fit c (length cur) es"
  shows "\<exists>s' k' pre' cur' ws'. for_each es (aligned_event swrite sgood on_flush) s = Some s' \<and>
    aligned_inv swrite c exact st k' pre' cur' ws' s' \<and> pre' @ cur' = pre @ cur @ bytes_of es \<and>
    room c (N - k') (as_stream s')"
  using assms
proof (induction es arbitrary: s k pre cur ws)
  case Nil
  then show ?case by auto
next
  case (Cons e es)
  have split: "bytes_of (e # es) = bytes_of [e] @ bytes_of es" by (cases e) simp_all
  have "\<exists>s' k' pre' cur' ws'. aligned_event swrite sgood on_flush e s = Some s' \<and>
      aligned_inv swrite c exact st k' pre' cur' ws' s' \<and> pre' @ cur' = pre @ cur @ bytes_of [e] \<and>
      room c (N - k') (as_stream s')"
    by (rule event_inv [OF Cons.prems(1) _ Cons.prems(3)])
      (use Cons.prems(2,4,5) in \<open>cases e; simp\<close>)+
  then obtain s1 k1 pre1 cur1 ws1 where 1: "aligned_event swrite sgood on_flush e s = Some s1"
    "aligned_inv swrite c exact st k1 pre1 cur1 ws1 s1" "pre1 @ cur1 = pre @ cur @ bytes_of [e]"
    "room c (N - k1) (as_stream s1)" by blast
  have k: "length pre = k * c" "length pre1 = k1 * c" "length cur1 < c"
    using Cons.prems(1) 1(2) by (simp_all add: aligned_inv_def)
  have len: "k1 * c + length cur1 = k * c + length cur + length (bytes_of [e])"
    using arg_cong [OF 1(3), of length] k by simp
  have "length cur1 = (k1 * c + length cur1) mod c" using k(3) by simp
  also have "\<dots> = (length cur + length (bytes_of [e]) + k * c) mod c" unfolding len by (simp only: ac_simps)
  finally have cur1: "length cur1 = (length cur + length (bytes_of [e])) mod c" by (simp only: mod_mult_self1)
  have "\<exists>s' k' pre' cur' ws'. for_each es (aligned_event swrite sgood on_flush) s1 = Some s' \<and>
      aligned_inv swrite c exact st k' pre' cur' ws' s' \<and> pre' @ cur' = pre1 @ cur1 @ bytes_of es \<and>
      room c (N - k') (as_stream s')"
  proof (rule Cons.IH [OF 1(2) _ 1(4)])
    show "length (bytes_of es) + c < 2 ^ 32" using Cons.prems(2) split by simp
    show "k1 * c + length cur1 + length (bytes_of es) < (N + 1) * c" using Cons.prems(4) len split by simp
    show "exact \<longrightarrow> no_exact_fit c (length cur1) es" using Cons.prems(5) cur1 by (cases e) simp_all
  qed
  moreover have "pre1 @ cur1 @ bytes_of es = pre @ cur @ bytes_of (e # es)"
    using arg_cong [OF 1(3), of "\<lambda>x. x @ bytes_of es"] split by simp
  ultimately show ?case using 1(1) by auto
qed

lemma feed_fresh:
  assumes c: "0 < c" and big: "length (bytes_of es) + c < 2 ^ 32" and room: "room c N st"
    and fits: "length (bytes_of es) < (N + 1) * c"
  shows "\<exists>s' ws. for_each es (aligned_event swrite sgood on_flush) (aligned_create st c 0 cb) = Some s' \<and>
    write_all swrite ws st = Some (as_stream s') \<and> subseq ws (good_chunks c (bytes_of es)) \<and>
    (no_exact_fit c 0 es \<longrightarrow> ws = good_chunks c (bytes_of es)) \<and> sgood (as_stream s')"
proof -
  let ?ex = "no_exact_fit c 0 es"
  have "aligned_inv swrite c ?ex st 0 [] [] [] (aligned_create st c 0 cb)"
    using c by (simp add: aligned_inv_def aligned_create_def good_chunks_short)
  from feed_inv [OF this big, of N on_flush] obtain s' k pre cur ws where
    run: "for_each es (aligned_event swrite sgood on_flush) (aligned_create st c 0 cb) = Some s'"
    and inv: "aligned_inv swrite c ?ex st k pre cur ws s'" and eq: "pre @ cur = bytes_of es"
    and r: "room c (N - k) (as_stream s')"
    using room fits by (auto simp: aligned_create_def)
  have "good_chunks c (bytes_of es) = good_chunks c pre"
    using inv good_chunks_append [OF c, of pre k cur] unfolding eq [symmetric]
    by (simp add: aligned_inv_def good_chunks_short)
  then show ?thesis using run inv room_good [OF r] by (auto simp: aligned_inv_def)
qed

end

section \<open>The streams that keep the contract\<close>

definition null_room :: "nat \<Rightarrow> nat \<Rightarrow> null_stream \<Rightarrow> bool" where
  "null_room c n s \<longleftrightarrow> True"

interpretation null_chunks: chunk_stream null_write null_good null_room
  by unfold_locales (auto simp: null_write_def null_good_def null_room_def)

definition escrow_room :: "nat \<Rightarrow> nat \<Rightarrow> escrow_buffer_writer \<Rightarrow> bool" where
  "escrow_room c n w \<longleftrightarrow> eb_good w \<and> eb_bufsize w = c \<and> eb_bufIdx w + n \<le> eb_bufcount w \<and>
     length (eb_bufspace w) = eb_bufcount w * c"

lemma escrow_write_in:
  assumes "escrow_room c (Suc n) w" "length d = c"
  shows "escrow_write w d = Some (w\<lparr>
    eb_bufspace := take (eb_bufIdx w * c) (eb_bufspace w) @ d @ drop (eb_bufIdx w * c + c) (eb_bufspace w),
    eb_totalCount := eb_totalCount w + c, eb_bufIdx := eb_bufIdx w + 1\<rparr>)"
proof -
  have "eb_bufIdx w * c + c \<le> eb_bufcount w * c"
    using assms mult_le_mono1 [of "eb_bufIdx w + 1" "eb_bufcount w" c] by (simp add: escrow_room_def)
  then show ?thesis using assms by (simp add: escrow_write_def escrow_room_def blit_def)
qed

lemma escrow_write_room:
  assumes "escrow_room c (Suc n) w" "length d = c"
  shows "\<exists>w'. escrow_write w d = Some w' \<and> escrow_room c n w' \<and> eb_bufcount w' = eb_bufcount w \<and>
    eb_bufIdx w' = eb_bufIdx w + 1 \<and> eb_totalCount w' = eb_totalCount w + c \<and>
    take (eb_bufIdx w' * c) (eb_bufspace w') = take (eb_bufIdx w * c) (eb_bufspace w) @ d"
proof -
  have "eb_bufIdx w * c + c \<le> eb_bufcount w * c"
    using assms mult_le_mono1 [of "eb_bufIdx w + 1" "eb_bufcount w" c] by (simp add: escrow_room_def)
  then show ?thesis unfolding escrow_write_in [OF assms] using assms by (simp add: escrow_room_def)
qed

interpretation escrow_chunks: chunk_stream escrow_write eb_good escrow_room
  by unfold_locales (use escrow_write_room in \<open>fastforce simp: escrow_room_def\<close>)+

lemma escrow_write_all:
  assumes "escrow_room c (length ds) w" "\<forall>d\<in>set ds. length d = c"
  shows "\<exists>w'. write_all escrow_write ds w = Some w' \<and> eb_bufIdx w' = eb_bufIdx w + length ds \<and>
    take (eb_bufIdx w' * c) (eb_bufspace w') = take (eb_bufIdx w * c) (eb_bufspace w) @ concat ds"
  using assms
proof (induction ds arbitrary: w)
  case (Cons d ds)
  have "escrow_room c (Suc (length ds)) w" using Cons.prems(1) by simp
  from escrow_write_room [OF this, of d] Cons.prems(2) obtain w1 where
    "escrow_write w d = Some w1" "escrow_room c (length ds) w1" "eb_bufIdx w1 = eb_bufIdx w + 1"
    "take (eb_bufIdx w1 * c) (eb_bufspace w1) = take (eb_bufIdx w * c) (eb_bufspace w) @ d" by auto
  moreover from Cons.IH [OF this(2)] Cons.prems(2) obtain w' where "write_all escrow_write ds w1 = Some w'"
    "eb_bufIdx w' = eb_bufIdx w1 + length ds"
    "take (eb_bufIdx w' * c) (eb_bufspace w') = take (eb_bufIdx w1 * c) (eb_bufspace w1) @ concat ds" by auto
  ultimately show ?case by (simp add: write_all_def)
qed simp

section \<open>The properties of the streams\<close>

text \<open>C11: a frame of good and lost blocks, pushed through the aligner into the escrow buffers,
  never writes outside the buffers and never breaks the writer. The buffers hold, in order, whole
  chunks that contain no lost byte; and they hold all of those chunks unless some lost run ends
  exactly where a chunk ends.\<close>

theorem aligner_fills_escrow:
  assumes "0 < c" "length (bytes_of es) + c < 2 ^ 32" "length bufspace = n * c"
    and "length (bytes_of es) < (n + 1) * c"
  shows "\<exists>s' ws. for_each es (aligned_event escrow_write eb_good on_flush)
        (aligned_create (escrow_create bufspace n c) c 0 seen) = Some s' \<and>
    subseq ws (good_chunks c (bytes_of es)) \<and> (no_exact_fit c 0 es \<longrightarrow> ws = good_chunks c (bytes_of es)) \<and>
    eb_good (as_stream s') \<and> eb_bufIdx (as_stream s') = length ws \<and>
    take (length ws * c) (eb_bufspace (as_stream s')) = concat ws"
proof -
  let ?w = "escrow_create bufspace n c"
  have room: "escrow_room c n ?w" using assms by (simp add: escrow_room_def escrow_create_def)
  from escrow_chunks.feed_fresh [OF assms(1,2) room assms(4), of on_flush seen] obtain s' ws where s':
    "for_each es (aligned_event escrow_write eb_good on_flush) (aligned_create ?w c 0 seen) = Some s'"
    "write_all escrow_write ws ?w = Some (as_stream s')" "subseq ws (good_chunks c (bytes_of es))"
    "no_exact_fit c 0 es \<longrightarrow> ws = good_chunks c (bytes_of es)" "eb_good (as_stream s')" by blast
  have "length ws \<le> length (bytes_of es) div c"
    using list_emb_length [OF s'(3)] good_chunks_count [OF assms(1), of "bytes_of es"] by simp
  also have "\<dots> \<le> n" using assms(4) less_mult_imp_div_less [of _ "n + 1" c] by fastforce
  finally have "escrow_room c (length ws) ?w" using escrow_chunks.room_le [OF room] by blast
  moreover have "\<forall>d\<in>set ws. length d = c"
    using s'(3) good_chunks_length [of _ c "bytes_of es"] by (auto dest: list_emb_set)
  ultimately obtain w' where "write_all escrow_write ws ?w = Some w'" "eb_bufIdx w' = length ws"
    "take (eb_bufIdx w' * c) (eb_bufspace w') = concat ws"
    using escrow_write_all [of c ws ?w] by (auto simp: escrow_create_def)
  then show ?thesis using s' by auto
qed

theorem aligner_fills_escrow_witness:
  "\<exists>s'. for_each [Good [1, 2, 3], Lost 2, Good [4, 5, 6]] (aligned_event escrow_write eb_good (\<lambda>_ n. n + 1))
      (aligned_create (escrow_create (replicate 8 0) 4 2) 2 0 (0 :: nat)) = Some s' \<and>
    take 4 (eb_bufspace (as_stream s')) = [1, 2, 5, 6]"
proof -
  let ?es = "[Good [1, 2, 3], Lost 2, Good [4, 5, 6 :: u8]]"
  have g: "good_chunks 2 (bytes_of ?es) = [[1, 2], [5, 6]]"
    by (simp add: good_chunks.simps numeral_2_eq_2)
  have "no_exact_fit 2 0 ?es" by simp
  then show ?thesis using aligner_fills_escrow [of 2 ?es "replicate 8 0" 4 "\<lambda>_ n. n + 1" "0 :: nat"] g by auto
qed



end
