(* ===== verification/ErrorCorrection.thy ===== *)
theory ErrorCorrection
  imports Complex_Main "HOL-Library.Multiset" ReedSolomonCodec
begin

text \<open>
  What the decoder of libcorrect (src/reed-solomon/decode.c) promises: a word with at most half
  as many wrong bytes as there are parity bytes is corrected.

  The first sections are the algebra, over the field of bytes: the number of roots of a
  polynomial, Vandermonde systems, and the error locator \<open>lamc Xs\<close>, the coefficients of the
  product of \<open>1 + X z\<close>, with its derivative. The next ones show that Berlekamp-Massey finds
  exactly that locator (Massey's lemma bounds the length of the register from above), that
  the Chien search finds its roots, that the locations are the positions of the wrong bytes
  and that Forney's formula gives the values to add. The last section characterises when the
  decoder reads outside a table.
\<close>

section \<open>Roots of polynomials over the bytes\<close>

lemma finite_gf256 [simp]: "finite (A :: gf256 set)"
proof -
  have "(UNIV :: gf256 set) = GF ` UNIV" by (metis gf256.exhaust surj_def)
  then show ?thesis by (metis finite finite_imageI rev_finite_subset subset_UNIV)
qed

lemma card_roots_le:
  fixes c :: "nat \<Rightarrow> gf256"
  assumes "c m \<noteq> 0"
  shows "card {z. (\<Sum>i\<le>m. c i * z ^ i) = 0} \<le> m"
  using assms
proof (induction m arbitrary: c)
  case 0
  then show ?case by simp
next
  case (Suc m)
  show ?case
  proof (cases "{z. (\<Sum>i\<le>Suc m. c i * z ^ i) = 0} = {}")
    case False
    then obtain a where a: "(\<Sum>i\<le>Suc m. c i * a ^ i) = 0" by blast
    define b where "b = (\<lambda>j. \<Sum>i = Suc j..Suc m. c i * a ^ (i - j - 1))"
    have fac: "(\<Sum>i\<le>Suc m. c i * z ^ i) = (z - a) * (\<Sum>j\<le>m. b j * z ^ j)" for z
      using polyfun_diff [of "Suc m" c z a] a by (simp add: b_def lessThan_Suc_atMost del: sum.atMost_Suc)
    have "b m = c (Suc m)" by (simp add: b_def)
    then have IH: "card {z. (\<Sum>i\<le>m. b i * z ^ i) = 0} \<le> m" using Suc by simp
    have "{z. (\<Sum>i\<le>Suc m. c i * z ^ i) = 0} \<subseteq> insert a {z. (\<Sum>i\<le>m. b i * z ^ i) = 0}"
      by (auto simp: fac simp del: sum.atMost_Suc)
    then have "card {z. (\<Sum>i\<le>Suc m. c i * z ^ i) = 0} \<le> card (insert a {z. (\<Sum>i\<le>m. b i * z ^ i) = 0})"
      by (intro card_mono) simp
    also have "\<dots> \<le> Suc (card {z. (\<Sum>i\<le>m. b i * z ^ i) = 0})" by (rule card_insert_le_m1) simp_all
    finally show ?thesis using IH by simp
  qed simp
qed

lemma many_roots_zero:
  fixes c :: "nat \<Rightarrow> gf256"
  assumes "\<And>z. z \<in> R \<Longrightarrow> (\<Sum>i\<le>n. c i * z ^ i) = 0" and "n < card R" and "k \<le> n"
  shows "c k = 0"
proof (rule ccontr)
  assume k: "c k \<noteq> 0"
  obtain m where m: "m \<le> n" "c m \<noteq> 0" "\<forall>i. m < i \<longrightarrow> i \<le> n \<longrightarrow> c i = 0"
  proof -
    have fin: "finite {i. i \<le> n \<and> c i \<noteq> 0}" "{i. i \<le> n \<and> c i \<noteq> 0} \<noteq> {}" using k assms(3) by auto
    from that [of "Max {i. i \<le> n \<and> c i \<noteq> 0}"] Max_in [OF fin] Max_ge [OF fin(1)]
    show thesis by (metis (mono_tags, lifting) leD mem_Collect_eq)
  qed
  have "(\<Sum>i\<le>n. c i * z ^ i) = (\<Sum>i\<le>m. c i * z ^ i)" for z
    by (rule sum.mono_neutral_right) (use m in auto)
  then have "R \<subseteq> {z. (\<Sum>i\<le>m. c i * z ^ i) = 0}" using assms(1) by auto
  then have "card R \<le> card {z. (\<Sum>i\<le>m. c i * z ^ i) = 0}" by (intro card_mono) simp
  also have "\<dots> \<le> m" by (rule card_roots_le [of c m, OF m(2)])
  finally show False using assms(2) m(1) by simp
qed

text \<open>A product of linear factors is a polynomial.\<close>

lemma linear_product_poly:
  fixes X :: "'i \<Rightarrow> gf256"
  assumes "finite A"
  shows "\<exists>c. \<forall>x. (\<Prod>q\<in>A. x - X q) = (\<Sum>i\<le>card A. c i * x ^ i)"
  using assms
proof (induction A)
  case empty
  show ?case by (intro exI [of _ "\<lambda>_. 1"]) simp
next
  case (insert q A)
  then obtain c where c: "(\<Prod>q\<in>A. x - X q) = (\<Sum>i\<le>card A. c i * x ^ i)" for x by blast
  define c' where "c' = (\<lambda>i. (if i = 0 then 0 else c (i - 1)) - (if i \<le> card A then X q * c i else 0))"
  have "(\<Prod>q\<in>insert q A. x - X q) = (\<Sum>i\<le>card (insert q A). c' i * x ^ i)" for x
  proof -
    let ?n = "card A"
    have s1: "(\<Sum>i\<le>Suc ?n. (if i = 0 then 0 else c (i - 1)) * x ^ i) = x * (\<Sum>i\<le>?n. c i * x ^ i)"
      by (simp only: sum.atMost_Suc_shift) (simp add: sum_distrib_left mult_ac)
    have s2: "(\<Sum>i\<le>Suc ?n. (if i \<le> ?n then X q * c i else 0) * x ^ i) = X q * (\<Sum>i\<le>?n. c i * x ^ i)"
      by (simp add: sum_distrib_left mult_ac)
    have "(\<Sum>i\<le>Suc ?n. c' i * x ^ i) = x * (\<Sum>i\<le>?n. c i * x ^ i) - X q * (\<Sum>i\<le>?n. c i * x ^ i)"
      unfolding c'_def left_diff_distrib sum_subtractf s1 s2 ..
    then show ?thesis using insert c [of x] by (simp add: algebra_simps del: sum.atMost_Suc)
  qed
  then show ?case by blast
qed

text \<open>A Vandermonde system has only the zero solution.\<close>

lemma vandermonde_zero:
  fixes u X :: "'i \<Rightarrow> gf256"
  assumes "finite A" and "inj_on X A" and eq: "\<And>m. m < card A \<Longrightarrow> (\<Sum>p\<in>A. u p * X p ^ m) = 0" and "p \<in> A"
  shows "u p = 0"
proof -
  have fin: "finite (A - {p})" using assms(1) by simp
  obtain c where c: "(\<Prod>q\<in>A - {p}. x - X q) = (\<Sum>i\<le>card (A - {p}). c i * x ^ i)" for x
    using linear_product_poly [OF fin, of X] by blast
  have lt: "card (A - {p}) < card A" using assms(1,4) by (rule card_Diff1_less)
  have "(\<Sum>r\<in>A. u r * (\<Prod>q\<in>A - {p}. X r - X q)) = (\<Sum>r\<in>A. \<Sum>i\<le>card (A - {p}). c i * (u r * X r ^ i))"
    by (simp add: c sum_distrib_left mult_ac)
  also have "\<dots> = (\<Sum>i\<le>card (A - {p}). c i * (\<Sum>r\<in>A. u r * X r ^ i))"
    by (subst sum.swap) (simp add: sum_distrib_left)
  also have "\<dots> = 0" using eq lt by (intro sum.neutral) auto
  finally have z: "(\<Sum>r\<in>A. u r * (\<Prod>q\<in>A - {p}. X r - X q)) = 0" .
  have "(\<Sum>r\<in>A. u r * (\<Prod>q\<in>A - {p}. X r - X q)) = (\<Sum>r\<in>{p}. u r * (\<Prod>q\<in>A - {p}. X r - X q))"
    by (rule sum.mono_neutral_right) (use assms(1,4) in \<open>auto intro!: prod_zero\<close>)
  with z have "u p * (\<Prod>q\<in>A - {p}. X p - X q) = 0" by simp
  moreover have "(\<Prod>q\<in>A - {p}. X p - X q) \<noteq> 0"
    using assms(1,2,4) by (auto simp: inj_on_def)
  ultimately show ?thesis by simp
qed


section \<open>The error locator\<close>

fun lamc :: "gf256 list \<Rightarrow> nat \<Rightarrow> gf256" where
  "lamc [] k = (if k = 0 then 1 else 0)"
| "lamc (X # Xs) k = lamc Xs k + X * (if k = 0 then 0 else lamc Xs (k - 1))"

lemma lamc_0 [simp]: "lamc Xs 0 = 1"
  by (induction Xs) auto

lemma lamc_above: "length Xs < k \<Longrightarrow> lamc Xs k = 0"
  by (induction Xs arbitrary: k) auto

lemma lamc_eval: "(\<Sum>k\<le>length Xs. lamc Xs k * z ^ k) = (\<Prod>X\<leftarrow>Xs. 1 + X * z)"
proof (induction Xs)
  case (Cons X Xs)
  let ?n = "length Xs"
  have "(\<Sum>k\<le>Suc ?n. lamc (X # Xs) k * z ^ k) =
      (\<Sum>k\<le>Suc ?n. lamc Xs k * z ^ k) + (\<Sum>k\<le>Suc ?n. X * (if k = 0 then 0 else lamc Xs (k - 1)) * z ^ k)"
    by (simp only: lamc.simps distrib_right sum.distrib)
  also have "(\<Sum>k\<le>Suc ?n. X * (if k = 0 then 0 else lamc Xs (k - 1)) * z ^ k) = X * z * (\<Sum>k\<le>?n. lamc Xs k * z ^ k)"
    by (simp only: sum.atMost_Suc_shift) (simp add: sum_distrib_left mult_ac)
  also have "(\<Sum>k\<le>Suc ?n. lamc Xs k * z ^ k) = (\<Sum>k\<le>?n. lamc Xs k * z ^ k)"
    by (simp add: lamc_above)
  finally show ?case using Cons by (simp add: algebra_simps del: sum.atMost_Suc)
qed simp

text \<open>Dividing one factor out: the convolution with a geometric sequence telescopes.\<close>

lemma lamc_geometric: "(\<Sum>j\<le>k. lamc (X # Xs) j * X ^ (k - j)) = lamc Xs k"
proof (induction k)
  case (Suc k)
  have "(\<Sum>j\<le>Suc k. lamc (X # Xs) j * X ^ (Suc k - j)) =
      (\<Sum>j\<le>k. lamc (X # Xs) j * X ^ (Suc k - j)) + lamc (X # Xs) (Suc k)" by simp
  also have "(\<Sum>j\<le>k. lamc (X # Xs) j * X ^ (Suc k - j)) = X * (\<Sum>j\<le>k. lamc (X # Xs) j * X ^ (k - j))"
    unfolding sum_distrib_left by (rule sum.cong) (simp_all add: Suc_diff_le mult_ac)
  finally have "(\<Sum>j\<le>Suc k. lamc (X # Xs) j * X ^ (Suc k - j)) = X * lamc Xs k + lamc (X # Xs) (Suc k)"
    using Suc by simp
  also have "\<dots> = lamc Xs (Suc k)" by (simp add: add.commute add.left_commute)
  finally show ?case .
qed simp

lemma lamc_perm: "mset Xs = mset Ys \<Longrightarrow> lamc Xs = lamc Ys"
proof -
  have swap: "lamc (a # b # Zs) = lamc (b # a # Zs)" for a b Zs
    by (rule ext) (auto simp: algebra_simps)
  have move: "lamc (Us @ a # Vs) = lamc (a # Us @ Vs)" for Us a Vs
  proof (induction Us)
    case (Cons u Us)
    have "lamc (u # Us @ a # Vs) = lamc (u # a # Us @ Vs)" using Cons by (auto simp: fun_eq_iff)
    with swap show ?case by simp
  qed simp
  show "mset Xs = mset Ys \<Longrightarrow> lamc Xs = lamc Ys"
  proof (induction Xs arbitrary: Ys)
    case (Cons X Xs)
    then have "X \<in> set Ys" by (metis list.set_intros(1) set_mset_mset)
    then obtain Us Vs where Ys: "Ys = Us @ X # Vs" by (meson split_list)
    with Cons.prems have "mset Xs = mset (Us @ Vs)" by simp
    then have "lamc Xs = lamc (Us @ Vs)" by (rule Cons.IH)
    then have "lamc (X # Xs) = lamc (X # Us @ Vs)" by (auto simp: fun_eq_iff)
    with move Ys show ?case by metis
  qed simp
qed

lemma lamc_remove1: "X \<in> set Xs \<Longrightarrow> lamc Xs = lamc (X # remove1 X Xs)"
  by (rule lamc_perm) simp

text \<open>The value of the formal derivative of the locator.\<close>

definition lamd :: "gf256 list \<Rightarrow> gf256 \<Rightarrow> gf256" where
  "lamd Xs z = (\<Sum>i<length Xs. of_nat (i + 1) * lamc Xs (i + 1) * z ^ i)"

lemma lamd_Cons:
  "lamd (X # Xs) z = X * (\<Prod>Y\<leftarrow>Xs. 1 + Y * z) + (1 + X * z) * lamd Xs z"
proof -
  let ?n = "length Xs"
  have 1: "(\<Sum>i<Suc ?n. of_nat (i + 1) * lamc Xs (i + 1) * z ^ i) = lamd Xs z"
    by (simp add: lamd_def lamc_above)
  have 2: "(\<Sum>i<Suc ?n. of_nat i * lamc Xs i * z ^ i) = z * lamd Xs z"
    by (simp only: sum.lessThan_Suc_shift) (simp add: lamd_def sum_distrib_left mult_ac)
  have 3: "(\<Sum>i<Suc ?n. lamc Xs i * z ^ i) = (\<Prod>Y\<leftarrow>Xs. 1 + Y * z)"
    unfolding lessThan_Suc_atMost by (rule lamc_eval)
  have "lamd (X # Xs) z = (\<Sum>i<Suc ?n. of_nat (i + 1) * lamc Xs (i + 1) * z ^ i +
      (X * (of_nat i * lamc Xs i * z ^ i) + X * (lamc Xs i * z ^ i)))"
    unfolding lamd_def by (rule sum.cong) (simp_all add: algebra_simps)
  also have "\<dots> = lamd Xs z + (X * (z * lamd Xs z) + X * (\<Prod>Y\<leftarrow>Xs. 1 + Y * z))"
    unfolding sum.distrib sum_distrib_left [symmetric] 1 2 3 ..
  finally show ?thesis by (simp add: algebra_simps)
qed

section \<open>Syndromes of an error\<close>

text \<open>\<open>Xs\<close> are the locators of the errors and \<open>Y\<close> their values. The syndromes satisfy the
  recurrence of the locator, and the product of the locator and the syndromes is the sum of
  the partial products, which is the error evaluator.\<close>

definition syn_of :: "gf256 list \<Rightarrow> (gf256 \<Rightarrow> gf256) \<Rightarrow> nat \<Rightarrow> gf256" where
  "syn_of Xs Y k = (\<Sum>X\<in>set Xs. Y X * X ^ (k + 1))"

lemma evaluator_coeff:
  "(\<Sum>j\<le>k. lamc Xs j * syn_of Xs Y (k - j)) = (\<Sum>X\<in>set Xs. Y X * X * lamc (remove1 X Xs) k)"
proof -
  have "(\<Sum>j\<le>k. lamc Xs j * syn_of Xs Y (k - j)) = (\<Sum>X\<in>set Xs. \<Sum>j\<le>k. Y X * X * (lamc Xs j * X ^ (k - j)))"
    unfolding syn_of_def sum_distrib_left by (subst sum.swap) (simp add: mult_ac)
  also have "\<dots> = (\<Sum>X\<in>set Xs. Y X * X * lamc (remove1 X Xs) k)"
  proof (rule sum.cong)
    fix X assume "X \<in> set Xs"
    then have "lamc Xs = lamc (X # remove1 X Xs)" by (rule lamc_remove1)
    then have "(\<Sum>j\<le>k. lamc Xs j * X ^ (k - j)) = lamc (remove1 X Xs) k"
      using lamc_geometric [of X "remove1 X Xs" k] by (simp only:)
    then show "(\<Sum>j\<le>k. Y X * X * (lamc Xs j * X ^ (k - j))) = Y X * X * lamc (remove1 X Xs) k"
      by (simp add: sum_distrib_left [symmetric])
  qed simp
  finally show ?thesis .
qed

lemma syn_recurrence:
  assumes "length Xs \<le> k"
  shows "(\<Sum>j\<le>length Xs. lamc Xs j * syn_of Xs Y (k - j)) = 0"
proof -
  have "(\<Sum>j\<le>length Xs. lamc Xs j * syn_of Xs Y (k - j)) = (\<Sum>j\<le>k. lamc Xs j * syn_of Xs Y (k - j))"
    by (rule sum.mono_neutral_left) (use assms in \<open>auto simp: lamc_above\<close>)
  also have "\<dots> = 0"
    unfolding evaluator_coeff
  proof (intro sum.neutral ballI)
    fix X assume "X \<in> set Xs"
    then have "length (remove1 X Xs) = length Xs - 1" "length Xs \<noteq> 0" by (auto simp: length_remove1)
    then have "length (remove1 X Xs) < k" using assms by linarith
    then show "Y X * X * lamc (remove1 X Xs) k = 0" by (simp add: lamc_above)
  qed
  finally show ?thesis .
qed


section \<open>Berlekamp-Massey finds the shortest recurrence\<close>

text \<open>\<open>recur C n S k\<close>: what the register with taps \<open>C\<close> of length \<open>n\<close> leaves at the syndrome \<open>k\<close>.\<close>

definition recur :: "(nat \<Rightarrow> gf256) \<Rightarrow> nat \<Rightarrow> (nat \<Rightarrow> gf256) \<Rightarrow> nat \<Rightarrow> gf256" where
  "recur C n S k = (\<Sum>j\<le>n. C j * S (k - j))"

text \<open>Massey's lemma: a register that fails at \<open>i\<close> and one that does not are together longer
  than \<open>i\<close>.\<close>

lemma massey:
  assumes C: "\<And>k. n \<le> k \<Longrightarrow> k < i \<Longrightarrow> recur C n S k = 0" and d: "recur C n S i \<noteq> 0"
    and L: "\<And>k. m \<le> k \<Longrightarrow> k \<le> i \<Longrightarrow> recur L m S k = 0" and "L 0 = 1" "n \<le> i"
  shows "i < n + m"
proof (rule ccontr)
  assume "\<not> i < n + m"
  then have le: "n + m \<le> i" by simp
  define T where "T = (\<Sum>j\<le>n. \<Sum>k\<le>m. C j * L k * S (i - j - k))"
  have "T = (\<Sum>j\<le>n. C j * recur L m S (i - j))"
    by (simp add: T_def recur_def sum_distrib_left mult_ac)
  also have "\<dots> = 0" using L le by (intro sum.neutral) auto
  finally have T0: "T = 0" .
  have "T = (\<Sum>k\<le>m. L k * recur C n S (i - k))"
    unfolding T_def recur_def sum_distrib_left
    by (subst sum.swap) (simp add: mult_ac add.commute)
  also have "\<dots> = (\<Sum>k\<in>{0}. L k * recur C n S (i - k))"
    by (rule sum.mono_neutral_right) (use C le in auto)
  also have "\<dots> = recur C n S i" using assms(4) by simp
  finally show False using T0 d by simp
qed

definition elc :: "bm_state \<Rightarrow> nat \<Rightarrow> gf256" where
  "elc s j = GF (pcoeff (el s) ! j)"

definition lelc :: "bm_state \<Rightarrow> nat \<Rightarrow> gf256" where
  "lelc s j = GF (pcoeff (lel s) ! j)"

text \<open>Both locators generate the syndromes, the other one shifted by the delay, up to its
  discrepancy; and no recurrence that holds for all syndromes is shorter.\<close>

definition bm_gen :: "(nat \<Rightarrow> gf256) \<Rightarrow> nat \<Rightarrow> nat \<Rightarrow> bm_state \<Rightarrow> bool" where
  "bm_gen S m i s \<longleftrightarrow> last_discrepancy s \<noteq> 0 \<and> numerrors s \<le> m \<and>
     (\<forall>k. numerrors s \<le> k \<and> k < i \<longrightarrow> recur (elc s) (numerrors s) S k = 0) \<and>
     (\<forall>k. porder (lel s) + delay_length s \<le> k \<and> k < i \<longrightarrow>
        recur (lelc s) (porder (lel s)) S (k - delay_length s) = 0) \<and>
     (0 < numerrors s \<longrightarrow> recur (lelc s) (porder (lel s)) S (i - delay_length s) = GF (last_discrepancy s))"

lemma bm_genI:
  assumes "last_discrepancy s \<noteq> 0" "numerrors s \<le> m"
    "\<And>k. numerrors s \<le> k \<Longrightarrow> k < i \<Longrightarrow> recur (elc s) (numerrors s) S k = 0"
    "\<And>k. porder (lel s) + delay_length s \<le> k \<Longrightarrow> k < i \<Longrightarrow>
        recur (lelc s) (porder (lel s)) S (k - delay_length s) = 0"
    "0 < numerrors s \<Longrightarrow> recur (lelc s) (porder (lel s)) S (i - delay_length s) = GF (last_discrepancy s)"
  shows "bm_gen S m i s"
  unfolding bm_gen_def using assms by blast

lemma bm_genD:
  assumes "bm_gen S m i s"
  shows "last_discrepancy s \<noteq> 0" "numerrors s \<le> m"
    "\<And>k. numerrors s \<le> k \<Longrightarrow> k < i \<Longrightarrow> recur (elc s) (numerrors s) S k = 0"
    "\<And>k. porder (lel s) + delay_length s \<le> k \<Longrightarrow> k < i \<Longrightarrow>
        recur (lelc s) (porder (lel s)) S (k - delay_length s) = 0"
    "0 < numerrors s \<Longrightarrow> recur (lelc s) (porder (lel s)) S (i - delay_length s) = GF (last_discrepancy s)"
  using assms unfolding bm_gen_def by blast+

text \<open>The update of the locator, on its coefficients.\<close>

lemma recur_update:
  assumes "\<And>p. p \<le> n' \<Longrightarrow> C' p = C p + (if dl \<le> p \<and> p \<le> w + dl then B (p - dl) * a else 0)"
    and "\<And>p. n < p \<Longrightarrow> p \<le> n' \<Longrightarrow> C p = 0" and "n \<le> n'" "w + dl \<le> n'"
  shows "recur C' n' S k = recur C n S k + a * recur B w S (k - dl)"
proof -
  have "recur C' n' S k = (\<Sum>p\<le>n'. C p * S (k - p)) +
      (\<Sum>p\<le>n'. (if dl \<le> p \<and> p \<le> w + dl then B (p - dl) * a else 0) * S (k - p))"
    unfolding recur_def using assms(1) by (simp add: distrib_right sum.distrib)
  also have "(\<Sum>p\<le>n'. C p * S (k - p)) = recur C n S k"
    unfolding recur_def by (rule sum.mono_neutral_right) (use assms(2,3) in auto)
  also have "(\<Sum>p\<le>n'. (if dl \<le> p \<and> p \<le> w + dl then B (p - dl) * a else 0) * S (k - p)) =
      (\<Sum>p\<in>{dl..w + dl}. B (p - dl) * a * S (k - p))"
    by (rule sum.mono_neutral_cong_right) (use assms(4) in auto)
  also have "\<dots> = (\<Sum>j\<le>w. B j * a * S (k - dl - j))"
    by (rule sum.reindex_bij_witness [of _ "\<lambda>j. j + dl" "\<lambda>p. p - dl"]) (auto simp: diff_diff_eq add.commute)
  also have "\<dots> = a * recur B w S (k - dl)"
    by (simp add: recur_def sum_distrib_left mult_ac)
  finally show ?thesis .
qed


lemma bm_step_gen:
  assumes gf: "rs_field rs = gf" and len: "length (rs_syndromes rs) = t" and i: "i < t"
    and S: "\<And>k. k < t \<Longrightarrow> S k = GF (rs_syndromes rs ! k)"
    and I: "bm_inv t (rs_syndromes rs) i s" and G: "bm_gen S m i s"
    and L: "L 0 = 1" "\<And>k. m \<le> k \<Longrightarrow> k < t \<Longrightarrow> recur L m S k = 0"
    and step: "bm_step rs i s = Some s'"
  shows "bm_gen S m (Suc i) s'"
proof -
  note mem = bm_invD(1) [OF I] and ne = bm_invD(2) [OF I] and oe = bm_invD(3) [OF I] and ol = bm_invD(4) [OF I]
    and one = bm_invD(5) [OF I] and above = bm_invD(6) [OF I]
  note G' = bm_genD [OF G]
  let ?n = "numerrors s" and ?w = "porder (lel s)" and ?dl = "delay_length s" and ?ld = "last_discrepancy s"
  have bound: "?w + ?dl \<le> t" using ol i by simp
  have dl: "1 \<le> ?dl" using mem by (simp add: bm_mem_def)
  obtain d where d: "bm_discrepancy rs i s = Some d"
    "GF d = GF (rs_syndromes rs ! i) + (\<Sum>j\<in>{1..?n}. GF (pcoeff (el s) ! j) * GF (rs_syndromes rs ! (i - j)))"
    using bm_discrepancy_spec [OF mem gf len i ne] by blast
  have dr: "GF d = recur (elc s) ?n S i"
  proof -
    have "recur (elc s) ?n S i = elc s 0 * S i + (\<Sum>j\<in>{1..?n}. elc s j * S (i - j))"
    proof -
      have "{..?n} = insert 0 {1..?n}" by auto
      then show ?thesis by (simp add: recur_def)
    qed
    then show ?thesis using d(2) one i S by (simp add: elc_def)
  qed
  show ?thesis
  proof (cases "d = 0")
    case True
    then have s': "s' = s\<lparr>delay_length := ?dl + 1\<rparr>" using step d(1) by (simp add: bm_step_def)
    show ?thesis
    proof (rule bm_genI)
      fix k assume "numerrors s' \<le> k" "k < Suc i"
      then show "recur (elc s') (numerrors s') S k = 0"
        using G'(3) [of k] dr True by (cases "k = i") (simp_all add: s' elc_def [abs_def])
    next
      fix k assume "porder (lel s') + delay_length s' \<le> k" "k < Suc i"
      then show "recur (lelc s') (porder (lel s')) S (k - delay_length s') = 0"
        using G'(4) [of "k - 1"] by (simp add: s' lelc_def [abs_def])
    next
      assume "0 < numerrors s'"
      then show "recur (lelc s') (porder (lel s')) S (Suc i - delay_length s') = GF (last_discrepancy s')"
        using G'(5) by (simp add: s' lelc_def [abs_def])
    qed (use G'(1,2) in \<open>simp_all add: s'\<close>)
  next
    case nz: False
    have upd: "recur (elc s') n' S k = recur (elc s) ?n S k + GF d / GF ?ld * recur (lelc s) ?w S (k - ?dl)"
      if "n' \<le> t" "?n \<le> n'" "?w + ?dl \<le> n'"
        "\<forall>p\<le>t. GF (pcoeff (el s') ! p) = GF (pcoeff (el s) ! p) +
          (if ?dl \<le> p \<and> p \<le> ?w + ?dl then GF (pcoeff (lel s) ! (p - ?dl)) * GF d / GF ?ld else 0)" for n' k
      by (rule recur_update) (use that above in \<open>simp_all add: elc_def lelc_def\<close>)
    have upd0: "recur (elc s) ?n S k + GF d / GF ?ld * recur (lelc s) ?w S (k - ?dl) = 0"
      if "?n \<le> k" "?w + ?dl \<le> k" "k \<le> i" for k
    proof (cases "k = i")
      case False
      then show ?thesis using G'(3,4) [of k] that by simp
    next
      case True
      have "0 < ?n" using ol that by linarith
      then show ?thesis using G'(1,5) dr True by simp
    qed
    show ?thesis
    proof (cases "2 * ?n \<le> i")
      case True
      then have call: "bm_lengthen rs i d s = Some s'" using step d(1) nz by (simp add: bm_step_def)
      obtain F: "porder (el s') = ?w + ?dl" "porder (lel s') = porder (el s)"
        "numerrors s' = i + 1 - ?n" "last_discrepancy s' = d" "delay_length s' = 1"
        "\<forall>p\<le>t. GF (pcoeff (el s') ! p) = GF (pcoeff (el s) ! p) +
          (if ?dl \<le> p \<and> p \<le> ?w + ?dl then GF (pcoeff (lel s) ! (p - ?dl)) * GF d / GF ?ld else 0)"
        "\<forall>p\<le>?w + ?dl. pcoeff (lel s') ! p = pcoeff (el s) ! p"
        using bm_lengthen_spec [OF mem gf bound, of i d] call by auto
      have lel': "recur (lelc s') (porder (lel s')) S k = recur (elc s) ?n S k" for k
        unfolding recur_def F(2) oe lelc_def elc_def
        by (rule sum.cong) (use F(7) ol True in auto)
      show ?thesis
      proof (rule bm_genI)
        show "last_discrepancy s' \<noteq> 0" using nz F(4) by simp
        show "numerrors s' \<le> m"
        proof -
          have "recur (elc s) ?n S i \<noteq> 0" using dr nz by (metis GF_0)
          then have "i < ?n + m"
            using massey [of ?n i "elc s" S m L] G'(3) L i ne by auto
          then show ?thesis using F(3) by simp
        qed
      next
        fix k assume "numerrors s' \<le> k" "k < Suc i"
        then show "recur (elc s') (numerrors s') S k = 0"
          using upd [of "i + 1 - ?n" k] upd0 [of k] F i ol True by simp
      next
        fix k assume "porder (lel s') + delay_length s' \<le> k" "k < Suc i"
        then show "recur (lelc s') (porder (lel s')) S (k - delay_length s') = 0"
          unfolding lel' using G'(3) [of "k - 1"] F(2,5) oe by simp
      next
        show "recur (lelc s') (porder (lel s')) S (Suc i - delay_length s') = GF (last_discrepancy s')"
          unfolding lel' F(4,5) using dr by simp
      qed
    next
      case False
      then have call: "bm_adjust rs d s = Some s'" using step d(1) nz by (simp add: bm_step_def)
      obtain F: "lel s' = lel s" "numerrors s' = ?n" "last_discrepancy s' = ?ld"
        "delay_length s' = ?dl + 1"
        "\<forall>p\<le>t. GF (pcoeff (el s') ! p) = GF (pcoeff (el s) ! p) +
          (if ?dl \<le> p \<and> p \<le> ?w + ?dl then GF (pcoeff (lel s) ! (p - ?dl)) * GF d / GF ?ld else 0)"
        using bm_adjust_spec [OF mem gf bound, of d] call by auto
      have lel': "lelc s' = lelc s" using F(1) by (simp add: lelc_def [abs_def])
      show ?thesis
      proof (rule bm_genI)
        fix k assume "numerrors s' \<le> k" "k < Suc i"
        then show "recur (elc s') (numerrors s') S k = 0"
          using upd [of ?n k] upd0 [of k] F ne i ol False by simp
      next
        fix k assume "porder (lel s') + delay_length s' \<le> k" "k < Suc i"
        then show "recur (lelc s') (porder (lel s')) S (k - delay_length s') = 0"
          unfolding lel' F(1,4) using G'(4) [of "k - 1"] by simp
      next
        assume "0 < numerrors s'"
        then show "recur (lelc s') (porder (lel s')) S (Suc i - delay_length s') = GF (last_discrepancy s')"
          unfolding lel' F(1,3,4) using G'(5) F(2) by simp
      qed (use G'(1,2) F in simp_all)
    qed
  qed
qed


text \<open>The result of the whole loop, for any recurrence \<open>L\<close> of length \<open>m\<close> of the syndromes.\<close>

lemma bm_run_gen:
  assumes ok: "rs_ok t rs" "rs_has_init_decode rs"
    and s0: "numerrors s0 = 0" "last_discrepancy s0 = 1" "delay_length s0 = 1" "porder (lel s0) = 0"
      "bm_inv t (rs_syndromes rs) 0 s0"
    and run: "for_each [0..<t] (bm_step rs) s0 = Some s"
    and S: "\<And>k. k < t \<Longrightarrow> S k = GF (rs_syndromes rs ! k)"
    and L: "L 0 = 1" "\<And>k. m \<le> k \<Longrightarrow> k < t \<Longrightarrow> recur L m S k = 0"
  shows "bm_gen S m t s"
proof -
  note D = rs_dec_okD [OF ok]
  note F = rs_enc_okD [OF D(1)]
  have "bm_inv t (rs_syndromes rs) t s \<and> bm_gen S m t s"
  proof (rule for_range_partial [where P = "\<lambda>i s. bm_inv t (rs_syndromes rs) i s \<and> bm_gen S m i s", OF run])
    show "bm_inv t (rs_syndromes rs) 0 s0 \<and> bm_gen S m 0 s0"
      using s0 by (auto intro: bm_genI)
    fix i s s'
    assume i: "0 \<le> i" "i < t" and I: "bm_inv t (rs_syndromes rs) i s \<and> bm_gen S m i s"
      and step: "bm_step rs i s = Some s'"
    from I obtain s2 where "bm_step rs i s = Some s2" "bm_inv t (rs_syndromes rs) (Suc i) s2"
      using bm_step_inv [OF F(1) D(2) i(2)] by blast
    with step have "bm_inv t (rs_syndromes rs) (Suc i) s'" by simp
    moreover have "bm_gen S m (Suc i) s'"
      using I by (intro bm_step_gen [where L = L, OF F(1) D(2) i(2) S _ _ L step]) auto
    ultimately show "bm_inv t (rs_syndromes rs) (Suc i) s' \<and> bm_gen S m (Suc i) s'" ..
  qed simp
  then show ?thesis ..
qed

section \<open>The Chien search\<close>

definition is_locator :: "nat \<Rightarrow> polynomial_t \<Rightarrow> bool" where
  "is_locator t C \<longleftrightarrow> porder C \<le> t \<and> length (pcoeff C) = t + 1 \<and> pcoeff C ! 0 = 1"

definition root_list :: "polynomial_t \<Rightarrow> nat \<Rightarrow> nat list" where
  "root_list C n = filter (\<lambda>i. peval C (GF (of_nat i)) = 0) [0..<n]"

lemma of_nat_u8_inj: "i < 256 \<Longrightarrow> j < 256 \<Longrightarrow> (of_nat i :: u8) = of_nat j \<longleftrightarrow> i = j"
proof -
  assume "i < 256" "j < 256"
  then have "unat (of_nat i :: u8) = i" "unat (of_nat j :: u8) = j" by simp_all
  then show ?thesis by metis
qed

lemma root_list_Suc:
  "root_list C (Suc n) = root_list C n @ (if peval C (GF (of_nat n)) = 0 then [n] else [])"
  by (simp add: root_list_def)

lemma length_root_list:
  assumes "is_locator t C" "n \<le> 256"
  shows "length (root_list C n) \<le> porder C"
proof -
  let ?f = "\<lambda>i. GF (of_nat i)"
  have inj: "inj_on ?f (set (root_list C n))"
    using assms(2) by (auto simp: inj_on_def root_list_def of_nat_u8_inj)
  have "card (?f ` set (root_list C n)) \<le> porder C"
  proof (rule ccontr)
    assume "\<not> card (?f ` set (root_list C n)) \<le> porder C"
    then have lt: "porder C < card (?f ` set (root_list C n))" by simp
    have "cf C 0 = 0"
    proof (rule many_roots_zero [OF _ lt])
      fix z assume "z \<in> ?f ` set (root_list C n)"
      then show "(\<Sum>i\<le>porder C. cf C i * z ^ i) = 0"
        unfolding peval_cf [symmetric] by (auto simp: root_list_def)
    qed simp
    then show False using assms(1) by (simp add: cf_def is_locator_def)
  qed
  moreover have "distinct (root_list C n)" by (simp add: root_list_def)
  ultimately show ?thesis using card_image [OF inj] distinct_card by metis
qed

lemma rs_locator_log_spec:
  assumes "rs_field rs = gf" "rs_error_locator rs = C" "is_locator t C" "length (pcoeff (rs_error_locator_log rs)) = t + 1"
  shows "\<exists>pl. rs_locator_log rs = Some pl \<and> porder pl = porder C \<and> length (pcoeff pl) = t + 1 \<and>
    (\<forall>i\<le>porder C. pcoeff pl ! i = lg (pcoeff C ! i))"
proof -
  let ?old = "pcoeff (rs_error_locator_log rs)" and ?n = "porder C + 1"
  have "for_each [0..<?n] (\<lambda>i c. do {
        e \<leftarrow> rd (pcoeff C) i; l \<leftarrow> rd (flog gf) (unat e); wr c i l }) ?old =
    Some (take 0 ?old @ map (\<lambda>i. lg (pcoeff C ! i)) [0..<?n] @ drop (?n + 0) ?old)"
    by (rule for_each_write) (use assms in \<open>auto simp: is_locator_def\<close>)
  then show ?thesis
    using assms by (auto simp: rs_locator_log_def is_locator_def nth_append simp del: upt_Suc)
qed

lemma factorize_spec:
  assumes C: "is_locator t C" and pl: "porder pl = porder C" "length (pcoeff pl) = t + 1"
      "\<forall>i\<le>porder C. pcoeff pl ! i = lg (pcoeff C ! i)"
    and ee: "length ee = 256" "\<forall>i<256. length (ee ! i) = t \<and> pow_table (of_nat i) (ee ! i)"
    and roots: "length roots0 = 2 * t" and t: "1 \<le> t" and top: "porder C = t \<longrightarrow> pcoeff C ! t = 0"
  shows "\<exists>roots. reed_solomon_factorize_error_locator gf 0 pl roots0 ee =
      Some (length (root_list C 256) = porder C, roots) \<and> length roots = 2 * t \<and>
    (\<forall>i<length (root_list C 256). roots ! i = of_nat (root_list C 256 ! i))"
proof -
  have n2: "0 + porder pl \<le> length roots0" using C pl roots by (simp add: is_locator_def)
  obtain r0 where r0: "fill roots0 0 (porder pl) 0 = Some r0" "length r0 = 2 * t"
    using fill_in [OF n2] fill_length roots by metis
  have ev: "polynomial_eval_log_lut gf pl (ee ! i) = Some (ungf (peval C (GF (of_nat i))))" if "i < 256" for i
  proof (rule polynomial_eval_log_lut_spec)
    show "wf_poly C" "wf_poly pl" using C pl by (simp_all add: wf_poly_def is_locator_def)
    show "pow_table (of_nat i) (ee ! i)" "0 < length (ee ! i)" using ee that t by auto
    fix j assume "j \<le> porder C" "pcoeff C ! j \<noteq> 0"
    then have "j < t" using C top by (cases "j = t") (auto simp: is_locator_def)
    then show "j < length (ee ! i)" using ee that by simp
  qed (use pl in auto)
  define P where "P = (\<lambda>m (root, roots :: u8 list). root = length (root_list C m) \<and> length roots = 2 * t \<and>
    (\<forall>i<length (root_list C m). roots ! i = of_nat (root_list C m ! i)))"
  define body where "body = (\<lambda>i (root, roots :: u8 list). do {
        row \<leftarrow> rd ee i;
        v \<leftarrow> polynomial_eval_log_lut gf pl row;
        if v = 0 then do { roots \<leftarrow> wr roots root (of_nat i); Some (root + 1, roots) }
        else Some (root, roots) })"
  have "\<exists>s. for_each [0..<256] body (0, r0) = Some s \<and> P 256 s"
  proof (rule for_range_total)
    show "P 0 (0, r0)" using r0 by (simp add: P_def root_list_def)
    fix i s assume i: "0 \<le> i" "i < (256::nat)" and P: "P i s"
    obtain root roots where s: "s = (root, roots)" by (cases s)
    let ?v = "peval C (GF (of_nat i))"
    have v: "ungf ?v = 0 \<longleftrightarrow> ?v = 0" by (metis GF_0 gf256.exhaust_sel)
    show "\<exists>s'. body i s = Some s' \<and> P (Suc i) s'"
    proof (cases "?v = 0")
      case True
      have "length (root_list C (Suc i)) \<le> porder C" using length_root_list [OF C, of "Suc i"] i by simp
      then have "root < length roots" using P True C t by (simp add: s P_def root_list_Suc is_locator_def)
      then have "body i s = Some (root + 1, roots[root := of_nat i])"
        using i ee ev v True by (simp add: body_def s)
      moreover have "P (Suc i) (root + 1, roots[root := of_nat i])"
        using P True \<open>root < length roots\<close> by (auto simp: P_def s root_list_Suc nth_append nth_list_update less_Suc_eq)
      ultimately show ?thesis by blast
    next
      case False
      then have "body i s = Some s" using i ee ev v by (simp add: body_def s)
      moreover have "P (Suc i) s" using P False by (simp add: P_def s root_list_Suc)
      ultimately show ?thesis by blast
    qed
  qed simp
  then obtain root roots where res: "for_each [0..<256] body (0, r0) = Some (root, roots)" "P 256 (root, roots)"
    by (metis surj_pair)
  then show ?thesis
    using r0(1) pl(1) by (auto simp: reed_solomon_factorize_error_locator_def body_def P_def)
qed

text \<open>When the locator has as many taps as there are parity bytes, the search reads the entry
  after the last of a row of powers.\<close>

lemma factorize_oob:
  assumes C: "is_locator t C" "porder C = t" "pcoeff C ! t \<noteq> 0"
    and pl: "porder pl = porder C" "length (pcoeff pl) = t + 1"
      "\<forall>i\<le>porder C. pcoeff pl ! i = lg (pcoeff C ! i)"
    and ee: "length ee = 256" "\<forall>i<256. length (ee ! i) = t \<and> pow_table (of_nat i) (ee ! i)"
    and t: "1 \<le> t"
  shows "reed_solomon_factorize_error_locator gf 0 pl roots0 ee = None"
proof -
  have row1: "length (ee ! 1) = t" "pow_table 1 (ee ! 1)" using ee(2) [rule_format, of 1] by simp_all
  then have v0: "ee ! 1 ! 0 \<noteq> 0" "rd (ee ! 1) 0 = Some (ee ! 1 ! 0)" using pow_table_0 [OF row1(2)] t by auto
  have ct: "pcoeff pl ! t \<noteq> 0" using pl(3) C lg_props(3) by simp
  have oob: "rd (ee ! Suc 0) t = None" using row1(1) by simp
  have "[0..<porder pl + 1] = [0..<t] @ [t]" using pl(1) C(2) by simp
  then have bad: "polynomial_eval_log_lut gf pl (ee ! 1) = None"
    using v0 ct pl(2) by (simp add: oob polynomial_eval_log_lut_def for_each_append split: option.splits)
  have "[0..<256] = [0, 1] @ [2..<(256::nat)]" by (simp add: upt_rec)
  then show ?thesis
    using bad ee(1)
    by (auto simp: reed_solomon_factorize_error_locator_def for_each_append bind_eq_None_conv
        split: option.splits prod.splits if_splits)
qed


section \<open>Locations and values\<close>

lemma field_pow_1: "field_pow gf x 1 = Some (if x = 0 then 1 else x)"
proof -
  have u: "int (unat (lg x)) * 1 = int (unat (lg x))" by simp
  have m: "nat (int (unat (lg x)) mod 255) = unat (lg x) mod 255"
    by (simp add: nat_mod_distrib)
  have "field_pow gf x 1 = Some (alpha (unat (lg x) mod 255))"
    using field_pow_gf [of 1 x] unfolding u m by simp
  moreover have "alpha (unat (lg x) mod 255) = alpha (unat (lg x))" by (rule alpha_mod [symmetric])
  ultimately show ?thesis using lg_props(2) [of x] by (cases "x = 0") auto
qed

lemma field_pow_0: "field_pow gf x 0 = Some 1"
  using field_pow_gf [of 0 x] by simp

lemma upt_split_at: "k < n \<Longrightarrow> [0..<n] = [0..<k] @ k # [Suc k..<n]"
  using upt_add_eq_append [of 0 k "n - k"] by (simp add: upt_conv_Cons)

text \<open>The byte 0, whose logarithm the table gives as 0, stands for the location 0, because its
  power is taken as 1; every other location is a logarithm below 255.\<close>

lemma find_location_spec:
  assumes "loc \<noteq> 0"
  shows "\<exists>l. find_location gf 1 loc [0..<256] = Some (Some l) \<and> alpha (unat l) = loc \<and> unat l < 255"
proof (cases "loc = 1")
  case True
  have "[0..<256] = 0 # [1..<(256::nat)]" by (simp add: upt_rec)
  moreover have "rd (flog gf) 0 = Some 0" using rd_flog [of 0] by simp
  ultimately have "find_location gf 1 loc [0..<256] = Some (Some 0)"
    using True field_pow_1 [of 0] by simp
  with True show ?thesis by (intro exI [of _ 0]) simp
next
  case False
  have skip: "find_location gf 1 loc ([0..<n] @ js) = find_location gf 1 loc js" if "n \<le> unat loc" for n js
    using that
  proof (induction n arbitrary: js)
    case (Suc n)
    have "n < 256" using Suc.prems unat_u8_lt [of loc] by linarith
    then have "(of_nat n :: u8) \<noteq> loc" using Suc.prems by (metis Suc_le_lessD less_irrefl unat_of_nat_u8)
    then have "find_location gf 1 loc (n # js) = find_location gf 1 loc js"
      using False field_pow_1 [of "of_nat n"] by auto
    with Suc show ?case by simp
  qed simp
  have split: "[0..<256] = [0..<unat loc] @ unat loc # [Suc (unat loc)..<256]"
    by (rule upt_split_at) simp
  have "find_location gf 1 loc (unat loc # js) = Some (Some (lg loc))" for js
    using assms field_pow_1 [of loc] by simp
  then have "find_location gf 1 loc [0..<256] = Some (Some (lg loc))"
    unfolding split by (simp add: skip)
  moreover have "unat (lg loc) < 255"
  proof (rule ccontr)
    assume "\<not> unat (lg loc) < 255"
    then have "unat (lg loc) = 255" using unat_u8_le [of "lg loc"] by linarith
    with lg_props(2) [OF assms] False show False by simp
  qed
  ultimately show ?thesis using lg_props(2) [OF assms] by blast
qed

lemma find_error_locations_spec:
  assumes "n \<le> length roots" "n \<le> length old" "\<And>i. i < n \<Longrightarrow> roots ! i \<noteq> 0"
  shows "\<exists>ls. reed_solomon_find_error_locations gf 1 roots old n 0 = Some ls \<and> length ls = length old \<and>
    (\<forall>i<n. unat (ls ! i) < 255 \<and> GF (alpha (unat (ls ! i))) = inverse (GF (roots ! i)))"
proof -
  define P where "P = (\<lambda>m (ls :: u8 list). length ls = length old \<and>
    (\<forall>i<m. unat (ls ! i) < 255 \<and> GF (alpha (unat (ls ! i))) = inverse (GF (roots ! i))))"
  have "\<exists>ls. reed_solomon_find_error_locations gf 1 roots old n 0 = Some ls \<and> P n ls"
    unfolding reed_solomon_find_error_locations_def
  proof (rule for_range_total [where P = P])
    show "P 0 old" by (simp add: P_def)
    fix i ls assume i: "0 \<le> i" "i < n" and P: "P i ls"
    let ?loc = "ungf (GF 1 / GF (roots ! i))"
    have r: "GF (roots ! i) \<noteq> 0" using assms(3) [OF i(2)] by simp
    then have "GF ?loc \<noteq> 0" by simp
    then have "?loc \<noteq> 0" by (metis GF_0)
    then obtain l where l: "find_location gf 1 ?loc [0..<256] = Some (Some l)" "alpha (unat l) = ?loc" "unat l < 255"
      using find_location_spec by blast
    have "GF (alpha (unat l)) = inverse (GF (roots ! i))"
      using l(2) by (simp add: divide_inverse)
    then have "P (Suc i) (ls[i := l])" using P l(3) i assms(2) by (auto simp: P_def nth_list_update less_Suc_eq)
    moreover have "(do { root \<leftarrow> rd roots i;
        if root = 0 then Some ls
        else do { loc \<leftarrow> field_div gf 1 root; found \<leftarrow> find_location gf 1 loc [0..<256];
          (case found of None \<Rightarrow> Some ls | Some l \<Rightarrow> wr ls i l) } }) = Some (ls[i := l])"
      using i P assms l(1) by (simp add: P_def field_div_gf)
    ultimately show "\<exists>s'. (do { root \<leftarrow> rd roots i;
        if root = 0 then Some ls
        else do { loc \<leftarrow> field_div gf 1 root; found \<leftarrow> find_location gf 1 loc [0..<256];
          (case found of None \<Rightarrow> Some ls | Some l \<Rightarrow> wr ls i l) } }) = Some s' \<and> P (Suc i) s'" by blast
  qed simp
  then show ?thesis by (simp add: P_def)
qed

text \<open>Forney's formula, as the decoder evaluates it: \<open>omega_val\<close> and \<open>deriv_val\<close> are the
  values of the error evaluator and of the locator's derivative.\<close>

definition omega_val :: "nat \<Rightarrow> polynomial_t \<Rightarrow> (nat \<Rightarrow> gf256) \<Rightarrow> gf256 \<Rightarrow> gf256" where
  "omega_val t C S z = (\<Sum>k<t. (\<Sum>j\<le>k. cf C j * S (k - j)) * z ^ k)"

definition deriv_val :: "polynomial_t \<Rightarrow> gf256 \<Rightarrow> gf256" where
  "deriv_val C z = (\<Sum>i<porder C. of_nat (i + 1) * cf C (i + 1) * z ^ i)"

lemma find_error_values_spec:
  assumes ok: "rs_ok t rs" "rs_has_init_decode rs" and C: "is_locator t (rs_error_locator rs)"
    and n: "porder (rs_error_locator rs) = n" "1 \<le> n"
    and roots: "\<And>i. i < n \<Longrightarrow> rs_error_roots rs ! i \<noteq> 0"
    and S: "\<And>k. k < t \<Longrightarrow> S k = GF (rs_syndromes rs ! k)"
  shows "\<exists>om de vals. reed_solomon_find_error_values rs =
      Some (rs\<lparr>rs_error_evaluator := om, rs_error_locator_derivative := de, rs_error_vals := vals\<rparr>) \<and>
    porder om = t - 1 \<and> length (pcoeff om) = t \<and> length (pcoeff de) = t \<and> length vals = t \<and>
    (\<forall>i<n. GF (vals ! i) = omega_val t (rs_error_locator rs) S (GF (rs_error_roots rs ! i)) /
        deriv_val (rs_error_locator rs) (GF (rs_error_roots rs ! i)))"
proof -
  note D = rs_dec_okD [OF ok]
  note F = rs_enc_okD [OF D(1)]
  let ?C = "rs_error_locator rs" and ?sp = "\<lparr>pcoeff = rs_syndromes rs, porder = t - 1\<rparr>"
  have nt: "n \<le> t" using C n by (simp add: is_locator_def)
  have u: "uint_sub t 1 = t - 1" "uint_sub n 1 = n - 1" using F nt n(2) by simp_all
  obtain oc where oc: "fill (pcoeff (rs_error_evaluator rs)) 0 t 0 = Some oc" "length oc = t"
    using fill_in [of 0 t "pcoeff (rs_error_evaluator rs)" 0] fill_length D(14) by (metis add_0 order.refl)
  have m: "(porder (rs_error_evaluator rs) + 1) mod 2 ^ 32 = t" using D(13) F by simp
  let ?ev = "(rs_error_evaluator rs)\<lparr>pcoeff := oc\<rparr>"
  have wf: "wf_poly ?C" "wf_poly ?sp" "wf_poly ?ev"
    using C D oc(2) F by (simp_all add: wf_poly_def is_locator_def)
  obtain om where om: "polynomial_mul gf ?C ?sp ?ev = Some om" "porder om = t - 1" "length (pcoeff om) = t"
    "\<forall>k\<le>t - 1. GF (pcoeff om ! k) = mul_cf ?C ?sp k"
    using polynomial_mul_spec [OF wf] D(13) oc(2) by auto
  let ?de0 = "(rs_error_locator_derivative rs)\<lparr>porder := n - 1\<rparr>"
  have dwf: "wf_poly ?de0" "porder ?de0 + 1 < length (pcoeff ?C)" "porder ?de0 + 1 < 2 ^ 32"
    using D(15) n nt C F by (auto simp: wf_poly_def is_locator_def)
  obtain de where de: "polynomial_formal_derivative gf ?C ?de0 = Some de" "porder de = n - 1"
    "length (pcoeff de) = t" "\<forall>i\<le>n - 1. GF (pcoeff de ! i) = of_nat (i + 1) * GF (pcoeff ?C ! (i + 1))"
    using polynomial_formal_derivative_spec [OF dwf] D(15) by auto
  have omv: "peval om z = omega_val t ?C S z" for z
  proof -
    have "{..t - 1} = {..<t}" using F by auto
    moreover have "mul_cf ?C ?sp k = (\<Sum>j\<le>k. cf ?C j * S (k - j))" if "k < t" for k
      unfolding mul_cf_def by (rule sum.cong) (use that S in \<open>auto simp: cf_def\<close>)
    ultimately show ?thesis using om(2,4) by (auto simp: peval_def omega_val_def intro!: sum.cong)
  qed
  have dev: "peval de z = deriv_val ?C z" for z
  proof -
    have "{..n - 1} = {..<n}" using n(2) by auto
    then show ?thesis using de(2,4) n by (auto simp: peval_def deriv_val_def cf_def intro!: sum.cong)
  qed
  let ?rs = "rs\<lparr>rs_error_evaluator := om, rs_error_locator_derivative := de\<rparr>"
  let ?val = "\<lambda>i. ungf (omega_val t ?C S (GF (rs_error_roots rs ! i)) / deriv_val ?C (GF (rs_error_roots rs ! i)))"
  have loop: "for_each [0..<n] (find_error_value ?rs) (rs_error_vals rs) =
    Some (take 0 (rs_error_vals rs) @ map ?val [0..<n] @ drop (n + 0) (rs_error_vals rs))"
  proof (rule for_each_write)
    fix i and vals :: "u8 list" assume i: "i < n" "length vals = length (rs_error_vals rs)"
    let ?r = "rs_error_roots rs ! i" and ?row = "rs_element_exp rs ! unat (rs_error_roots rs ! i)"
    have row: "length ?row = t" "pow_table ?r ?row"
    proof -
      have "\<forall>i<256. length (rs_element_exp rs ! i) = t \<and> pow_table (of_nat i) (rs_element_exp rs ! i)"
        using ok unfolding rs_ok_def rs_dec_ok_def by blast
      from this [rule_format, of "unat ?r"] show "length ?row = t" "pow_table ?r ?row" by simp_all
    qed
    have "polynomial_eval_lut gf om ?row = Some (ungf (omega_val t ?C S (GF ?r)))"
      using polynomial_eval_lut_spec [of om ?r ?row] om F row omv by (simp add: wf_poly_def)
    moreover have "polynomial_eval_lut gf de ?row = Some (ungf (deriv_val ?C (GF ?r)))"
      using polynomial_eval_lut_spec [of de ?r ?row] de F n nt row dev by (simp add: wf_poly_def)
    moreover have "rd (rs_element_exp rs) (unat ?r) = Some ?row" using D(12) by simp
    ultimately show "find_error_value ?rs i vals = wr vals (i + 0) (?val i)"
      using i roots [OF i(1)] nt D(8) by (simp add: find_error_value_def F field_pow_0 field_div_gf field_mul_gf)
  qed (use nt D in simp)
  let ?vals = "take 0 (rs_error_vals rs) @ map ?val [0..<n] @ drop (n + 0) (rs_error_vals rs)"
  have sel: "porder (rs_error_locator ?rs) = n" "rs_error_vals ?rs = rs_error_vals rs"
    by (simp_all add: n)
  have "reed_solomon_find_error_values rs =
      Some (?rs\<lparr>rs_error_vals := ?vals\<rparr>)"
    unfolding reed_solomon_find_error_values_def F n u m reed_solomon_find_error_evaluator_def
    by (simp only: Let_def oc(1) Option.bind.simps om(1) de(1) n(1) F(1) sel loop)
  moreover have "length ?vals = t" using nt D(9) by simp
  moreover have "GF (?vals ! i) = omega_val t ?C S (GF (rs_error_roots rs ! i)) / deriv_val ?C (GF (rs_error_roots rs ! i))"
    if "i < n" for i using that by (simp add: nth_append)
  ultimately show ?thesis using om(2,3) de(3)
    by (intro exI [of _ om] exI [of _ de] exI [of _ ?vals]) simp
qed


section \<open>The decoder, step by step\<close>

lemma rs_correct_spec:
  assumes f: "rs_field rs = gf" and n: "porder (rs_error_locator rs) = n"
    and r: "length (pcoeff (rs_received_polynomial rs)) = 255"
    and ls: "n \<le> length (rs_error_locations rs)" "\<And>i. i < n \<Longrightarrow> unat (rs_error_locations rs ! i) < 255"
      "inj_on (\<lambda>i. unat (rs_error_locations rs ! i)) {..<n}"
    and vals: "n \<le> length (rs_error_vals rs)"
  shows "\<exists>c. rs_correct rs = Some ((rs_received_polynomial rs)\<lparr>pcoeff := c\<rparr>) \<and> length c = 255 \<and>
    (\<forall>i<n. c ! unat (rs_error_locations rs ! i) =
       pcoeff (rs_received_polynomial rs) ! unat (rs_error_locations rs ! i) XOR rs_error_vals rs ! i) \<and>
    (\<forall>p<255. p \<notin> (\<lambda>i. unat (rs_error_locations rs ! i)) ` {..<n} \<longrightarrow>
       c ! p = pcoeff (rs_received_polynomial rs) ! p)"
proof -
  let ?at = "\<lambda>i. unat (rs_error_locations rs ! i)" and ?old = "pcoeff (rs_received_polynomial rs)"
  define P where "P = (\<lambda>m c. length c = 255 \<and> (\<forall>i<m. c ! ?at i = ?old ! ?at i XOR rs_error_vals rs ! i) \<and>
    (\<forall>p<255. p \<notin> ?at ` {..<m} \<longrightarrow> c ! p = ?old ! p))"
  define body where "body = (\<lambda>i c. do {
        l \<leftarrow> rd (rs_error_locations rs) i;
        old \<leftarrow> rd c (unat l);
        v \<leftarrow> rd (rs_error_vals rs) i;
        wr c (unat l) (field_sub (rs_field rs) old v) })"
  have "\<exists>c. for_each [0..<n] body ?old = Some c \<and> P n c"
  proof (rule for_range_total [where P = P])
    show "P 0 ?old" using r by (simp add: P_def)
    fix i c assume i: "0 \<le> i" "i < n" and P: "P i c"
    have ne: "?at i \<noteq> ?at j" if "j < i" for j
      using inj_onD [OF ls(3), of i j] that i by auto
    then have old: "c ! ?at i = ?old ! ?at i" using P ls(2) [OF i(2)] by (auto simp: P_def)
    have "body i c = Some (c[?at i := ?old ! ?at i XOR rs_error_vals rs ! i])"
      using i P ls vals old by (simp add: body_def P_def field_sub_def)
    moreover have "P (Suc i) (c[?at i := ?old ! ?at i XOR rs_error_vals rs ! i])"
      using P ne ls(2) [OF i(2)] by (auto simp: P_def nth_list_update less_Suc_eq lessThan_Suc)
    ultimately show "\<exists>s'. body i c = Some s' \<and> P (Suc i) s'" by blast
  qed simp
  then obtain c where c: "for_each [0..<n] body ?old = Some c" "P n c" by blast
  have "rs_correct rs = Some ((rs_received_polynomial rs)\<lparr>pcoeff := c\<rparr>)"
    unfolding rs_correct_def n body_def [symmetric] using c(1) by simp
  with c(2) show ?thesis by (auto simp: P_def)
qed

text \<open>The state in which the error locator is searched.\<close>

definition decode_entry ::
  "nat \<Rightarrow> u8 list \<Rightarrow> nat \<Rightarrow> correct_reed_solomon \<Rightarrow> bool" where
  "decode_entry t w n rs \<longleftrightarrow> rs_ok t rs \<and> rs_has_init_decode rs \<and>
     received_ok w n (rs_received_polynomial rs) \<and>
     (\<forall>k<t. GF (rs_syndromes rs ! k) = word_eval w (gen_root k))"

definition decode_tail ::
  "nat \<Rightarrow> nat \<Rightarrow> correct_reed_solomon \<Rightarrow> u8 list \<Rightarrow> (int \<times> correct_reed_solomon \<times> u8 list) option" where
  "decode_tail n k rs msg = do {
     (order, rs) \<leftarrow> reed_solomon_find_error_locator rs 0;
     let rs = rs\<lparr>rs_error_locator := (rs_error_locator rs)\<lparr>porder := order\<rparr>\<rparr>;
     lg \<leftarrow> rs_locator_log rs;
     let rs = rs\<lparr>rs_error_locator_log := lg\<rparr>;
     (ok, roots) \<leftarrow> reed_solomon_factorize_error_locator (rs_field rs) 0 (rs_error_locator_log rs)
        (rs_error_roots rs) (rs_element_exp rs);
     let rs = rs\<lparr>rs_error_roots := roots\<rparr>;
     if \<not> ok then Some (- 1, rs, msg)
     else do {
       locations \<leftarrow> reed_solomon_find_error_locations (rs_field rs) (rs_generator_root_gap rs)
          (rs_error_roots rs) (rs_error_locations rs) (porder (rs_error_locator rs)) 0;
       rs \<leftarrow> reed_solomon_find_error_values (rs\<lparr>rs_error_locations := locations\<rparr>);
       received \<leftarrow> rs_correct rs;
       let rs = rs\<lparr>rs_received_polynomial := received\<rparr>;
       msg \<leftarrow> rs_emit (rs_received_polynomial rs) n k msg;
       Some (int k, rs, msg)
     }
   }"

lemma decode_dirty:
  assumes ok: "rs_ok t rs" and w: "length w = n" "n \<le> 255" "t \<le> n" and nc: "\<not> codeword t w"
  shows "\<exists>rs1. decode_entry t w n rs1 \<and>
    correct_reed_solomon_decode mem rs w n msg = decode_tail n (n - t) rs1 msg"
proof -
  obtain rs1 where rs1: "rs_ready mem rs = Some rs1" "rs_ok t rs1" "rs_has_init_decode rs1"
    using rs_ready_ok [OF ok] by blast
  note D = rs_dec_okD [OF rs1(2,3)]
  note F = rs_enc_okD [OF D(1)]
  have F0: "rs_block_length rs = 255" "rs_min_distance rs = t"
    using ok rs_enc_okD [of t rs] by (simp_all add: rs_ok_def)
  obtain r where r: "rs_receive w n (255 - n) (rs_received_polynomial rs1) = Some r" "received_ok w n r"
    using rs_receive_spec [of n w] w D by blast
  have rr: "porder r = 254" "length (pcoeff r) = 255" using r(2) by (simp_all add: received_ok_def)
  obtain syn where syn: "reed_solomon_find_syndromes gf r (rs_generator_root_exp rs1) (rs_syndromes rs1) t =
      Some (\<forall>i<t. peval r (gen_root i) = 0, syn)" "length syn = t"
    "\<forall>i<t. GF (syn ! i) = peval r (gen_root i)"
    using find_syndromes_spec [OF rs1(2,3) rr] by blast
  have z: "(\<forall>i<t. peval r (gen_root i) = 0) = False"
    using nc received_eval [OF r(2) w(1,2)] by (simp add: codeword_def)
  let ?rs = "rs1\<lparr>rs_received_polynomial := r, rs_syndromes := syn\<rparr>"
  have "rs_ok t ?rs"
    using rs1(2,3) rr syn(2) by (simp add: rs_ok_def rs_enc_ok_def rs_dec_ok_def)
  then have "decode_entry t w n ?rs"
    using rs1(3) r(2) syn(3) received_eval [OF r(2) w(1,2)] by (simp add: decode_entry_def)
  moreover have k: "size_sub n t = n - t" "size_sub 255 n = 255 - n" using w by simp_all
  have "correct_reed_solomon_decode mem rs w n msg = decode_tail n (n - t) ?rs msg"
    unfolding correct_reed_solomon_decode_def decode_tail_def F0 k
    using w rs1(1) r(1) syn(1) by (simp add: F z Let_def)
  ultimately show ?thesis by blast
qed


lemma rs_emit_poly:
  assumes "length (pcoeff r) = 255" "n \<le> 255" "k \<le> n" "k \<le> length msg"
  shows "rs_emit r n k msg = Some (take k (map (\<lambda>j. pcoeff r ! (n - 1 - j)) [0..<n]) @ drop k msg)"
proof -
  have "rs_emit r n k msg = Some (take 0 msg @ map (\<lambda>j. pcoeff r ! (n - 1 - j)) [0..<k] @ drop (k + 0) msg)"
    unfolding rs_emit_def by (rule for_each_write) (use assms in auto)
  moreover have "map (\<lambda>j. pcoeff r ! (n - 1 - j)) [0..<k] = take k (map (\<lambda>j. pcoeff r ! (n - 1 - j)) [0..<n])"
    using assms(3) by (simp add: take_map)
  ultimately show ?thesis by simp
qed

definition corrected :: "nat \<Rightarrow> (nat \<Rightarrow> gf256) \<Rightarrow> polynomial_t \<Rightarrow> u8 list \<Rightarrow> u8 list \<Rightarrow> bool" where
  "corrected t S C old c \<longleftrightarrow> length c = 255 \<and>
     (\<exists>ls. (\<forall>i<porder C. ls i < 255 \<and>
         GF (alpha (ls i)) = inverse (GF (of_nat (root_list C 256 ! i))) \<and>
         GF (c ! ls i) = GF (old ! ls i) +
           omega_val t C S (GF (of_nat (root_list C 256 ! i))) / deriv_val C (GF (of_nat (root_list C 256 ! i)))) \<and>
       (\<forall>p<255. p \<notin> ls ` {..<porder C} \<longrightarrow> c ! p = old ! p))"

lemma root_list_nonzero:
  assumes "is_locator t C" "i < length (root_list C 256)"
  shows "GF (of_nat (root_list C 256 ! i)) \<noteq> 0" "root_list C 256 ! i < 256"
    "peval C (GF (of_nat (root_list C 256 ! i))) = 0"
proof -
  have "root_list C 256 ! i \<in> set (root_list C 256)" using assms(2) by simp
  then show "root_list C 256 ! i < 256" and r: "peval C (GF (of_nat (root_list C 256 ! i))) = 0"
    by (simp_all add: root_list_def)
  have "peval C 0 = 1"
    using assms(1) by (simp add: peval_def is_locator_def sum.atMost_shift power_0_left)
  with r show "GF (of_nat (root_list C 256 ! i)) \<noteq> 0" by auto
qed

lemma root_list_distinct:
  "i < length (root_list C 256) \<Longrightarrow> j < length (root_list C 256) \<Longrightarrow>
   GF (of_nat (root_list C 256 ! i)) = GF (of_nat (root_list C 256 ! j)) \<longleftrightarrow> i = j"
proof -
  assume ij: "i < length (root_list C 256)" "j < length (root_list C 256)"
  then have "root_list C 256 ! i \<in> set (root_list C 256)" "root_list C 256 ! j \<in> set (root_list C 256)" by simp_all
  then have "root_list C 256 ! i < 256" "root_list C 256 ! j < 256" by (simp_all add: root_list_def)
  moreover have "distinct (root_list C 256)" by (simp add: root_list_def)
  ultimately show ?thesis using ij by (simp add: of_nat_u8_inj nth_eq_iff_index_eq)
qed

lemma decode_fix:
  assumes ok: "rs_ok t rs" "rs_has_init_decode rs" and C: "rs_error_locator rs = C" "is_locator t C" "1 \<le> porder C"
    and roots: "length (root_list C 256) = porder C"
      "\<forall>i<porder C. rs_error_roots rs ! i = of_nat (root_list C 256 ! i)"
    and S: "\<And>k. k < t \<Longrightarrow> S k = GF (rs_syndromes rs ! k)"
  shows "\<exists>ls rs1 c. reed_solomon_find_error_locations gf 1 (rs_error_roots rs) (rs_error_locations rs) (porder C) 0 = Some ls \<and>
    reed_solomon_find_error_values (rs\<lparr>rs_error_locations := ls\<rparr>) = Some rs1 \<and>
    rs_correct rs1 = Some ((rs_received_polynomial rs1)\<lparr>pcoeff := c\<rparr>) \<and>
    corrected t S C (pcoeff (rs_received_polynomial rs)) c \<and>
    rs_ok t (rs1\<lparr>rs_received_polynomial := (rs_received_polynomial rs1)\<lparr>pcoeff := c\<rparr>\<rparr>)"
proof -
  note D = rs_dec_okD [OF ok]
  note F = rs_enc_okD [OF D(1)]
  let ?n = "porder C"
  have nt: "?n \<le> t" using C by (simp add: is_locator_def)
  have nz: "rs_error_roots rs ! i \<noteq> 0" if "i < ?n" for i
    using root_list_nonzero(1) [OF C(2), of i] roots that by simp
  obtain ls where ls: "reed_solomon_find_error_locations gf 1 (rs_error_roots rs) (rs_error_locations rs) ?n 0 = Some ls"
    "length ls = t" "\<forall>i<?n. unat (ls ! i) < 255 \<and> GF (alpha (unat (ls ! i))) = inverse (GF (rs_error_roots rs ! i))"
    using find_error_locations_spec [of ?n "rs_error_roots rs" "rs_error_locations rs"] D nt nz by auto
  let ?rs0 = "rs\<lparr>rs_error_locations := ls\<rparr>"
  have ok0: "rs_ok t ?rs0" "rs_has_init_decode ?rs0"
    using ok ls(2) by (simp_all add: rs_ok_def rs_enc_ok_def rs_dec_ok_def)
  obtain om de vals where v: "reed_solomon_find_error_values ?rs0 =
      Some (?rs0\<lparr>rs_error_evaluator := om, rs_error_locator_derivative := de, rs_error_vals := vals\<rparr>)"
    "porder om = t - 1" "length (pcoeff om) = t" "length (pcoeff de) = t" "length vals = t"
    "\<forall>i<?n. GF (vals ! i) = omega_val t C S (GF (rs_error_roots rs ! i)) / deriv_val C (GF (rs_error_roots rs ! i))"
    using find_error_values_spec [OF ok0, of ?n S] C nz S by auto
  let ?rs1 = "?rs0\<lparr>rs_error_evaluator := om, rs_error_locator_derivative := de, rs_error_vals := vals\<rparr>"
  have inj: "inj_on (\<lambda>i. unat (ls ! i)) {..<?n}"
  proof (rule inj_onI)
    fix i j assume ij: "i \<in> {..<?n}" "j \<in> {..<?n}" "unat (ls ! i) = unat (ls ! j)"
    then have "inverse (GF (rs_error_roots rs ! i)) = inverse (GF (rs_error_roots rs ! j))"
      using ls(3) by (metis lessThan_iff)
    then have "GF (rs_error_roots rs ! i) = GF (rs_error_roots rs ! j)" by simp
    then show "i = j" using ij roots root_list_distinct [of i C j] by simp
  qed
  obtain c where c: "rs_correct ?rs1 = Some ((rs_received_polynomial rs)\<lparr>pcoeff := c\<rparr>)" "length c = 255"
    "\<forall>i<?n. c ! unat (ls ! i) = pcoeff (rs_received_polynomial rs) ! unat (ls ! i) XOR vals ! i"
    "\<forall>p<255. p \<notin> (\<lambda>i. unat (ls ! i)) ` {..<?n} \<longrightarrow> c ! p = pcoeff (rs_received_polynomial rs) ! p"
    using rs_correct_spec [of ?rs1 ?n] F D C ls(2,3) v(5) nt inj by auto
  have "corrected t S C (pcoeff (rs_received_polynomial rs)) c"
    unfolding corrected_def
  proof (intro conjI exI [of _ "\<lambda>i. unat (ls ! i)"] allI impI)
    fix i assume i: "i < ?n"
    show "unat (ls ! i) < 255" using ls(3) i by simp
    show "GF (alpha (unat (ls ! i))) = inverse (GF (of_nat (root_list C 256 ! i)))"
      using ls(3) roots(2) i by simp
    show "GF (c ! unat (ls ! i)) = GF (pcoeff (rs_received_polynomial rs) ! unat (ls ! i)) +
        omega_val t C S (GF (of_nat (root_list C 256 ! i))) / deriv_val C (GF (of_nat (root_list C 256 ! i)))"
      using c(3) v(6) roots(2) i by (simp add: GF_xor)
  qed (use c in auto)
  moreover have "rs_ok t (?rs1\<lparr>rs_received_polynomial := (rs_received_polynomial ?rs1)\<lparr>pcoeff := c\<rparr>\<rparr>)"
    using ok ls(2) v c(2) by (simp add: rs_ok_def rs_enc_ok_def rs_dec_ok_def)
  ultimately show ?thesis using ls(1) v(1) c(1) by (intro exI [of _ ls] exI [of _ ?rs1] exI [of _ c]) simp
qed

lemma decode_tail_run:
  assumes E: "decode_entry t w n rs" and nz: "\<exists>k<t. rs_syndromes rs ! k \<noteq> 0"
    and k: "n \<le> 255" "k \<le> n" "k \<le> length msg"
    and S: "\<And>k. k < t \<Longrightarrow> S k = GF (rs_syndromes rs ! k)"
  obtains s0 s where "numerrors s0 = 0" "last_discrepancy s0 = 1" "delay_length s0 = 1" "porder (lel s0) = 0"
    "bm_inv t (rs_syndromes rs) 0 s0" "for_each [0..<t] (bm_step rs) s0 = Some s"
    "bm_inv t (rs_syndromes rs) t s" "is_locator t (el s)" "1 \<le> porder (el s)"
    "last_syndrome_only t (rs_syndromes rs) \<Longrightarrow> decode_tail n k rs msg = None"
    "\<not> last_syndrome_only t (rs_syndromes rs) \<Longrightarrow> length (root_list (el s) 256) \<noteq> porder (el s) \<Longrightarrow>
      \<exists>rs'. decode_tail n k rs msg = Some (- 1, rs', msg) \<and> rs_ok t rs'"
    "\<not> last_syndrome_only t (rs_syndromes rs) \<Longrightarrow> length (root_list (el s) 256) = porder (el s) \<Longrightarrow>
      \<exists>rs' c. decode_tail n k rs msg =
          Some (int k, rs', take k (map (\<lambda>j. c ! (n - 1 - j)) [0..<n]) @ drop k msg) \<and> rs_ok t rs' \<and>
        corrected t S (el s) (pcoeff (rs_received_polynomial rs)) c"
proof -
  have ok: "rs_ok t rs" "rs_has_init_decode rs" using E by (simp_all add: decode_entry_def)
  note D = rs_dec_okD [OF ok]
  note F = rs_enc_okD [OF D(1)]
  obtain s0 s where s0: "numerrors s0 = 0" "last_discrepancy s0 = 1" "delay_length s0 = 1" "porder (lel s0) = 0"
    "bm_inv t (rs_syndromes rs) 0 s0" and s: "for_each [0..<t] (bm_step rs) s0 = Some s"
    "bm_inv t (rs_syndromes rs) t s"
    and call: "reed_solomon_find_error_locator rs 0 =
      Some (porder (el s), rs\<lparr>rs_error_locator := el s, rs_last_error_locator := lel s\<rparr>)"
    by (rule find_error_locator_run [OF ok])
  note L = find_error_locator_spec [OF ok s s0(5)]
  have loc: "is_locator t (el s)" using L by (simp add: is_locator_def)
  have pos: "1 \<le> porder (el s)" using L(5) nz by (cases "porder (el s)") auto
  let ?C = "el s"
  let ?rs1 = "rs\<lparr>rs_error_locator := ?C, rs_last_error_locator := lel s\<rparr>"
  obtain pl where pl: "rs_locator_log ?rs1 = Some pl" "porder pl = porder ?C" "length (pcoeff pl) = t + 1"
    "\<forall>i\<le>porder ?C. pcoeff pl ! i = lg (pcoeff ?C ! i)"
    using rs_locator_log_spec [of ?rs1 ?C t] F D loc by auto
  have ee: "length (rs_element_exp rs) = 256"
    "\<forall>i<256. length (rs_element_exp rs ! i) = t \<and> pow_table (of_nat i) (rs_element_exp rs ! i)"
    using ok unfolding rs_ok_def rs_dec_ok_def by blast+
  let ?rs2 = "?rs1\<lparr>rs_error_locator_log := pl\<rparr>"
  have same: "?rs1\<lparr>rs_error_locator := (rs_error_locator ?rs1)\<lparr>porder := porder ?C\<rparr>\<rparr> = ?rs1" by simp
  have tail: "decode_tail n k rs msg = do {
     (ok, roots) \<leftarrow> reed_solomon_factorize_error_locator gf 0 pl (rs_error_roots rs) (rs_element_exp rs);
     let rs = ?rs2\<lparr>rs_error_roots := roots\<rparr>;
     if \<not> ok then Some (- 1, rs, msg)
     else do {
       locations \<leftarrow> reed_solomon_find_error_locations gf 1 (rs_error_roots rs) (rs_error_locations rs) (porder ?C) 0;
       rs \<leftarrow> reed_solomon_find_error_values (rs\<lparr>rs_error_locations := locations\<rparr>);
       received \<leftarrow> rs_correct rs;
       let rs = rs\<lparr>rs_received_polynomial := received\<rparr>;
       msg \<leftarrow> rs_emit (rs_received_polynomial rs) n k msg;
       Some (int k, rs, msg) } }"
    unfolding decode_tail_def call Option.bind.simps prod.case Let_def same pl(1)
    by (simp add: F Let_def cong: if_cong)
  show thesis
  proof (rule that [OF s0 s loc pos])
    assume "last_syndrome_only t (rs_syndromes rs)"
    then have "porder ?C = t" "pcoeff ?C ! t \<noteq> 0" using L by simp_all
    then have "reed_solomon_factorize_error_locator gf 0 pl (rs_error_roots rs) (rs_element_exp rs) = None"
      by (rule factorize_oob [OF loc _ _ pl(2-4) ee F(15)])
    then show "decode_tail n k rs msg = None" by (simp add: tail)
  next
    assume "\<not> last_syndrome_only t (rs_syndromes rs)"
    then have top: "porder ?C = t \<longrightarrow> pcoeff ?C ! t = 0" using L by simp
    obtain roots where r: "reed_solomon_factorize_error_locator gf 0 pl (rs_error_roots rs) (rs_element_exp rs) =
        Some (length (root_list ?C 256) = porder ?C, roots)" "length roots = 2 * t"
      "\<forall>i<length (root_list ?C 256). roots ! i = of_nat (root_list ?C 256 ! i)"
      using factorize_spec [OF loc pl(2-4) ee D(8) F(15) top] by blast
    let ?rs3 = "?rs2\<lparr>rs_error_roots := roots\<rparr>"
    have ok3: "rs_ok t ?rs3" "rs_has_init_decode ?rs3"
      using ok L(2,3) pl(3) r(2) by (simp_all add: rs_ok_def rs_enc_ok_def rs_dec_ok_def)
    { assume "length (root_list ?C 256) \<noteq> porder ?C"
      then have "decode_tail n k rs msg = Some (- 1, ?rs3, msg)" using r(1) by (simp add: tail Let_def)
      with ok3 show "\<exists>rs'. decode_tail n k rs msg = Some (- 1, rs', msg) \<and> rs_ok t rs'" by blast }
    { assume eq: "length (root_list ?C 256) = porder ?C"
      have r3: "\<forall>i<porder ?C. rs_error_roots ?rs3 ! i = of_nat (root_list ?C 256 ! i)" using r(3) eq by simp
      obtain ls rs4 c where fixd: "reed_solomon_find_error_locations gf 1 roots (rs_error_locations rs) (porder ?C) 0 = Some ls"
        "reed_solomon_find_error_values (?rs3\<lparr>rs_error_locations := ls\<rparr>) = Some rs4"
        "rs_correct rs4 = Some ((rs_received_polynomial rs4)\<lparr>pcoeff := c\<rparr>)"
        "corrected t S ?C (pcoeff (rs_received_polynomial rs)) c"
        "rs_ok t (rs4\<lparr>rs_received_polynomial := (rs_received_polynomial rs4)\<lparr>pcoeff := c\<rparr>\<rparr>)"
        using decode_fix [OF ok3 _ loc pos eq r3, of S] S by auto
      have "length c = 255" using fixd(4) by (simp add: corrected_def)
      then have "rs_emit ((rs_received_polynomial rs4)\<lparr>pcoeff := c\<rparr>) n k msg =
          Some (take k (map (\<lambda>j. c ! (n - 1 - j)) [0..<n]) @ drop k msg)"
        using rs_emit_poly [of "(rs_received_polynomial rs4)\<lparr>pcoeff := c\<rparr>" n k msg] k by simp
      then have "decode_tail n k rs msg = Some (int k, rs4\<lparr>rs_received_polynomial := (rs_received_polynomial rs4)\<lparr>pcoeff := c\<rparr>\<rparr>,
          take k (map (\<lambda>j. c ! (n - 1 - j)) [0..<n]) @ drop k msg)"
        using r(1) eq fixd by (simp add: tail Let_def)
      with fixd show "\<exists>rs' c. decode_tail n k rs msg =
          Some (int k, rs', take k (map (\<lambda>j. c ! (n - 1 - j)) [0..<n]) @ drop k msg) \<and> rs_ok t rs' \<and>
        corrected t S ?C (pcoeff (rs_received_polynomial rs)) c" by blast }
  qed
qed


section \<open>Forney's formula\<close>

lemma prod_list_zero_at:
  fixes X :: gf256
  assumes "X \<in> set Xs" "X \<noteq> 0"
  shows "(\<Prod>Y\<leftarrow>Xs. 1 + Y * inverse X) = 0"
  using assms by (induction Xs) auto

lemma partial_prod:
  assumes "length Xs \<le> t" "X \<in> set Xs"
  shows "(\<Sum>k<t. lamc (remove1 X Xs) k * z ^ k) = (\<Prod>Y\<leftarrow>remove1 X Xs. 1 + Y * z)"
proof -
  have "length (remove1 X Xs) = length Xs - 1" "0 < length Xs"
    using assms(2) length_pos_if_in_set by (auto simp: length_remove1)
  then have len: "length (remove1 X Xs) < t" using assms(1) by linarith
  then have "(\<Sum>k<t. lamc (remove1 X Xs) k * z ^ k) = (\<Sum>k\<le>length (remove1 X Xs). lamc (remove1 X Xs) k * z ^ k)"
    by (intro sum.mono_neutral_right) (auto simp: lamc_above)
  then show ?thesis by (simp only: lamc_eval)
qed

lemma forney:
  assumes "length Xs \<le> t" "distinct Xs" "X \<in> set Xs" "0 \<notin> set Xs"
    and "\<And>j. cf C j = lamc Xs j" "porder C = length Xs"
    and S: "\<And>k. k < t \<Longrightarrow> S k = syn_of Xs Y k"
  shows "omega_val t C S (inverse X) / deriv_val C (inverse X) = Y X"
proof -
  let ?z = "inverse X" and ?P = "\<Prod>Y\<leftarrow>remove1 X Xs. 1 + Y * inverse X"
  have X0: "X \<noteq> 0" using assms(3,4) by auto
  have "omega_val t C S ?z = (\<Sum>k<t. (\<Sum>Z\<in>set Xs. Y Z * Z * lamc (remove1 Z Xs) k) * ?z ^ k)"
    unfolding omega_val_def
  proof (rule sum.cong)
    fix k assume "k \<in> {..<t}"
    then have "(\<Sum>j\<le>k. cf C j * S (k - j)) = (\<Sum>j\<le>k. lamc Xs j * syn_of Xs Y (k - j))"
      by (intro sum.cong) (auto simp: assms(5) S)
    then show "(\<Sum>j\<le>k. cf C j * S (k - j)) * ?z ^ k = (\<Sum>Z\<in>set Xs. Y Z * Z * lamc (remove1 Z Xs) k) * ?z ^ k"
      by (simp only: evaluator_coeff)
  qed simp
  also have "\<dots> = (\<Sum>Z\<in>set Xs. Y Z * Z * (\<Sum>k<t. lamc (remove1 Z Xs) k * ?z ^ k))"
    unfolding sum_distrib_right sum_distrib_left by (subst sum.swap) (simp add: mult_ac)
  also have "\<dots> = (\<Sum>Z\<in>{X}. Y Z * Z * (\<Sum>k<t. lamc (remove1 Z Xs) k * ?z ^ k))"
  proof (rule sum.mono_neutral_right)
    show "\<forall>Z\<in>set Xs - {X}. Y Z * Z * (\<Sum>k<t. lamc (remove1 Z Xs) k * ?z ^ k) = 0"
    proof
      fix Z assume "Z \<in> set Xs - {X}"
      then have "(\<Sum>k<t. lamc (remove1 Z Xs) k * ?z ^ k) = (\<Prod>Y\<leftarrow>remove1 Z Xs. 1 + Y * ?z)"
        using partial_prod [OF assms(1)] by simp
      also have "\<dots> = 0"
        by (rule prod_list_zero_at) (use \<open>Z \<in> set Xs - {X}\<close> assms(3) X0 in \<open>auto simp: in_set_remove1\<close>)
      finally show "Y Z * Z * (\<Sum>k<t. lamc (remove1 Z Xs) k * ?z ^ k) = 0" by simp
    qed
  qed (use assms(3) in auto)
  also have "\<dots> = Y X * X * ?P" by (simp add: partial_prod [OF assms(1,3)])
  finally have om: "omega_val t C S ?z = Y X * X * ?P" .
  have "lamd Xs = lamd (X # remove1 X Xs)"
    using lamc_remove1 [OF assms(3)] length_remove1 [of X Xs] length_pos_if_in_set [OF assms(3)]
    by (simp add: lamd_def [abs_def] assms(3))
  then have "lamd Xs ?z = lamd (X # remove1 X Xs) ?z" by (simp only:)
  also have "\<dots> = X * ?P" unfolding lamd_Cons using X0 by simp
  finally have de: "deriv_val C ?z = X * ?P"
    by (simp add: deriv_val_def lamd_def assms(5,6))
  have "?P \<noteq> 0"
  proof
    assume "?P = 0"
    then obtain Z where "Z \<in> set (remove1 X Xs)" "1 + Z * ?z = 0" by (auto simp: prod_list_zero_iff)
    then have "Z * ?z = 1" using gf_add_self [of 1] by (metis add_left_cancel)
    then have "Z = X" using X0 by (simp add: field_simps)
    with \<open>Z \<in> set (remove1 X Xs)\<close> assms(2) show False by simp
  qed
  with X0 om de show ?thesis by simp
qed

section \<open>Half the distance is corrected\<close>

definition word_diff :: "u8 list \<Rightarrow> u8 list \<Rightarrow> nat set" where
  "word_diff w c = {p. p < length w \<and> w ! (length w - 1 - p) \<noteq> c ! (length w - 1 - p)}"

definition err_at :: "u8 list \<Rightarrow> u8 list \<Rightarrow> nat \<Rightarrow> gf256" where
  "err_at w c p = GF (w ! (length w - 1 - p)) + GF (c ! (length w - 1 - p))"

lemma gf_add_eq_0: "(x :: gf256) + y = 0 \<longleftrightarrow> x = y"
  by (metis gf_add_self add_left_cancel)

lemma card_word_diff:
  assumes "length c = length w"
  shows "card (word_diff w c) = card {j. j < length w \<and> w ! j \<noteq> c ! j}"
proof -
  have "bij_betw (\<lambda>p. length w - 1 - p) (word_diff w c) {j. j < length w \<and> w ! j \<noteq> c ! j}"
    by (rule bij_betw_byWitness [where f' = "\<lambda>p. length w - 1 - p"]) (auto simp: word_diff_def)
  then show ?thesis by (rule bij_betw_same_card)
qed

lemma loc_inj:
  assumes "p < 255" "q < 255"
  shows "GF (alpha p) = GF (alpha q) \<longleftrightarrow> p = q"
  using assms by (simp add: alpha_eq_iff)

lemma syndromes_of_errors:
  assumes "length c = length w" "length w \<le> 255" "codeword t c" "k < t"
  shows "word_eval w (gen_root k) = (\<Sum>p\<in>word_diff w c. err_at w c p * GF (alpha p) ^ (k + 1))"
proof -
  let ?x = "gen_root k" and ?n = "length w"
  have pw: "?x ^ p = GF (alpha p) ^ (k + 1)" for p
    by (simp add: gen_root_def GF_alpha mult.commute flip: power_mult power_Suc)
  have "word_eval c ?x = 0" using assms(3,4) by (simp add: codeword_def)
  then have "word_eval w ?x = word_eval w ?x + word_eval c ?x" by simp
  also have "\<dots> = (\<Sum>p<?n. err_at w c p * ?x ^ p)"
    unfolding word_eval_rev assms(1) by (simp add: err_at_def sum.distrib distrib_right)
  also have "\<dots> = (\<Sum>p\<in>word_diff w c. err_at w c p * ?x ^ p)"
    by (rule sum.mono_neutral_right) (auto simp: word_diff_def err_at_def gf_add_eq_0)
  finally show ?thesis by (simp only: pw)
qed


text \<open>What Berlekamp-Massey returns for at most \<open>t/2\<close> errors: the locator itself.\<close>

lemma locator_found:
  assumes G: "bm_gen S (length Xs) t s" and I: "bm_inv t syn t s" and loc: "is_locator t (el s)"
    and Xs: "distinct Xs" "0 \<notin> set Xs" "2 * length Xs \<le> t" and Y: "\<And>X. X \<in> set Xs \<Longrightarrow> Y X \<noteq> 0"
    and S: "\<And>k. k < t \<Longrightarrow> S k = syn_of Xs Y k"
  shows "porder (el s) = length Xs" "cf (el s) = lamc Xs"
proof -
  let ?C = "el s" and ?N = "numerrors s" and ?v = "length Xs"
  have N: "porder ?C = ?N" by (rule bm_invD(3) [OF I])
  have Nv: "?N \<le> ?v" by (rule bm_genD(2) [OF G])
  have elc: "elc s j = cf ?C j" if "j \<le> ?N" for j using that N by (simp add: elc_def cf_def)
  have card: "card (set Xs) = ?v" using Xs(1) by (rule distinct_card)
  have zero: "peval ?C (inverse X) = 0" if X: "X \<in> set Xs" for X
  proof -
    let ?u = "\<lambda>X. Y X * X ^ (?N + 1) * peval ?C (inverse X)"
    have "(\<Sum>X\<in>set Xs. ?u X * X ^ m) = 0" if "m < card (set Xs)" for m
    proof -
      let ?k = "?N + m"
      have k: "?N \<le> ?k" "?k < t" using that card Nv Xs(3) by auto
      have "0 = recur (elc s) ?N S ?k" using bm_genD(3) [OF G] k by simp
      also have "\<dots> = (\<Sum>j\<le>?N. \<Sum>X\<in>set Xs. cf ?C j * (Y X * X ^ (?k - j + 1)))"
        unfolding recur_def using k elc by (simp add: S syn_of_def sum_distrib_left)
      also have "\<dots> = (\<Sum>X\<in>set Xs. \<Sum>j\<le>?N. Y X * X ^ (?N + 1) * (cf ?C j * inverse X ^ j) * X ^ m)"
      proof (subst sum.swap, intro sum.cong refl)
        fix X j assume "X \<in> set Xs" "j \<in> {..?N}"
        then have X0: "X \<noteq> 0" and j: "?N + 1 + m = ?k - j + 1 + j" using Xs(2) by auto
        have "X ^ (?N + 1) * X ^ m = X ^ (?k - j + 1) * X ^ j" by (simp only: j flip: power_add)
        moreover have "X ^ j * inverse X ^ j = 1" using X0 by (simp flip: power_mult_distrib)
        ultimately have "X ^ (?N + 1) * X ^ m * inverse X ^ j = X ^ (?k - j + 1)"
          by (metis mult.assoc mult.right_neutral)
        then show "cf ?C j * (Y X * X ^ (?k - j + 1)) = Y X * X ^ (?N + 1) * (cf ?C j * inverse X ^ j) * X ^ m"
          by (metis (no_types, opaque_lifting) mult.assoc mult.commute)
      qed
      also have "\<dots> = (\<Sum>X\<in>set Xs. ?u X * X ^ m)"
        by (simp only: peval_cf N sum_distrib_left sum_distrib_right)
      finally show ?thesis by simp
    qed
    then have "?u X = 0" by (intro vandermonde_zero [where X = "\<lambda>X. X" and A = "set Xs" and u = ?u]) (use X in auto)
    then show ?thesis using Y [OF X] X Xs(2) by auto
  qed
  have c0: "cf ?C 0 = 1" using loc by (simp add: cf_def is_locator_def)
  let ?R = "inverse ` set Xs"
  have cardR: "card ?R = ?v" using card by (simp add: card_image inj_on_def)
  have "?v \<le> ?N"
  proof (rule ccontr)
    assume "\<not> ?v \<le> ?N"
    then have "?N < card ?R" using cardR by simp
    then have "cf ?C 0 = 0"
      using many_roots_zero [of ?R "cf ?C" ?N 0] zero by (auto simp: peval_cf N)
    with c0 show False by simp
  qed
  with Nv N show o: "porder ?C = ?v" by simp
  have "cf ?C j = lamc Xs j" for j
  proof (cases "j \<le> ?v")
    case True
    have R0: "0 \<notin> ?R" using Xs(2) by auto
    then have "?v < card (insert 0 ?R)" using cardR by simp
    moreover have "(\<Sum>i\<le>?v. (cf ?C i - lamc Xs i) * z ^ i) = 0" if "z \<in> insert 0 ?R" for z
    proof (cases "z = 0")
      case True
      then show ?thesis using c0 by (simp add: sum.atMost_shift power_0_left)
    next
      case False
      then obtain X where X: "X \<in> set Xs" "z = inverse X" using \<open>z \<in> insert 0 ?R\<close> by auto
      then have "X \<noteq> 0" using Xs(2) by auto
      have "(\<Sum>i\<le>?v. (cf ?C i - lamc Xs i) * z ^ i) = peval ?C z - (\<Prod>Y\<leftarrow>Xs. 1 + Y * z)"
        unfolding left_diff_distrib sum_subtractf peval_cf o lamc_eval ..
      then show ?thesis using zero [OF X(1)] X prod_list_zero_at [OF X(1) \<open>X \<noteq> 0\<close>] by simp
    qed
    ultimately have "cf ?C j - lamc Xs j = 0"
      using many_roots_zero [of "insert 0 ?R" "\<lambda>i. cf ?C i - lamc Xs i" ?v j] True by blast
    then show ?thesis by simp
  next
    case False
    then show ?thesis using o by (simp add: cf_def lamc_above)
  qed
  then show "cf ?C = lamc Xs" by blast
qed

lemma chien_complete:
  assumes loc: "is_locator t C" and Xs: "distinct Xs" "0 \<notin> set Xs" "porder C = length Xs" "cf C = lamc Xs"
  shows "length (root_list C 256) = porder C"
    and "\<And>X. X \<in> set Xs \<Longrightarrow> \<exists>i<porder C. GF (of_nat (root_list C 256 ! i)) = inverse X"
    and "\<And>i. i < porder C \<Longrightarrow> inverse (GF (of_nat (root_list C 256 ! i))) \<in> set Xs"
proof -
  let ?R = "inverse ` set Xs" and ?L = "root_list C 256"
  have ev: "peval C z = (\<Prod>Y\<leftarrow>Xs. 1 + Y * z)" for z
    by (simp only: peval_cf Xs(3,4) lamc_eval)
  have sub: "?R \<subseteq> (\<lambda>i. GF (of_nat i)) ` set ?L"
  proof
    fix z assume "z \<in> ?R"
    then obtain X where X: "X \<in> set Xs" "z = inverse X" by blast
    with Xs(2) have "X \<noteq> 0" by auto
    then have z0: "peval C z = 0" using prod_list_zero_at [OF X(1)] X(2) ev by simp
    obtain b where b: "z = GF b" by (cases z)
    then have "GF (of_nat (unat b)) = z" by simp
    moreover have "unat b \<in> set ?L" using z0 b by (simp add: root_list_def)
    ultimately show "z \<in> (\<lambda>i. GF (of_nat i)) ` set ?L" by blast
  qed
  have "length Xs = card ?R" using distinct_card [OF Xs(1)] by (simp add: card_image inj_on_def)
  also have "\<dots> \<le> card ((\<lambda>i. GF (of_nat i)) ` set ?L)" by (rule card_mono) (use sub in auto)
  also have "\<dots> \<le> card (set ?L)" by (rule card_image_le) simp
  also have "\<dots> \<le> length ?L" by (rule card_length)
  finally show len: "length ?L = porder C" using length_root_list [OF loc, of 256] Xs(3) by simp
  show "\<exists>i<porder C. GF (of_nat (?L ! i)) = inverse X" if "X \<in> set Xs" for X
  proof -
    have "inverse X \<in> (\<lambda>i. GF (of_nat i)) ` set ?L" using sub that by blast
    then show ?thesis using len by (auto simp: in_set_conv_nth)
  qed
  show "inverse (GF (of_nat (?L ! i))) \<in> set Xs" if "i < porder C" for i
  proof -
    let ?z = "GF (of_nat (?L ! i))"
    have z: "peval C ?z = 0" "?z \<noteq> 0" using root_list_nonzero [OF loc, of i] len that by simp_all
    then obtain X where X: "X \<in> set Xs" "1 + X * ?z = 0" by (auto simp: ev prod_list_zero_iff)
    then have "X * ?z = 1" by (simp add: gf_add_eq_0)
    then have "inverse ?z = X" using z(2) by (metis inverse_unique mult.commute)
    with X(1) show ?thesis by simp
  qed
qed

lemma decode_corrects_errors:
  assumes ok: "rs_ok t rs" and len: "length w = length c" "length c \<le> 255" "t \<le> length c"
    and cw: "codeword t c" and few: "2 * card {j. j < length w \<and> w ! j \<noteq> c ! j} \<le> t"
    and msg: "length c - t \<le> length msg"
  shows "\<exists>rs'. correct_reed_solomon_decode mem rs w (length w) msg =
      Some (int (length c - t), rs', take (length c - t) c @ drop (length c - t) msg) \<and> rs_ok t rs'"
proof -
  let ?n = "length c" and ?E = "word_diff w c" and ?f = "\<lambda>p. GF (alpha p)"
  have finE: "finite ?E" by (simp add: word_diff_def)
  have E: "p \<in> ?E \<Longrightarrow> p < ?n \<and> p < 255 \<and> err_at w c p \<noteq> 0" for p
    using len by (auto simp: word_diff_def err_at_def gf_add_eq_0)
  have inj: "inj_on ?f ?E"
  proof (rule inj_onI)
    fix p q assume "p \<in> ?E" "q \<in> ?E" "?f p = ?f q"
    then show "p = q" using E [of p] E [of q] loc_inj [of p q] by blast
  qed
  define Xs where "Xs = map ?f (sorted_list_of_set ?E)"
  define Y where "Y = err_at w c \<circ> inv_into ?E ?f"
  have setXs: "set Xs = ?f ` ?E" using finE by (simp add: Xs_def)
  have dist: "distinct Xs" using inj finE by (simp add: Xs_def distinct_map)
  have lenXs: "length Xs = card ?E" by (simp add: Xs_def)
  have few': "2 * length Xs \<le> t" using few card_word_diff [of c w] len lenXs by simp
  have nz: "0 \<notin> set Xs" by (auto simp: setXs)
  have Yf: "Y (?f p) = err_at w c p" if "p \<in> ?E" for p
    unfolding Y_def o_apply inv_into_f_f [OF inj that] ..
  have Ynz: "Y X \<noteq> 0" if "X \<in> set Xs" for X using that E Yf by (auto simp: setXs)
  have syn: "word_eval w (gen_root k) = syn_of Xs Y k" if "k < t" for k
    using syndromes_of_errors [of c w t k] len cw that Yf
    by (simp add: syn_of_def setXs sum.reindex [OF inj])
  show ?thesis
  proof (cases "?E = {}")
    case True
    then have "w = c"
    proof -
      have "w ! j = c ! j" if "j < length w" for j
        using True that by (auto simp: word_diff_def dest!: spec [of _ "length w - 1 - j"])
      then show ?thesis using len by (auto intro: nth_equalityI)
    qed
    then show ?thesis using decode_codeword [OF ok _ len(2,3) cw msg] by simp
  next
    case False
    then obtain p0 where p0: "p0 \<in> ?E" by blast
    have pos: "0 < length Xs" using p0 finE lenXs by (metis card_gt_0_iff empty_iff)
    have "\<exists>k<t. word_eval w (gen_root k) \<noteq> 0"
    proof (rule ccontr)
      assume "\<not> (\<exists>k<t. word_eval w (gen_root k) \<noteq> 0)"
      then have z: "k < t \<Longrightarrow> syn_of Xs Y k = 0" for k using syn by simp
      have "Y (?f p0) * ?f p0 = 0"
      proof (rule vandermonde_zero [where X = "\<lambda>X. X" and A = "set Xs" and u = "\<lambda>X. Y X * X"])
        fix m assume "m < card (set Xs)"
        then have "m < t" using distinct_card [OF dist] few' by simp
        then show "(\<Sum>X\<in>set Xs. Y X * X * X ^ m) = 0" using z [of m] by (simp add: syn_of_def mult.assoc)
      qed (use p0 setXs in auto)
      then show False using Ynz [of "?f p0"] p0 setXs by auto
    qed
    then have nc: "\<not> codeword t w" and nzs: "\<exists>k<t. word_eval w (gen_root k) \<noteq> 0" by (auto simp: codeword_def)
    obtain rs1 where rs1: "decode_entry t w ?n rs1"
      "correct_reed_solomon_decode mem rs w ?n msg = decode_tail ?n (?n - t) rs1 msg"
      using decode_dirty [OF ok len(1,2,3) nc] by blast
    have synrs: "GF (rs_syndromes rs1 ! k) = word_eval w (gen_root k)" if "k < t" for k
      using rs1(1) that by (simp add: decode_entry_def)
    have S: "syn_of Xs Y k = GF (rs_syndromes rs1 ! k)" if "k < t" for k using syn synrs that by simp
    have nzrs: "\<exists>k<t. rs_syndromes rs1 ! k \<noteq> 0" using nzs synrs by force
    have okr: "rs_ok t rs1" "rs_has_init_decode rs1" and rec: "received_ok w ?n (rs_received_polynomial rs1)"
      using rs1(1) by (simp_all add: decode_entry_def)
    obtain s0 s where s0: "numerrors s0 = 0" "last_discrepancy s0 = 1" "delay_length s0 = 1" "porder (lel s0) = 0"
      "bm_inv t (rs_syndromes rs1) 0 s0" and s: "for_each [0..<t] (bm_step rs1) s0 = Some s"
      "bm_inv t (rs_syndromes rs1) t s" and loc: "is_locator t (el s)" and "1 \<le> porder (el s)"
      and fixd: "\<not> last_syndrome_only t (rs_syndromes rs1) \<Longrightarrow> length (root_list (el s) 256) = porder (el s) \<Longrightarrow>
      \<exists>rs' c. decode_tail ?n (?n - t) rs1 msg =
          Some (int (?n - t), rs', take (?n - t) (map (\<lambda>j. c ! (?n - 1 - j)) [0..<?n]) @ drop (?n - t) msg) \<and> rs_ok t rs' \<and>
        corrected t (syn_of Xs Y) (el s) (pcoeff (rs_received_polynomial rs1)) c"
      by (rule decode_tail_run [OF rs1(1) nzrs len(2) _ msg, of "syn_of Xs Y"]) (use S in auto)
    let ?C = "el s"
    have gen: "bm_gen (syn_of Xs Y) (length Xs) t s"
      by (rule bm_run_gen [OF okr s0 s(1) S, of "lamc Xs"])
        (use syn_recurrence in \<open>simp_all add: recur_def\<close>)
    have found: "porder ?C = length Xs" "cf ?C = lamc Xs"
      using locator_found [of "syn_of Xs Y" Xs t s "rs_syndromes rs1" Y] gen s(2) loc dist nz few' Ynz by blast+
    note chien = chien_complete [OF loc dist nz found]
    have "\<not> last_syndrome_only t (rs_syndromes rs1)"
      using find_error_locator_spec(6) [OF okr s s0(5)] found(1) pos few' by simp
    from fixd [OF this chien(1)] obtain rs' c' where res:
      "decode_tail ?n (?n - t) rs1 msg =
        Some (int (?n - t), rs', take (?n - t) (map (\<lambda>j. c' ! (?n - 1 - j)) [0..<?n]) @ drop (?n - t) msg)"
      "rs_ok t rs'" "corrected t (syn_of Xs Y) ?C (pcoeff (rs_received_polynomial rs1)) c'" by blast
    let ?z = "\<lambda>i. GF (of_nat (root_list ?C 256 ! i))"
    obtain ls where ls: "\<forall>i<porder ?C. ls i < 255 \<and> GF (alpha (ls i)) = inverse (?z i) \<and>
         GF (c' ! ls i) = GF (pcoeff (rs_received_polynomial rs1) ! ls i) +
           omega_val t ?C (syn_of Xs Y) (?z i) / deriv_val ?C (?z i)"
      "\<forall>p<255. p \<notin> ls ` {..<porder ?C} \<longrightarrow> c' ! p = pcoeff (rs_received_polynomial rs1) ! p"
      using res(3) unfolding corrected_def by blast
    have at: "ls i \<in> ?E \<and> inverse (?z i) = ?f (ls i)" if i: "i < porder ?C" for i
    proof -
      obtain p where p: "p \<in> ?E" "inverse (?z i) = ?f p" using chien(3) [OF i] setXs by auto
      then have "?f (ls i) = ?f p" using ls(1) i by simp
      then have "ls i = p" using ls(1) i E [OF p(1)] loc_inj [of "ls i" p] by blast
      with p show ?thesis by simp
    qed
    have val: "GF (c' ! p) = GF (pcoeff (rs_received_polynomial rs1) ! p) + err_at w c p" if p: "p \<in> ?E" for p
    proof -
      obtain i where i: "i < porder ?C" "?z i = inverse (?f p)" using chien(2) [of "?f p"] p setXs by auto
      then have "?f (ls i) = ?f p" using at [OF i(1)] by simp
      then have li: "ls i = p" using at [OF i(1)] E [OF p] E [of "ls i"] loc_inj [of "ls i" p] by blast
      have "?f p \<in> set Xs" using p setXs by simp
      then have fv: "omega_val t ?C (syn_of Xs Y) (?z i) / deriv_val ?C (?z i) = Y (?f p)"
        unfolding i(2) using forney [of Xs t "?f p" ?C "syn_of Xs Y" Y] few' dist nz found by simp
      have "GF (c' ! ls i) = GF (pcoeff (rs_received_polynomial rs1) ! ls i) +
           omega_val t ?C (syn_of Xs Y) (?z i) / deriv_val ?C (?z i)" using ls(1) i(1) by blast
      then show ?thesis by (simp only: fv li Yf [OF p])
    qed
    have "c' ! (?n - 1 - j) = c ! j" if j: "j < ?n" for j
    proof -
      let ?p = "?n - 1 - j"
      have p: "?p < 255" "?n - 1 - ?p = j" "?p < ?n" using j len(2) by auto
      have r: "pcoeff (rs_received_polynomial rs1) ! ?p = w ! j"
        using rec p by (simp add: received_ok_def)
      show ?thesis
      proof (cases "?p \<in> ?E")
        case True
        then have "GF (c' ! ?p) = GF (w ! j) + (GF (w ! j) + GF (c ! j))"
          using val [OF True] r p len(1) by (simp add: err_at_def)
        then have "GF (c' ! ?p) = GF (c ! j)" by (simp add: add.assoc [symmetric])
        then show ?thesis by simp
      next
        case False
        then have "?p \<notin> ls ` {..<porder ?C}" using at by auto
        then have "c' ! ?p = w ! j" using ls(2) p(1) r by simp
        moreover have "w ! j = c ! j" using False p len(1) by (simp add: word_diff_def)
        ultimately show ?thesis by simp
      qed
    qed
    then have "map (\<lambda>j. c' ! (?n - 1 - j)) [0..<?n] = c" by (auto intro: nth_equalityI)
    then show ?thesis using rs1(2) res(1,2) len(1) by simp
  qed
qed


section \<open>When the decoder is defined\<close>

lemma decode_outcomes:
  assumes ok: "rs_ok t rs" and w: "length w = n" "n \<le> 255" "t \<le> n" and msg: "n - t \<le> length msg"
  defines "bad \<equiv> (\<forall>k<t - 1. word_eval w (gen_root k) = 0) \<and> word_eval w (gen_root (t - 1)) \<noteq> 0"
  shows "bad \<Longrightarrow> correct_reed_solomon_decode mem rs w n msg = None"
    and "\<not> bad \<Longrightarrow> \<exists>r rs' msg'. correct_reed_solomon_decode mem rs w n msg = Some (r, rs', msg') \<and>
      (r = - 1 \<and> msg' = msg \<or> r = int (n - t) \<and> length msg' = length msg) \<and> rs_ok t rs'"
proof -
  have t: "1 \<le> t" using rs_enc_okD(15) [of t rs] ok by (simp add: rs_ok_def)
  have "(bad \<longrightarrow> correct_reed_solomon_decode mem rs w n msg = None) \<and>
    (\<not> bad \<longrightarrow> (\<exists>r rs' msg'. correct_reed_solomon_decode mem rs w n msg = Some (r, rs', msg') \<and>
      (r = - 1 \<and> msg' = msg \<or> r = int (n - t) \<and> length msg' = length msg) \<and> rs_ok t rs'))"
  proof (cases "codeword t w")
    case True
    then have "\<not> bad" using t by (simp add: bad_def codeword_def)
    moreover obtain rs' where "correct_reed_solomon_decode mem rs w n msg =
        Some (int (n - t), rs', take (n - t) w @ drop (n - t) msg)" "rs_ok t rs'"
      using decode_codeword [OF ok w True msg, of mem] by blast
    moreover have "length (take (n - t) w @ drop (n - t) msg) = length msg" using w msg by simp
    ultimately show ?thesis by blast
  next
    case False
    obtain rs1 where rs1: "decode_entry t w n rs1"
      "correct_reed_solomon_decode mem rs w n msg = decode_tail n (n - t) rs1 msg"
      using decode_dirty [OF ok w False] by blast
    have syn: "GF (rs_syndromes rs1 ! k) = word_eval w (gen_root k)" if "k < t" for k
      using rs1(1) that by (simp add: decode_entry_def)
    have z: "rs_syndromes rs1 ! k = 0 \<longleftrightarrow> word_eval w (gen_root k) = 0" if "k < t" for k
      using syn [OF that] by (metis GF_0)
    have bad: "last_syndrome_only t (rs_syndromes rs1) \<longleftrightarrow> bad"
      using z t by (simp add: last_syndrome_only_def bad_def)
    have nz: "\<exists>k<t. rs_syndromes rs1 ! k \<noteq> 0" using False z by (auto simp: codeword_def)
    obtain C where C: "last_syndrome_only t (rs_syndromes rs1) \<Longrightarrow> decode_tail n (n - t) rs1 msg = None"
      "\<not> last_syndrome_only t (rs_syndromes rs1) \<Longrightarrow> length (root_list C 256) \<noteq> porder C \<Longrightarrow>
        \<exists>rs'. decode_tail n (n - t) rs1 msg = Some (- 1, rs', msg) \<and> rs_ok t rs'"
      "\<not> last_syndrome_only t (rs_syndromes rs1) \<Longrightarrow> length (root_list C 256) = porder C \<Longrightarrow>
        \<exists>rs' c. decode_tail n (n - t) rs1 msg =
          Some (int (n - t), rs', take (n - t) (map (\<lambda>j. c ! (n - 1 - j)) [0..<n]) @ drop (n - t) msg) \<and> rs_ok t rs' \<and>
        corrected t (\<lambda>k. GF (rs_syndromes rs1 ! k)) C (pcoeff (rs_received_polynomial rs1)) c"
      by (rule decode_tail_run [OF rs1(1) nz w(2) _ msg refl]) (use w in auto)
    show ?thesis
    proof (cases "last_syndrome_only t (rs_syndromes rs1)")
      case True
      then show ?thesis using C(1) rs1(2) bad by simp
    next
      case nb: False
      show ?thesis
      proof (cases "length (root_list C 256) = porder C")
        case True
        from C(3) [OF nb True] obtain rs' c where "decode_tail n (n - t) rs1 msg =
          Some (int (n - t), rs', take (n - t) (map (\<lambda>j. c ! (n - 1 - j)) [0..<n]) @ drop (n - t) msg)" "rs_ok t rs'"
          by blast
        then show ?thesis using rs1(2) bad nb msg by auto
      next
        case False
        then show ?thesis using C(2) [OF nb False] rs1(2) bad nb by auto
      qed
    qed
  qed
  then show "bad \<Longrightarrow> correct_reed_solomon_decode mem rs w n msg = None"
    and "\<not> bad \<Longrightarrow> \<exists>r rs' msg'. correct_reed_solomon_decode mem rs w n msg = Some (r, rs', msg') \<and>
      (r = - 1 \<and> msg' = msg \<or> r = int (n - t) \<and> length msg' = length msg) \<and> rs_ok t rs'"
    by blast+
qed

section \<open>The properties of the codec\<close>

text \<open>C1: end to end through the wrapper \<open>ReedSolomon\<close>: a message that is encoded, received
  with at most half as many wrong bytes as there are parity bytes (in the message or in the
  parity), and decoded, comes back, whatever the memory held and whichever codec of the same
  strength decodes it.\<close>

theorem rs_roundtrip_with_errors:
  assumes "1 \<le> t" "t < 255" "length msg + t \<le> 255" "length msg + t \<le> length out" "length msg \<le> length buf"
    and enc: "ReedSolomon_create mem t = Some w" "ReedSolomon_encode w msg (length msg) out = Some (r, w', sent)"
    and dec: "ReedSolomon_create mem' t = Some v"
    and noise: "length word = length msg + t" "2 * card {j. j < length word \<and> word ! j \<noteq> sent ! j} \<le> t"
  shows "\<exists>v'. ReedSolomon_decode mem'' v word (length word) buf =
    Some (int (length msg), v', msg @ drop (length msg) buf)"
proof -
  obtain rs where rs: "correct_reed_solomon_create mem rs_primitive_polynomial 1 1 t = Some rs" "rs_ok t rs"
    using rs_create_ok [OF assms(1,2), of mem] by blast
  obtain rd where rd: "correct_reed_solomon_create mem' rs_primitive_polynomial 1 1 t = Some rd" "rs_ok t rd"
    using rs_create_ok [OF assms(1,2), of mem'] by blast
  obtain rs' parity where e: "correct_reed_solomon_encode rs msg (length msg) out =
      Some (255, rs', msg @ parity @ drop (length msg + t) out)" "length parity = t" "codeword t (msg @ parity)"
    using encode_spec [OF rs(2) order.refl assms(3,4)] by auto
  have w: "w = \<lparr>rsw_rs = rs, rsw_parityBytes = t\<rparr>" using enc(1) rs(1) by (simp add: ReedSolomon_create_def)
  have v: "v = \<lparr>rsw_rs = rd, rsw_parityBytes = t\<rparr>" using dec rd(1) by (simp add: ReedSolomon_create_def)
  have sent: "sent = msg @ parity @ drop (length msg + t) out"
    using enc(2) e(1) by (simp add: w ReedSolomon_encode_def)
  let ?c = "msg @ parity"
  have lc: "length word = length ?c" "length ?c \<le> 255" "t \<le> length ?c" "length ?c - t \<le> length buf"
    using noise e(2) assms by simp_all
  have "{j. j < length word \<and> word ! j \<noteq> sent ! j} = {j. j < length word \<and> word ! j \<noteq> ?c ! j}"
    using noise(1) e(2) by (auto simp: sent nth_append)
  then have few: "2 * card {j. j < length word \<and> word ! j \<noteq> ?c ! j} \<le> t" using noise(2) by simp
  obtain rd' where "correct_reed_solomon_decode mem'' rd word (length word) buf =
      Some (int (length ?c - t), rd', take (length ?c - t) ?c @ drop (length ?c - t) buf)"
    using decode_corrects_errors [OF rd(2) lc(1-3) e(3) few lc(4)] by blast
  then show ?thesis using e(2) by (simp add: v ReedSolomon_decode_def)
qed

theorem rs_roundtrip_with_errors_witness:
  "\<exists>w r w' sent v v'. ReedSolomon_create (\<lambda>_ _. 7) 2 = Some w \<and>
     ReedSolomon_encode w [11, 22, 33] 3 [0, 0, 0, 0, 0] = Some (r, w', sent) \<and>
     ReedSolomon_create (\<lambda>_ _. 9) 2 = Some v \<and>
     ReedSolomon_decode (\<lambda>_ _. 5) v (sent[1 := 99]) 5 [0, 0, 0] = Some (3, v', [11, 22, 33])"
proof -
  obtain rs where rs: "correct_reed_solomon_create (\<lambda>_ _. 7) rs_primitive_polynomial 1 1 2 = Some rs" "rs_ok 2 rs"
    using rs_create_ok [of 2 "\<lambda>_ _. 7"] by auto
  obtain rd where rd: "correct_reed_solomon_create (\<lambda>_ _. 9) rs_primitive_polynomial 1 1 2 = Some rd"
    using rs_create_ok [of 2 "\<lambda>_ _. 9"] by auto
  define m :: "u8 list" where "m = [11, 22, 33]"
  have lm: "length m = 3" by (simp add: m_def)
  have "\<exists>rs' parity. correct_reed_solomon_encode rs m 3 [0, 0, 0, 0, 0] =
      Some (255, rs', m @ parity @ drop (3 + 2) [0, 0, 0, 0, 0]) \<and> length parity = 2"
    using encode_spec [OF rs(2), of 3 m "[0, 0, 0, 0, 0]"] lm by auto
  then obtain rs' parity where e: "correct_reed_solomon_encode rs m 3 [0, 0, 0, 0, 0] =
      Some (255, rs', m @ parity)" "length parity = 2"
    by auto
  define sent where "sent = m @ parity"
  let ?w = "\<lparr>rsw_rs = rs, rsw_parityBytes = 2\<rparr>"
  have w: "ReedSolomon_create (\<lambda>_ _. 7) 2 = Some ?w" "ReedSolomon_create (\<lambda>_ _. 9) 2 = Some \<lparr>rsw_rs = rd, rsw_parityBytes = 2\<rparr>"
    using rs(1) rd by (simp_all add: ReedSolomon_create_def)
  have enc: "ReedSolomon_encode ?w m (length m) [0, 0, 0, 0, 0] = Some (255, ?w\<lparr>rsw_rs := rs'\<rparr>, sent)"
    using e(1) by (simp add: ReedSolomon_encode_def lm sent_def)
  have ls: "length sent = 5" "length (sent[1 := 99]) = 5" using e(2) lm by (simp_all add: sent_def)
  have "{j. j < length (sent[1 := 99]) \<and> sent[1 := 99] ! j \<noteq> sent ! j} \<subseteq> {1}"
    by (auto simp: nth_list_update) (metis nth_list_update_neq)
  then have "card {j. j < length (sent[1 := 99]) \<and> sent[1 := 99] ! j \<noteq> sent ! j} \<le> card {1 :: nat}"
    by (intro card_mono) auto
  then have few: "2 * card {j. j < length (sent[1 := 99]) \<and> sent[1 := 99] ! j \<noteq> sent ! j} \<le> 2" by simp
  have "\<exists>v'. ReedSolomon_decode (\<lambda>_ _. 5) \<lparr>rsw_rs = rd, rsw_parityBytes = 2\<rparr> (sent[1 := 99]) (length (sent[1 := 99])) [0, 0, 0] =
      Some (int (length m), v', m @ drop (length m) [0, 0, 0])"
    by (rule rs_roundtrip_with_errors [OF _ _ _ _ _ w(1) enc w(2) _ few]) (simp_all add: lm ls)
  then have "\<exists>v'. ReedSolomon_decode (\<lambda>_ _. 5) \<lparr>rsw_rs = rd, rsw_parityBytes = 2\<rparr> (sent[1 := 99]) 5 [0, 0, 0] = Some (3, v', m)"
    unfolding ls lm by simp
  then show ?thesis using w enc [unfolded lm] unfolding m_def by blast
qed

text \<open>C2: the decoder is undefined in exactly one case. If every syndrome but the last one is
  zero, the locator gets as many taps as there are parity bytes and the search reads one entry
  past the end of a row of \<open>element_exp\<close>; for every other word the decoder makes no access
  outside its buffers, answers -1 with the output untouched or the length of the message, and
  leaves a codec that is in order.\<close>

theorem decode_defined_iff:
  assumes "rs_ok t rs" "length w \<le> 255" "t \<le> length w" "length w - t \<le> length msg"
  shows "(correct_reed_solomon_decode mem rs w (length w) msg = None \<longleftrightarrow>
      (\<forall>k<t - 1. word_eval w (gen_root k) = 0) \<and> word_eval w (gen_root (t - 1)) \<noteq> 0) \<and>
    (\<forall>r rs' msg'. correct_reed_solomon_decode mem rs w (length w) msg = Some (r, rs', msg') \<longrightarrow>
      (r = - 1 \<and> msg' = msg \<or> r = int (length w - t) \<and> length msg' = length msg) \<and> rs_ok t rs')"
  using decode_outcomes [OF assms(1) refl assms(2-4), of mem] by fastforce

theorem decode_defined_iff_witness:
  "\<exists>rs. correct_reed_solomon_create (\<lambda>_ _. 0) rs_primitive_polynomial 1 1 2 = Some rs \<and>
     correct_reed_solomon_decode (\<lambda>_ _. 0) rs [1, 2] 2 [] = None \<and>
     correct_reed_solomon_decode (\<lambda>_ _. 0) rs [1, 3] 2 [] \<noteq> None"
proof -
  obtain rs where rs: "correct_reed_solomon_create (\<lambda>_ _. 0) rs_primitive_polynomial 1 1 2 = Some rs" "rs_ok 2 rs"
    using rs_create_ok [of 2 "\<lambda>_ _. 0"] by auto
  have root: "gen_root 0 = GF 2" "gen_root (2 - 1) = GF 4"
    using alpha_chain(1,2) by (simp_all add: gen_root_def numeral_2_eq_2)
  have all: "(\<forall>k<2 - (1 :: nat). P k) = P 0" for P by auto
  have ev: "word_eval [1, a] x = x + GF a" for a x
    by (simp add: word_eval_def numeral_2_eq_2)
  have l: "length [1, a] = 2" for a :: u8 by simp
  have nil: "length ([] :: u8 list) = 0" by simp
  have ne: "GF 2 + GF 2 = 0" "GF 2 + GF 3 \<noteq> 0" "GF 4 + GF 2 \<noteq> 0" by (simp_all add: gf_add_eq_0)
  have "correct_reed_solomon_decode (\<lambda>_ _. 0) rs [1, 2] 2 [] = None"
    using decode_defined_iff [OF rs(2), of "[1, 2]" "[]" "\<lambda>_ _. 0"] ne
    unfolding l nil ev root all by simp
  moreover have "correct_reed_solomon_decode (\<lambda>_ _. 0) rs [1, 3] 2 [] \<noteq> None"
    using decode_defined_iff [OF rs(2), of "[1, 3]" "[]" "\<lambda>_ _. 0"] ne
    unfolding l nil ev root all by simp
  ultimately show ?thesis using rs(1) by blast
qed

end
