(* ===== verification/Pipeline.thy ===== *)
theory Pipeline
  imports Streams ErrorCorrection
begin

text \<open>
  The receiving pipeline put together: \<open>reed_solomon_stream\<close> over \<open>aligned_stream\<close> over what
  collects the chunks. Every block of a frame becomes one event of the aligner: the message, when
  at most half as many bytes are wrong as there are parity bytes, or the length of the message
  marked as lost, when the decoder gives up.
\<close>

text \<open>\<open>correctable t m w\<close>: \<open>w\<close> is \<open>m\<close> with its \<open>t\<close> parity bytes and at most \<open>t/2\<close> wrong bytes.\<close>

definition correctable :: "nat \<Rightarrow> u8 list \<Rightarrow> u8 list \<Rightarrow> bool" where
  "correctable t m w \<longleftrightarrow> (\<exists>p. length p = t \<and> codeword t (m @ p) \<and> length w = length m + t \<and>
     2 * card {j. j < length w \<and> w ! j \<noteq> (m @ p) ! j} \<le> t)"

text \<open>The one input on which the decoder is undefined.\<close>

definition undecodable :: "nat \<Rightarrow> u8 list \<Rightarrow> bool" where
  "undecodable t w \<longleftrightarrow> (\<forall>k<t - 1. word_eval w (gen_root k) = 0) \<and> word_eval w (gen_root (t - 1)) \<noteq> 0"

definition rss_ok :: "nat \<Rightarrow> nat \<Rightarrow> 's reed_solomon_stream \<Rightarrow> bool" where
  "rss_ok t n s \<longleftrightarrow> rs_ok t (rsw_rs (rss_rs s)) \<and> rsw_parityBytes (rss_rs s) = t \<and>
     length (rss_buffer s) = n \<and> 1 \<le> t \<and> t < n \<and> n \<le> 255"

definition block_event :: "nat \<Rightarrow> nat \<Rightarrow> u8 list \<Rightarrow> frame_event \<Rightarrow> bool" where
  "block_event t n w e \<longleftrightarrow> (\<forall>m. correctable t m w \<longrightarrow> e = Good m) \<and>
     (e = Lost (n - t) \<or> (\<exists>m. e = Good m \<and> length m = n - t))"

definition stream_event :: "('s \<Rightarrow> u8 list \<Rightarrow> 's option) \<Rightarrow> ('s \<Rightarrow> nat \<Rightarrow> 's option) \<Rightarrow> frame_event \<Rightarrow> 's \<Rightarrow> 's option" where
  "stream_event swrite sbad e s = (case e of Good d \<Rightarrow> swrite s d | Lost n \<Rightarrow> sbad s n)"

lemma correctable_not_undecodable_outcome:
  assumes ok: "rs_ok t rs" and n: "length w = n" "n \<le> 255" "t < n" "length buf = n" and d: "\<not> undecodable t w"
  shows "\<exists>r rs' buf' e. correct_reed_solomon_decode mem rs w n buf = Some (r, rs', buf') \<and> rs_ok t rs' \<and>
    length buf' = n \<and> block_event t n w e \<and>
    (r = - 1 \<and> e = Lost (n - t) \<or> r = int (n - t) \<and> e = Good (take (n - t) buf'))"
proof -
  have "\<exists>r rs' msg'. correct_reed_solomon_decode mem rs w n buf = Some (r, rs', msg') \<and>
      (r = - 1 \<and> msg' = buf \<or> r = int (n - t) \<and> length msg' = length buf) \<and> rs_ok t rs'"
    by (rule decode_outcomes(2) [OF ok n(1,2)]) (use n d in \<open>simp_all add: undecodable_def\<close>)
  then obtain r rs' buf' where run: "correct_reed_solomon_decode mem rs w n buf = Some (r, rs', buf')" "rs_ok t rs'"
    and out: "r = - 1 \<and> buf' = buf \<or> r = int (n - t) \<and> length buf' = length buf" by blast
  have cor: "r = int (n - t) \<and> take (n - t) buf' = m" if "correctable t m w" for m
  proof -
    obtain p where p: "length p = t" "codeword t (m @ p)" "length w = length m + t"
      "2 * card {j. j < length w \<and> w ! j \<noteq> (m @ p) ! j} \<le> t" using \<open>correctable t m w\<close> by (auto simp: correctable_def)
    have l: "length w = length (m @ p)" "length (m @ p) \<le> 255" "t \<le> length (m @ p)"
      "length (m @ p) - t \<le> length buf" "length (m @ p) = n" "n - t = length m" using p n by simp_all
    obtain rd' where "correct_reed_solomon_decode mem rs w (length w) buf =
        Some (int (length (m @ p) - t), rd', take (length (m @ p) - t) (m @ p) @ drop (length (m @ p) - t) buf)"
      using decode_corrects_errors [OF ok l(1-3) p(2,4) l(4)] by blast
    then have "correct_reed_solomon_decode mem rs w n buf = Some (int (length m), rd', m @ drop (length m) buf)"
      unfolding n(1) l(5,6) by simp
    then show ?thesis using run(1) l(6) by simp
  qed
  have len: "length buf' = n" using out n by auto
  show ?thesis
  proof (cases "r = - 1")
    case True
    then have "\<not> correctable t m w" for m using cor [of m] by auto
    then have "block_event t n w (Lost (n - t))" by (simp add: block_event_def)
    with run len True show ?thesis by blast
  next
    case False
    then have r: "r = int (n - t)" using out by auto
    have "block_event t n w (Good (take (n - t) buf'))" using cor len by (auto simp: block_event_def)
    with run len r show ?thesis by blast
  qed
qed

text \<open>One block, then all of them.\<close>

lemma rss_turn:
  assumes ok: "rss_ok t n s" and w: "length w = n" "\<not> undecodable t w"
  shows "\<exists>e rs' buf'. block_event t n w e \<and>
    rss_write_turn swrite sbad mem s w = map_option (\<lambda>st. s\<lparr>rss_rs := rs', rss_buffer := buf', rss_stream := st\<rparr>)
      (stream_event swrite sbad e (rss_stream s)) \<and> rss_ok t n (s\<lparr>rss_rs := rs', rss_buffer := buf'\<rparr>)"
proof -
  note S = ok [unfolded rss_ok_def]
  obtain r rs' buf' e where d: "correct_reed_solomon_decode mem (rsw_rs (rss_rs s)) w n (rss_buffer s) = Some (r, rs', buf')"
    "rs_ok t rs'" "length buf' = n" "block_event t n w e"
    "r = - 1 \<and> e = Lost (n - t) \<or> r = int (n - t) \<and> e = Good (take (n - t) buf')"
    using correctable_not_undecodable_outcome [of t "rsw_rs (rss_rs s)" w n "rss_buffer s" mem] S w by auto
  have "rss_write_turn swrite sbad mem s w =
      map_option (\<lambda>st. s\<lparr>rss_rs := (rss_rs s)\<lparr>rsw_rs := rs'\<rparr>, rss_buffer := buf', rss_stream := st\<rparr>)
      (stream_event swrite sbad e (rss_stream s))"
    using d(5)
  proof (elim disjE conjE)
    assume "r = - 1" "e = Lost (n - t)"
    then show ?thesis using d S w(1)
      by (simp add: rss_write_turn_def ReedSolomon_decode_def stream_event_def map_option_case split: option.split)
  next
    assume r: "r = int (n - t)" "e = Good (take (n - t) buf')"
    have "\<not> int (n - t) \<le> 0" "copy_of buf' 0 (nat (int (n - t))) = Some (take (n - t) buf')"
      using S d(3) by (simp_all only: copy_of_def nat_int) simp_all
    then show ?thesis using d(1) S w(1) unfolding r
      by (simp add: rss_write_turn_def ReedSolomon_decode_def stream_event_def map_option_case
          del: of_nat_diff of_nat_le_0_iff split: option.split)
  qed
  moreover have "rss_ok t n (s\<lparr>rss_rs := (rss_rs s)\<lparr>rsw_rs := rs'\<rparr>, rss_buffer := buf'\<rparr>)"
    using S d by (simp add: rss_ok_def)
  ultimately show ?thesis using d(4) by blast
qed

lemma rss_loop:
  assumes "rss_ok t n s" "\<forall>w\<in>set ws. length w = n \<and> \<not> undecodable t w" "length rest < n"
  shows "\<exists>es. list_all2 (block_event t n) ws es \<and>
    map_option rss_stream (rss_write_loop swrite sbad mem s (concat ws @ rest)) =
      for_each es (stream_event swrite sbad) (rss_stream s)"
  using assms
proof (induction ws arbitrary: s)
  case Nil
  then show ?case by (subst rss_write_loop.simps) (simp add: rss_ok_def)
next
  case (Cons w ws)
  have n: "length (rss_buffer s) = n" "length w = n" using Cons.prems by (simp_all add: rss_ok_def)
  obtain e rs' buf' where e: "block_event t n w e"
    "rss_write_turn swrite sbad mem s w = map_option (\<lambda>st. s\<lparr>rss_rs := rs', rss_buffer := buf', rss_stream := st\<rparr>)
      (stream_event swrite sbad e (rss_stream s))" "rss_ok t n (s\<lparr>rss_rs := rs', rss_buffer := buf'\<rparr>)"
    using rss_turn [OF Cons.prems(1), of w swrite sbad mem] Cons.prems(2) by auto
  have step: "rss_write_loop swrite sbad mem s (concat (w # ws) @ rest) =
      Option.bind (rss_write_turn swrite sbad mem s w) (\<lambda>s'. rss_write_loop swrite sbad mem s' (concat ws @ rest))"
    by (subst rss_write_loop.simps) (simp add: n)
  show ?case
  proof (cases "stream_event swrite sbad e (rss_stream s)")
    case None
    obtain es where "list_all2 (block_event t n) ws es" using Cons.IH [OF Cons.prems(1)] Cons.prems(2,3) by auto
    then show ?thesis using e(1) None unfolding step e(2) by (intro exI [of _ "e # es"]) simp
  next
    case (Some st)
    let ?s = "s\<lparr>rss_rs := rs', rss_buffer := buf', rss_stream := st\<rparr>"
    have "rss_ok t n ?s" using e(3) by (simp add: rss_ok_def)
    then obtain es where "list_all2 (block_event t n) ws es"
      "map_option rss_stream (rss_write_loop swrite sbad mem ?s (concat ws @ rest)) =
        for_each es (stream_event swrite sbad) st"
      using Cons.IH [of ?s] Cons.prems(2,3) by auto
    then show ?thesis using e(1) Some unfolding step e(2) by (intro exI [of _ "e # es"]) simp
  qed
qed

lemma correctable_decodable:
  assumes ok: "rs_ok t rs" and c: "correctable t m w" and w: "length w \<le> 255"
  shows "\<not> undecodable t w"
proof -
  obtain p where p: "length p = t" "codeword t (m @ p)" "length w = length m + t"
    "2 * card {j. j < length w \<and> w ! j \<noteq> (m @ p) ! j} \<le> t" using c by (auto simp: correctable_def)
  have l: "length w = length (m @ p)" "length (m @ p) \<le> 255" "t \<le> length (m @ p)"
    "length (m @ p) - t \<le> length w" using p w by simp_all
  have "correct_reed_solomon_decode mem rs w (length w) w \<noteq> None" for mem
    using decode_corrects_errors [OF ok l(1-3) p(2,4) l(4)] by force
  moreover have "correct_reed_solomon_decode (\<lambda>_ _. 0) rs w (length w) w = None" if "undecodable t w"
    by (rule decode_outcomes(1) [OF ok refl w]) (use that p(3) in \<open>simp_all add: undecodable_def\<close>)
  ultimately show ?thesis by blast
qed

lemma stream_event_aligned:
  "stream_event (aligned_write swrite sgood on_flush) mark_bad_chunk = aligned_event swrite sgood on_flush"
  by (auto simp: stream_event_def aligned_event_def fun_eq_iff)

lemma good_chunks_all:
  "0 < c \<Longrightarrow> concat (good_chunks c (map Some xs)) = take (length xs div c * c) xs \<and>
    length (good_chunks c (map Some xs)) = length xs div c"
proof (induction "length xs" arbitrary: xs rule: less_induct)
  case less
  show ?case
  proof (cases "length xs < c")
    case False
    let ?a = "take c xs" and ?b = "drop c xs"
    have "good_chunks c (map Some ?a @ map Some ?b) = [map the (map Some ?a)] @ good_chunks c (map Some ?b)"
      using good_chunks_step [of c "map Some ?a" "map Some ?b"] less.prems False by auto
    moreover have "map Some ?a @ map Some ?b = map Some xs" by (simp flip: map_append)
    moreover have "map the (map Some ?a) = ?a" by (simp add: o_def)
    ultimately have g: "good_chunks c (map Some xs) = ?a # good_chunks c (map Some ?b)" by simp
    have d: "length xs div c = Suc (length ?b div c)" using False less.prems by (simp add: le_div_geq)
    have "take (length xs div c * c) xs = ?a @ take (length ?b div c * c) ?b"
      unfolding d by (simp add: take_add)
    moreover have "length ?b < length xs" using False less.prems by simp
    ultimately show ?thesis using less.hyps [of ?b] less.prems unfolding g d by simp
  qed (simp add: good_chunks_short)
qed

lemma all_correctable_events:
  "list_all2 (block_event t n) ws es \<Longrightarrow> list_all2 (correctable t) ms ws \<Longrightarrow> es = map Good ms"
proof (induction arbitrary: ms rule: list_all2_induct)
  case (Cons w ws e es)
  then show ?case by (cases ms) (auto simp: block_event_def)
qed simp

lemma bytes_of_good [simp]: "bytes_of (map Good ms) = map Some (concat ms)"
  by (induction ms) simp_all

lemma no_exact_fit_good [simp]: "no_exact_fit c k (map Good ms)"
  by (induction ms arbitrary: k) simp_all

text \<open>C6: the receiving pipeline. A frame of encoded blocks, each with at most half as many wrong
  bytes as parity bytes, goes through \<open>reed_solomon_stream\<close> and \<open>aligned_stream\<close> into the
  escrow buffers: the sent bytes arrive in order, cut into whole chunks, and nothing else is
  written.\<close>

theorem pipeline_delivers_message:
  assumes "rss_create mem (aligned_good eb_good) (aligned_create (escrow_create bufspace k c) c 0 seen) t n = Some s"
    and "1 \<le> t" "t < n" "n \<le> 255" "0 < c" "length bufspace = k * c"
    and "list_all2 (correctable t) ms ws" "\<forall>w\<in>set ws. length w = n"
    and "length (concat ms) < (k + 1) * c" "length (concat ms) + c < 2 ^ 32"
  shows "\<exists>s'. rss_write (aligned_write escrow_write eb_good on_flush) mark_bad_chunk mem s (concat ws) = Some s' \<and>
    (let w = as_stream (rss_stream s'); m = length (concat ms) div c * c in
      eb_good w \<and> eb_bufIdx w = length (concat ms) div c \<and> take m (eb_bufspace w) = take m (concat ms))"
proof -
  let ?st = "aligned_create (escrow_create bufspace k c) c 0 seen"
  have t: "t < 255" using assms by simp
  obtain rs where rs: "correct_reed_solomon_create mem rs_primitive_polynomial 1 1 t = Some rs" "rs_ok t rs"
    using rs_create_ok [OF assms(2) t, of mem] by blast
  have s: "rss_stream s = ?st" "rsw_parityBytes (rss_rs s) = t" "rss_ok t n s"
    using assms(1-4) rs by (auto simp: rss_create_def ReedSolomon_create_def rss_ok_def)
  have len: "length w = n \<and> \<not> undecodable t w" if "w \<in> set ws" for w
  proof -
    obtain i where i: "i < length ws" "ws ! i = w" using \<open>w \<in> set ws\<close> by (auto simp: in_set_conv_nth)
    have "correctable t (ms ! i) w" using list_all2_nthD2 [OF assms(7) i(1)] i(2) by simp
    then show ?thesis using correctable_decodable [OF rs(2), of "ms ! i" w] assms(4,8) that by simp
  qed
  have "0 < n" using assms(3) by simp
  then obtain es where es: "list_all2 (block_event t n) ws es"
    "map_option rss_stream (rss_write_loop (aligned_write escrow_write eb_good on_flush) mark_bad_chunk mem s (concat ws)) =
      for_each es (aligned_event escrow_write eb_good on_flush) ?st"
    using rss_loop [OF s(3), of ws "[]" "aligned_write escrow_write eb_good on_flush" mark_bad_chunk mem] len s(1)
    by (auto simp: stream_event_aligned)
  have e: "es = map Good ms" by (rule all_correctable_events [OF es(1) assms(7)])
  have room: "escrow_room c k (escrow_create bufspace k c)" using assms(6) by (simp add: escrow_room_def escrow_create_def)
  from escrow_chunks.feed_fresh [OF assms(5) _ room, of es on_flush seen] assms(9,10) e obtain st' chunks where st':
    "for_each es (aligned_event escrow_write eb_good on_flush) ?st = Some st'"
    "write_all escrow_write chunks (escrow_create bufspace k c) = Some (as_stream st')"
    "chunks = good_chunks c (map Some (concat ms))" "eb_good (as_stream st')" by auto
  have cl: "length chunks = length (concat ms) div c" "concat chunks = take (length (concat ms) div c * c) (concat ms)"
    "\<forall>d\<in>set chunks. length d = c"
    using good_chunks_all [OF assms(5), of "concat ms"] good_chunks_length unfolding st'(3) by auto
  have "length (concat ms) div c \<le> k" using less_mult_imp_div_less [OF assms(9)] by simp
  then have "escrow_room c (length chunks) (escrow_create bufspace k c)"
    using escrow_chunks.room_le [OF room] cl(1) by simp
  from escrow_write_all [OF this cl(3)] obtain w' where "write_all escrow_write chunks (escrow_create bufspace k c) = Some w'"
    "eb_bufIdx w' = length chunks" "take (eb_bufIdx w' * c) (eb_bufspace w') = concat chunks"
    by (auto simp: escrow_create_def)
  then have w': "eb_bufIdx (as_stream st') = length (concat ms) div c"
    "take (length (concat ms) div c * c) (eb_bufspace (as_stream st')) = take (length (concat ms) div c * c) (concat ms)"
    using st'(2) cl by auto
  from es(2) st'(1) obtain s' where
    "rss_write_loop (aligned_write escrow_write eb_good on_flush) mark_bad_chunk mem s (concat ws) = Some s'"
    "rss_stream s' = st'" by auto
  then show ?thesis using w' st'(4) s(2) assms(2) by (auto simp: rss_write_def Let_def)
qed

theorem pipeline_delivers_message_witness:
  "\<exists>s s' p. rss_create (\<lambda>_ _. 0) (aligned_good eb_good)
      (aligned_create (escrow_create (replicate 4 0) 2 2) 2 0 (0 :: nat)) 2 5 = Some s \<and> length p = 2 \<and>
    rss_write (aligned_write escrow_write eb_good (\<lambda>_ k. k + 1)) mark_bad_chunk (\<lambda>_ _. 0) s (9 # [2, 3] @ p) = Some s' \<and>
    take 2 (eb_bufspace (as_stream (rss_stream s'))) = [1, 2]"
proof -
  obtain rs where rs: "correct_reed_solomon_create (\<lambda>_ _. 0) rs_primitive_polynomial 1 1 2 = Some rs" "rs_ok 2 rs"
    using rs_create_ok [of 2 "\<lambda>_ _. 0"] by auto
  obtain p where p: "length p = 2" "codeword 2 ([1, 2, 3] @ p)"
    using encode_spec [OF rs(2), of 3 "[1, 2, 3]" "replicate 5 0"] by auto
  let ?st = "aligned_create (escrow_create (replicate (2 * 2) 0) 2 2) 2 0 (0 :: nat)"
  obtain s where s: "rss_create (\<lambda>_ _. 0) (aligned_good eb_good) ?st 2 5 = Some s"
    using rs by (auto simp: rss_create_def ReedSolomon_create_def)
  let ?w = "9 # [2, 3] @ p"
  have "{j. j < length ?w \<and> ?w ! j \<noteq> ([1, 2, 3] @ p) ! j} \<subseteq> {0}"
    by (auto simp: nth_Cons' split: if_splits)
  then have "card {j. j < length ?w \<and> ?w ! j \<noteq> ([1, 2, 3] @ p) ! j} \<le> card {0 :: nat}"
    by (intro card_mono) auto
  then have "correctable 2 [1, 2, 3] ?w" using p unfolding correctable_def by (intro exI [of _ p]) simp
  then have "list_all2 (correctable 2) [[1, 2, 3]] [?w]" by simp
  from pipeline_delivers_message [OF s _ _ _ _ _ this, of "\<lambda>_ k. k + 1"] p(1) obtain s' where
    "rss_write (aligned_write escrow_write eb_good (\<lambda>_ k. k + 1)) mark_bad_chunk (\<lambda>_ _. 0) s ?w = Some s'"
    "take 2 (eb_bufspace (as_stream (rss_stream s'))) = [1, 2]"
    by (auto simp: Let_def)
  then show ?thesis using s p(1) by auto
qed

end
