(* ===== verification/FountainMeta.thy ===== *)
theory FountainMeta
  imports Prelude
begin

text \<open>
  \<open>FountainMetadata.h\<close>: the six-byte header of every fountain chunk. Seven bits of the encode id,
  25 bits of the file size (the 25th in the top bit of the first byte) and 16 bits of the block
  id. The object is its six bytes. The file format is little and big endian mixed as the code has
  it: the short id is the first four bytes read as a native (little endian) word.
\<close>

unbundle bit_operations_syntax

type_synonym FountainMetadata = "u8 list"

definition update_block_id_internal :: "u16 \<Rightarrow> u8 list \<Rightarrow> nat \<Rightarrow> u8 list option" where
  "update_block_id_internal block_id arr p = do {
     arr \<leftarrow> wr arr p (ucast (drop_bit 8 block_id AND 0xFF));
     wr arr (p + 1) (ucast (block_id AND 0xFF))
   }"

definition to_uint8_arr :: "u8 \<Rightarrow> u32 \<Rightarrow> u16 \<Rightarrow> u8 list \<Rightarrow> u8 list option" where
  "to_uint8_arr encode_id file_size block_id arr = do {
     arr \<leftarrow> wr arr 0 (ucast (((ucast encode_id :: u32) AND 0x7F) OR (drop_bit 17 file_size AND 0x80)));
     arr \<leftarrow> wr arr 1 (ucast (drop_bit 16 file_size AND 0xFF));
     arr \<leftarrow> wr arr 2 (ucast (drop_bit 8 file_size AND 0xFF));
     arr \<leftarrow> wr arr 3 (ucast (file_size AND 0xFF));
     update_block_id_internal block_id arr 4
   }"

text \<open>The three constructors; the one from a buffer leaves what it does not copy uninitialised.\<close>

definition md_of_id :: "u32 \<Rightarrow> FountainMetadata" where
  "md_of_id i = [ucast i, ucast (drop_bit 8 i), ucast (drop_bit 16 i), ucast (drop_bit 24 i), 0, 0]"

definition md_of_buffer :: "(nat \<Rightarrow> u8) \<Rightarrow> u8 list \<Rightarrow> nat \<Rightarrow> FountainMetadata option" where
  "md_of_buffer junk buff len = do {
     d \<leftarrow> copy_of buff 0 (if len > 6 then 6 else len);
     blit (malloc junk 6) 0 d
   }"

definition md_create :: "(nat \<Rightarrow> u8) \<Rightarrow> u8 \<Rightarrow> u32 \<Rightarrow> u16 \<Rightarrow> FountainMetadata option" where
  "md_create junk encode_id file_size block_id = to_uint8_arr encode_id file_size block_id (malloc junk 6)"

definition md_id :: "FountainMetadata \<Rightarrow> u32" where
  "md_id d = ucast (d ! 0) OR push_bit 8 (ucast (d ! 1)) OR push_bit 16 (ucast (d ! 2)) OR push_bit 24 (ucast (d ! 3))"

definition md_encode_id :: "FountainMetadata \<Rightarrow> u8" where
  "md_encode_id d = d ! 0 AND 0x7F"

definition md_block_id :: "FountainMetadata \<Rightarrow> u16" where
  "md_block_id d = ucast (d ! 5) OR push_bit 8 (ucast (d ! 4))"

definition increment_block_id :: "FountainMetadata \<Rightarrow> nat \<Rightarrow> FountainMetadata option" where
  "increment_block_id d radioactive_block_id =
     (let next = unat (md_block_id d) + 1;
          next = (if next = radioactive_block_id then next + 1 else next)
      in update_block_id_internal (of_nat next) d 4)"

definition md_file_size :: "FountainMetadata \<Rightarrow> u32" where
  "md_file_size d = ucast (d ! 3) OR push_bit 8 (ucast (d ! 2)) OR push_bit 16 (ucast (d ! 1)) OR
     push_bit 17 (ucast (d ! 0) AND 0x80)"

section \<open>What the header carries\<close>

definition wf_md :: "FountainMetadata \<Rightarrow> bool" where
  "wf_md d \<longleftrightarrow> length d = 6"

lemma list6: "length xs = 6 \<Longrightarrow> xs = [xs ! 0, xs ! 1, xs ! 2, xs ! 3, xs ! 4, xs ! 5]"
  by (auto simp: list_eq_iff_nth_eq less_Suc_eq eval_nat_numeral)

lemma update_block_id_run:
  "length arr = 6 \<Longrightarrow> update_block_id_internal b arr 4 =
    Some [arr ! 0, arr ! 1, arr ! 2, arr ! 3, ucast (drop_bit 8 b AND 0xFF), ucast (b AND 0xFF)]"
  by (subst list6) (simp_all add: update_block_id_internal_def)

lemma to_uint8_arr_run:
  "length arr = 6 \<Longrightarrow> to_uint8_arr e s b arr = Some
    [ucast (((ucast e :: u32) AND 0x7F) OR (drop_bit 17 s AND 0x80)), ucast (drop_bit 16 s AND 0xFF),
     ucast (drop_bit 8 s AND 0xFF), ucast (s AND 0xFF), ucast (drop_bit 8 b AND 0xFF), ucast (b AND 0xFF)]"
  by (subst list6) (simp_all add: to_uint8_arr_def update_block_id_internal_def)

text \<open>The constants as masks, so that the words can be compared bit by bit.\<close>

lemma header_masks: "(0x7F :: 'a::len word) = mask 7" "(0xFF :: 'a word) = mask 8"
  by (simp_all add: mask_eq_exp_minus_1)

lemma bit_0x80: "bit (0x80 :: u32) n \<longleftrightarrow> n = 7"
proof -
  have e: "(0x80 :: u32) = push_bit 7 1" by (simp add: push_bit_eq_mult)
  show ?thesis unfolding e by (simp only: bit_push_bit_iff bit_1_iff) auto
qed

lemmas header_bits = bit_and_iff bit_or_iff bit_mask_iff bit_push_bit_iff bit_drop_bit_eq
  bit_ucast_iff bit_take_bit_iff

lemma encode_id_bits_gen:
  "(\<And>n. bit c n \<longleftrightarrow> n = 7) \<Longrightarrow>
    (ucast (((ucast (e :: u8) :: u32) AND mask 7) OR (drop_bit 17 (s :: u32) AND c)) :: u8) AND mask 7 = e AND mask 7"
  by (rule bit_word_eqI) (auto simp: header_bits)

lemmas encode_id_bits = encode_id_bits_gen [OF bit_0x80, folded header_masks]

lemma block_id_bits:
  "(ucast (ucast (b AND 0xFF) :: u8) :: u16) OR push_bit 8 (ucast (ucast (drop_bit 8 b AND 0xFF) :: u8)) = (b :: u16)"
  unfolding header_masks by (rule bit_word_eqI) (auto simp: header_bits)

lemma file_size_bits_gen:
  assumes c: "\<And>n. bit (c :: u32) n \<longleftrightarrow> n = 7"
  shows "(ucast (ucast (s AND mask 8) :: u8) :: u32) OR push_bit 8 (ucast (ucast (drop_bit 8 s AND mask 8) :: u8)) OR
    push_bit 16 (ucast (ucast (drop_bit 16 s AND mask 8) :: u8)) OR
    push_bit 17 (ucast (ucast (((ucast (e :: u8) :: u32) AND mask 7) OR (drop_bit 17 s AND c)) :: u8) AND c) =
    take_bit 25 (s :: u32)" (is "?l = ?r")
proof (rule bit_word_eqI)
  fix n assume "n < LENGTH(32)"
  then consider "n < 8" | "8 \<le> n" "n < 16" | "16 \<le> n" "n < 24" | "n = 24" | "24 < n" "n < 32" by fastforce
  then show "bit ?l n = bit ?r n"
    by cases (auto simp: header_bits c)
qed

lemmas file_size_bits = file_size_bits_gen [OF bit_0x80, folded header_masks]

lemma md_create_run:
  "md_create junk e s b = Some
    [ucast (((ucast e :: u32) AND 0x7F) OR (drop_bit 17 s AND 0x80)), ucast (drop_bit 16 s AND 0xFF),
     ucast (drop_bit 8 s AND 0xFF), ucast (s AND 0xFF), ucast (drop_bit 8 b AND 0xFF), ucast (b AND 0xFF)]"
  by (simp add: md_create_def to_uint8_arr_run)

lemma md_fields [simp]:
  "md_encode_id [ucast (((ucast e :: u32) AND 0x7F) OR (drop_bit 17 s AND 0x80)), d1, d2, d3, d4, d5] = e AND 0x7F"
  "md_block_id [d0, d1, d2, d3, ucast (drop_bit 8 b AND 0xFF), ucast (b AND 0xFF)] = b"
  "md_file_size [ucast (((ucast e :: u32) AND 0x7F) OR (drop_bit 17 s AND 0x80)), ucast (drop_bit 16 s AND 0xFF),
     ucast (drop_bit 8 s AND 0xFF), ucast (s AND 0xFF), d4, d5] = take_bit 25 s"
  using encode_id_bits [of e s] block_id_bits [of b] file_size_bits [of s e]
  by (simp_all only: md_encode_id_def md_block_id_def md_file_size_def nth_Cons_numeral nth_Cons_0 nth_Cons'
      numeral_eq_one_iff) simp_all

lemma md_id_first: "length d = 6 \<Longrightarrow> ucast (md_id d) = d ! 0"
  unfolding md_id_def by (rule bit_word_eqI) (auto simp: header_bits)

lemma less_4_cases: "(k :: nat) < 4 \<Longrightarrow> (k = 0 \<Longrightarrow> P) \<Longrightarrow> (k = 1 \<Longrightarrow> P) \<Longrightarrow> (k = 2 \<Longrightarrow> P) \<Longrightarrow> (k = 3 \<Longrightarrow> P) \<Longrightarrow> P"
  by linarith

lemma md_of_id_id:
  assumes "length d = 6"
  shows "md_of_id (md_id d) = [d ! 0, d ! 1, d ! 2, d ! 3, 0, 0]"
proof -
  have "(ucast (drop_bit (8 * k) (md_id d)) :: u8) = d ! k" if "k < 4" for k
  proof (rule bit_word_eqI)
    fix n assume "n < LENGTH(8)"
    then show "bit (ucast (drop_bit (8 * k) (md_id d)) :: u8) n = bit (d ! k) n"
      using that bit_imp_le_length [of "d ! 0" "8 * k + n"] bit_imp_le_length [of "d ! 1" "8 * k + n - 8"]
        bit_imp_le_length [of "d ! 2" "8 * k + n - 16"]
      unfolding md_id_def by (elim less_4_cases) (simp_all add: header_bits, auto)
  qed
  from this [of 0] this [of 1] this [of 2] this [of 3]
  show ?thesis by (simp add: md_of_id_def)
qed

lemma md_id_of_id: "md_id (md_of_id i) = i"
proof (rule bit_word_eqI)
  fix n assume "n < LENGTH(32)"
  then consider "n < 8" | "8 \<le> n" "n < 16" | "16 \<le> n" "n < 24" | "24 \<le> n" "n < 32" by fastforce
  then show "bit (md_id (md_of_id i)) n = bit i n"
    by cases (auto simp: md_id_def md_of_id_def header_bits)
qed

lemma md_id_eq_iff:
  "length d = 6 \<Longrightarrow> length d' = 6 \<Longrightarrow> md_id d = md_id d' \<longleftrightarrow> take 4 d = take 4 d'"
proof -
  assume l: "length d = 6" "length d' = 6"
  have t: "take 4 x = take 4 [x ! 0, x ! 1, x ! 2, x ! 3, 0, 0]" if "length x = 6" for x :: "u8 list"
    by (subst (1) list6 [OF that]) simp
  have "take 4 d = take 4 d'" if "md_id d = md_id d'"
    using t [OF l(1)] t [OF l(2)] md_of_id_id [OF l(1)] md_of_id_id [OF l(2)] that by metis
  moreover have "md_id d = md_id d'" if "take 4 d = take 4 d'"
  proof -
    have "d ! i = d' ! i" if "i < 4" for i using \<open>take 4 d = take 4 d'\<close> that by (metis nth_take)
    then show ?thesis by (simp add: md_id_def)
  qed
  ultimately show ?thesis by blast
qed

section \<open>The properties of the header\<close>

text \<open>C15: the header round trips for every id, size and block number, as far as it has room: the
  encode id modulo 2^7, the file size modulo 2^25, the block number in full. Reading it back from
  a chunk gives the same header, and the short id determines encode id and size.\<close>

theorem metadata_roundtrip:
  "\<exists>d. md_create junk e s b = Some d \<and> length d = 6 \<and> md_encode_id d = e AND 0x7F \<and>
    unat (md_file_size d) = unat s mod 2 ^ 25 \<and> md_block_id d = b \<and>
    md_of_buffer junk' (d @ payload) (6 + length payload) = Some d \<and>
    md_file_size (md_of_id (md_id d)) = md_file_size d \<and> md_encode_id (md_of_id (md_id d)) = md_encode_id d \<and>
    md_id (md_of_id (md_id d)) = md_id d"
proof -
  obtain d where d: "md_create junk e s b = Some d" "length d = 6" "md_encode_id d = e AND 0x7F"
    "md_file_size d = take_bit 25 s" "md_block_id d = b"
    by (simp add: md_create_run)
  have "md_of_buffer junk' (d @ payload) (6 + length payload) = Some d"
    using d(2) by (auto simp: md_of_buffer_def copy_of_def blit_def)
  moreover have "md_file_size (md_of_id (md_id d)) = md_file_size d" "md_encode_id (md_of_id (md_id d)) = md_encode_id d"
    unfolding md_of_id_id [OF d(2)] by (simp_all add: md_file_size_def md_encode_id_def)
  moreover have "unat (take_bit 25 s) = unat s mod 2 ^ 25" 
    unfolding unsigned_take_bit_eq by (rule take_bit_eq_mod)
  ultimately show ?thesis using d md_id_of_id by simp
qed

text \<open>Moving to the next block keeps id and size, adds one to the block number modulo 2^16, and
  skips the radioactive block unless that is block 0, reached by the wrap.\<close>

theorem increment_skips_radioactive:
  assumes "length d = 6"
  shows "\<exists>d'. increment_block_id d r = Some d' \<and> length d' = 6 \<and> md_id d' = md_id d \<and>
    md_file_size d' = md_file_size d \<and> md_encode_id d' = md_encode_id d \<and>
    unat (md_block_id d') = (unat (md_block_id d) + (if unat (md_block_id d) + 1 = r then 2 else 1)) mod 2 ^ 16 \<and>
    (0 < r \<longrightarrow> unat (md_block_id d') \<noteq> r)"
proof -
  let ?b = "unat (md_block_id d)" let ?n = "if ?b + 1 = r then ?b + 2 else ?b + 1"
  let ?w = "of_nat ?n :: u16"
  let ?d = "[d ! 0, d ! 1, d ! 2, d ! 3, ucast (drop_bit 8 ?w AND 0xFF), ucast (?w AND 0xFF)]"
  have "increment_block_id d r = Some ?d"
    unfolding increment_block_id_def Let_def by (simp add: update_block_id_run [OF assms])
  moreover have "md_id ?d = md_id d" "md_file_size ?d = md_file_size d" "md_encode_id ?d = md_encode_id d"
    by (simp_all add: md_id_def md_file_size_def md_encode_id_def)
  moreover have b: "md_block_id ?d = ?w" by (rule md_fields(2))
  moreover have u: "unat ?w = ?n mod 2 ^ 16" by (simp only: unat_of_nat) simp
  moreover have "?n mod 2 ^ 16 \<noteq> r" if "0 < r"
  proof -
    have "?b < 2 ^ 16" using unsigned_less [of "md_block_id d"] by simp
    then show ?thesis using that by (auto simp: mod_if)
  qed
  ultimately show ?thesis by (intro exI [of _ ?d]) auto
qed

theorem increment_skips_radioactive_witness:
  "\<exists>d'. increment_block_id [1, 0, 0, 9, 0, 4] 5 = Some d' \<and> unat (md_block_id d') = 6"
proof -
  have "unat (md_block_id [1, 0, 0, 9, 0, 4]) = 4" by (simp add: md_block_id_def)
  then show ?thesis using increment_skips_radioactive [of "[1, 0, 0, 9, 0, 4]" 5] by auto
qed

end
