(* ===== verification/FountainCodec.thy ===== *)
theory FountainCodec
  imports FountainMeta
begin

text \<open>
  The fountain code: \<open>FountainInit.h\<close>, \<open>FountainEncoder.h\<close>, \<open>FountainDecoder.h\<close>,
  \<open>fountain_encoder_stream.h\<close> and \<open>fountain_decoder_stream.h\<close>. The code itself is wirehair, which
  is a parameter: a record of its C functions, over an encoder type \<open>'e\<close> and a decoder type \<open>'d\<close>.
\<close>

datatype WirehairResult = Wirehair_Success | Wirehair_NeedMore | Wirehair_InvalidInput
  | Wirehair_BadDenseSeed | Wirehair_BadPeelSeed | Wirehair_BadInput_SmallN | Wirehair_BadInput_LargeN
  | Wirehair_ExtraInsufficient | Wirehair_Error | Wirehair_OOM | Wirehair_UnsupportedPlatform

record ('e, 'd) wirehair =
  wirehair_init :: WirehairResult
  wirehair_encoder_create :: "u8 list \<Rightarrow> nat \<Rightarrow> 'e option"
  wirehair_encode :: "'e \<Rightarrow> nat \<Rightarrow> nat \<Rightarrow> WirehairResult \<times> u8 list"
  wirehair_decoder_create :: "nat \<Rightarrow> nat \<Rightarrow> 'd option"
  wirehair_decode :: "'d \<Rightarrow> nat \<Rightarrow> u8 list \<Rightarrow> WirehairResult \<times> 'd"
  wirehair_recover :: "'d \<Rightarrow> nat \<Rightarrow> WirehairResult \<times> u8 list"

definition FountainInit_init :: "('e, 'd) wirehair \<Rightarrow> bool" where
  "FountainInit_init api \<longleftrightarrow> wirehair_init api = Wirehair_Success"

section \<open>\<open>FountainEncoder\<close>\<close>

record 'e FountainEncoder =
  fenc_codec :: "'e option"
  fenc_packetSize :: nat

definition FountainEncoder_create :: "('e, 'd) wirehair \<Rightarrow> u8 list \<Rightarrow> nat \<Rightarrow> 'e FountainEncoder" where
  "FountainEncoder_create api data packet_size =
     \<lparr>fenc_codec = wirehair_encoder_create api data packet_size, fenc_packetSize = packet_size\<rparr>"

definition FountainEncoder_good :: "'e FountainEncoder \<Rightarrow> bool" where
  "FountainEncoder_good s \<longleftrightarrow> fenc_codec s \<noteq> None"

text \<open>The assertion that fails and the call on a null codec are \<open>None\<close>; the buffer is what
  \<open>buff\<close> points to, as long as it is.\<close>

definition FountainEncoder_encode ::
  "('e, 'd) wirehair \<Rightarrow> 'e FountainEncoder \<Rightarrow> nat \<Rightarrow> u8 list \<Rightarrow> nat \<Rightarrow> (nat \<times> u8 list) option" where
  "FountainEncoder_encode api s block_num buff n =
     (if n \<noteq> fenc_packetSize s then None
      else case fenc_codec s of None \<Rightarrow> None
      | Some codec \<Rightarrow> do {
          let (res, written) = wirehair_encode api codec block_num n;
          buff \<leftarrow> blit buff 0 written;
          Some (if res \<noteq> Wirehair_Success then 0 else length written, buff)
        })"

section \<open>\<open>FountainDecoder\<close>\<close>

record 'd FountainDecoder =
  fdec_codec :: "'d option"
  fdec_res :: WirehairResult
  fdec_length :: nat
  fdec_seenBlocks :: "nat set"

definition FountainDecoder_create :: "('e, 'd) wirehair \<Rightarrow> WirehairResult \<Rightarrow> nat \<Rightarrow> nat \<Rightarrow> 'd FountainDecoder" where
  "FountainDecoder_create api junk len packet_size =
     \<lparr>fdec_codec = wirehair_decoder_create api len packet_size, fdec_res = junk, fdec_length = len, fdec_seenBlocks = {}\<rparr>"

definition FountainDecoder_progress :: "'d FountainDecoder \<Rightarrow> nat" where
  "FountainDecoder_progress s = card (fdec_seenBlocks s)"

definition FountainDecoder_good :: "'d FountainDecoder \<Rightarrow> bool" where
  "FountainDecoder_good s \<longleftrightarrow> fdec_codec s \<noteq> None"

definition FountainDecoder_decode ::
  "('e, 'd) wirehair \<Rightarrow> 'd FountainDecoder \<Rightarrow> nat \<Rightarrow> u8 list \<Rightarrow> (bool \<times> 'd FountainDecoder) option" where
  "FountainDecoder_decode api s block_num data =
     (if block_num \<in> fdec_seenBlocks s then Some (False, s)
      else let s = s\<lparr>fdec_seenBlocks := insert block_num (fdec_seenBlocks s)\<rparr>
           in case fdec_codec s of None \<Rightarrow> None
           | Some codec \<Rightarrow>
               let (res, codec) = wirehair_decode api codec block_num data
               in Some (res = Wirehair_Success, s\<lparr>fdec_codec := Some codec, fdec_res := res\<rparr>))"

definition FountainDecoder_recover_to ::
  "('e, 'd) wirehair \<Rightarrow> 'd FountainDecoder \<Rightarrow> u8 list \<Rightarrow> nat \<Rightarrow> (bool \<times> 'd FountainDecoder \<times> u8 list) option" where
  "FountainDecoder_recover_to api s data n =
     (case fdec_codec s of None \<Rightarrow> None
      | Some codec \<Rightarrow> do {
          let (res, bytes) = wirehair_recover api codec n;
          data \<leftarrow> blit data 0 bytes;
          Some (res = Wirehair_Success, s\<lparr>fdec_res := res\<rparr>, data)
        })"

definition FountainDecoder_recover ::
  "('e, 'd) wirehair \<Rightarrow> 'd FountainDecoder \<Rightarrow> (u8 list option \<times> 'd FountainDecoder) option" where
  "FountainDecoder_recover api s = do {
     (ok, s, bytes) \<leftarrow> FountainDecoder_recover_to api s (replicate (fdec_length s) 0) (fdec_length s);
     Some (if \<not> ok then None else Some bytes, s)
   }"

section \<open>\<open>fountain_encoder_stream\<close>\<close>

record 'e fountain_encoder_stream =
  fes_data :: "u8 list"
  fes_buffer :: "u8 list"
  fes_encodeId :: u8
  fes_encoder :: "'e FountainEncoder"
  fes_buffIndex :: nat
  fes_block :: nat
  fes_lastRead :: nat

definition fes_block_size :: "'e fountain_encoder_stream \<Rightarrow> nat" where
  "fes_block_size s = uint_sub (length (fes_buffer s)) 6"

definition fes_create :: "('e, 'd) wirehair \<Rightarrow> u8 list \<Rightarrow> nat \<Rightarrow> u8 \<Rightarrow> 'e fountain_encoder_stream" where
  "fes_create api data buffer_size encode_id =
     \<lparr>fes_data = data, fes_buffer = replicate buffer_size 0, fes_encodeId = encode_id AND 0x7F,
      fes_encoder = FountainEncoder_create api data (uint_sub buffer_size 6),
      fes_buffIndex = 2 ^ 32 - 1, fes_block = 0, fes_lastRead = 0\<rparr>"

definition fes_restart :: "'e fountain_encoder_stream \<Rightarrow> 'e fountain_encoder_stream" where
  "fes_restart s = s\<lparr>fes_block := 0, fes_buffIndex := 2 ^ 32 - 1, fes_lastRead := 0\<rparr>"

definition restart_and_resize_buffer ::
  "('e, 'd) wirehair \<Rightarrow> 'e fountain_encoder_stream \<Rightarrow> nat \<Rightarrow> bool \<times> 'e fountain_encoder_stream" where
  "restart_and_resize_buffer api s buffer_size =
     (if buffer_size > length (fes_data s) then (False, s)
      else let b = take buffer_size (fes_buffer s) @ replicate (buffer_size - length (fes_buffer s)) 0;
               s = s\<lparr>fes_buffer := b\<rparr>
           in (True, fes_restart (s\<lparr>fes_encoder := FountainEncoder_create api (fes_data s) (fes_block_size s)\<rparr>)))"

definition fes_good :: "'e fountain_encoder_stream \<Rightarrow> bool" where
  "fes_good s \<longleftrightarrow> FountainEncoder_good (fes_encoder s) \<and> length (fes_data s) > fenc_packetSize (fes_encoder s)"

definition fes_blocks_required :: "'e fountain_encoder_stream \<Rightarrow> nat option" where
  "fes_blocks_required s =
     (if fes_block_size s = 0 then None else Some (length (fes_data s) div fes_block_size s + 1))"

definition encode_new_block :: "('e, 'd) wirehair \<Rightarrow> 'e fountain_encoder_stream \<Rightarrow> 'e fountain_encoder_stream option" where
  "encode_new_block api s = do {
     (res, d) \<leftarrow> FountainEncoder_encode api (fes_encoder s) (fes_block s) (drop 6 (fes_buffer s)) (fes_block_size s);
     let s = s\<lparr>fes_block := uint_add (fes_block s) 1, fes_buffer := take 6 (fes_buffer s) @ d\<rparr>;
     s \<leftarrow> (if res \<noteq> fes_block_size s then do {
            (_, d) \<leftarrow> FountainEncoder_encode api (fes_encoder s) (fes_block s) (drop 6 (fes_buffer s)) (fes_block_size s);
            Some (s\<lparr>fes_block := uint_add (fes_block s) 1, fes_buffer := take 6 (fes_buffer s) @ d\<rparr>)
          } else Some s);
     let block = uint_sub (fes_block s) 1;
     b \<leftarrow> to_uint8_arr (fes_encodeId s) (of_nat (length (fes_data s))) (of_nat block) (fes_buffer s);
     Some (s\<lparr>fes_buffer := b, fes_buffIndex := 0\<rparr>)
   }"

text \<open>The loop of \<open>read\<close>: \<open>out\<close> is what it delivered so far, \<open>n\<close> the bytes still asked for.\<close>

function fes_read_loop ::
  "('e, 'd) wirehair \<Rightarrow> 'e fountain_encoder_stream \<Rightarrow> u8 list \<Rightarrow> nat \<Rightarrow> ('e fountain_encoder_stream \<times> u8 list) option" where
  "fes_read_loop api s out n =
     (if n > 0 \<and> fes_good s then
        Option.bind (if fes_buffIndex s \<ge> length (fes_buffer s) then encode_new_block api s else Some s)
          (\<lambda>s. let readLen = min n (uint_sub (length (fes_buffer s)) (fes_buffIndex s))
               in if readLen = 0 then Some (s, out)
                  else Option.bind (copy_of (fes_buffer s) (fes_buffIndex s) readLen)
                    (\<lambda>d. fes_read_loop api (s\<lparr>fes_buffIndex := fes_buffIndex s + readLen\<rparr>) (out @ d) (n - readLen)))
      else Some (s, out))"
  by pat_completeness auto
termination by (relation "measure (\<lambda>(api, s, out, n). n)") auto

declare fes_read_loop.simps [simp del]

definition fes_read ::
  "('e, 'd) wirehair \<Rightarrow> 'e fountain_encoder_stream \<Rightarrow> nat \<Rightarrow> ('e fountain_encoder_stream \<times> u8 list) option" where
  "fes_read api s n = do {
     (s, out) \<leftarrow> fes_read_loop api s [] n;
     Some (s\<lparr>fes_lastRead := length out\<rparr>, out)
   }"

section \<open>\<open>fountain_decoder_stream\<close>\<close>

record 'd fountain_decoder_stream =
  fds_buffer :: "u8 list"
  fds_decoder :: "'d FountainDecoder"
  fds_buffIndex :: nat

definition fds_block_size :: "'d fountain_decoder_stream \<Rightarrow> nat" where
  "fds_block_size s = uint_sub (length (fds_buffer s)) 6"

definition fds_create :: "('e, 'd) wirehair \<Rightarrow> WirehairResult \<Rightarrow> nat \<Rightarrow> nat \<Rightarrow> 'd fountain_decoder_stream" where
  "fds_create api junk data_size buffer_size =
     \<lparr>fds_buffer = replicate buffer_size 0,
      fds_decoder = FountainDecoder_create api junk data_size (uint_sub buffer_size 6), fds_buffIndex = 0\<rparr>"

definition fds_progress :: "'d fountain_decoder_stream \<Rightarrow> nat" where
  "fds_progress s = FountainDecoder_progress (fds_decoder s)"

definition fds_data_size :: "'d fountain_decoder_stream \<Rightarrow> nat" where
  "fds_data_size s = fdec_length (fds_decoder s)"

definition fds_blocks_required :: "'d fountain_decoder_stream \<Rightarrow> nat option" where
  "fds_blocks_required s =
     (if fds_block_size s = 0 then None else Some (fds_data_size s div fds_block_size s + 1))"

definition fds_good :: "'d fountain_decoder_stream \<Rightarrow> bool" where
  "fds_good s \<longleftrightarrow> FountainDecoder_good (fds_decoder s)"

definition fds_decode ::
  "('e, 'd) wirehair \<Rightarrow> 'd fountain_decoder_stream \<Rightarrow> (bool \<times> 'd fountain_decoder_stream) option" where
  "fds_decode api s = do {
     let s = s\<lparr>fds_buffIndex := 0\<rparr>;
     md \<leftarrow> copy_of (fds_buffer s) 0 6;
     (if fds_data_size s \<noteq> unat (md_file_size md) then Some (False, s)
      else do {
        data \<leftarrow> copy_of (fds_buffer s) 6 (fds_block_size s);
        (ok, dec) \<leftarrow> FountainDecoder_decode api (fds_decoder s) (unat (md_block_id md)) data;
        Some (ok, s\<lparr>fds_decoder := dec\<rparr>)
      })
   }"

text \<open>With an empty buffer the loop does not end: \<open>None\<close>.\<close>

partial_function (option) fds_write ::
  "('e, 'd) wirehair \<Rightarrow> 'd fountain_decoder_stream \<Rightarrow> u8 list \<Rightarrow> (bool \<times> 'd fountain_decoder_stream) option" where
  "fds_write api s data =
     (if length data > 0 \<and> fds_good s then
        let writeLen = min (length data) (uint_sub (length (fds_buffer s)) (fds_buffIndex s))
        in Option.bind (blit (fds_buffer s) (fds_buffIndex s) (take writeLen data))
          (\<lambda>b. let s = s\<lparr>fds_buffer := b, fds_buffIndex := fds_buffIndex s + writeLen\<rparr>;
                   data = drop writeLen data
               in if fds_buffIndex s = length (fds_buffer s) then
                    Option.bind (fds_decode api s)
                      (\<lambda>(res, s). if res then Some (res, s) else fds_write api s data)
                  else fds_write api s data)
      else Some (False, s))"

section \<open>The encoder stream\<close>

text \<open>What the code relies on of the encoder: an encode call never writes more than the room it is
  given (\<open>enc_fits\<close>); \<open>full_block\<close> is a successful call that fills it.\<close>

definition enc_fits :: "('e, 'd) wirehair \<Rightarrow> 'e \<Rightarrow> nat \<Rightarrow> bool" where
  "enc_fits api codec p \<longleftrightarrow> (\<forall>b. length (snd (wirehair_encode api codec b p)) \<le> p)"

definition full_block :: "('e, 'd) wirehair \<Rightarrow> 'e \<Rightarrow> nat \<Rightarrow> nat \<Rightarrow> bool" where
  "full_block api codec p b \<longleftrightarrow> fst (wirehair_encode api codec b p) = Wirehair_Success \<and>
     length (snd (wirehair_encode api codec b p)) = p"

definition next_block :: "('e, 'd) wirehair \<Rightarrow> 'e \<Rightarrow> nat \<Rightarrow> nat \<Rightarrow> nat" where
  "next_block api codec p b = (if full_block api codec p b then b else b + 1)"

text \<open>The chunk that carries block \<open>b\<close>.\<close>

definition header_bytes :: "u8 \<Rightarrow> nat \<Rightarrow> nat \<Rightarrow> u8 list" where
  "header_bytes e n b = the (to_uint8_arr e (of_nat n) (of_nat b) (replicate 6 0))"

definition chunk_of :: "('e, 'd) wirehair \<Rightarrow> 'e \<Rightarrow> u8 \<Rightarrow> nat \<Rightarrow> nat \<Rightarrow> nat \<Rightarrow> u8 list" where
  "chunk_of api codec e n p b = header_bytes e n b @ snd (wirehair_encode api codec b p)"

lemma length_header_bytes [simp]: "length (header_bytes e n b) = 6"
  by (simp add: header_bytes_def to_uint8_arr_run)

lemma header_fields:
  "md_encode_id (header_bytes e n b @ d) = e AND 0x7F"
  "md_file_size (header_bytes e n b @ d) = take_bit 25 (of_nat n)"
  "md_block_id (header_bytes e n b @ d) = of_nat b"
  using encode_id_bits [of e "of_nat n"] block_id_bits [of "of_nat b"] file_size_bits [of "of_nat n" e]
  by (simp_all add: header_bytes_def to_uint8_arr_run md_encode_id_def md_file_size_def md_block_id_def)

lemma to_uint8_arr_prefix:
  assumes "length h = 6"
  shows "to_uint8_arr e (of_nat n) (of_nat b) (h @ d) = Some (header_bytes e n b @ d)"
proof -
  obtain h0 h1 h2 h3 h4 h5 where "h = [h0, h1, h2, h3, h4, h5]" using list6 [OF assms] by blast
  then show ?thesis by (simp add: header_bytes_def to_uint8_arr_run) (simp add: to_uint8_arr_def update_block_id_internal_def)
qed

definition fes_wf :: "('e, 'd) wirehair \<Rightarrow> 'e \<Rightarrow> u8 \<Rightarrow> u8 list \<Rightarrow> nat \<Rightarrow> 'e fountain_encoder_stream \<Rightarrow> bool" where
  "fes_wf api codec e data B s \<longleftrightarrow> fes_data s = data \<and> length (fes_buffer s) = B \<and> fes_encodeId s = e \<and>
     fes_encoder s = \<lparr>fenc_codec = Some codec, fenc_packetSize = B - 6\<rparr> \<and> 6 < B \<and> B < 2 ^ 32 \<and>
     B - 6 < length data \<and> enc_fits api codec (B - 6) \<and>
     (\<forall>b. full_block api codec (B - 6) b \<or> full_block api codec (B - 6) (b + 1))"

lemma fes_wf_good: "fes_wf api codec e data B s \<Longrightarrow> fes_good s"
  by (simp add: fes_wf_def fes_good_def FountainEncoder_good_def)

lemma encode_new_block_run:
  assumes wf: "fes_wf api codec e data B s" and b: "fes_block s + 2 < 2 ^ 32"
  defines "n \<equiv> next_block api codec (B - 6) (fes_block s)"
  shows "encode_new_block api s = Some (s\<lparr>fes_block := n + 1, fes_buffer := chunk_of api codec e (length data) (B - 6) n,
    fes_buffIndex := 0\<rparr>)" "fes_block s \<le> n" "n \<le> fes_block s + 1" "full_block api codec (B - 6) n"
proof -
  note W = wf [unfolded fes_wf_def]
  have bs: "fes_block_size s' = B - 6" if "length (fes_buffer s') = B" for s' :: "'a fountain_encoder_stream"
    using W that by (simp add: fes_block_size_def uint_sub_le)
  have enc: "FountainEncoder_encode api (fes_encoder s) b buff (B - 6) =
      Some (if fst (wirehair_encode api codec b (B - 6)) \<noteq> Wirehair_Success then 0
        else length (snd (wirehair_encode api codec b (B - 6))),
        snd (wirehair_encode api codec b (B - 6)) @ drop (length (snd (wirehair_encode api codec b (B - 6)))) buff)"
    if "length buff = B - 6" for b buff
    using W that by (simp add: FountainEncoder_encode_def blit_def enc_fits_def split_beta)
  have full: "FountainEncoder_encode api (fes_encoder s) b buff (B - 6) = Some (B - 6, snd (wirehair_encode api codec b (B - 6)))"
    if "length buff = B - 6" "full_block api codec (B - 6) b" for b buff
    using enc [OF that(1), of b] that by (simp add: full_block_def)
  have add: "uint_add (fes_block s) (Suc 0) = Suc (fes_block s)" "uint_add (Suc (fes_block s)) (Suc 0) = Suc (Suc (fes_block s))"
    using b by (simp_all add: uint_add_small)
  have sub: "uint_sub (Suc k) (Suc 0) = k" if "k \<le> fes_block s + 1" for k using b that by (simp add: uint_sub_le)
  have h: "length (take 6 (fes_buffer s)) = 6" "length (drop 6 (fes_buffer s)) = B - 6" using W by simp_all
  show n: "fes_block s \<le> n" "n \<le> fes_block s + 1" "full_block api codec (B - 6) n"
    using W by (auto simp: n_def next_block_def)
  show "encode_new_block api s = Some (s\<lparr>fes_block := n + 1,
      fes_buffer := chunk_of api codec e (length data) (B - 6) n, fes_buffIndex := 0\<rparr>)"
  proof (cases "full_block api codec (B - 6) (fes_block s)")
    case True
    then have nn: "n = fes_block s" by (simp add: n_def next_block_def)
    have l: "length (take 6 (fes_buffer s) @ snd (wirehair_encode api codec (fes_block s) (B - 6))) = B"
      using True W by (simp add: full_block_def)
    show ?thesis using W full [OF h(2) True] to_uint8_arr_prefix [OF h(1)] sub [of "fes_block s"] l
      by (simp add: encode_new_block_def bs add nn chunk_of_def Let_def del: of_nat_add length_append)
  next
    case False
    then have nn: "n = fes_block s + 1" by (simp add: n_def next_block_def)
    let ?d = "snd (wirehair_encode api codec (fes_block s) (B - 6)) @
      drop (length (snd (wirehair_encode api codec (fes_block s) (B - 6)))) (drop 6 (fes_buffer s))"
    have le: "length (snd (wirehair_encode api codec (fes_block s) (B - 6))) \<le> B - 6"
      using W unfolding enc_fits_def by blast
    have ld: "length ?d = B - 6"
      unfolding length_append length_drop [of _ "drop 6 (fes_buffer s)"] h(2) using le by simp
    have f: "full_block api codec (B - 6) (fes_block s + 1)" using n(3) nn by simp
    have ne: "(if fst (wirehair_encode api codec (fes_block s) (B - 6)) \<noteq> Wirehair_Success then 0
        else length (snd (wirehair_encode api codec (fes_block s) (B - 6)))) \<noteq> B - 6"
      using False W by (auto simp: full_block_def)
    have l6: "length (take 6 (take 6 (fes_buffer s) @ ?d)) = 6" "drop 6 (take 6 (fes_buffer s) @ ?d) = ?d"
      "length (take 6 (fes_buffer s) @ ?d) = B" using h ld W by simp_all
    show ?thesis using W enc [OF h(2)] ne full [OF ld f] to_uint8_arr_prefix [OF h(1)] sub [of "fes_block s + 1"] l6(2,3)
      by (simp add: encode_new_block_def bs add nn chunk_of_def Let_def del: of_nat_add of_nat_Suc drop_append length_append)
  qed
qed

lemma encode_new_block_wf:
  assumes wf: "fes_wf api codec e data B s" and b: "fes_block s + 2 < 2 ^ 32"
  shows "\<exists>s'. encode_new_block api s = Some s' \<and> fes_wf api codec e data B s' \<and> fes_buffIndex s' = 0"
proof -
  have "length (chunk_of api codec e (length data) (B - 6) (next_block api codec (B - 6) (fes_block s))) = B"
    using encode_new_block_run(4) [OF wf b] wf by (simp add: chunk_of_def full_block_def fes_wf_def)
  then show ?thesis using encode_new_block_run(1) [OF wf b] wf by (simp add: fes_wf_def)
qed

text \<open>Reading in two portions is reading them at once.\<close>

lemma fes_read_loop_zero [simp]: "fes_read_loop api s out 0 = Some (s, out)"
  by (simp add: fes_read_loop.simps)

lemma fes_read_ready:
  assumes good: "fes_good s" and i: "fes_buffIndex s < length (fes_buffer s)" "length (fes_buffer s) < 2 ^ 32"
    and n: "0 < n" "n \<le> length (fes_buffer s) - fes_buffIndex s"
  shows "fes_read_loop api s out n = Some (s\<lparr>fes_buffIndex := fes_buffIndex s + n\<rparr>,
    out @ take n (drop (fes_buffIndex s) (fes_buffer s)))"
proof -
  have u: "uint_sub (length (fes_buffer s)) (fes_buffIndex s) = length (fes_buffer s) - fes_buffIndex s"
    using i by (intro uint_sub_le) simp_all
  have m: "min n (length (fes_buffer s) - fes_buffIndex s) = n" using n by simp
  show ?thesis using good i n
    by (subst fes_read_loop.simps) (simp add: u m Let_def copy_of_def)
qed

lemma fes_read_split:
  assumes "fes_wf api codec e data B s" "fes_buffIndex s < B" "0 < m" "0 < n" "m + n \<le> B - fes_buffIndex s"
  shows "fes_read_loop api s out (m + n) =
    Option.bind (fes_read_loop api s out m) (\<lambda>(s, out). fes_read_loop api s out n)"
proof -
  let ?i = "fes_buffIndex s"
  let ?s = "s\<lparr>fes_buffIndex := ?i + m\<rparr>"
  have W: "length (fes_buffer s) = B" "B < 2 ^ 32" "fes_good s" "fes_good ?s"
    using assms(1) fes_wf_good [OF assms(1)] by (simp_all add: fes_wf_def fes_good_def)
  have 1: "fes_read_loop api s out (m + n) = Some (s\<lparr>fes_buffIndex := ?i + (m + n)\<rparr>, out @ take (m + n) (drop ?i (fes_buffer s)))"
    using W assms by (intro fes_read_ready) simp_all
  have 2: "fes_read_loop api s out m = Some (?s, out @ take m (drop ?i (fes_buffer s)))"
    using W assms by (intro fes_read_ready) simp_all
  have "fes_read_loop api ?s out' n = Some (?s\<lparr>fes_buffIndex := fes_buffIndex ?s + n\<rparr>,
      out' @ take n (drop (fes_buffIndex ?s) (fes_buffer ?s)))" for out'
    by (rule fes_read_ready) (use W assms in simp_all)
  then show ?thesis using 1 2 by (simp add: take_add add.commute)
qed

lemma fes_read_chunk:
  assumes wf: "fes_wf api codec e data B s" and i: "B \<le> fes_buffIndex s" and b: "fes_block s + 2 < 2 ^ 32"
  defines "n \<equiv> next_block api codec (B - 6) (fes_block s)"
  shows "\<exists>s'. fes_wf api codec e data B s' \<and> fes_buffIndex s' = B \<and> fes_block s' = n + 1 \<and>
    (\<forall>m out. fes_read_loop api s out (B + m) = fes_read_loop api s' (out @ chunk_of api codec e (length data) (B - 6) n) m)"
proof -
  note W = wf [unfolded fes_wf_def]
  let ?c = "chunk_of api codec e (length data) (B - 6) n"
  have lc: "length ?c = B" using encode_new_block_run(4) [OF wf b] W by (simp add: n_def chunk_of_def full_block_def)
  let ?r = "s\<lparr>fes_block := n + 1, fes_buffer := ?c, fes_buffIndex := 0\<rparr>"
  let ?s = "s\<lparr>fes_block := n + 1, fes_buffer := ?c, fes_buffIndex := B\<rparr>"
  have run: "encode_new_block api s = Some ?r" unfolding n_def by (rule encode_new_block_run(1) [OF wf b])
  have u: "uint_sub B 0 = B" using W by (simp add: uint_sub_le)
  have "fes_read_loop api s out (B + m) = fes_read_loop api ?s (out @ ?c) m" for m out
    using fes_wf_good [OF wf] W i run
    by (subst fes_read_loop.simps) (simp add: lc u Let_def copy_of_def)
  moreover have "fes_wf api codec e data B ?s" using W lc by (simp add: fes_wf_def)
  ultimately show ?thesis by (intro exI [of _ ?s]) simp
qed

lemma fes_read_chunks:
  assumes "fes_wf api codec e data B s" "B \<le> fes_buffIndex s" "fes_block s + 2 * k < 2 ^ 32"
  shows "\<exists>s' bs. fes_read_loop api s out (k * B) =
      Some (s', out @ concat (map (chunk_of api codec e (length data) (B - 6)) bs)) \<and> fes_wf api codec e data B s' \<and>
    length bs = k \<and> sorted_wrt (<) bs \<and> (\<forall>b\<in>set bs. full_block api codec (B - 6) b \<and> fes_block s \<le> b \<and> b < fes_block s + 2 * k)"
  using assms
proof (induction k arbitrary: s out)
  case 0
  then show ?case by (intro exI [of _ s] exI [of _ "[]"]) simp
next
  case (Suc k)
  let ?n = "next_block api codec (B - 6) (fes_block s)"
  have b: "fes_block s + 2 < 2 ^ 32" using Suc.prems(3) by simp
  note n = encode_new_block_run(2-4) [OF Suc.prems(1) b]
  obtain s1 where s1: "fes_wf api codec e data B s1" "fes_buffIndex s1 = B" "fes_block s1 = ?n + 1"
    "\<And>m out. fes_read_loop api s out (B + m) = fes_read_loop api s1 (out @ chunk_of api codec e (length data) (B - 6) ?n) m"
    using fes_read_chunk [OF Suc.prems(1,2) b] by blast
  have "fes_block s1 + 2 * k < 2 ^ 32" using Suc.prems(3) n(2) s1(3) by simp
  from Suc.IH [OF s1(1) _ this] s1(2) obtain s' bs where
    s': "fes_read_loop api s1 (out @ chunk_of api codec e (length data) (B - 6) ?n) (k * B) =
      Some (s', (out @ chunk_of api codec e (length data) (B - 6) ?n) @ concat (map (chunk_of api codec e (length data) (B - 6)) bs))"
    "fes_wf api codec e data B s'" "length bs = k" "sorted_wrt (<) bs"
    "\<forall>b\<in>set bs. full_block api codec (B - 6) b \<and> fes_block s1 \<le> b \<and> b < fes_block s1 + 2 * k"
    by (metis order.refl)
  have "\<forall>b\<in>set bs. ?n < b \<and> b < fes_block s + 2 * Suc k" using s'(5) s1(3) n by fastforce
  then show ?case using s1(4) [of out "k * B"] s' n s1(3)
    by (intro exI [of _ s'] exI [of _ "?n # bs"]) fastforce
qed

section \<open>The decoder stream\<close>

definition fds_wf :: "nat \<Rightarrow> 'd fountain_decoder_stream \<Rightarrow> bool" where
  "fds_wf B s \<longleftrightarrow> length (fds_buffer s) = B \<and> 6 \<le> B \<and> B < 2 ^ 32 \<and> fds_buffIndex s < B"

lemma fds_create_wf: "6 \<le> B \<Longrightarrow> B < 2 ^ 32 \<Longrightarrow> fds_wf B (fds_create api junk n B)"
  by (simp add: fds_wf_def fds_create_def)

lemma FountainDecoder_decode_some:
  "fdec_codec d \<noteq> None \<Longrightarrow> \<exists>r d'. FountainDecoder_decode api d n x = Some (r, d') \<and> fdec_codec d' \<noteq> None \<and>
    fdec_length d' = fdec_length d \<and> fdec_seenBlocks d' = insert n (fdec_seenBlocks d)"
  by (auto simp: FountainDecoder_decode_def insert_absorb split_beta Let_def)

lemma fds_decode_run:
  assumes "length (fds_buffer s) = B" "6 \<le> B" "B < 2 ^ 32"
  shows "fds_decode api s = (let s = s\<lparr>fds_buffIndex := 0\<rparr> in
    if fds_data_size s \<noteq> unat (md_file_size (take 6 (fds_buffer s))) then Some (False, s)
    else map_option (\<lambda>(ok, dec). (ok, s\<lparr>fds_decoder := dec\<rparr>))
      (FountainDecoder_decode api (fds_decoder s) (unat (md_block_id (take 6 (fds_buffer s)))) (drop 6 (fds_buffer s))))"
proof -
  have "uint_sub B 6 = B - 6" using assms by (intro uint_sub_le) simp_all
  then show ?thesis using assms
    by (auto simp: fds_decode_def copy_of_def fds_block_size_def Let_def map_option_case split: option.splits)
qed

lemma fds_decode_inv:
  assumes "length (fds_buffer s) = B" "6 \<le> B" "B < 2 ^ 32" and good: "fds_good s" and Q: "Q (fds_decoder s)"
    and step: "\<And>d n x r d'. Q d \<Longrightarrow> FountainDecoder_decode api d n x = Some (r, d') \<Longrightarrow> Q d'"
  shows "\<exists>res s'. fds_decode api s = Some (res, s') \<and> fds_wf B s' \<and> Q (fds_decoder s') \<and>
    fds_data_size s' = fds_data_size s"
proof -
  note run = fds_decode_run [OF assms(1-3), of api]
  have sz: "fds_data_size (s\<lparr>fds_buffIndex := 0\<rparr>) = fds_data_size s" by (simp add: fds_data_size_def)
  show ?thesis
  proof (cases "fds_data_size s = unat (md_file_size (take 6 (fds_buffer s)))")
    case False
    then show ?thesis unfolding run Let_def using assms(1-3) Q sz by (auto simp: fds_wf_def)
  next
    case True
    have "fdec_codec (fds_decoder s) \<noteq> None" using good by (simp add: fds_good_def FountainDecoder_good_def)
    from FountainDecoder_decode_some [OF this] obtain ok dec where d:
      "FountainDecoder_decode api (fds_decoder s) (unat (md_block_id (take 6 (fds_buffer s)))) (drop 6 (fds_buffer s)) = Some (ok, dec)"
      "fdec_length dec = fdec_length (fds_decoder s)" by blast
    have "fds_decode api s = Some (ok, s\<lparr>fds_buffIndex := 0, fds_decoder := dec\<rparr>)"
      unfolding run Let_def using True d(1) sz by simp
    then show ?thesis using assms(1-3) step [OF Q d(1)] d(2) by (simp add: fds_wf_def fds_data_size_def)
  qed
qed

text \<open>Any predicate \<open>Q\<close> of the decoder that every block keeps is kept by a write, which always
  returns.\<close>

lemma fds_write_inv:
  assumes "fds_wf B s" "Q (fds_decoder s)"
    and step: "\<And>d n x r d'. Q d \<Longrightarrow> FountainDecoder_decode api d n x = Some (r, d') \<Longrightarrow> Q d'"
  shows "\<exists>r s'. fds_write api s data = Some (r, s') \<and> fds_wf B s' \<and> Q (fds_decoder s') \<and>
    fds_data_size s' = fds_data_size s"
  using assms(1,2)
proof (induction "length data" arbitrary: s data rule: less_induct)
  case less
  note W = less.prems(1) [unfolded fds_wf_def]
  show ?case
  proof (cases "0 < length data \<and> fds_good s")
    case True
    let ?n = "min (length data) (B - fds_buffIndex s)"
    let ?b = "take (fds_buffIndex s) (fds_buffer s) @ take ?n data @ drop (fds_buffIndex s + ?n) (fds_buffer s)"
    let ?s = "s\<lparr>fds_buffer := ?b, fds_buffIndex := fds_buffIndex s + ?n\<rparr>"
    have u: "uint_sub B (fds_buffIndex s) = B - fds_buffIndex s" using W by (intro uint_sub_le) simp_all
    have lt: "length (take ?n data) = ?n" by simp
    have bl: "blit (fds_buffer s) (fds_buffIndex s) (take ?n data) = Some ?b"
    proof -
      have "fds_buffIndex s + ?n \<le> B" using W by linarith
      then show ?thesis unfolding blit_def lt using W by simp
    qed
    have lb: "length ?b = B" using blit_length [OF bl] W by simp
    have n: "0 < ?n" "length (drop ?n data) < length data" using True W by auto
    have unf: "fds_write api s data = (if fds_buffIndex ?s = B then
        Option.bind (fds_decode api ?s) (\<lambda>(res, s). if res then Some (res, s) else fds_write api s (drop ?n data))
      else fds_write api ?s (drop ?n data))"
      using True W lb by (subst fds_write.simps) (simp add: u bl Let_def del: length_append)
    show ?thesis
    proof (cases "fds_buffIndex ?s = B")
      case False
      then have "fds_wf B ?s" using W lb by (simp add: fds_wf_def)
      from less.hyps [OF n(2) this] less.prems(2) False show ?thesis unfolding unf by (simp add: fds_data_size_def)
    next
      case full: True
      have g: "fds_good ?s" using True by (simp add: fds_good_def)
      have "\<exists>res s'. fds_decode api ?s = Some (res, s') \<and> fds_wf B s' \<and> Q (fds_decoder s') \<and>
          fds_data_size s' = fds_data_size ?s"
        by (rule fds_decode_inv [OF _ _ _ g _ step]) (use W lb less.prems(2) in simp_all)
      moreover have "fds_data_size ?s = fds_data_size s" by (simp add: fds_data_size_def)
      ultimately obtain res s' where s': "fds_decode api ?s = Some (res, s')" "fds_wf B s'" "Q (fds_decoder s')"
        "fds_data_size s' = fds_data_size s" by metis
      show ?thesis
      proof (cases res)
        case True
        then show ?thesis using s' full unfolding unf by auto
      next
        case False
        then show ?thesis using less.hyps [OF n(2) s'(2,3)] s' full unfolding unf by simp
      qed
    qed
  next
    case False
    then have "fds_write api s data = Some (False, s)" by (subst fds_write.simps) auto
    then show ?thesis using less.prems by auto
  qed
qed

lemma fds_write_chunk:
  assumes "fds_wf B s" "fds_buffIndex s = 0" "fds_good s" "length data = B"
  shows "fds_write api s data = Option.bind (fds_decode api (s\<lparr>fds_buffer := data, fds_buffIndex := B\<rparr>))
    (\<lambda>(res, s). Some (res, s))"
proof -
  note W = assms(1) [unfolded fds_wf_def]
  have u: "uint_sub B 0 = B" using uint_sub_le [of 0 B] W by simp
  have dn: "drop B data = []" using assms(4) by simp
  have nil: "fds_write api s' [] = Some (False, s')" for s'
    by (subst fds_write.simps) simp
  have "fds_write api s data = Option.bind (fds_decode api (s\<lparr>fds_buffer := data, fds_buffIndex := B\<rparr>))
      (\<lambda>(res, s). if res then Some (res, s) else fds_write api s [])"
    using assms W dn by (subst fds_write.simps) (simp add: u blit_def Let_def cong: if_cong)
  also have "\<dots> = Option.bind (fds_decode api (s\<lparr>fds_buffer := data, fds_buffIndex := B\<rparr>)) (\<lambda>(res, s). Some (res, s))"
    by (rule arg_cong [where f = "Option.bind _"]) (auto simp: nil fun_eq_iff)
  finally show ?thesis .
qed

section \<open>The properties of the fountain streams\<close>

text \<open>C14: reading whole buffers from a fresh encoder stream gives chunks that each carry a full
  block of the code under its own number: the numbers rise strictly, blocks the code delivers short
  (the last of the original file) are skipped, and every header names the file.\<close>

theorem encoder_stream_emits_chunks:
  assumes "6 < B" "B < 2 ^ 32" "B - 6 < length data"
    and "wirehair_encoder_create api data (B - 6) = Some codec" "enc_fits api codec (B - 6)"
    and "\<forall>b. full_block api codec (B - 6) b \<or> full_block api codec (B - 6) (b + 1)"
    and "2 * k \<le> 2 ^ 16"
  shows "\<exists>s' bs. fes_read api (fes_create api data B e) (k * B) =
      Some (s', concat (map (chunk_of api codec (e AND 0x7F) (length data) (B - 6)) bs)) \<and>
    length bs = k \<and> sorted_wrt (<) bs \<and>
    (\<forall>b\<in>set bs. full_block api codec (B - 6) b \<and>
      (let c = chunk_of api codec (e AND 0x7F) (length data) (B - 6) b in length c = B \<and>
        md_encode_id c = e AND 0x7F \<and> unat (md_block_id c) = b \<and>
        unat (md_file_size c) = length data mod 2 ^ 32 mod 2 ^ 25))"
proof -
  let ?s = "fes_create api data B e"
  have "uint_sub B 6 = B - 6" using assms by (intro uint_sub_le) simp_all
  then have wf: "fes_wf api codec (e AND 0x7F) data B ?s"
    using assms by (simp add: fes_wf_def fes_create_def FountainEncoder_create_def)
  have "fes_block ?s + 2 * k < 2 ^ 32" "B \<le> fes_buffIndex ?s" "fes_block ?s = 0" using assms by (simp_all add: fes_create_def)
  from fes_read_chunks [OF wf this(2,1), of "[]"] this(3) obtain s' bs where s':
    "fes_read_loop api ?s [] (k * B) = Some (s', concat (map (chunk_of api codec (e AND 0x7F) (length data) (B - 6)) bs))"
    "length bs = k" "sorted_wrt (<) bs" "\<forall>b\<in>set bs. full_block api codec (B - 6) b \<and> b < 2 * k" by auto
  have "length (chunk_of api codec (e AND 0x7F) (length data) (B - 6) b) = B \<and>
      md_encode_id (chunk_of api codec (e AND 0x7F) (length data) (B - 6) b) = e AND 0x7F \<and>
      unat (md_block_id (chunk_of api codec (e AND 0x7F) (length data) (B - 6) b)) = b \<and>
      unat (md_file_size (chunk_of api codec (e AND 0x7F) (length data) (B - 6) b)) = length data mod 2 ^ 32 mod 2 ^ 25"
    if "b \<in> set bs" for b
  proof -
    have b: "b < 2 ^ 16" "full_block api codec (B - 6) b" using s'(4) that assms(7) by fastforce+
    have "unat (of_nat b :: u16) = b" using b(1) by (simp add: unat_of_nat)
    moreover have "unat (take_bit 25 (of_nat (length data) :: u32)) = unat (of_nat (length data) :: u32) mod 2 ^ 25"
      unfolding unsigned_take_bit_eq by (rule take_bit_eq_mod)
    then have "unat (take_bit 25 (of_nat (length data) :: u32)) = length data mod 2 ^ 32 mod 2 ^ 25"
      by (simp only: unat_of_nat take_bit_eq_mod) simp
    ultimately show ?thesis using b(2) assms(1)
      by (simp add: chunk_of_def header_fields full_block_def ac_simps)
  qed
  then show ?thesis using s' by (auto simp: fes_read_def Let_def)
qed

text \<open>A code for the witnesses: it copies the message, and decodes once it has seen a block.\<close>

definition copy_code :: "(u8 list, nat list) wirehair" where
  "copy_code = \<lparr>wirehair_init = Wirehair_Success, wirehair_encoder_create = (\<lambda>m p. Some m),
     wirehair_encode = (\<lambda>m b p. if b = 0 then (Wirehair_Success, take (p - 1) m) else (Wirehair_Success, take p m)),
     wirehair_decoder_create = (\<lambda>n p. Some []),
     wirehair_decode = (\<lambda>d b x. (if d = [] then Wirehair_NeedMore else Wirehair_Success, b # d)),
     wirehair_recover = (\<lambda>d n. (Wirehair_Success, replicate n 0))\<rparr>"

theorem encoder_stream_emits_chunks_witness:
  "\<exists>s' bs. fes_read copy_code (fes_create copy_code [7, 8, 9] 8 3) (2 * 8) =
      Some (s', concat (map (chunk_of copy_code [7, 8, 9] (3 AND 0x7F) 3 2) bs)) \<and>
    length bs = 2 \<and> 0 \<notin> set bs"
proof -
  have f: "full_block copy_code [7, 8, 9] 2 b \<longleftrightarrow> b \<noteq> 0" for b
    by (simp add: full_block_def copy_code_def numeral_2_eq_2)
  have l: "length [7, 8, 9 :: u8] = 3" by simp
  have "\<exists>s' bs. fes_read copy_code (fes_create copy_code [7, 8, 9] 8 3) (2 * 8) =
      Some (s', concat (map (chunk_of copy_code [7, 8, 9] (3 AND 0x7F) (length [7, 8, 9 :: u8]) (8 - 6)) bs)) \<and>
    length bs = 2 \<and> sorted_wrt (<) bs \<and> (\<forall>b\<in>set bs. full_block copy_code [7, 8, 9] (8 - 6) b \<and>
      (let c = chunk_of copy_code [7, 8, 9] (3 AND 0x7F) (length [7, 8, 9 :: u8]) (8 - 6) b in length c = 8 \<and>
        md_encode_id c = 3 AND 0x7F \<and> unat (md_block_id c) = b \<and>
        unat (md_file_size c) = length [7, 8, 9 :: u8] mod 2 ^ 32 mod 2 ^ 25))"
    by (rule encoder_stream_emits_chunks) (simp_all add: f enc_fits_def, simp_all add: copy_code_def)
  then show ?thesis unfolding l by (auto simp: f)
qed

text \<open>\<open>logged\<close> records the block numbers that reach wirehair.\<close>

definition logged :: "('e, 'd) wirehair \<Rightarrow> ('e, 'd \<times> nat list) wirehair" where
  "logged api = \<lparr>wirehair_init = wirehair_init api, wirehair_encoder_create = wirehair_encoder_create api,
     wirehair_encode = wirehair_encode api,
     wirehair_decoder_create = (\<lambda>n p. map_option (\<lambda>d. (d, [])) (wirehair_decoder_create api n p)),
     wirehair_decode = (\<lambda>(d, l) b x. let (r, d) = wirehair_decode api d b x in (r, (d, l @ [b]))),
     wirehair_recover = (\<lambda>(d, l) n. wirehair_recover api d n)\<rparr>"

definition log_inv :: "('d \<times> nat list) FountainDecoder \<Rightarrow> bool" where
  "log_inv d \<longleftrightarrow> (\<forall>c l. fdec_codec d = Some (c, l) \<longrightarrow> distinct l \<and> set l = fdec_seenBlocks d)"

lemma log_inv_step:
  "log_inv d \<Longrightarrow> FountainDecoder_decode (logged api) d n x = Some (r, d') \<Longrightarrow> log_inv d'"
  by (auto simp: log_inv_def FountainDecoder_decode_def logged_def Let_def split_beta split: if_splits option.splits)

text \<open>C13: \<open>fountain_decoder_stream::write\<close> returns on every sequence of writes and stays inside its
  buffer, and wirehair is never given the same block twice: the calls that reach it, in order,
  have distinct block numbers, as many as the stream counts as its progress.\<close>

theorem decoder_stream_feeds_blocks_once:
  assumes "6 \<le> B" "B < 2 ^ 32"
  shows "\<exists>s. for_each writes (\<lambda>data s. map_option snd (fds_write (logged api) s data))
      (fds_create (logged api) junk n B) = Some s \<and> length (fds_buffer s) = B \<and> fds_buffIndex s < B \<and>
    (\<forall>c l. fdec_codec (fds_decoder s) = Some (c, l) \<longrightarrow> distinct l \<and> length l = fds_progress s)"
proof -
  let ?P = "\<lambda>s. fds_wf B s \<and> log_inv (fds_decoder s)"
  have "\<exists>s. for_each writes (\<lambda>data s. map_option snd (fds_write (logged api) s data)) s' = Some s \<and> ?P s" if "?P s'" for s'
    using that
  proof (induction writes arbitrary: s')
    case (Cons w ws)
    obtain r s1 where "fds_write (logged api) s' w = Some (r, s1)" "?P s1"
      using fds_write_inv [of B s' log_inv "logged api" w] log_inv_step Cons.prems by blast
    then show ?case using Cons.IH [of s1] by simp
  qed simp
  moreover have "?P (fds_create (logged api) junk n B)"
    using assms by (auto simp: fds_create_wf log_inv_def)
      (auto simp: fds_create_def FountainDecoder_create_def logged_def)
  ultimately obtain s where "for_each writes (\<lambda>data s. map_option snd (fds_write (logged api) s data))
      (fds_create (logged api) junk n B) = Some s" "?P s" by blast
  then show ?thesis
    by (auto simp: fds_wf_def log_inv_def fds_progress_def FountainDecoder_progress_def)
      (metis distinct_card)
qed

theorem decoder_stream_feeds_blocks_once_witness:
  "\<exists>s. for_each [[1, 0, 0, 9, 0, 0, 5, 5], [1, 0, 0, 9, 0, 0, 5, 5]]
      (\<lambda>data s. map_option snd (fds_write (logged copy_code) s data))
      (fds_create (logged copy_code) Wirehair_Error 9 8) = Some s \<and> length (fds_buffer s) = 8"
  using decoder_stream_feeds_blocks_once [of 8 "[[1, 0, 0, 9, 0, 0, 5, 5], [1, 0, 0, 9, 0, 0, 5, 5]]"
      copy_code Wirehair_Error 9] by auto

end
