(* ===== verification/FountainSink.thy ===== *)
theory FountainSink
  imports FountainCodec Streams "HOL-Library.AList"
begin

text \<open>
  \<open>fountain_decoder_sink.h\<close>: up to eight decoder streams, one per slot (the low three bits of the
  encode id), and the ids of the files that are done. The \<open>unordered_map\<close> of streams is a map over
  slots, the one of done files an association list (its order, which the code leaves open, is the
  insertion order). The store callback is a function on its captured state \<open>'io\<close>.
\<close>

unbundle bit_operations_syntax

text \<open>\<open>fmt\<close> with \<open>{}\<close> on an unsigned number.\<close>

fun dec_string :: "nat \<Rightarrow> string" where
  "dec_string n = (if n < 10 then [char_of (48 + n)] else dec_string (n div 10) @ [char_of (48 + n mod 10)])"

declare dec_string.simps [simp del]

type_synonym 'io on_store = "(string \<Rightarrow> u8 list \<Rightarrow> 'io \<Rightarrow> string \<times> 'io) option"

record 'd fountain_decoder_sink =
  sk_chunkSize :: nat
  sk_streams :: "nat \<Rightarrow> 'd fountain_decoder_stream option"
  sk_done :: "(u32 \<times> string) list"

definition sink_create :: "nat \<Rightarrow> 'd fountain_decoder_sink" where
  "sink_create chunk_size = \<lparr>sk_chunkSize = (if chunk_size < 50 then 50 else chunk_size),
     sk_streams = (\<lambda>_. None), sk_done = []\<rparr>"

definition sink_good :: "'d fountain_decoder_sink \<Rightarrow> bool" where
  "sink_good s \<longleftrightarrow> True"

definition get_filename :: "FountainMetadata \<Rightarrow> string" where
  "get_filename md = dec_string (unat (md_encode_id md)) @ ''.'' @ dec_string (unat (md_file_size md))"

definition stream_slot :: "FountainMetadata \<Rightarrow> nat" where
  "stream_slot md = unat (md_encode_id md AND 0x7)"

definition mark_done :: "'d fountain_decoder_sink \<Rightarrow> FountainMetadata \<Rightarrow> string \<Rightarrow> 'd fountain_decoder_sink" where
  "mark_done s md filename =
     s\<lparr>sk_done := AList.update (md_id md) filename (sk_done s),
       sk_streams := (sk_streams s)(stream_slot md := None)\<rparr>"

text \<open>\<open>store\<close> works on the stream in the slot of the header, which the caller has just written.\<close>

definition sink_store ::
  "('e, 'd) wirehair \<Rightarrow> 'io on_store \<Rightarrow> FountainMetadata \<Rightarrow> 'd fountain_decoder_sink \<Rightarrow>
   'd fountain_decoder_stream \<Rightarrow> 'io \<Rightarrow> (bool \<times> 'd fountain_decoder_sink \<times> 'io) option" where
  "sink_store api on_store md s st io =
     (case on_store of None \<Rightarrow> Some (True, s, io)
      | Some f \<Rightarrow> do {
          (res, dec) \<leftarrow> FountainDecoder_recover api (fds_decoder st);
          let s = s\<lparr>sk_streams := (sk_streams s)(stream_slot md \<mapsto> st\<lparr>fds_decoder := dec\<rparr>)\<rparr>;
          (case res of None \<Rightarrow> Some (False, s, io)
           | Some bytes \<Rightarrow>
               let (filename, io) = f (get_filename md) bytes io
               in Some (True, mark_done s md filename, io))
        })"

definition num_streams :: "'d fountain_decoder_sink \<Rightarrow> nat" where
  "num_streams s = card (dom (sk_streams s))"

definition num_done :: "'d fountain_decoder_sink \<Rightarrow> nat" where
  "num_done s = length (sk_done s)"

definition get_done :: "'d fountain_decoder_sink \<Rightarrow> string list" where
  "get_done s = map snd (sk_done s)"

text \<open>The progress of each stream as the pair of the quotient that the code computes in floating
  point, slot by slot.\<close>

definition get_progress :: "'d fountain_decoder_sink \<Rightarrow> (nat \<times> nat) list option" where
  "get_progress s = for_each [0..<8] (\<lambda>slot out.
     case sk_streams s slot of None \<Rightarrow> Some out
     | Some st \<Rightarrow> do {
         br \<leftarrow> fds_blocks_required st;
         Some (if br \<noteq> 0 then out @ [(fds_progress st, br)] else out)
       }) []"

definition is_done :: "'d fountain_decoder_sink \<Rightarrow> u32 \<Rightarrow> bool" where
  "is_done s i \<longleftrightarrow> map_of (sk_done s) i \<noteq> None"

definition decode_frame ::
  "('e, 'd) wirehair \<Rightarrow> WirehairResult \<Rightarrow> 'io on_store \<Rightarrow> 'd fountain_decoder_sink \<Rightarrow> 'io \<Rightarrow> u8 list \<Rightarrow>
   (int \<times> 'd fountain_decoder_sink \<times> 'io) option" where
  "decode_frame api junk on_store s io data =
     (if length data mod sk_chunkSize s > 0 \<or> length data < 6 then Some (- 10, s, io)
      else do {
        md \<leftarrow> md_of_buffer (\<lambda>_. 0) data (length data);
        (if md_file_size md = 0 then Some (- 11, s, io)
         else if is_done s (md_id md) then Some (- 1, s, io)
         else do {
           let st = (case sk_streams s (stream_slot md) of Some st \<Rightarrow> st
                     | None \<Rightarrow> fds_create api junk (unat (md_file_size md)) (sk_chunkSize s));
           let s = s\<lparr>sk_streams := (sk_streams s)(stream_slot md \<mapsto> st)\<rparr>;
           (if fds_data_size st \<noteq> unat (md_file_size md) then Some (- 12, s, io)
            else do {
              (finished, st) \<leftarrow> fds_write api st data;
              let s = s\<lparr>sk_streams := (sk_streams s)(stream_slot md \<mapsto> st)\<rparr>;
              (if \<not> finished then Some (0, s, io)
               else do {
                 (_, s, io) \<leftarrow> sink_store api on_store md s st io;
                 Some (0 + int (unat (md_id md)), s, io)
               })
            })
         })
      })"

definition sink_write ::
  "('e, 'd) wirehair \<Rightarrow> WirehairResult \<Rightarrow> 'io on_store \<Rightarrow> 'd fountain_decoder_sink \<Rightarrow> 'io \<Rightarrow> u8 list \<Rightarrow>
   (bool \<times> 'd fountain_decoder_sink \<times> 'io) option" where
  "sink_write api junk on_store s io data = do {
     (r, s, io) \<leftarrow> decode_frame api junk on_store s io data;
     Some (r > 0, s, io)
   }"

definition sink_recover ::
  "('e, 'd) wirehair \<Rightarrow> 'd fountain_decoder_sink \<Rightarrow> u32 \<Rightarrow> u8 list \<Rightarrow> nat \<Rightarrow>
   (bool \<times> 'd fountain_decoder_sink \<times> u8 list) option" where
  "sink_recover api s i data n =
     (let md = md_of_id i in
      case sk_streams s (stream_slot md) of None \<Rightarrow> Some (False, s, data)
      | Some st \<Rightarrow> do {
          (res, dec, data) \<leftarrow> FountainDecoder_recover_to api (fds_decoder st) data n;
          Some (res, mark_done s md (get_filename md), data)
        })"

section \<open>The state of a sink\<close>

text \<open>\<open>recover_fits\<close> is what the code relies on of wirehair here: it writes no more than asked.\<close>

definition recover_fits :: "('e, 'd) wirehair \<Rightarrow> bool" where
  "recover_fits api \<longleftrightarrow> (\<forall>d n. length (snd (wirehair_recover api d n)) \<le> n)"

definition sink_inv :: "'d fountain_decoder_sink \<Rightarrow> bool" where
  "sink_inv s \<longleftrightarrow> 50 \<le> sk_chunkSize s \<and> sk_chunkSize s < 2 ^ 32 \<and> distinct (map fst (sk_done s)) \<and>
     (\<forall>slot st. sk_streams s slot = Some st \<longrightarrow> slot < 8 \<and> fds_wf (sk_chunkSize s) st \<and>
        0 < fds_data_size st \<and> fds_data_size st < 2 ^ 25)"

lemma stream_slot_less: "stream_slot md < 8"
proof -
  have "(0x7 :: u8) = mask 3" by (simp add: mask_eq_exp_minus_1)
  then have "md_encode_id md AND 0x7 = take_bit 3 (md_encode_id md)" by (simp add: take_bit_eq_mask)
  then have "stream_slot md = take_bit 3 (unat (md_encode_id md))" by (simp add: stream_slot_def unsigned_take_bit_eq)
  then show ?thesis by (simp add: take_bit_eq_mod)
qed

lemma md_file_size_less: "unat (md_file_size d) < 2 ^ 25"
proof -
  have "bit (md_file_size d) n \<Longrightarrow> n < 25" for n
    unfolding md_file_size_def by (auto simp: header_bits bit_0x80 dest!: bit_imp_le_length)
  then have "take_bit 25 (md_file_size d) = md_file_size d"
    by (intro bit_word_eqI) (auto simp: bit_take_bit_iff)
  then have "unat (md_file_size d) = take_bit 25 (unat (md_file_size d))" by (metis unsigned_take_bit_eq)
  then show ?thesis by (metis take_bit_nat_less_exp)
qed

lemma md_of_frame: "6 \<le> length data \<Longrightarrow> md_of_buffer (\<lambda>_. 0) data (length data) = Some (take 6 data)"
  by (auto simp: md_of_buffer_def copy_of_def blit_def)

lemma fds_write_not_good: "\<not> fds_good st \<Longrightarrow> fds_write api st data = Some (False, st)"
  by (subst fds_write.simps) simp

lemma fds_write_total:
  assumes "fds_wf B st"
  shows "\<exists>r st'. fds_write api st data = Some (r, st') \<and> fds_wf B st' \<and> fds_data_size st' = fds_data_size st \<and>
    (r \<longrightarrow> fds_good st')"
proof (cases "fds_good st")
  case True
  have "\<exists>r s'. fds_write api st data = Some (r, s') \<and> fds_wf B s' \<and> fdec_codec (fds_decoder s') \<noteq> None \<and>
      fds_data_size s' = fds_data_size st"
  proof (rule fds_write_inv [where Q = "\<lambda>d. fdec_codec d \<noteq> None", OF assms])
    show "fdec_codec (fds_decoder st) \<noteq> None" using True by (simp add: fds_good_def FountainDecoder_good_def)
    show "fdec_codec d' \<noteq> None" if "fdec_codec d \<noteq> None" "FountainDecoder_decode api d n x = Some (r, d')" for d n x r d'
      using FountainDecoder_decode_some [OF that(1), of api n x] that(2) by auto
  qed
  then show ?thesis by (auto simp: fds_good_def FountainDecoder_good_def)
qed (use assms in \<open>auto simp: fds_write_not_good\<close>)

lemma FountainDecoder_recover_some:
  assumes "recover_fits api" "fdec_codec d \<noteq> None"
  shows "\<exists>res d'. FountainDecoder_recover api d = Some (res, d') \<and> fdec_length d' = fdec_length d \<and>
    fdec_codec d' \<noteq> None"
proof -
  obtain c where c: "fdec_codec d = Some c" using assms(2) by blast
  have "length (snd (wirehair_recover api c (fdec_length d))) \<le> fdec_length d" using assms(1) by (simp add: recover_fits_def)
  then show ?thesis
    by (auto simp: FountainDecoder_recover_def FountainDecoder_recover_to_def c blit_def split_beta)
qed

lemma mark_done_inv: "sink_inv s \<Longrightarrow> sink_inv (mark_done s md name)"
  by (auto simp: sink_inv_def mark_done_def distinct_update)

lemma is_done_mark_done [simp]: "is_done (mark_done s md name) i \<longleftrightarrow> i = md_id md \<or> is_done s i"
  by (auto simp: is_done_def mark_done_def update_conv)

lemma sink_store_inv:
  assumes inv: "sink_inv s" and api: "recover_fits api"
    and st: "fds_wf (sk_chunkSize s) st" "0 < fds_data_size st" "fds_data_size st < 2 ^ 25" "fds_good st"
  shows "\<exists>ok s' io'. sink_store api on_store md s st io = Some (ok, s', io') \<and> sink_inv s' \<and>
    sk_chunkSize s' = sk_chunkSize s"
proof (cases on_store)
  case (Some f)
  obtain res dec where r: "FountainDecoder_recover api (fds_decoder st) = Some (res, dec)"
    "fdec_length dec = fdec_length (fds_decoder st)" "fdec_codec dec \<noteq> None"
    using FountainDecoder_recover_some [OF api, of "fds_decoder st"] st(4)
    by (auto simp: fds_good_def FountainDecoder_good_def)
  let ?s = "s\<lparr>sk_streams := (sk_streams s)(stream_slot md \<mapsto> st\<lparr>fds_decoder := dec\<rparr>)\<rparr>"
  have "sink_inv ?s" using inv st(1-3) r(2) stream_slot_less [of md]
    by (auto simp: sink_inv_def fds_wf_def fds_data_size_def)
  moreover have "sink_store api on_store md s st io = (case res of None \<Rightarrow> Some (False, ?s, io)
      | Some bytes \<Rightarrow> Some (True, mark_done ?s md (fst (f (get_filename md) bytes io)), snd (f (get_filename md) bytes io)))"
    using r(1) by (cases res) (simp_all add: sink_store_def Some Let_def split_beta)
  ultimately show ?thesis using mark_done_inv [of ?s md]
    by (cases res) (auto simp: mark_done_def)
qed (use inv in \<open>auto simp: sink_store_def\<close>)

text \<open>Every frame, whatever its bytes: the code that is returned, and the invariant.\<close>

lemma decode_frame_run:
  assumes inv: "sink_inv s" and api: "recover_fits api"
  shows "\<exists>r s' io'. decode_frame api junk on_store s io data = Some (r, s', io') \<and> sink_inv s' \<and>
    sk_chunkSize s' = sk_chunkSize s \<and>
    (let md = take 6 data in
     if length data mod sk_chunkSize s > 0 \<or> length data < 6 then r = - 10 \<and> s' = s \<and> io' = io
     else if md_file_size md = 0 then r = - 11 \<and> s' = s \<and> io' = io
     else if is_done s (md_id md) then r = - 1 \<and> s' = s \<and> io' = io
     else if \<exists>st. sk_streams s (stream_slot md) = Some st \<and> fds_data_size st \<noteq> unat (md_file_size md)
       then r = - 12 \<and> s' = s \<and> io' = io
     else r = 0 \<and> io' = io \<or> r = int (unat (md_id md)) \<and> 0 < r)"
proof -
  let ?md = "take 6 data"
  let ?old = "sk_streams s (stream_slot ?md)"
  define st where "st = (case ?old of Some st \<Rightarrow> st
     | None \<Rightarrow> fds_create api junk (unat (md_file_size ?md)) (sk_chunkSize s))"
  let ?s = "s\<lparr>sk_streams := (sk_streams s)(stream_slot ?md \<mapsto> st)\<rparr>"
  have chunk: "6 \<le> sk_chunkSize s" "sk_chunkSize s < 2 ^ 32" using inv by (simp_all add: sink_inv_def)
  consider (bad) "length data mod sk_chunkSize s > 0 \<or> length data < 6"
    | (empty) "\<not> (length data mod sk_chunkSize s > 0 \<or> length data < 6)" "md_file_size ?md = 0"
    | (seen) "\<not> (length data mod sk_chunkSize s > 0 \<or> length data < 6)" "md_file_size ?md \<noteq> 0" "is_done s (md_id ?md)"
    | (live) "\<not> (length data mod sk_chunkSize s > 0 \<or> length data < 6)" "md_file_size ?md \<noteq> 0" "\<not> is_done s (md_id ?md)"
    by blast
  then show ?thesis
  proof cases
    case live
    have md: "md_of_buffer (\<lambda>_. 0) data (length data) = Some ?md" using live(1) by (intro md_of_frame) simp
    have old: "fds_wf (sk_chunkSize s) x \<and> 0 < fds_data_size x \<and> fds_data_size x < 2 ^ 25" if "?old = Some x" for x
      using inv that by (simp add: sink_inv_def)
    have wf: "fds_wf (sk_chunkSize s) st" using old chunk by (auto simp: st_def fds_create_wf split: option.split)
    show ?thesis
    proof (cases "fds_data_size st = unat (md_file_size ?md)")
      case False
      then have "?old = Some st" by (auto simp: st_def fds_data_size_def fds_create_def FountainDecoder_create_def split: option.splits)
      moreover from this have "?s = s" by (simp add: fun_upd_idem)
      ultimately show ?thesis using live md False inv
        by (auto simp: decode_frame_def Let_def st_def [symmetric])
    next
      case True
      have ne: "\<not> (\<exists>x. ?old = Some x \<and> fds_data_size x \<noteq> unat (md_file_size ?md))"
        using True by (auto simp: st_def split: option.splits)
      have sz: "0 < fds_data_size st" "fds_data_size st < 2 ^ 25"
        using True live(2) md_file_size_less [of ?md] unat_gt_0 [of "md_file_size ?md"] by auto
      obtain r st' where w: "fds_write api st data = Some (r, st')" "fds_wf (sk_chunkSize s) st'"
        "fds_data_size st' = fds_data_size st" "r \<longrightarrow> fds_good st'"
        using fds_write_total [OF wf, of api data] by blast
      let ?t = "?s\<lparr>sk_streams := (sk_streams ?s)(stream_slot ?md \<mapsto> st')\<rparr>"
      have t: "sink_inv ?t" using inv w sz stream_slot_less [of ?md] by (auto simp: sink_inv_def)
      have run: "decode_frame api junk on_store s io data = (if \<not> r then Some (0, ?t, io)
          else do { (_, s, io) \<leftarrow> sink_store api on_store ?md ?t st' io; Some (int (unat (md_id ?md)), s, io) })"
        using live md True w(1) by (simp add: decode_frame_def Let_def st_def [symmetric])
      have pos: "0 < unat (md_id ?md)"
      proof -
        have "md_file_size (md_of_id (md_id ?md)) = md_file_size ?md"
          using live(1) md_of_id_id [of ?md] by (simp add: md_file_size_def)
        moreover have "md_file_size (md_of_id 0) = 0" by (simp add: md_file_size_def md_of_id_def)
        ultimately have "md_id ?md \<noteq> 0" using live(2) by metis
        then show ?thesis by (simp add: unat_gt_0)
      qed
      then have pos': "0 < uint (md_id ?md)" unfolding uint_nat by (simp only: of_nat_0_less_iff)
      show ?thesis
      proof (cases r)
        case False
        then show ?thesis using run t live ne by (auto simp: Let_def)
      next
        case True
        have "\<exists>ok s' io'. sink_store api on_store ?md ?t st' io = Some (ok, s', io') \<and> sink_inv s' \<and> sk_chunkSize s' = sk_chunkSize ?t"
          by (rule sink_store_inv [OF t api]) (use w sz True in simp_all)
        then show ?thesis using run True live ne pos' by (auto simp: Let_def)
      qed
    qed
  qed (use inv md_of_frame [of data] in \<open>simp_all add: decode_frame_def Let_def\<close>)
qed

text \<open>A sequence of frames, the results dropped.\<close>

definition sink_run ::
  "('e, 'd) wirehair \<Rightarrow> WirehairResult \<Rightarrow> 'io on_store \<Rightarrow> u8 list list \<Rightarrow> 'd fountain_decoder_sink \<times> 'io \<Rightarrow>
   ('d fountain_decoder_sink \<times> 'io) option" where
  "sink_run api junk on_store frames = for_each frames
     (\<lambda>data (s, io). map_option snd (decode_frame api junk on_store s io data))"

lemma sink_create_inv: "c < 2 ^ 32 \<Longrightarrow> sink_inv (sink_create c)"
  by (simp add: sink_inv_def sink_create_def)

lemma sink_run_inv:
  "sink_inv s \<Longrightarrow> recover_fits api \<Longrightarrow> \<exists>s' io'. sink_run api junk on_store frames (s, io) = Some (s', io') \<and>
    sink_inv s' \<and> sk_chunkSize s' = sk_chunkSize s"
proof (induction frames arbitrary: s io)
  case (Cons data frames)
  obtain r s1 io1 where 1: "decode_frame api junk on_store s io data = Some (r, s1, io1)" "sink_inv s1"
    "sk_chunkSize s1 = sk_chunkSize s"
    using decode_frame_run [OF Cons.prems, of junk on_store io data] by blast
  then show ?case using Cons.IH [OF 1(2) Cons.prems(2), of io1] by (auto simp: sink_run_def)
qed (simp add: sink_run_def)

lemma sink_inv_streams: "sink_inv s \<Longrightarrow> num_streams s \<le> 8"
proof -
  assume "sink_inv s"
  then have "dom (sk_streams s) \<subseteq> {..<8}" by (auto simp: sink_inv_def)
  then show ?thesis using card_mono [of "{..<8 :: nat}"] by (fastforce simp: num_streams_def)
qed

text \<open>The sink keeps the contract of the aligner: it takes a chunk in every state.\<close>

definition sink_stream_write ::
  "('e, 'd) wirehair \<Rightarrow> WirehairResult \<Rightarrow> 'io on_store \<Rightarrow> 'd fountain_decoder_sink \<times> 'io \<Rightarrow> u8 list \<Rightarrow>
   ('d fountain_decoder_sink \<times> 'io) option" where
  "sink_stream_write api junk on_store s data =
     map_option snd (sink_write api junk on_store (fst s) (snd s) data)"

definition sink_room :: "('e, 'd) wirehair \<Rightarrow> nat \<Rightarrow> nat \<Rightarrow> 'd fountain_decoder_sink \<times> 'io \<Rightarrow> bool" where
  "sink_room api c n s \<longleftrightarrow> recover_fits api \<and> sink_inv (fst s) \<and> sk_chunkSize (fst s) = c"

lemma sink_write_room:
  assumes "sink_room api c n s"
  shows "\<exists>s'. sink_stream_write api junk on_store s data = Some s' \<and> sink_room api c m s'"
  using decode_frame_run [of "fst s" api junk on_store "snd s" data] assms
  by (auto simp: sink_room_def sink_stream_write_def sink_write_def)

interpretation sink_chunks: chunk_stream "sink_stream_write api junk on_store" "sink_good \<circ> fst" "sink_room api"
  for api junk on_store
  by unfold_locales (use sink_write_room in blast, auto simp: sink_good_def sink_room_def)

section \<open>A file through the sink\<close>

text \<open>What the transfer relies on of wirehair: blocks never overrun their room, and once the decoder
  reports success on distinct blocks of a message, it recovers that message.\<close>

definition feed_blocks :: "('e, 'd) wirehair \<Rightarrow> (nat \<times> u8 list) list \<Rightarrow> 'd \<Rightarrow> 'd" where
  "feed_blocks api bs d = fold (\<lambda>(b, x) d. snd (wirehair_decode api d b x)) bs d"

definition wirehair_sound :: "('e, 'd) wirehair \<Rightarrow> bool" where
  "wirehair_sound api \<longleftrightarrow> recover_fits api \<and>
     (\<forall>m p codec d bs b x. wirehair_encoder_create api m p = Some codec \<and>
        wirehair_decoder_create api (length m) p = Some d \<and> distinct (map fst (bs @ [(b, x)])) \<and>
        (\<forall>(b, x) \<in> set (bs @ [(b, x)]). full_block api codec p b \<and> x = snd (wirehair_encode api codec b p)) \<and>
        fst (wirehair_decode api (feed_blocks api bs d) b x) = Wirehair_Success \<longrightarrow>
      wirehair_recover api (feed_blocks api (bs @ [(b, x)]) d) (length m) = (Wirehair_Success, m))"

text \<open>The reference: feed the blocks in the order they arrive, each at most once, until success.\<close>

fun transfer_done :: "('e, 'd) wirehair \<Rightarrow> 'e \<Rightarrow> nat \<Rightarrow> nat set \<Rightarrow> 'd \<Rightarrow> nat list \<Rightarrow> bool" where
  "transfer_done api codec p seen d [] = False"
| "transfer_done api codec p seen d (b # bs) =
     (if b \<in> seen then transfer_done api codec p seen d bs
      else let (r, d') = wirehair_decode api d b (snd (wirehair_encode api codec b p))
           in r = Wirehair_Success \<or> transfer_done api codec p (insert b seen) d' bs)"

text \<open>The sink while the file is under way: the stream of its slot (or the one that would be made)
  is between chunks and has been fed the blocks \<open>bs\<close>.\<close>

definition current_stream ::
  "('e, 'd) wirehair \<Rightarrow> WirehairResult \<Rightarrow> 'd fountain_decoder_sink \<Rightarrow> nat \<Rightarrow> nat \<Rightarrow> 'd fountain_decoder_stream" where
  "current_stream api junk s slot n = (case sk_streams s slot of Some st \<Rightarrow> st
     | None \<Rightarrow> fds_create api junk n (sk_chunkSize s))"

definition file_md :: "u8 \<Rightarrow> u8 list \<Rightarrow> FountainMetadata" where
  "file_md e m = header_bytes e (length m) 0"

definition under_way ::
  "('e, 'd) wirehair \<Rightarrow> WirehairResult \<Rightarrow> 'e \<Rightarrow> u8 \<Rightarrow> u8 list \<Rightarrow> nat \<Rightarrow> 'd \<Rightarrow> (nat \<times> u8 list) list \<Rightarrow>
   'd fountain_decoder_sink \<Rightarrow> bool" where
  "under_way api junk codec e m p d0 bs s \<longleftrightarrow>
     sink_inv s \<and> sk_chunkSize s = p + 6 \<and> \<not> is_done s (md_id (file_md e m)) \<and> distinct (map fst bs) \<and>
     (\<forall>(b, x) \<in> set bs. full_block api codec p b \<and> x = snd (wirehair_encode api codec b p)) \<and>
     (let st = current_stream api junk s (stream_slot (file_md e m)) (length m) in
        fds_wf (p + 6) st \<and> fds_buffIndex st = 0 \<and> fds_data_size st = length m \<and>
        fdec_codec (fds_decoder st) = Some (feed_blocks api bs d0) \<and> fdec_seenBlocks (fds_decoder st) = fst ` set bs)"

lemma header_take [simp]: "take 6 (header_bytes e n b @ d) = header_bytes e n b"
  by simp

lemma header_same:
  "md_id (header_bytes e n b) = md_id (header_bytes e n 0)"
  "stream_slot (header_bytes e n b) = stream_slot (header_bytes e n 0)"
  by (simp_all add: header_bytes_def to_uint8_arr_run md_id_def stream_slot_def md_encode_id_def)

lemma header_size:
  assumes "n < 2 ^ 25"
  shows "unat (md_file_size (header_bytes e n b)) = n"
proof -
  have "md_file_size (header_bytes e n b) = take_bit 25 (of_nat n)" using header_fields(2) [of e n b "[]"] by simp
  then have "unat (md_file_size (header_bytes e n b)) = take_bit 25 (unat (of_nat n :: u32))"
    by (simp only: unsigned_take_bit_eq)
  also have "\<dots> = n" using assms by (simp add: take_bit_nat_eq_self)
  finally show ?thesis .
qed

lemma header_block: "b < 2 ^ 16 \<Longrightarrow> unat (md_block_id (header_bytes e n b)) = b"
  using header_fields(3) [of e n b "[]"] by simp

lemma under_way_step:
  assumes P: "under_way api junk codec e m p d0 bs s" and m: "0 < length m" "length m < 2 ^ 25"
    and b: "full_block api codec p b" "b < 2 ^ 16"
  defines "data \<equiv> chunk_of api codec e (length m) p b"
    and "st \<equiv> current_stream api junk s (stream_slot (file_md e m)) (length m)"
    and "x \<equiv> snd (wirehair_encode api codec b p)"
  shows "decode_frame api junk on_store s io data = (let (r, d) = wirehair_decode api (feed_blocks api bs d0) b x in
    if b \<in> fst ` set bs then Some (0, s\<lparr>sk_streams := (sk_streams s)(stream_slot (file_md e m) \<mapsto>
        st\<lparr>fds_buffer := data\<rparr>)\<rparr>, io)
    else let st' = st\<lparr>fds_buffer := data, fds_decoder := (fds_decoder st)\<lparr>fdec_seenBlocks := insert b (fst ` set bs),
             fdec_codec := Some d, fdec_res := r\<rparr>\<rparr>;
             s' = s\<lparr>sk_streams := (sk_streams s)(stream_slot (file_md e m) \<mapsto> st')\<rparr>
      in if r \<noteq> Wirehair_Success then Some (0, s', io)
         else Option.bind (sink_store api on_store (header_bytes e (length m) b) s' st' io)
           (\<lambda>(_, s, io). Some (int (unat (md_id (file_md e m))), s, io)))"
proof -
  note P = P [unfolded under_way_def Let_def, folded st_def]
  let ?h = "header_bytes e (length m) b"
  have data: "data = ?h @ x" by (simp add: data_def x_def chunk_of_def)
  have x: "length x = p" using b(1) by (simp add: x_def full_block_def)
  have l: "length data = p + 6" "take 6 data = ?h" "drop 6 data = x" using x by (simp_all add: data)
  have c: "sk_chunkSize s = p + 6" "50 \<le> p + 6" "p + 6 < 2 ^ 32" using P by (auto simp: sink_inv_def)
  have md: "md_of_buffer (\<lambda>_. 0) data (length data) = Some ?h" using md_of_frame [of data] l by simp
  have sz: "unat (md_file_size ?h) = length m" by (rule header_size [OF m(2)])
  then have sz0: "md_file_size ?h \<noteq> 0" using m(1) by auto
  have id: "md_id ?h = md_id (file_md e m)" "stream_slot ?h = stream_slot (file_md e m)"
    using header_same [of e "length m" b] by (simp_all add: file_md_def)
  have good: "fds_good st" using P by (simp add: fds_good_def FountainDecoder_good_def)
  let ?st = "st\<lparr>fds_buffer := data, fds_buffIndex := p + 6\<rparr>"
  have wr: "fds_write api st data = Option.bind (fds_decode api ?st) (\<lambda>(res, s). Some (res, s))"
    by (rule fds_write_chunk [OF _ _ good l(1)]) (use P in simp_all)
  have "fds_decode api ?st = map_option (\<lambda>(ok, dec). (ok, st\<lparr>fds_buffer := data, fds_buffIndex := 0, fds_decoder := dec\<rparr>))
      (FountainDecoder_decode api (fds_decoder st) b x)"
    using P sz header_block [OF b(2), of e "length m"] l c
    by (subst fds_decode_run [of _ "p + 6"]) (simp_all add: Let_def fds_data_size_def)
  moreover have "st\<lparr>fds_buffer := data, fds_buffIndex := 0, fds_decoder := dec\<rparr> = st\<lparr>fds_buffer := data, fds_decoder := dec\<rparr>" for dec
    using P by (cases st) simp
  ultimately have wr2: "fds_write api st data = map_option (\<lambda>(ok, dec). (ok, st\<lparr>fds_buffer := data, fds_decoder := dec\<rparr>))
      (FountainDecoder_decode api (fds_decoder st) b x)"
    unfolding wr by (cases "FountainDecoder_decode api (fds_decoder st) b x") (auto simp: split_beta)
  have st: "(case sk_streams s (stream_slot (file_md e m)) of Some st \<Rightarrow> st
      | None \<Rightarrow> fds_create api junk (unat (md_file_size ?h)) (sk_chunkSize s)) = st"
    unfolding st_def current_stream_def sz ..
  obtain r d where rd: "wirehair_decode api (feed_blocks api bs d0) b x = (r, d)" by fastforce
  have run: "decode_frame api junk on_store s io data = Option.bind (fds_write api st data) (\<lambda>(fin, st').
      let s = s\<lparr>sk_streams := (sk_streams s)(stream_slot (file_md e m) \<mapsto> st')\<rparr> in
      if \<not> fin then Some (0, s, io)
      else Option.bind (sink_store api on_store ?h s st' io) (\<lambda>(_, s, io). Some (int (unat (md_id (file_md e m))), s, io)))"
    using P md l(1) c sz sz0 id by (simp add: decode_frame_def st Let_def cong: if_cong)
  have dec: "FountainDecoder_decode api (fds_decoder st) b x = Some (if b \<in> fst ` set bs then (False, fds_decoder st)
      else (r = Wirehair_Success, (fds_decoder st)\<lparr>fdec_seenBlocks := insert b (fst ` set bs), fdec_codec := Some d, fdec_res := r\<rparr>))"
    using P rd by (simp add: FountainDecoder_decode_def Let_def)
  show ?thesis unfolding run wr2 dec rd by (simp add: Let_def)
qed

lemma feed_blocks_snoc: "feed_blocks api (bs @ [(b, x)]) d = snd (wirehair_decode api (feed_blocks api bs d) b x)"
  by (simp add: feed_blocks_def)

text \<open>Once the file is done, its frames are refused and change nothing.\<close>

lemma decode_frame_done:
  assumes "is_done s (md_id (file_md e m))" "sk_chunkSize s = p + 6" "0 < length m" "length m < 2 ^ 25"
    "full_block api codec p b"
  shows "decode_frame api junk on_store s io (chunk_of api codec e (length m) p b) = Some (- 1, s, io)"
proof -
  let ?h = "header_bytes e (length m) b"
  have l: "length (chunk_of api codec e (length m) p b) = p + 6" "take 6 (chunk_of api codec e (length m) p b) = ?h"
    using assms(5) by (simp_all add: chunk_of_def full_block_def)
  have "unat (md_file_size ?h) = length m" by (rule header_size [OF assms(4)])
  then have "md_file_size ?h \<noteq> 0" using assms(3) by auto
  moreover have "is_done s (md_id ?h)" using assms(1) header_same(1) [of e "length m" b] by (simp add: file_md_def)
  ultimately show ?thesis using l assms(2) md_of_frame [of "chunk_of api codec e (length m) p b"]
    by (simp add: decode_frame_def)
qed

lemma run_done:
  assumes "is_done s (md_id (file_md e m))" "sk_chunkSize s = p + 6" "0 < length m" "length m < 2 ^ 25"
    "\<forall>b\<in>set ns. full_block api codec p b"
  shows "sink_run api junk on_store (map (chunk_of api codec e (length m) p) ns) (s, io) = Some (s, io)"
  using assms(5) by (induction ns) (simp_all add: sink_run_def decode_frame_done [OF assms(1-4)])

lemma under_way_again:
  assumes "under_way api junk codec e m p d0 bs s" "full_block api codec p b" "0 < length m" "length m < 2 ^ 25"
  shows "under_way api junk codec e m p d0 bs (s\<lparr>sk_streams := (sk_streams s)(stream_slot (file_md e m) \<mapsto>
    (current_stream api junk s (stream_slot (file_md e m)) (length m))\<lparr>fds_buffer := chunk_of api codec e (length m) p b\<rparr>)\<rparr>)"
  using assms stream_slot_less [of "file_md e m"]
  by (auto simp: under_way_def Let_def sink_inv_def fds_wf_def fds_data_size_def current_stream_def is_done_def
      chunk_of_def full_block_def)

lemma under_way_more:
  fixes r :: WirehairResult
  assumes P: "under_way api junk codec e m p d0 bs s" and b: "b \<notin> fst ` set bs" "full_block api codec p b"
    and m: "0 < length m" "length m < 2 ^ 25" and x: "x = snd (wirehair_encode api codec b p)"
  defines "st \<equiv> current_stream api junk s (stream_slot (file_md e m)) (length m)"
  defines "st' \<equiv> st\<lparr>fds_buffer := chunk_of api codec e (length m) p b, fds_decoder :=
      (fds_decoder st)\<lparr>fdec_seenBlocks := insert b (fst ` set bs),
        fdec_codec := Some (snd (wirehair_decode api (feed_blocks api bs d0) b x)), fdec_res := r\<rparr>\<rparr>"
  shows "under_way api junk codec e m p d0 (bs @ [(b, x)])
    (s\<lparr>sk_streams := (sk_streams s)(stream_slot (file_md e m) \<mapsto> st')\<rparr>)"
proof -
  note P = P [unfolded under_way_def Let_def, folded st_def]
  let ?s = "s\<lparr>sk_streams := (sk_streams s)(stream_slot (file_md e m) \<mapsto> st')\<rparr>"
  have cur: "current_stream api junk ?s (stream_slot (file_md e m)) (length m) = st'"
    by (simp add: current_stream_def)
  have st': "fds_wf (p + 6) st'" "fds_buffIndex st' = 0" "fds_data_size st' = length m"
    "fdec_codec (fds_decoder st') = Some (feed_blocks api (bs @ [(b, x)]) d0)"
    "fdec_seenBlocks (fds_decoder st') = fst ` set (bs @ [(b, x)])"
    using P b(2) by (simp_all add: st'_def fds_wf_def fds_data_size_def chunk_of_def full_block_def feed_blocks_snoc)
  have "sink_inv ?s" using P st' m stream_slot_less [of "file_md e m"] by (auto simp: sink_inv_def)
  then show ?thesis unfolding under_way_def cur Let_def using P st' b x
    by (auto simp: is_done_def)
qed

lemma sink_store_success:
  assumes "fdec_codec (fds_decoder st) = Some d" "fdec_length (fds_decoder st) = length m"
    and "wirehair_recover api d (length m) = (Wirehair_Success, m)"
  shows "\<exists>s'. sink_store api (Some f) md s st io =
      Some (True, s', snd (f (get_filename md) m io)) \<and> is_done s' (md_id md) \<and>
      map_of (sk_done s') (md_id md) = Some (fst (f (get_filename md) m io)) \<and> sk_chunkSize s' = sk_chunkSize s"
  using assms
  by (simp add: sink_store_def FountainDecoder_recover_def FountainDecoder_recover_to_def blit_def split_beta Let_def)
    (simp add: mark_done_def is_done_def update_conv)

lemma get_filename_same: "get_filename (header_bytes e n b) = get_filename (header_bytes e n 0)"
  by (simp add: get_filename_def header_bytes_def to_uint8_arr_run md_encode_id_def md_file_size_def)

lemma transfer_run:
  assumes "wirehair_sound api" "wirehair_encoder_create api m p = Some codec"
    "wirehair_decoder_create api (length m) p = Some d0" "0 < length m" "length m < 2 ^ 25"
    and "under_way api junk codec e m p d0 bs s" "\<forall>b\<in>set ns. full_block api codec p b \<and> b < 2 ^ 16"
  shows "\<exists>s' io'. sink_run api junk (Some f) (map (chunk_of api codec e (length m) p) ns) (s, io) = Some (s', io') \<and>
    (if transfer_done api codec p (fst ` set bs) (feed_blocks api bs d0) ns
     then io' = snd (f (get_filename (file_md e m)) m io) \<and>
       map_of (sk_done s') (md_id (file_md e m)) = Some (fst (f (get_filename (file_md e m)) m io))
     else io' = io \<and> \<not> is_done s' (md_id (file_md e m)))"
  using assms(6,7)
proof (induction ns arbitrary: s bs)
  case Nil
  then show ?case by (simp add: sink_run_def under_way_def)
next
  case (Cons b ns)
  have b: "full_block api codec p b" "b < 2 ^ 16" using Cons.prems(2) by simp_all
  let ?x = "snd (wirehair_encode api codec b p)" and ?d = "feed_blocks api bs d0"
  note step = under_way_step [OF Cons.prems(1) assms(4,5) b, of "Some f" io]
  obtain r d where rd: "wirehair_decode api ?d b ?x = (r, d)" by fastforce
  show ?case
  proof (cases "b \<in> fst ` set bs")
    case True
    then show ?thesis using Cons.IH [OF under_way_again [OF Cons.prems(1) b(1) assms(4,5)]] Cons.prems(2) step rd
      by (simp add: sink_run_def)
  next
    case False
    let ?st = "current_stream api junk s (stream_slot (file_md e m)) (length m)"
    let ?st' = "?st\<lparr>fds_buffer := chunk_of api codec e (length m) p b, fds_decoder := (fds_decoder ?st)
      \<lparr>fdec_seenBlocks := insert b (fst ` set bs), fdec_codec := Some d, fdec_res := r\<rparr>\<rparr>"
    let ?s = "s\<lparr>sk_streams := (sk_streams s)(stream_slot (file_md e m) \<mapsto> ?st')\<rparr>"
    have more: "under_way api junk codec e m p d0 (bs @ [(b, ?x)]) ?s"
      using under_way_more [OF Cons.prems(1) False b(1) assms(4,5) refl, of r] rd by simp
    show ?thesis
    proof (cases "r = Wirehair_Success")
      case False
      then show ?thesis using Cons.IH [OF more] Cons.prems(2) step rd \<open>b \<notin> fst ` set bs\<close>
        by (simp add: sink_run_def feed_blocks_snoc)
    next
      case True
      have "wirehair_recover api (feed_blocks api (bs @ [(b, ?x)]) d0) (length m) = (Wirehair_Success, m)"
        using assms(1-3) more rd True b(1) unfolding wirehair_sound_def under_way_def by fastforce
      then have "wirehair_recover api d (length m) = (Wirehair_Success, m)" using rd by (simp add: feed_blocks_snoc)
      moreover have "fdec_length (fds_decoder ?st') = length m"
        using Cons.prems(1) by (simp add: under_way_def Let_def fds_data_size_def)
      ultimately obtain s' where s': "sink_store api (Some f) (header_bytes e (length m) b) ?s ?st' io =
          Some (True, s', snd (f (get_filename (file_md e m)) m io))" "is_done s' (md_id (file_md e m))"
        "map_of (sk_done s') (md_id (file_md e m)) = Some (fst (f (get_filename (file_md e m)) m io))"
        "sk_chunkSize s' = sk_chunkSize ?s"
        using sink_store_success [of ?st' d m api f "header_bytes e (length m) b" ?s io]
          header_same(1) [of e "length m" b] get_filename_same [of e "length m" b]
        by (auto simp: file_md_def)
      have "sk_chunkSize s' = p + 6" using s'(4) Cons.prems(1) by (simp add: under_way_def)
      then have "sink_run api junk (Some f) (map (chunk_of api codec e (length m) p) ns)
          (s', snd (f (get_filename (file_md e m)) m io)) = Some (s', snd (f (get_filename (file_md e m)) m io))"
        by (rule run_done [OF s'(2) _ assms(4,5)]) (use Cons.prems(2) in simp)
      then show ?thesis using step rd True \<open>b \<notin> fst ` set bs\<close> s' by (simp add: sink_run_def)
    qed
  qed
qed

section \<open>The properties of the sink\<close>

text \<open>C10: the sink survives anything. After any sequence of frames of arbitrary bytes it holds at
  most eight streams, all inside their bounds, and the next frame of arbitrary bytes gets the
  documented code: -10 for a length that is no multiple of the chunk size, -11 for an empty file,
  -1 for a file that is done, -12 for a slot taken by a file of another size, all without any
  change; otherwise 0 or, when the file is complete, its positive id.\<close>

theorem sink_total_and_codes:
  assumes "c < 2 ^ 32" "recover_fits api"
  shows "\<exists>s io r s' io'. sink_run api junk on_store frames (sink_create c, io0) = Some (s, io) \<and> num_streams s \<le> 8 \<and>
    decode_frame api junk on_store s io data = Some (r, s', io') \<and> num_streams s' \<le> 8 \<and>
    (let md = take 6 data in
     if length data mod max 50 c > 0 \<or> length data < 6 then r = - 10 \<and> s' = s \<and> io' = io
     else if md_file_size md = 0 then r = - 11 \<and> s' = s \<and> io' = io
     else if is_done s (md_id md) then r = - 1 \<and> s' = s \<and> io' = io
     else if \<exists>st. sk_streams s (stream_slot md) = Some st \<and> fds_data_size st \<noteq> unat (md_file_size md)
       then r = - 12 \<and> s' = s \<and> io' = io
     else r = 0 \<and> io' = io \<or> r = int (unat (md_id md)) \<and> 0 < r)"
proof -
  obtain s io where s: "sink_run api junk on_store frames (sink_create c, io0) = Some (s, io)" "sink_inv s"
    "sk_chunkSize s = max 50 c"
    using sink_run_inv [OF sink_create_inv [OF assms(1)] assms(2), of junk on_store frames io0]
    by (auto simp: sink_create_def max_def)
  from decode_frame_run [OF s(2) assms(2), of junk on_store io data] s sink_inv_streams show ?thesis
    unfolding s(3) by blast
qed

theorem sink_total_and_codes_witness:
  "\<exists>s io r s' io'. sink_run copy_code Wirehair_Error None [[], replicate 60 1] (sink_create 60, ()) = Some (s, io) \<and>
    decode_frame copy_code Wirehair_Error None s io (replicate 61 1) = Some (r, s', io') \<and> r = - 10"
proof -
  have "recover_fits copy_code" by (simp add: recover_fits_def copy_code_def)
  from sink_total_and_codes [OF _ this, of 60 Wirehair_Error None "[[], replicate 60 1]" "()" "replicate 61 1"]
  show ?thesis by (auto simp: Let_def)
qed

text \<open>The whole transfer into a fresh sink.\<close>

lemma transfer_from_fresh:
  assumes "wirehair_sound api" "wirehair_encoder_create api m p = Some codec"
    "wirehair_decoder_create api (length m) p = Some d" "0 < length m" "length m < 2 ^ 25" "44 \<le> p" "p + 6 < 2 ^ 32"
    and "\<forall>b\<in>set ns. full_block api codec p b \<and> b < 2 ^ 16"
  shows "\<exists>s io'. sink_run api junk (Some f) (map (chunk_of api codec e (length m) p) ns) (sink_create (p + 6), io) = Some (s, io') \<and>
    (if transfer_done api codec p {} d ns
     then io' = snd (f (get_filename (file_md e m)) m io) \<and>
       map_of (sk_done s) (md_id (file_md e m)) = Some (fst (f (get_filename (file_md e m)) m io))
     else io' = io \<and> \<not> is_done s (md_id (file_md e m)))"
proof -
  have u: "uint_sub (p + 6) 6 = p" using uint_sub_le [of 6 "p + 6"] assms(7) by simp
  have "under_way api junk codec e m p d [] (sink_create (p + 6))"
    using assms(3-7) sink_create_inv [of "p + 6"] u
    by (simp add: under_way_def sink_create_def current_stream_def is_done_def Let_def fds_create_wf)
      (simp add: fds_create_def FountainDecoder_create_def fds_data_size_def feed_blocks_def)
  from transfer_run [OF assms(1-5) this assms(8), of f io] show ?thesis
    unfolding feed_blocks_def list.set image_empty fold_simps(1) .
qed

text \<open>C9: a file through the sink. Frames of one file, for any choice of its blocks in any order and
  with any repetitions: the store callback runs exactly when wirehair reports success on the blocks
  taken once each, it gets the bytes of the file and its name, and from then on the file is done;
  before that nothing is stored.\<close>

theorem file_transfer:
  assumes "wirehair_sound api" "wirehair_encoder_create api m p = Some codec"
    "wirehair_decoder_create api (length m) p = Some d" "0 < length m" "length m < 2 ^ 25" "44 \<le> p" "p + 6 < 2 ^ 32"
    and "\<forall>b\<in>set ns. full_block api codec p b \<and> b < 2 ^ 16"
  shows "\<exists>s io'. sink_run api junk (Some f) (map (chunk_of api codec e (length m) p) ns) (sink_create (p + 6), io) = Some (s, io') \<and>
    (if transfer_done api codec p {} d ns
     then io' = snd (f (get_filename (file_md e m)) m io) \<and>
       map_of (sk_done s) (md_id (file_md e m)) = Some (fst (f (get_filename (file_md e m)) m io))
     else io' = io \<and> \<not> is_done s (md_id (file_md e m)))"
  by (rule transfer_from_fresh [OF assms])

text \<open>A code whose every block is the message.\<close>

definition single_code :: "(u8 list, u8 list list) wirehair" where
  "single_code = \<lparr>wirehair_init = Wirehair_Success,
     wirehair_encoder_create = (\<lambda>m p. if length m \<le> p then Some m else None),
     wirehair_encode = (\<lambda>m b p. (Wirehair_Success, m @ replicate (p - length m) 0)),
     wirehair_decoder_create = (\<lambda>n p. Some []),
     wirehair_decode = (\<lambda>d b x. (Wirehair_Success, x # d)),
     wirehair_recover = (\<lambda>d n. (Wirehair_Success, take n (concat d)))\<rparr>"

lemma single_code_sound: "wirehair_sound single_code"
proof -
  have "feed_blocks single_code bs d = rev (map snd bs) @ d" for bs d
    unfolding feed_blocks_def by (induction bs arbitrary: d) (auto simp: single_code_def)
  then show ?thesis unfolding wirehair_sound_def recover_fits_def by (auto simp: single_code_def)
qed

theorem file_transfer_witness:
  "\<exists>s. sink_run single_code Wirehair_Error (Some (\<lambda>name bytes log. (name, log @ [bytes])))
      (map (chunk_of single_code [1, 2, 3] 9 (length [1, 2, 3 :: u8]) 44) [4, 0]) (sink_create (44 + 6), []) =
    Some (s, [[1, 2, 3]])"
proof -
  have f: "\<forall>b\<in>set [4, 0]. full_block single_code [1, 2, 3] 44 b \<and> b < 2 ^ 16"
    by (simp add: full_block_def single_code_def)
  have "transfer_done single_code [1, 2, 3] 44 {} [] [4, 0]" by (simp add: single_code_def)
  then show ?thesis
    using file_transfer [OF single_code_sound _ _ _ _ _ _ f,
        where m = "[1, 2, 3]" and d = "[]" and junk = Wirehair_Error and e = 9 and io = "[]" and
          f = "\<lambda>name bytes log. (name, log @ [bytes])"]
    by (auto simp: single_code_def)
qed

end
