(* ===== verification/FileStore.thy ===== *)
theory FileStore
  imports Prelude
begin

text \<open>
  \<open>ReceivedFileStore.h\<close> and \<open>zstd_header_check.h\<close>: a received file is decompressed into a
  temporary file of the receiving directory and published under a name taken from the sender,
  without ever replacing anything. The directory is a map from names to contents. The operating
  system (which may refuse any call, interrupt or shorten a write) is a record of functions on its
  own state \<open>'w\<close>, the decompressor a record of functions on its state \<open>'z\<close>.
\<close>

type_synonym dir = "string \<Rightarrow> u8 list option"

datatype errno = EEXIST | ENOENT | EINTR | ENOSYS | EINVAL | EOTHER

datatype write_result = Wrote nat | WriteFailed errno

record 'w os =
  os_mkstemp :: "'w \<Rightarrow> dir \<Rightarrow> string option \<times> 'w"
  os_write :: "'w \<Rightarrow> nat \<Rightarrow> write_result \<times> 'w"
  os_fsync :: "'w \<Rightarrow> bool \<times> 'w"
  os_close :: "'w \<Rightarrow> bool \<times> 'w"
  os_refuse :: "'w \<Rightarrow> string \<Rightarrow> errno option \<times> 'w"

record 'z zstd =
  ZSTD_isSkippableFrame :: "u8 list \<Rightarrow> bool"
  ZSTD_readSkippableFrame :: "u8 list \<Rightarrow> nat \<Rightarrow> nat \<times> u8 list"
  ZSTD_isError :: "nat \<Rightarrow> bool"
  ZSTD_createDStream :: "'z option"
  ZSTD_decompressStream :: "'z \<Rightarrow> u8 list \<Rightarrow> nat \<Rightarrow> nat \<times> nat \<times> u8 list \<times> 'z"

section \<open>Names\<close>

text \<open>\<open>substr(find_last_of(set) + 1)\<close> when the set occurs; \<open>split_last\<close> cuts before the last one.\<close>

fun after_last :: "char set \<Rightarrow> string \<Rightarrow> string" where
  "after_last cs [] = []"
| "after_last cs (x # xs) = (if (\<exists>c\<in>set xs. c \<in> cs) then after_last cs xs else if x \<in> cs then xs else x # xs)"

fun split_last :: "char \<Rightarrow> string \<Rightarrow> string \<times> string" where
  "split_last c [] = ([], [])"
| "split_last c (x # xs) = (if c \<in> set xs \<or> x \<noteq> c then (x # fst (split_last c xs), snd (split_last c xs)) else ([], x # xs))"

definition bytes_to_string :: "u8 list \<Rightarrow> string" where
  "bytes_to_string = map (\<lambda>b. char_of (unat b))"

definition is_control :: "char \<Rightarrow> bool" where
  "is_control c \<longleftrightarrow> of_char c < (32 :: nat) \<or> of_char c = (127 :: nat)"

text \<open>\<open>std::to_string\<close> of a small number.\<close>

fun to_string :: "nat \<Rightarrow> string" where
  "to_string n = (if n < 10 then [char_of (48 + n)] else to_string (n div 10) @ [char_of (48 + n mod 10)])"

declare to_string.simps [simp del]

definition header_name :: "'z zstd \<Rightarrow> u8 list \<Rightarrow> string" where
  "header_name z compressed =
     (if ZSTD_isSkippableFrame z compressed then
        let (n, got) = ZSTD_readSkippableFrame z compressed 1024;
            header = take 1024 got @ replicate (1024 - length got) 0
        in if \<not> ZSTD_isError z n \<and> n > 1 \<and> n \<le> 1024 \<and> header ! 0 = 1
           then bytes_to_string (take (n - 1) (drop 1 header)) else []
      else [])"

definition received_name :: "'z zstd \<Rightarrow> string \<Rightarrow> u8 list \<Rightarrow> string" where
  "received_name z fallback compressed =
     (let name = header_name z compressed;
          name = (if \<exists>c\<in>set name. c \<in> {CHR ''/'', CHR 0x5C} then after_last {CHR ''/'', CHR 0x5C} name else name);
          name = filter (\<lambda>c. \<not> is_control c) name;
          name = (if name = [] \<or> name = ''.'' \<or> name = ''..'' \<or> length name > 220 then ''received-'' @ fallback else name)
      in if hd name = CHR ''.'' then CHR ''_'' # name else name)"

definition candidate :: "string \<Rightarrow> nat \<Rightarrow> string" where
  "candidate name i = (let (stem, ext) = split_last (CHR ''.'') name
     in if i = 0 then name else stem @ '' ('' @ to_string i @ '')'' @ ext)"

section \<open>Publishing\<close>

text \<open>Link, or on Android a rename that does not replace, with the fallback for old kernels: the
  destination is looked up and the file renamed, under a lock.\<close>

definition publish_received_file :: "'w os \<Rightarrow> bool \<Rightarrow> 'w \<Rightarrow> dir \<Rightarrow> string \<Rightarrow> string \<Rightarrow> (errno + dir) \<times> 'w" where
  "publish_received_file os android w d src dst =
     (let (refused, w) = os_refuse os w dst in
      if \<not> android then
        (case refused of Some e \<Rightarrow> (Inl e, w)
         | None \<Rightarrow> if d dst \<noteq> None then (Inl EEXIST, w)
                   else if d src = None then (Inl ENOENT, w) else (Inr (d(dst := d src)), w))
      else
        (case (if refused \<noteq> None then refused else if d dst \<noteq> None then Some EEXIST
               else if d src = None then Some ENOENT else None) of
           None \<Rightarrow> (Inr (d(dst := d src, src := None)), w)
         | Some e \<Rightarrow>
             if e \<noteq> ENOSYS \<and> e \<noteq> EINVAL then (Inl e, w)
             else if d dst \<noteq> None then (Inl EEXIST, w)
             else let (refused, w) = os_refuse os w dst in
               (case refused of Some e \<Rightarrow> (Inl e, w)
                | None \<Rightarrow> if d src = None then (Inl ENOENT, w) else (Inr (d(dst := d src, src := None)), w))))"

section \<open>Storing\<close>

text \<open>The write loop: interrupted calls are repeated, short ones continued. It may not end.\<close>

partial_function (option) write_out ::
  "'w os \<Rightarrow> 'w \<Rightarrow> u8 list \<Rightarrow> u8 list \<Rightarrow> (bool \<times> u8 list \<times> 'w) option" where
  "write_out os w file data =
     (if length data > 0 then
        case os_write os w (length data) of
          (WriteFailed e, w') \<Rightarrow> if e = EINTR then write_out os w' file data else Some (False, file, w')
        | (Wrote n, w') \<Rightarrow> if n = 0 then Some (False, file, w')
            else write_out os w' (file @ take n data) (drop n data)
      else Some (True, file, w))"

text \<open>The decompression loop over the rest of the input; \<open>remaining\<close> is the last result.\<close>

partial_function (option) inflate ::
  "'z zstd \<Rightarrow> 'w os \<Rightarrow> 'z \<Rightarrow> 'w \<Rightarrow> u8 list \<Rightarrow> nat \<Rightarrow> nat \<Rightarrow> u8 list \<Rightarrow> (bool \<times> nat \<times> u8 list \<times> 'w) option" where
  "inflate z os s w input remaining written file =
     (if length input > 0 then
        case ZSTD_decompressStream z s input (128 * 1024) of (remaining, used, output, s) \<Rightarrow>
          (if ZSTD_isError z remaining \<or> written + length output > 512 * 1024 * 1024 \<or>
              (used = 0 \<and> length output = 0) then Some (False, remaining, file, w)
           else Option.bind (write_out os w file output)
             (\<lambda>(good, file, w). if \<not> good then Some (False, remaining, file, w)
               else inflate z os s w (drop used input) remaining (written + length output) file))
      else Some (True, remaining, file, w))"

text \<open>The search for a free name: up to 10000 candidates, given up at any error but \<open>EEXIST\<close>.\<close>

fun publish_as :: "'w os \<Rightarrow> bool \<Rightarrow> 'w \<Rightarrow> dir \<Rightarrow> string \<Rightarrow> string \<Rightarrow> nat list \<Rightarrow> string \<times> dir \<times> 'w" where
  "publish_as os android w d temp name [] = ([], d, w)"
| "publish_as os android w d temp name (i # is) =
     (case publish_received_file os android w d temp (candidate name i) of
        (Inr d', w') \<Rightarrow> (candidate name i, d', w')
      | (Inl e, w') \<Rightarrow> if e \<noteq> EEXIST then ([], d, w') else publish_as os android w' d temp name is)"

definition store_received_file ::
  "'z zstd \<Rightarrow> 'w os \<Rightarrow> bool \<Rightarrow> string \<Rightarrow> u8 list \<Rightarrow> dir \<Rightarrow> 'w \<Rightarrow> (string \<times> dir \<times> 'w) option" where
  "store_received_file z os android fallback compressed d w =
     (let name = received_name z fallback compressed in
      case os_mkstemp os w d of (None, w) \<Rightarrow> Some ([], d, w)
      | (Some temp, w) \<Rightarrow> do {
          (good, remaining, file, w) \<leftarrow> (case ZSTD_createDStream z of None \<Rightarrow> Some (False, 1, [], w)
             | Some s \<Rightarrow> inflate z os s w compressed 1 0 []);
          let d = d(temp \<mapsto> file);
          let (good, w) = (if good \<and> remaining = 0 then os_fsync os w else (False, w));
          let (closed, w) = os_close os w;
          let good = (good \<and> closed);
          let (result, d, w) = (if good then publish_as os android w d temp name [0..<10000] else ([], d, w));
          Some (result, d(temp := None), w)
        })"

text \<open>\<open>zstd_header_check::get_filename\<close>.\<close>

definition zstd_get_filename :: "'z zstd \<Rightarrow> u8 list \<Rightarrow> string" where
  "zstd_get_filename z data =
     (if \<not> ZSTD_isSkippableFrame z data then []
      else let (sz, got) = ZSTD_readSkippableFrame z data 500;
               res = take 500 got @ replicate (500 - length got) 0
        in if sz \<le> 1 then [] else if res ! 0 = 1 then bytes_to_string (take (sz - 1) (drop 1 res)) else [])"

section \<open>Names are safe\<close>

definition plain :: "string \<Rightarrow> bool" where
  "plain s \<longleftrightarrow> (\<forall>c\<in>set s. c \<noteq> CHR ''/'' \<and> c \<noteq> CHR 0x5C \<and> \<not> is_control c)"

definition safe_name :: "string \<Rightarrow> bool" where
  "safe_name s \<longleftrightarrow> s \<noteq> [] \<and> plain s \<and> hd s \<noteq> CHR ''.''"

lemma plain_simps [simp]:
  "plain []" "plain (c # s) \<longleftrightarrow> c \<noteq> CHR ''/'' \<and> c \<noteq> CHR 0x5C \<and> \<not> is_control c \<and> plain s"
  "plain (s @ t) \<longleftrightarrow> plain s \<and> plain t"
  by (auto simp: plain_def)

lemma not_control [simp]: "n < 256 \<Longrightarrow> is_control (char_of n) \<longleftrightarrow> n < 32 \<or> n = (127 :: nat)"
  by (simp add: is_control_def)

lemma after_last_no: "\<forall>c\<in>set (after_last cs s). c \<notin> cs"
  by (induction s) auto

lemma after_last_subset: "set (after_last cs s) \<subseteq> set s"
  by (induction s) auto

lemma split_last_append: "fst (split_last c s) @ snd (split_last c s) = s"
  by (induction s) auto

lemma split_last_fst: "fst (split_last c s) = [] \<Longrightarrow> s = [] \<or> hd s = c"
  by (cases s) (auto split: if_splits)

lemma plain_digit: "n < 10 \<Longrightarrow> plain [char_of (48 + n :: nat)]"
proof -
  assume n: "n < 10"
  have c: "of_char (char_of (48 + n) :: char) = 48 + n" using n by (simp add: take_bit_eq_mod)
  have "char_of (48 + n) \<noteq> CHR ''/''"
  proof
    assume e: "char_of (48 + n) = CHR ''/''"
    show False using c unfolding e by simp
  qed
  moreover have "char_of (48 + n) \<noteq> CHR 0x5C"
  proof
    assume e: "char_of (48 + n) = CHR 0x5C"
    show False using c n unfolding e by simp
  qed
  ultimately show ?thesis using n by simp
qed

lemma plain_to_string [simp]: "plain (to_string n)"
proof (induction n rule: to_string.induct)
  case (1 n)
  then show ?case using plain_digit [of n] plain_digit [of "n mod 10"]
    by (subst to_string.simps) auto
qed

lemma plain_received: "plain fallback \<Longrightarrow> plain (''received-'' @ fallback)"
  by (simp add: is_control_def)

lemma received_name_safe:
  assumes "plain fallback"
  shows "safe_name (received_name z fallback compressed)"
proof -
  define raw where "raw = header_name z compressed"
  define cut where "cut = (if \<exists>c\<in>set raw. c \<in> {CHR ''/'', CHR 0x5C} then after_last {CHR ''/'', CHR 0x5C} raw else raw)"
  define f where "f = filter (\<lambda>c. \<not> is_control c) cut"
  define name where "name = (if f = [] \<or> f = ''.'' \<or> f = ''..'' \<or> length f > 220 then ''received-'' @ fallback else f)"
  have "\<forall>c\<in>set cut. c \<notin> {CHR ''/'', CHR 0x5C}"
    using after_last_no [of "{CHR ''/'', CHR 0x5C}" raw] by (auto simp: cut_def)
  then have "plain f" by (auto simp: plain_def f_def)
  then have "plain name" "name \<noteq> []" using plain_received [OF assms] by (auto simp: name_def simp del: plain_simps)
  moreover have "\<not> is_control (CHR ''_'')" by (simp add: is_control_def)
  moreover have "received_name z fallback compressed = (if hd name = CHR ''.'' then CHR ''_'' # name else name)"
    unfolding received_name_def Let_def name_def f_def cut_def raw_def ..
  ultimately show ?thesis unfolding safe_name_def by simp
qed

lemma candidate_safe:
  assumes "safe_name name"
  shows "safe_name (candidate name i)"
proof (cases "i = 0")
  case True
  then show ?thesis using assms by (simp add: candidate_def split_beta)
next
  case False
  let ?a = "fst (split_last (CHR ''.'') name)" and ?b = "snd (split_last (CHR ''.'') name)"
  have p: "plain ?a" "plain ?b" using assms split_last_append [of "CHR ''.''" name] by (metis plain_simps(3) safe_name_def)+
  have a: "?a \<noteq> []" using split_last_fst [of "CHR ''.''" name] assms by (auto simp: safe_name_def)
  have "hd name = hd (?a @ ?b)" by (simp only: split_last_append)
  then have "hd ?a = hd name" using a by simp
  then show ?thesis using False p a assms by (simp add: candidate_def split_beta safe_name_def is_control_def)
qed

section \<open>Nothing is replaced\<close>

text \<open>The temporary file is new and hidden.\<close>

definition mkstemp_ok :: "'w os \<Rightarrow> bool" where
  "mkstemp_ok os \<longleftrightarrow> (\<forall>w d t w'. os_mkstemp os w d = (Some t, w') \<longrightarrow> d t = None \<and> t \<noteq> [] \<and> hd t = CHR ''.'')"

lemma publish_Inr:
  assumes "publish_received_file os android w d src dst = (Inr d', w')" "d src = Some file" "src \<noteq> dst"
  shows "d dst = None" "n \<noteq> src \<Longrightarrow> d' n = (d(dst \<mapsto> file)) n"
  using assms by (auto simp: publish_received_file_def Let_def split_beta split: if_splits option.splits)

lemma publish_as_result:
  assumes "publish_as os android w d temp name is = (result, d', w')" "d temp = Some file" "hd temp = CHR ''.''"
    and "safe_name name"
  shows "if result = [] then d' = d
    else safe_name result \<and> d result = None \<and> (\<forall>n. n \<noteq> temp \<longrightarrow> d' n = (d(result \<mapsto> file)) n) \<and>
      (\<exists>i\<in>set is. result = candidate name i)"
  using assms(1)
proof (induction "is" arbitrary: w)
  case (Cons i "is")
  have ne: "temp \<noteq> candidate name i" "candidate name i \<noteq> []"
    using candidate_safe [OF assms(4), of i] assms(3) by (auto simp: safe_name_def)
  show ?case
  proof (cases "publish_received_file os android w d temp (candidate name i)")
    case (Pair r w1)
    show ?thesis
    proof (cases r)
      case (Inl e)
      then show ?thesis using Cons.IH [of w1] Cons.prems Pair by (cases "e = EEXIST") simp_all
    next
      case (Inr d1)
      then have p: "publish_received_file os android w d temp (candidate name i) = (Inr d1, w1)" using Pair by simp
      have "d (candidate name i) = None" "\<And>n. n \<noteq> temp \<Longrightarrow> d1 n = (d(candidate name i \<mapsto> file)) n"
        using publish_Inr [OF p assms(2) ne(1)] by blast+
      then show ?thesis using Cons.prems Pair Inr ne candidate_safe [OF assms(4), of i] by auto
    qed
  qed
qed simp

section \<open>What is stored\<close>

text \<open>The reference: the decompressed file, if the input decompresses to the end of a frame.\<close>

partial_function (option) unzip :: "'z zstd \<Rightarrow> 'z \<Rightarrow> u8 list \<Rightarrow> nat \<Rightarrow> u8 list \<Rightarrow> u8 list option" where
  "unzip z s input remaining acc =
     (if length input > 0 then
        case ZSTD_decompressStream z s input (128 * 1024) of (remaining, used, output, s) \<Rightarrow>
          (if ZSTD_isError z remaining \<or> (used = 0 \<and> length output = 0) then None
           else unzip z s (drop used input) remaining (acc @ output))
      else if remaining = 0 then Some acc else None)"

lemma write_out_content:
  assumes "write_out os w file data = Some r"
  shows "fst r \<longrightarrow> fst (snd r) = file @ data"
proof (rule write_out.raw_induct [where P = "\<lambda>os w fl data r. fst r \<longrightarrow> fst (snd r) = fl @ data", OF _ assms])
  fix wo and os :: "'a os" and w fl data r
  assume IH: "\<And>os w fl data r. wo os w fl data = Some r \<Longrightarrow> fst r \<longrightarrow> fst (snd r) = fl @ data"
    and run: "(if 0 < length data then case os_write os w (length data) of
        (Wrote n, w') \<Rightarrow> if n = 0 then Some (False, fl, w') else wo os w' (fl @ take n data) (drop n data)
      | (WriteFailed e, w') \<Rightarrow> if e = EINTR then wo os w' fl data else Some (False, fl, w')
      else Some (True, fl, w)) = Some r"
  show "fst r \<longrightarrow> fst (snd r) = fl @ data"
  proof (cases "0 < length data")
    case True
    obtain res w' where ow: "os_write os w (length data) = (res, w')" by fastforce
    show ?thesis
    proof (cases res)
      case (WriteFailed e)
      then show ?thesis using run ow True IH [of os w' fl data r] by (auto split: if_splits)
    next
      case (Wrote n)
      show ?thesis
      proof (cases "n = 0")
        case False
        then have "wo os w' (fl @ take n data) (drop n data) = Some r" using run ow True Wrote by simp
        from IH [OF this] show ?thesis by simp
      qed (use run ow True Wrote in auto)
    qed
  qed (use run in auto)
qed

lemma inflate_turn:
  fixes os :: "'w os" and z :: "'z zstd"
  assumes run: "(if length input > 0 then
      case ZSTD_decompressStream z s input (128 * 1024) of (remaining, used, output, s) \<Rightarrow>
        (if ZSTD_isError z remaining \<or> written + length output > 512 * 1024 * 1024 \<or>
            (used = 0 \<and> length output = 0) then Some (False, remaining, fl, w)
         else Option.bind (write_out os w fl output)
           (\<lambda>(good, file, w). if \<not> good then Some (False, remaining, file, w)
             else fn z os s w (drop used input) remaining (written + length output) file))
      else Some (True, remaining, fl, w)) = Some r"
    and IH: "\<And>s w input remaining written fl. fn z os s w input remaining written fl = Some r \<Longrightarrow>
      written = length fl \<Longrightarrow> length fl \<le> 512 * 1024 * 1024 \<Longrightarrow> fst r \<Longrightarrow> fst (snd r) = 0 \<Longrightarrow>
      unzip z s input remaining fl = Some (fst (snd (snd r))) \<and> length (fst (snd (snd r))) \<le> 512 * 1024 * 1024"
    and len: "written = length fl" "length fl \<le> 512 * 1024 * 1024" and ok: "fst r" "fst (snd r) = 0"
  shows "unzip z s input remaining fl = Some (fst (snd (snd r))) \<and> length (fst (snd (snd r))) \<le> 512 * 1024 * 1024"
proof (cases "0 < length input")
  case True
  obtain rem used out s' where ds: "ZSTD_decompressStream z s input (128 * 1024) = (rem, used, out, s')"
    by (metis prod_cases4)
  have fine: "\<not> (ZSTD_isError z rem \<or> written + length out > 512 * 1024 * 1024 \<or> (used = 0 \<and> length out = 0))"
    using run ds True ok by auto
  obtain good f' w' where wo: "write_out os w fl out = Some (good, f', w')"
    using run ds True fine by (cases "write_out os w fl out") auto
  have good: good using run ds True fine wo ok by (auto split: if_splits)
  have f': "f' = fl @ out" using write_out_content [OF wo] good by simp
  have "fn z os s' w' (drop used input) rem (written + length out) f' = Some r"
    using run ds True fine wo good by (auto split: if_splits)
  from IH [OF this] have "unzip z s' (drop used input) rem f' = Some (fst (snd (snd r))) \<and>
      length (fst (snd (snd r))) \<le> 512 * 1024 * 1024"
    using len fine f' ok by simp
  moreover have "unzip z s input remaining fl = unzip z s' (drop used input) rem (fl @ out)"
    using ds True fine by (subst unzip.simps) auto
  ultimately show ?thesis unfolding f' by simp
next
  case False
  then have "r = (True, remaining, fl, w)" using run by simp
  moreover from this have "unzip z s input remaining fl = Some fl" using False ok by (subst unzip.simps) simp
  ultimately show ?thesis using len by simp
qed

lemma inflate_content:
  fixes os :: "'w os" and z :: "'z zstd"
  assumes "inflate z os s w input remaining written fl = Some r" "written = length fl" "length fl \<le> 512 * 1024 * 1024"
  shows "fst r \<longrightarrow> fst (snd r) = 0 \<longrightarrow> unzip z s input remaining fl = Some (fst (snd (snd r))) \<and>
    length (fst (snd (snd r))) \<le> 512 * 1024 * 1024"
proof -
  let ?max = "512 * 1024 * 1024 :: nat"
  let ?P = "\<lambda>z (os :: 'w os) s w input remaining written fl r. written = length fl \<longrightarrow> length fl \<le> ?max \<longrightarrow> fst r \<longrightarrow> fst (snd r) = 0 \<longrightarrow>
    unzip z s input remaining fl = Some (fst (snd (snd r))) \<and> length (fst (snd (snd r))) \<le> ?max"
  have "?P z os s w input remaining written fl r"
  proof (rule inflate.raw_induct [where P = ?P, OF _ assms(1)])
    fix fn and z :: "'z zstd" and os :: "'w os" and s w input remaining written fl r
    assume IH: "\<And>z os s w input remaining written fl r. fn z os s w input remaining written fl = Some r \<Longrightarrow> ?P z os s w input remaining written fl r"
      and run: "(if length input > 0 then
        case ZSTD_decompressStream z s input (128 * 1024) of (remaining, used, output, s) \<Rightarrow>
          (if ZSTD_isError z remaining \<or> written + length output > 512 * 1024 * 1024 \<or>
              (used = 0 \<and> length output = 0) then Some (False, remaining, fl, w)
           else Option.bind (write_out os w fl output)
             (\<lambda>(good, file, w). if \<not> good then Some (False, remaining, file, w)
               else fn z os s w (drop used input) remaining (written + length output) file))
        else Some (True, remaining, fl, w)) = Some r"
    show "?P z os s w input remaining written fl r"
    proof (intro impI)
      assume len: "written = length fl" "length fl \<le> ?max" and ok: "fst r" "fst (snd r) = 0"
      show "unzip z s input remaining fl = Some (fst (snd (snd r))) \<and> length (fst (snd (snd r))) \<le> ?max"
        by (rule inflate_turn [where fn = fn and z = z and os = os and s = s and w = w and input = input and
              remaining = remaining and written = written and fl = fl and r = r, OF run _ len ok])
          (use IH in blast)
    qed
  qed
  then show ?thesis using assms(2,3) by blast
qed

lemma store_received_file_result:
  assumes "mkstemp_ok os" "plain fallback"
    and "store_received_file z os android fallback compressed d w = Some (result, d', w')"
  shows "if result = [] then d' = d
    else safe_name result \<and> d result = None \<and> (\<exists>s content. ZSTD_createDStream z = Some s \<and>
      unzip z s compressed 1 [] = Some content \<and> length content \<le> 512 * 1024 * 1024 \<and> d' = d(result \<mapsto> content))"
proof -
  let ?name = "received_name z fallback compressed"
  show ?thesis
  proof (cases "os_mkstemp os w d")
    case (Pair t w1)
    show ?thesis
    proof (cases t)
      case None
      then show ?thesis using assms(3) Pair by (simp add: store_received_file_def Let_def)
    next
      case (Some temp)
      have temp: "d temp = None" "hd temp = CHR ''.''" using assms(1) Pair Some by (auto simp: mkstemp_ok_def)
      obtain good remaining fl w2 where inf: "(case ZSTD_createDStream z of None \<Rightarrow> Some (False, 1, [], w1)
             | Some s \<Rightarrow> inflate z os s w1 compressed 1 0 []) = Some (good, remaining, fl, w2)"
        using assms(3) Pair Some by (auto simp: store_received_file_def Let_def bind_eq_Some_conv)
      obtain good' w3 where fs: "(if good \<and> remaining = 0 then os_fsync os w2 else (False, w2)) = (good', w3)" by fastforce
      obtain closed w4 where cl: "os_close os w3 = (closed, w4)" by fastforce
      obtain res d2 w5 where pub: "(if good' \<and> closed then publish_as os android w4 (d(temp \<mapsto> fl)) temp ?name [0..<10000]
          else ([], d(temp \<mapsto> fl), w4)) = (res, d2, w5)" by (metis prod_cases3)
      have r: "result = res" "d' = d2(temp := None)"
        using assms(3) Pair Some inf fs cl pub by (simp_all add: store_received_file_def Let_def)
      have undo: "(d(temp \<mapsto> fl))(temp := None) = d" using temp(1) by (auto simp: fun_eq_iff)
      show ?thesis
      proof (cases "res = []")
        case True
        have "d2 = d(temp \<mapsto> fl)"
        proof (cases "good' \<and> closed")
          case True
          with pub have "publish_as os android w4 (d(temp \<mapsto> fl)) temp ?name [0..<10000] = (res, d2, w5)" by simp
          from publish_as_result [OF this _ temp(2) received_name_safe [OF assms(2)], of fl] \<open>res = []\<close>
          show ?thesis by simp
        qed (use pub in auto)
        then show ?thesis using True undo r by simp
      next
        case False
        then have gc: "good'" "closed" "publish_as os android w4 (d(temp \<mapsto> fl)) temp ?name [0..<10000] = (res, d2, w5)"
          using pub by (auto split: if_splits)
        from publish_as_result [OF gc(3) _ temp(2) received_name_safe [OF assms(2)], of fl] False
        have p: "safe_name res" "(d(temp \<mapsto> fl)) res = None" "\<forall>n. n \<noteq> temp \<longrightarrow> d2 n = (d(temp \<mapsto> fl, res \<mapsto> fl)) n" by auto
        have ne: "res \<noteq> temp" using p(1) temp(2) by (auto simp: safe_name_def)
        have "good" "remaining = 0" using fs gc(1) by (auto split: if_splits)
        then obtain s where s: "ZSTD_createDStream z = Some s" "inflate z os s w1 compressed 1 0 [] = Some (True, 0, fl, w2)"
          using inf by (auto split: option.splits)
        have "d2(temp := None) = d(res \<mapsto> fl)" using p(3) temp(1) ne by (auto simp: fun_eq_iff)
        then show ?thesis using False r p(1,2) ne s(1) inflate_content [OF s(2)] by auto
      qed
    qed
  qed
qed

text \<open>C16: storing a received file, for every content, decompressor and operating system. If it
  reports no name, the directory is as before. If it reports a name, that name was free, is a plain
  file name of this directory (no separator, no control character, not hidden), holds exactly the
  decompressed content of at most 512 MB, and every other entry is as before.\<close>

theorem store_received_file_safe:
  assumes "mkstemp_ok os" "plain fallback"
    and "store_received_file z os android fallback compressed d w = Some (result, d', w')"
  shows "if result = [] then d' = d
    else safe_name result \<and> d result = None \<and> (\<exists>s content. ZSTD_createDStream z = Some s \<and>
      unzip z s compressed 1 [] = Some content \<and> length content \<le> 512 * 1024 * 1024 \<and> d' = d(result \<mapsto> content))"
  by (rule store_received_file_result [OF assms])


definition plain_os :: "unit os" where
  "plain_os = \<lparr>os_mkstemp = (\<lambda>w d. (if d ''.incoming'' = None then Some ''.incoming'' else None, w)),
     os_write = (\<lambda>w n. (Wrote n, w)), os_fsync = (\<lambda>w. (True, w)), os_close = (\<lambda>w. (True, w)),
     os_refuse = (\<lambda>w _. (None, w))\<rparr>"

definition stored_zstd :: "unit zstd" where
  "stored_zstd = \<lparr>ZSTD_isSkippableFrame = (\<lambda>_. False), ZSTD_readSkippableFrame = (\<lambda>_ _. (0, [])),
     ZSTD_isError = (\<lambda>_. False), ZSTD_createDStream = Some (),
     ZSTD_decompressStream = (\<lambda>_ input n. (0, length input, input, ()))\<rparr>"

lemma store_example:
  "store_received_file stored_zstd plain_os False ''5'' [7, 8] Map.empty () =
     Some (''received-5'', [''received-5'' \<mapsto> [7, 8]], ())"
proof -
  have w: "write_out plain_os () f [7, 8] = Some (True, f @ [7, 8], ())" for f
    by (subst write_out.simps, simp add: plain_os_def, subst write_out.simps, simp)
  have i: "inflate stored_zstd plain_os () () [7, 8] 1 0 [] = Some (True, 0, [7, 8], ())"
    by (subst inflate.simps, simp add: stored_zstd_def w, subst inflate.simps, simp)
  have n: "received_name stored_zstd ''5'' [7, 8] = ''received-5''"
    by (simp add: received_name_def header_name_def stored_zstd_def)
  have p: "publish_as plain_os False () [''.incoming'' \<mapsto> [7, 8]] ''.incoming'' ''received-5'' [0..<10000] =
      (''received-5'', [''.incoming'' \<mapsto> [7, 8], ''received-5'' \<mapsto> [7, 8]], ())"
    by (subst upt_conv_Cons) (simp_all add: publish_received_file_def plain_os_def candidate_def split_beta)
  have e: "[''.incoming'' \<mapsto> [7, 8 :: u8], ''received-5'' \<mapsto> [7, 8]](''.incoming'' := None) = [''received-5'' \<mapsto> [7, 8]]"
    by (auto simp: fun_eq_iff)
  show ?thesis
    unfolding store_received_file_def n using i p e
    by (simp add: plain_os_def [THEN arg_cong [where f = os_mkstemp]] plain_os_def [THEN arg_cong [where f = os_fsync]]
        plain_os_def [THEN arg_cong [where f = os_close]] stored_zstd_def [THEN arg_cong [where f = ZSTD_createDStream]])
qed

theorem store_received_file_safe_witness:
  "let d = (Map.empty :: dir) in safe_name ''received-5'' \<and> d ''received-5'' = None \<and>
    (\<exists>s content. ZSTD_createDStream stored_zstd = Some s \<and> unzip stored_zstd s [7, 8] 1 [] = Some content \<and>
      length content \<le> 512 * 1024 * 1024 \<and> [''received-5'' \<mapsto> [7, 8]] = d(''received-5'' \<mapsto> content))"
  using store_received_file_safe [of plain_os "''5''", OF _ _ store_example]
  by (simp add: mkstemp_ok_def plain_os_def is_control_def Let_def)

end
