(* ===== verification/ObservedSink.thy ===== *)
theory ObservedSink
  imports FountainSink FileStore
begin

text \<open>
  \<open>ObservedFountainSink.h\<close>: the sink of the receiver, which takes whole batches of frames, stores
  finished files with \<open>store_received_file\<close>, and keeps a status and a queue of file names for the
  user interface. The state the store callback works on is \<open>None\<close> once a store does not return.
\<close>

record TransferSnapshot =
  ts_uniqueBytes :: u64
  ts_received :: nat
  ts_total :: nat
  ts_streams :: nat
  ts_completed :: nat
  ts_errors :: nat
  ts_finishing :: bool

record 'w observed =
  ob_status :: TransferSnapshot
  ob_events :: "string list"
  ob_dir :: dir
  ob_os :: 'w

type_synonym ('d, 'w) ObservedFountainSink = "'d fountain_decoder_sink \<times> 'w observed"

definition observed_create :: "nat \<Rightarrow> dir \<Rightarrow> 'w \<Rightarrow> ('d, 'w) ObservedFountainSink" where
  "observed_create chunk_size directory w = (sink_create chunk_size,
     \<lparr>ob_status = \<lparr>ts_uniqueBytes = 0, ts_received = 0, ts_total = 0, ts_streams = 0, ts_completed = 0,
        ts_errors = 0, ts_finishing = False\<rparr>, ob_events = [], ob_dir = directory, ob_os = w\<rparr>)"

definition observed_on_store :: "'z zstd \<Rightarrow> 'w os \<Rightarrow> bool \<Rightarrow> string \<Rightarrow> u8 list \<Rightarrow> 'w observed option \<Rightarrow> string \<times> 'w observed option" where
  "observed_on_store z os android fallback bytes io0 =
     (case io0 of None \<Rightarrow> ([], None)
      | Some s \<Rightarrow>
        let s = s\<lparr>ob_status := (ob_status s)\<lparr>ts_finishing := True\<rparr>\<rparr> in
        (case store_received_file z os android fallback bytes (ob_dir s) (ob_os s) of
           None \<Rightarrow> ([], None)
         | Some (name, d, w) \<Rightarrow>
             let status = (ob_status s)\<lparr>ts_finishing := False\<rparr> in
             (name, Some (if name = []
                then s\<lparr>ob_status := status\<lparr>ts_errors := uint_add (ts_errors status) 1\<rparr>, ob_dir := d, ob_os := w\<rparr>
                else s\<lparr>ob_status := status\<lparr>ts_completed := uint_add (ts_completed status) 1\<rparr>,
                       ob_events := ob_events s @ [name], ob_dir := d, ob_os := w\<rparr>))))"

definition slot_progress :: "'d fountain_decoder_sink \<Rightarrow> nat \<Rightarrow> nat \<Rightarrow> nat" where
  "slot_progress s slot dflt = (case sk_streams s slot of None \<Rightarrow> dflt | Some st \<Rightarrow> fds_progress st)"

definition observed_frame ::
  "('e, 'd) wirehair \<Rightarrow> WirehairResult \<Rightarrow> 'io on_store \<Rightarrow> u8 list \<Rightarrow>
   'd fountain_decoder_sink \<times> 'io \<times> nat \<Rightarrow> ('d fountain_decoder_sink \<times> 'io \<times> nat) option" where
  "observed_frame api junk on_store data = (\<lambda>(s, io, added). do {
     md \<leftarrow> md_of_buffer (\<lambda>_. 0) data (sk_chunkSize s);
     (if md_file_size md = 0 \<or> is_done s (md_id md) then Some (s, io, added)
      else do {
        let before = slot_progress s (stream_slot md) 0;
        (result, s, io) \<leftarrow> decode_frame api junk on_store s io data;
        let after = slot_progress s (stream_slot md) before;
        Some (s, io, if result > 0 \<or> after > before then added + uint_sub (sk_chunkSize s) 6 else added)
      })
   })"

definition stream_received :: "'d fountain_decoder_stream \<Rightarrow> nat" where
  "stream_received st = min (fds_data_size st) (fds_progress st * fds_block_size st)"

text \<open>The sum over the unordered map is taken slot by slot.\<close>

definition stream_sum :: "('d fountain_decoder_stream \<Rightarrow> nat) \<Rightarrow> 'd fountain_decoder_sink \<Rightarrow> nat" where
  "stream_sum f s = (\<Sum>slot\<leftarrow>[0..<8]. case sk_streams s slot of None \<Rightarrow> 0 | Some st \<Rightarrow> f st)"

definition observed_write ::
  "('e, 'd) wirehair \<Rightarrow> WirehairResult \<Rightarrow> 'z zstd \<Rightarrow> 'w os \<Rightarrow> bool \<Rightarrow> ('d, 'w) ObservedFountainSink \<Rightarrow> u8 list \<Rightarrow>
   (bool \<times> ('d, 'w) ObservedFountainSink) option" where
  "observed_write api junk z os android ob data =
     (let (s, io) = ob; chunk = sk_chunkSize s in
      if length data mod chunk \<noteq> 0 then Some (False, s, io)
      else do {
        (s, io, added) \<leftarrow> for_each [0..<length data div chunk]
          (\<lambda>i. observed_frame api junk (Some (observed_on_store z os android)) (take chunk (drop (i * chunk) data)))
          (s, Some io, 0);
        io \<leftarrow> io;
        Some (True, s, io\<lparr>ob_status := (ob_status io)
          \<lparr>ts_uniqueBytes := ts_uniqueBytes (ob_status io) + of_nat added,
           ts_received := stream_sum stream_received s, ts_total := stream_sum fds_data_size s,
           ts_streams := num_streams s\<rparr>\<rparr>)
      })"

definition observed_snapshot :: "('d, 'w) ObservedFountainSink \<Rightarrow> TransferSnapshot" where
  "observed_snapshot ob = ob_status (snd ob)"

definition observed_poll :: "('d, 'w) ObservedFountainSink \<Rightarrow> string \<times> ('d, 'w) ObservedFountainSink" where
  "observed_poll ob = (case ob_events (snd ob) of [] \<Rightarrow> ([], ob)
     | name # rest \<Rightarrow> (name, fst ob, (snd ob)\<lparr>ob_events := rest\<rparr>))"

section \<open>The status agrees with the sink\<close>

lemma update_new: "i \<notin> fst ` set al \<Longrightarrow> AList.update i v al = al @ [(i, v)]"
  by (induction al) auto

lemma is_done_set: "is_done s i \<longleftrightarrow> i \<in> fst ` set (sk_done s)"
  by (auto simp: is_done_def map_of_eq_None_iff)

lemma decode_frame_stores:
  assumes "decode_frame api junk (Some f) s io data = Some (r, s', io')"
  shows "sk_done s' = sk_done s \<and> io' = io \<or>
    (\<exists>md bytes. \<not> is_done s (md_id md) \<and> io' = snd (f (get_filename md) bytes io) \<and>
      sk_done s' = sk_done s @ [(md_id md, fst (f (get_filename md) bytes io))])"
proof -
  have st: "sk_done b = sk_done a \<and> io' = io \<or>
      (\<exists>bytes. io' = snd (f (get_filename md) bytes io) \<and>
        sk_done b = AList.update (md_id md) (fst (f (get_filename md) bytes io)) (sk_done a))"
    if "sink_store api (Some f) md a st io = Some (ok, b, io')" for md a b st ok
    using that by (auto simp: sink_store_def mark_done_def Let_def bind_eq_Some_conv split_beta split: option.splits) blast+
  define R where "R \<longleftrightarrow> sk_done s' = sk_done s \<and> io' = io \<or>
    (\<exists>md bytes. \<not> is_done s (md_id md) \<and> io' = snd (f (get_filename md) bytes io) \<and>
      sk_done s' = sk_done s @ [(md_id md, fst (f (get_filename md) bytes io))])"
  have R: R if "sink_store api (Some f) md (s\<lparr>sk_streams := X\<rparr>) st io = Some (ok, s', io')" "\<not> is_done s (md_id md)"
    for md X st ok
    using st [OF that(1)]
  proof
    assume "\<exists>bytes. io' = snd (f (get_filename md) bytes io) \<and>
      sk_done s' = AList.update (md_id md) (fst (f (get_filename md) bytes io)) (sk_done (s\<lparr>sk_streams := X\<rparr>))"
    then obtain bytes where "io' = snd (f (get_filename md) bytes io)"
      "sk_done s' = AList.update (md_id md) (fst (f (get_filename md) bytes io)) (sk_done s)" by auto
    moreover have "md_id md \<notin> fst ` set (sk_done s)" using that(2) by (simp add: is_done_set)
    ultimately show R unfolding R_def using that(2) update_new [of "md_id md" "sk_done s"]
      by (intro disjI2 exI [of _ md] exI [of _ bytes]) simp
  qed (simp add: R_def)
  have same: R if "sk_done s' = sk_done s" "io' = io" using that by (simp add: R_def)
  have "R" using assms unfolding decode_frame_def Let_def
    by (auto simp: bind_eq_Some_conv split_beta split: if_splits intro: same dest!: R)
  then show ?thesis unfolding R_def .
qed

definition stored_names :: "'d fountain_decoder_sink \<Rightarrow> string list" where
  "stored_names s = filter (\<lambda>n. n \<noteq> []) (get_done s)"

text \<open>\<open>polled\<close> are the names handed out so far.\<close>

definition observed_rel :: "string list \<Rightarrow> 'd fountain_decoder_sink \<Rightarrow> 'w observed \<Rightarrow> bool" where
  "observed_rel polled s io \<longleftrightarrow> polled @ ob_events io = stored_names s \<and> \<not> ts_finishing (ob_status io) \<and>
     ts_completed (ob_status io) = length (stored_names s) mod 2 ^ 32 \<and>
     ts_errors (ob_status io) = (num_done s - length (stored_names s)) mod 2 ^ 32"

lemma stored_names_le: "length (stored_names s) \<le> num_done s"
  unfolding stored_names_def num_done_def get_done_def by (metis length_filter_le length_map)

lemma stored_rel:
  assumes rel: "observed_rel polled s io"
    and st: "observed_on_store z os android f bytes (Some io) = (name, Some io')"
    and s': "sk_done s' = sk_done s @ [(i, name)]"
  shows "observed_rel polled s' io'"
proof (cases "name = []")
  case True
  then have "ob_events io' = ob_events io" "ts_completed (ob_status io') = ts_completed (ob_status io)"
    "ts_errors (ob_status io') = uint_add (ts_errors (ob_status io)) 1" "\<not> ts_finishing (ob_status io')"
    using st by (auto simp: observed_on_store_def Let_def split: option.splits prod.splits if_splits)
  moreover have "stored_names s' = stored_names s" "num_done s' = Suc (num_done s)"
    using s' True by (simp_all add: stored_names_def get_done_def num_done_def)
  ultimately show ?thesis using rel stored_names_le [of s]
    by (simp add: observed_rel_def uint_add_def mod_simps Suc_diff_le)
next
  case False
  then have "ob_events io' = ob_events io @ [name]" "ts_completed (ob_status io') = uint_add (ts_completed (ob_status io)) 1"
    "ts_errors (ob_status io') = ts_errors (ob_status io)" "\<not> ts_finishing (ob_status io')"
    using st by (auto simp: observed_on_store_def Let_def split: option.splits prod.splits if_splits)
  moreover have "stored_names s' = stored_names s @ [name]" "num_done s' = Suc (num_done s)"
    using s' False by (simp_all add: stored_names_def get_done_def num_done_def)
  ultimately show ?thesis using rel by (simp add: observed_rel_def uint_add_def mod_simps flip: append_assoc)
qed

lemma frame_rel:
  assumes "observed_frame api junk (Some (observed_on_store z os android)) data (s, Some io, added) = Some (s', Some io', added')"
    and rel: "observed_rel polled s io"
  shows "observed_rel polled s' io'"
proof -
  let ?f = "observed_on_store z os android"
  have step: "observed_rel polled s1 io'" if d: "decode_frame api junk (Some ?f) s (Some io) data = Some (r, s1, Some io')" for r s1
    using decode_frame_stores [OF d]
  proof
    assume "sk_done s1 = sk_done s \<and> Some io' = Some io"
    then show ?thesis using rel by (auto simp: observed_rel_def stored_names_def get_done_def num_done_def)
  next
    assume "\<exists>md bytes. \<not> is_done s (md_id md) \<and> Some io' = snd (?f (get_filename md) bytes (Some io)) \<and>
      sk_done s1 = sk_done s @ [(md_id md, fst (?f (get_filename md) bytes (Some io)))]"
    then obtain md bytes where "?f (get_filename md) bytes (Some io) = (fst (?f (get_filename md) bytes (Some io)), Some io')"
      "sk_done s1 = sk_done s @ [(md_id md, fst (?f (get_filename md) bytes (Some io)))]" by (metis prod.collapse)
    then show ?thesis by (rule stored_rel [OF rel])
  qed
  show ?thesis using assms(1) rel
    by (auto simp: observed_frame_def Let_def bind_eq_Some_conv split_beta split: if_splits dest: step)
qed

lemma frame_diverged:
  assumes "observed_frame api junk (Some (observed_on_store z os android)) data (s, None, added) = Some (s', io', added')"
  shows "io' = None"
proof -
  have "io' = None" if "decode_frame api junk (Some (observed_on_store z os android)) s None data = Some (r, s1, io')" for r s1 io'
    using decode_frame_stores [OF that] by (auto simp: observed_on_store_def)
  then show ?thesis using assms by (auto simp: observed_frame_def Let_def bind_eq_Some_conv split_beta split: if_splits)
qed

section \<open>Runs of the receiver\<close>

datatype observed_op = Frames "u8 list" | Poll

definition observed_step ::
  "('e, 'd) wirehair \<Rightarrow> WirehairResult \<Rightarrow> 'z zstd \<Rightarrow> 'w os \<Rightarrow> bool \<Rightarrow> observed_op \<Rightarrow>
   ('d, 'w) ObservedFountainSink \<times> string list \<Rightarrow> (('d, 'w) ObservedFountainSink \<times> string list) option" where
  "observed_step api junk z os android act = (\<lambda>(ob, polled). case act of
     Frames data \<Rightarrow> map_option (\<lambda>(_, ob). (ob, polled)) (observed_write api junk z os android ob data)
   | Poll \<Rightarrow> let (name, ob) = observed_poll ob in Some (ob, if name = [] then polled else polled @ [name]))"

definition observed_inv :: "nat \<Rightarrow> ('d, 'w) ObservedFountainSink \<times> string list \<Rightarrow> bool" where
  "observed_inv chunk = (\<lambda>((s, io), polled). sink_inv s \<and> sk_chunkSize s = chunk \<and> observed_rel polled s io \<and>
     ts_received (ob_status io) = stream_sum stream_received s \<and>
     ts_total (ob_status io) = stream_sum fds_data_size s \<and> ts_streams (ob_status io) = num_streams s)"

lemma observed_create_inv: "c < 2 ^ 32 \<Longrightarrow> observed_inv (max 50 c) (observed_create c d w, [])"
  using sink_create_inv [of c]
  by (auto simp: observed_inv_def observed_create_def observed_rel_def stored_names_def get_done_def num_done_def
      sink_create_def stream_sum_def num_streams_def)

lemma frame_total:
  assumes inv: "sink_inv s" and api: "recover_fits api" and len: "length data = sk_chunkSize s"
  shows "\<exists>s' io' added'. observed_frame api junk on_store data (s, io, added) = Some (s', io', added') \<and> sink_inv s' \<and>
    sk_chunkSize s' = sk_chunkSize s"
proof -
  have "6 \<le> length data" using inv len by (simp add: sink_inv_def)
  then have md: "md_of_buffer (\<lambda>_. 0) data (sk_chunkSize s) = Some (take 6 data)" using md_of_frame [of data] len by simp
  obtain r s' io' where "decode_frame api junk on_store s io data = Some (r, s', io')" "sink_inv s'"
    "sk_chunkSize s' = sk_chunkSize s"
    using decode_frame_run [OF inv api, of junk on_store io data] by blast
  then show ?thesis using inv by (auto simp: observed_frame_def md Let_def)
qed

lemma observed_write_inv:
  assumes inv: "observed_inv chunk (ob, polled)" and api: "recover_fits api"
    and run: "observed_write api junk z os android ob data = Some (ok, ob')"
  shows "observed_inv chunk (ob', polled) \<and> (ok \<longleftrightarrow> chunk dvd length data)"
proof (cases "length data mod chunk = 0")
  case True
  obtain s io where ob: "ob = (s, io)" by fastforce
  have s: "sink_inv s" "sk_chunkSize s = chunk" "observed_rel polled s io" using inv by (simp_all add: observed_inv_def ob)
  let ?f = "observed_on_store z os android"
  let ?step = "\<lambda>i. observed_frame api junk (Some ?f) (take chunk (drop (i * chunk) data))"
  obtain s1 io1 added where loop: "for_each [0..<length data div chunk] ?step (s, Some io, 0) = Some (s1, Some io1, added)"
    and ok: "ok" and ob': "ob' = (s1, io1\<lparr>ob_status := (ob_status io1)
      \<lparr>ts_uniqueBytes := ts_uniqueBytes (ob_status io1) + of_nat added,
       ts_received := stream_sum stream_received s1, ts_total := stream_sum fds_data_size s1,
       ts_streams := num_streams s1\<rparr>\<rparr>)"
    using run True s(2) unfolding observed_write_def ob by (auto simp: Let_def bind_eq_Some_conv split_beta split: if_splits)
  let ?P = "\<lambda>i (a, b, _). sink_inv a \<and> sk_chunkSize a = chunk \<and> (\<forall>c. b = Some c \<longrightarrow> observed_rel polled a c)"
  have "?P (length data div chunk) (s1, Some io1, added)"
  proof (rule for_range_partial [OF loop, where P = ?P])
    fix i st st' assume i: "i < length data div chunk" and P: "?P i st" and r: "?step i st = Some st'"
    obtain a b n where st: "st = (a, b, n)" by (metis prod_cases3)
    obtain a' b' n' where st': "st' = (a', b', n')" by (metis prod_cases3)
    have "Suc i * chunk \<le> length data" using i mult_le_mono1 [of "Suc i" "length data div chunk" chunk]
      by (metis Suc_leI div_times_less_eq_dividend le_trans)
    then have "length (take chunk (drop (i * chunk) data)) = sk_chunkSize a" using P st by simp
    then have "sink_inv a' \<and> sk_chunkSize a' = chunk"
      using frame_total [of a api "take chunk (drop (i * chunk) data)" junk "Some ?f" b n] P r st st' api by auto
    moreover have "observed_rel polled a' c" if c: "b' = Some c" for c
    proof (cases b)
      case None
      then show ?thesis using frame_diverged r st st' c by fastforce
    next
      case (Some b0)
      then show ?thesis using frame_rel [of api junk z os android "take chunk (drop (i * chunk) data)" a b0 n a' c n'] P r st st' c by auto
    qed
    ultimately show "?P (Suc i) st'" using st' by simp
  qed (use s in auto)
  then show ?thesis using ob' ok True by (auto simp: observed_inv_def observed_rel_def)
next
  case False
  then have "ob' = ob" "\<not> ok" using run inv by (auto simp: observed_write_def observed_inv_def Let_def split: prod.splits)
  then show ?thesis using inv False by auto
qed

lemma observed_step_inv:
  assumes "observed_inv chunk st" "recover_fits api" "observed_step api junk z os android act st = Some st'"
  shows "observed_inv chunk st'"
proof (cases act)
  case (Frames data)
  then show ?thesis using assms observed_write_inv [of chunk "fst st" "snd st" api junk z os android data]
    by (auto simp: observed_step_def split_beta)
next
  case Poll
  have ne: "xs @ [] # ys \<noteq> stored_names s" for xs ys s
  proof
    assume "xs @ [] # ys = stored_names s"
    then have "[] \<in> set (stored_names s)" by (metis in_set_conv_decomp)
    then show False by (simp add: stored_names_def)
  qed
  show ?thesis using Poll assms(1,3) ne [of _ _ "fst (fst st)"]
    by (auto simp: observed_step_def observed_poll_def observed_inv_def observed_rel_def split: prod.splits list.splits if_splits)
qed

lemma observed_run_inv:
  "observed_inv chunk st \<Longrightarrow> recover_fits api \<Longrightarrow> for_each acts (observed_step api junk z os android) st = Some st' \<Longrightarrow>
   observed_inv chunk st'"
  by (induction acts arbitrary: st) (auto split: option.splits dest: observed_step_inv)

lemma stream_sum_le:
  assumes "\<And>slot st. sk_streams s slot = Some st \<Longrightarrow> f st \<le> g st"
  shows "stream_sum f s \<le> stream_sum g s"
  unfolding stream_sum_def by (rule sum_list_mono) (use assms in \<open>auto split: option.split\<close>)

lemma stream_sum_const: "stream_sum (\<lambda>_. c) s \<le> 8 * c"
proof -
  have "stream_sum (\<lambda>_. c) s \<le> (\<Sum>slot\<leftarrow>[0..<8]. c)"
    unfolding stream_sum_def by (rule sum_list_mono) (auto split: option.split)
  then show ?thesis by (simp add: sum_list_triv)
qed

text \<open>C17: any interleaving of batches of arbitrary bytes and polls of the user interface, for every
  decompressor and operating system. The names handed out and still queued are exactly the names of
  the files that were stored, in order. The counters count the stored files and the failed ones, the
  status shows the streams of the sink: at most eight, no more bytes received than expected, at most
  2^25 per stream. A batch is refused exactly when it is not made of whole chunks.\<close>

theorem observed_status_agrees:
  fixes api :: "('e, 'd) wirehair" and os :: "'w os"
  assumes "recover_fits api" "chunk < 2 ^ 32"
    and run: "for_each acts (observed_step api junk z os android) (observed_create chunk d w, []) = Some (ob, polled)"
  shows "polled @ ob_events (snd ob) = filter (\<lambda>n. n \<noteq> []) (get_done (fst ob)) \<and>
    (let status = observed_snapshot ob; files = length (polled @ ob_events (snd ob)) in
     ts_completed status = files mod 2 ^ 32 \<and> ts_errors status = (num_done (fst ob) - files) mod 2 ^ 32 \<and>
     \<not> ts_finishing status \<and> ts_streams status = num_streams (fst ob) \<and> ts_streams status \<le> 8 \<and>
     ts_received status \<le> ts_total status \<and> ts_total status \<le> 8 * 2 ^ 25) \<and>
    (\<forall>data ok ob'. observed_write api junk z os android ob data = Some (ok, ob') \<longrightarrow> (ok \<longleftrightarrow> max 50 chunk dvd length data))"
proof -
  have inv: "observed_inv (max 50 chunk) (ob, polled)"
    by (rule observed_run_inv [OF observed_create_inv [OF assms(2)] assms(1) run])
  then have "sink_inv (fst ob)" by (auto simp: observed_inv_def split: prod.splits)
  then have "stream_sum fds_data_size (fst ob) \<le> stream_sum (\<lambda>_. 2 ^ 25) (fst ob)"
    by (intro stream_sum_le) (auto simp: sink_inv_def intro: less_imp_le)
  then have "stream_sum fds_data_size (fst ob) \<le> 8 * 2 ^ 25" using stream_sum_const [of "2 ^ 25" "fst ob"] by linarith
  moreover have "stream_sum stream_received (fst ob) \<le> stream_sum fds_data_size (fst ob)"
    by (intro stream_sum_le) (simp add: stream_received_def)
  ultimately have "polled @ ob_events (snd ob) = stored_names (fst ob) \<and>
    (let status = observed_snapshot ob; files = length (polled @ ob_events (snd ob)) in
     ts_completed status = files mod 2 ^ 32 \<and> ts_errors status = (num_done (fst ob) - files) mod 2 ^ 32 \<and>
     \<not> ts_finishing status \<and> ts_streams status = num_streams (fst ob) \<and> ts_streams status \<le> 8 \<and>
     ts_received status \<le> ts_total status \<and> ts_total status \<le> 8 * 2 ^ 25)"
    using inv sink_inv_streams [OF \<open>sink_inv (fst ob)\<close>]
    unfolding observed_inv_def observed_rel_def observed_snapshot_def Let_def split_beta by auto
  then show ?thesis using observed_write_inv [OF inv assms(1)] unfolding stored_names_def by blast
qed


theorem observed_status_agrees_witness:
  "\<exists>ob. for_each [Frames [1, 2, 3], Poll] (observed_step single_code Wirehair_InvalidInput stored_zstd plain_os False)
      (observed_create 50 Map.empty (), []) = Some (ob, []) \<and>
    [] @ ob_events (snd ob) = filter (\<lambda>n. n \<noteq> []) (get_done (fst ob)) \<and> ts_total (observed_snapshot ob) \<le> 8 * 2 ^ 25"
proof -
  let ?ob = "observed_create 50 Map.empty ()"
  have "recover_fits single_code" by (simp add: recover_fits_def single_code_def)
  moreover have run: "for_each [Frames [1, 2, 3], Poll] (observed_step single_code Wirehair_InvalidInput stored_zstd plain_os False)
      (?ob, []) = Some (?ob, [])"
    by (simp add: observed_step_def observed_write_def observed_create_def sink_create_def observed_poll_def)
  ultimately show ?thesis using observed_status_agrees [OF _ _ run] by (auto simp: Let_def)
qed

end
