(* ===== verification/Steps.thy ===== *)
theory Steps
  imports Main
begin

text \<open>
  What a step relation comes to: \<open>inevitable step P s\<close> holds when every run of \<open>step\<close> from \<open>s\<close>
  reaches a state with \<open>P\<close>, whatever choices it makes, without getting stuck before.
\<close>

inductive inevitable :: "('s \<Rightarrow> 's \<Rightarrow> bool) \<Rightarrow> ('s \<Rightarrow> bool) \<Rightarrow> 's \<Rightarrow> bool" for step P where
  now: "P s \<Longrightarrow> inevitable step P s"
| next_step: "step s t \<Longrightarrow> (\<And>u. step s u \<Longrightarrow> inevitable step P u) \<Longrightarrow> inevitable step P s"

lemma inevitable_measure:
  fixes m :: "'s \<Rightarrow> nat"
  assumes "I s"
    and progress: "\<And>s. I s \<Longrightarrow> \<not> P s \<Longrightarrow> \<exists>t. step s t"
    and down: "\<And>s t. I s \<Longrightarrow> \<not> P s \<Longrightarrow> step s t \<Longrightarrow> I t \<and> m t < m s"
  shows "inevitable step P s"
  using assms(1)
proof (induction "m s" arbitrary: s rule: less_induct)
  case less
  show ?case
  proof (cases "P s")
    case False
    obtain t where "step s t" using progress [OF less.prems False] by blast
    then show ?thesis
    proof (rule inevitable.next_step)
      show "inevitable step P u" if "step s u" for u using down [OF less.prems False that] less.hyps by blast
    qed
  qed (rule inevitable.now)
qed

end
