(* ===== verification/ThreadPool.thy ===== *)
theory ThreadPool
  imports Prelude Steps "HOL-Library.Multiset"
begin

text \<open>
  \<open>monitor.h\<close> and \<open>thread_pool.h\<close> as a step relation: each step is one access to shared state by one
  thread, the critical sections of the monitor are single steps. The owner calls \<open>start\<close> once and
  \<open>stop\<close> afterwards, as the receiver does; any thread may call \<open>execute\<close> at any time. The
  concurrent queue is a multiset, from which a dequeue takes any element, and may find nothing.
\<close>

record monitor =
  mo_flag :: bool
  mo_cancelled :: bool

definition monitor_create :: monitor where
  "monitor_create = \<lparr>mo_flag = False, mo_cancelled = False\<rparr>"

text \<open>The critical section of \<open>wait\<close> and \<open>wait_for\<close>: \<open>None\<close> when the thread has to sleep.\<close>

definition monitor_enter :: "monitor \<Rightarrow> bool option \<times> monitor" where
  "monitor_enter m = (if mo_flag m then (Some (\<not> mo_cancelled m), m\<lparr>mo_flag := False\<rparr>) else (None, m))"

definition signal_all_internal :: "bool \<Rightarrow> monitor \<Rightarrow> monitor" where
  "signal_all_internal cancelled m = m\<lparr>mo_flag := True, mo_cancelled := cancelled\<rparr>"

text \<open>Where a worker is in \<open>run\<close>, and where the owner is in \<open>start\<close> and \<open>stop\<close>.\<close>

datatype 'f worker = Spawned | Announce | LoopTest | EnterWait | Asleep | Awake | Fetch | Holding 'f | Busy 'f | Exited

datatype owner = Created | Spawning nat | AwaitRunning | AsleepRunning | Started bool | StopSet | Joining nat | Stopped

record 'f pool =
  po_running :: int
  po_numThreads :: nat
  po_threads :: "'f worker list"
  po_notifyRunning :: monitor
  po_notifyWork :: monitor
  po_queue :: "'f multiset"
  po_owner :: owner
  po_notifying :: nat
  po_submitted :: "'f multiset"
  po_executed :: "'f multiset"
  po_dropped :: "'f multiset"

definition pool_create :: "nat \<Rightarrow> 'f pool" where
  "pool_create numThreads = \<lparr>po_running = 0, po_numThreads = numThreads, po_threads = [],
     po_notifyRunning = monitor_create, po_notifyWork = monitor_create, po_queue = {#}, po_owner = Created,
     po_notifying = 0, po_submitted = {#}, po_executed = {#}, po_dropped = {#}\<rparr>"

text \<open>\<open>notify_all\<close> wakes every sleeping worker.\<close>

fun wake :: "'f worker \<Rightarrow> 'f worker" where
  "wake Asleep = Awake"
| "wake w = w"

definition set_worker :: "'f pool \<Rightarrow> nat \<Rightarrow> 'f worker \<Rightarrow> 'f pool" where
  "set_worker p i w = p\<lparr>po_threads := (po_threads p)[i := w]\<rparr>"

definition at_worker :: "'f pool \<Rightarrow> nat \<Rightarrow> 'f worker \<Rightarrow> bool" where
  "at_worker p i w \<longleftrightarrow> i < length (po_threads p) \<and> po_threads p ! i = w"

inductive worker_step :: "nat \<Rightarrow> 'f pool \<Rightarrow> 'f pool \<Rightarrow> bool" for i :: nat where
  spawned: "at_worker p i Spawned \<Longrightarrow> r = po_running p + 1 \<Longrightarrow>
     worker_step i p (set_worker (p\<lparr>po_running := r\<rparr>) i (if r = int (po_numThreads p) then Announce else LoopTest))"
| announce: "at_worker p i Announce \<Longrightarrow>
     worker_step i p (set_worker (p\<lparr>po_notifyRunning := signal_all_internal False (po_notifyRunning p)\<rparr>) i LoopTest)"
| test: "at_worker p i LoopTest \<Longrightarrow> worker_step i p (set_worker p i (if po_running p > 0 then EnterWait else Exited))"
| enter: "at_worker p i EnterWait \<Longrightarrow> monitor_enter (po_notifyWork p) = (r, m) \<Longrightarrow>
     worker_step i p (set_worker (p\<lparr>po_notifyWork := m\<rparr>) i (if r = None then Asleep else Awake))"
| awake: "at_worker p i Awake \<Longrightarrow> worker_step i p (set_worker p i (if po_running p \<le> 0 then Exited else Fetch))"
| dequeue: "at_worker p i Fetch \<Longrightarrow> f \<in># po_queue p \<Longrightarrow>
     worker_step i p (set_worker (p\<lparr>po_queue := po_queue p - {#f#}\<rparr>) i (Holding f))"
| nothing: "at_worker p i Fetch \<Longrightarrow> worker_step i p (set_worker p i LoopTest)"
| cancel: "at_worker p i (Holding f) \<Longrightarrow> po_running p \<le> 0 \<Longrightarrow>
     worker_step i p (set_worker (p\<lparr>po_dropped := add_mset f (po_dropped p)\<rparr>) i LoopTest)"
| begin_fun: "at_worker p i (Holding f) \<Longrightarrow> po_running p > 0 \<Longrightarrow> worker_step i p (set_worker p i (Busy f))"
| end_fun: "at_worker p i (Busy f) \<Longrightarrow>
     worker_step i p (set_worker (p\<lparr>po_executed := add_mset f (po_executed p)\<rparr>) i Fetch)"

inductive owner_step :: "'f pool \<Rightarrow> 'f pool \<Rightarrow> bool" where
  start: "po_owner p = Created \<Longrightarrow> \<not> po_running p > 0 \<Longrightarrow> owner_step p (p\<lparr>po_owner := Spawning 0\<rparr>)"
| spawn: "po_owner p = Spawning k \<Longrightarrow> k < po_numThreads p \<Longrightarrow>
     owner_step p (p\<lparr>po_threads := po_threads p @ [Spawned], po_owner := Spawning (k + 1)\<rparr>)"
| spawn_all: "po_owner p = Spawning k \<Longrightarrow> \<not> k < po_numThreads p \<Longrightarrow> owner_step p (p\<lparr>po_owner := AwaitRunning\<rparr>)"
| wait_for: "po_owner p = AwaitRunning \<Longrightarrow> monitor_enter (po_notifyRunning p) = (r, m) \<Longrightarrow>
     owner_step p (p\<lparr>po_notifyRunning := m,
       po_owner := (if r = None then AsleepRunning else Started (po_running p = int (po_numThreads p)))\<rparr>)"
| waited_for: "po_owner p = AsleepRunning \<Longrightarrow>
     owner_step p (p\<lparr>po_owner := Started (po_running p = int (po_numThreads p))\<rparr>)"
| stop: "po_owner p = Started b \<or> po_owner p = Created \<or> po_owner p = Stopped \<Longrightarrow>
     owner_step p (p\<lparr>po_running := - 1 - int (po_numThreads p), po_owner := StopSet\<rparr>)"
| stop_signal: "po_owner p = StopSet \<Longrightarrow>
     owner_step p (p\<lparr>po_notifyWork := signal_all_internal False (po_notifyWork p),
       po_threads := map wake (po_threads p), po_owner := Joining 0\<rparr>)"
| join: "po_owner p = Joining k \<Longrightarrow> at_worker p k Exited \<Longrightarrow> owner_step p (p\<lparr>po_owner := Joining (k + 1)\<rparr>)"
| joined: "po_owner p = Joining k \<Longrightarrow> \<not> k < length (po_threads p) \<Longrightarrow>
     owner_step p (p\<lparr>po_threads := [], po_owner := Stopped\<rparr>)"

text \<open>\<open>execute\<close> and \<open>try_execute\<close> enqueue and then notify, without the lock; a thread may also wake
  up for no reason.\<close>

inductive producer_step :: "'f pool \<Rightarrow> 'f pool \<Rightarrow> bool" where
  enqueue: "producer_step p (p\<lparr>po_queue := add_mset f (po_queue p), po_submitted := add_mset f (po_submitted p),
     po_notifying := po_notifying p + 1\<rparr>)"
| refused: "producer_step p p"
| notify_one: "po_notifying p > 0 \<Longrightarrow> at_worker p i Asleep \<Longrightarrow>
     producer_step p (set_worker (p\<lparr>po_notifying := po_notifying p - 1\<rparr>) i Awake)"
| notify_none: "po_notifying p > 0 \<Longrightarrow> Asleep \<notin> set (po_threads p) \<Longrightarrow>
     producer_step p (p\<lparr>po_notifying := po_notifying p - 1\<rparr>)"

inductive spurious_step :: "'f pool \<Rightarrow> 'f pool \<Rightarrow> bool" where
  spurious: "at_worker p i Asleep \<Longrightarrow> spurious_step p (set_worker p i Awake)"

text \<open>\<open>queued\<close> (the size is approximate while other threads work).\<close>

definition pool_queued :: "'f pool \<Rightarrow> nat" where
  "pool_queued p = size (po_queue p)"

definition pool_step :: "'f pool \<Rightarrow> 'f pool \<Rightarrow> bool" where
  "pool_step p q \<longleftrightarrow> (\<exists>i. worker_step i p q) \<or> owner_step p q \<or> producer_step p q \<or> spurious_step p q"

definition pool_reachable :: "nat \<Rightarrow> 'f pool \<Rightarrow> bool" where
  "pool_reachable n = pool_step\<^sup>*\<^sup>* (pool_create n)"

text \<open>The steps the pool takes by itself.\<close>

definition inner_step :: "'f pool \<Rightarrow> 'f pool \<Rightarrow> bool" where
  "inner_step p q \<longleftrightarrow> (\<exists>i. worker_step i p q) \<or> owner_step p q"

section \<open>Conservation\<close>

fun worker_holds :: "'f worker \<Rightarrow> 'f multiset" where
  "worker_holds (Holding f) = {#f#}"
| "worker_holds (Busy f) = {#f#}"
| "worker_holds w = {#}"

definition held :: "'f worker list \<Rightarrow> 'f multiset" where
  "held ws = sum_list (map worker_holds ws)"

lemma held_update: "i < length ws \<Longrightarrow> held (ws[i := w]) + worker_holds (ws ! i) = held ws + worker_holds w"
proof (induction ws arbitrary: i)
  case (Cons a ws)
  then show ?case by (cases i) (simp_all add: held_def ac_simps)
qed simp

lemma held_wake:
  fixes ws :: "'f worker list"
  shows "held (map wake ws) = held ws"
proof -
  have "worker_holds (wake w) = worker_holds w" for w :: "'f worker" by (cases w) auto
  then show ?thesis by (induction ws) (simp_all add: held_def)
qed

definition conserved :: "'f pool \<Rightarrow> bool" where
  "conserved p \<longleftrightarrow> po_submitted p = po_queue p + held (po_threads p) + po_executed p + po_dropped p"

definition owner_inv :: "'f pool \<Rightarrow> bool" where
  "owner_inv p \<longleftrightarrow> (case po_owner p of Created \<Rightarrow> po_threads p = [] \<and> po_running p = 0
     | Spawning k \<Rightarrow> length (po_threads p) = k \<and> k \<le> po_numThreads p
     | Joining k \<Rightarrow> k \<le> length (po_threads p) \<and> (\<forall>j<k. po_threads p ! j = Exited)
     | Stopped \<Rightarrow> po_threads p = []
     | _ \<Rightarrow> True) \<and> length (po_threads p) \<le> po_numThreads p"

fun stopping :: "owner \<Rightarrow> bool" where
  "stopping StopSet = True"
| "stopping (Joining k) = True"
| "stopping Stopped = True"
| "stopping _ = False"

text \<open>The counter: the workers that announced themselves; below zero once the pool is stopped,
  also after the late ones announce themselves.\<close>

definition unborn :: "'f worker list \<Rightarrow> int" where
  "unborn ws = int (count_list ws Spawned)"

definition counter_inv :: "'f pool \<Rightarrow> bool" where
  "counter_inv p \<longleftrightarrow> (if stopping (po_owner p) then po_running p + unborn (po_threads p) \<le> - 1
     else po_running p = int (length (po_threads p)) - unborn (po_threads p) \<and> po_dropped p = {#})"

definition pool_inv :: "nat \<Rightarrow> 'f pool \<Rightarrow> bool" where
  "pool_inv n p \<longleftrightarrow> po_numThreads p = n \<and> conserved p \<and> owner_inv p \<and> counter_inv p"

lemma unborn_update:
  "i < length ws \<Longrightarrow> unborn (ws[i := w]) = unborn ws - (if ws ! i = Spawned then 1 else 0) + (if w = Spawned then 1 else 0)"
proof (induction ws arbitrary: i)
  case (Cons a ws)
  show ?case
  proof (cases i)
    case (Suc j)
    then show ?thesis using Cons.IH [of j] Cons.prems by (auto simp: unborn_def split: if_splits)
  qed (simp add: unborn_def)
qed simp

lemma unborn_Nil [simp]: "unborn [] = 0"
  by (simp add: unborn_def)

lemma unborn_le: "unborn ws \<le> int (length ws)" "0 \<le> unborn ws"
  by (simp_all add: unborn_def count_le_length)

lemma unborn_lt: "i < length ws \<Longrightarrow> ws ! i \<noteq> Spawned \<Longrightarrow> unborn ws < int (length ws)"
  using unborn_update [of i ws Spawned] unborn_le(1) [of "ws[i := Spawned]"] by simp

lemma unborn_wake:
  fixes ws :: "'f worker list"
  shows "unborn (map wake ws) = unborn ws"
proof -
  have w: "wake w = Spawned \<longleftrightarrow> w = Spawned" for w :: "'f worker" by (cases w) auto
  show ?thesis by (induction ws) (auto simp: unborn_def w)
qed

text \<open>How a worker changes: what it holds, and whether it has announced itself.\<close>

lemma worker_moves:
  assumes "pool_inv n p" "at_worker p i v" "po_numThreads q = po_numThreads p" "po_owner q = po_owner p"
    "po_threads q = (po_threads p)[i := w]" "v \<noteq> Exited" "w \<noteq> Spawned"
    and "po_running q = (if v = Spawned then po_running p + 1 else po_running p)"
    and "po_submitted q = po_submitted p"
    and "po_queue q + worker_holds w + po_executed q + po_dropped q = po_queue p + worker_holds v + po_executed p + po_dropped p"
    and "stopping (po_owner p) \<or> po_dropped q = po_dropped p"
  shows "pool_inv n q"
proof -
  have i: "i < length (po_threads p)" "po_threads p ! i = v" using assms(2) by (simp_all add: at_worker_def)
  have h: "held (po_threads q) + worker_holds v = held (po_threads p) + worker_holds w"
    using held_update [OF i(1), of w] assms(5) i(2) by simp
  have "po_submitted p + worker_holds w = po_queue p + worker_holds v + po_executed p + po_dropped p + held (po_threads q)"
    using assms(1) h unfolding pool_inv_def conserved_def
    by (metis (no_types, lifting) add.assoc add.commute)
  then have "po_submitted p + worker_holds w = (po_queue q + held (po_threads q) + po_executed q + po_dropped q) + worker_holds w"
    using assms(10) by (simp add: ac_simps)
  then have "conserved q" using assms(9) by (simp add: conserved_def)
  moreover have "owner_inv q"
    using assms(1,3-6) i unfolding pool_inv_def owner_inv_def
    by (auto split: owner.splits simp: nth_list_update)
  moreover have "counter_inv q"
    using assms(1,4,5,7,8,11) i unborn_update [OF i(1), of w] unfolding pool_inv_def counter_inv_def by auto
  ultimately show ?thesis using assms(1,3) by (simp add: pool_inv_def)
qed

lemma set_worker_inv:
  assumes "pool_inv n p" "at_worker p i v" "po_threads q = po_threads p" "po_numThreads q = po_numThreads p"
    "po_owner q = po_owner p" "v \<noteq> Exited" "w \<noteq> Spawned"
    "po_running q = (if v = Spawned then po_running p + 1 else po_running p)" "po_submitted q = po_submitted p"
    "po_queue q + worker_holds w + po_executed q + po_dropped q = po_queue p + worker_holds v + po_executed p + po_dropped p"
    "stopping (po_owner p) \<or> po_dropped q = po_dropped p"
  shows "pool_inv n (set_worker q i w)"
  by (rule worker_moves [OF assms(1,2), where w = w]) (use assms(3-) in \<open>simp_all add: set_worker_def\<close>)

lemma running_pos:
  assumes "pool_inv n p" "at_worker p i v" "v \<noteq> Spawned" "\<not> stopping (po_owner p)"
  shows "po_running p > 0"
  using assms unborn_lt [of i "po_threads p"] by (auto simp: pool_inv_def counter_inv_def at_worker_def)

lemma worker_step_inv: "worker_step i p q \<Longrightarrow> pool_inv n p \<Longrightarrow> pool_inv n q"
proof (induction rule: worker_step.induct)
  case (cancel p f)
  have "stopping (po_owner p)" using running_pos [OF cancel.prems cancel.hyps(1)] cancel.hyps(2) by auto
  then show ?case by (intro set_worker_inv [OF cancel.prems cancel.hyps(1)]) simp_all
next
  case (spawned p r)
  show ?case by (rule set_worker_inv [OF spawned.prems spawned.hyps(1)]) (simp_all add: spawned.hyps(2))
next
  case (announce p)
  show ?case by (rule set_worker_inv [OF announce.prems announce.hyps(1)]) (simp_all)
next
  case (test p)
  show ?case by (rule set_worker_inv [OF test.prems test.hyps(1)]) (simp_all)
next
  case (enter p r m)
  show ?case by (rule set_worker_inv [OF enter.prems enter.hyps(1)]) (simp_all)
next
  case (awake p)
  show ?case by (rule set_worker_inv [OF awake.prems awake.hyps(1)]) (simp_all)
next
  case (nothing p)
  show ?case by (rule set_worker_inv [OF nothing.prems nothing.hyps(1)]) (simp_all)
next
  case (begin_fun p f)
  show ?case by (rule set_worker_inv [OF begin_fun.prems begin_fun.hyps(1)]) (simp_all)
next
  case (end_fun p f)
  show ?case by (rule set_worker_inv [OF end_fun.prems end_fun.hyps(1)]) (simp_all)
next
  case (dequeue p f)
  show ?case by (rule set_worker_inv [OF dequeue.prems dequeue.hyps(1)]) (use dequeue.hyps(2) in simp_all)
qed

lemma owner_step_inv: "owner_step p q \<Longrightarrow> pool_inv n p \<Longrightarrow> pool_inv n q"
proof (induction rule: owner_step.induct)
  case (spawn p k)
  then show ?case by (auto simp: pool_inv_def conserved_def owner_inv_def counter_inv_def held_def unborn_def)
next
  case (stop p b)
  then show ?case using unborn_le [of "po_threads p"]
    by (auto simp: pool_inv_def conserved_def owner_inv_def counter_inv_def)
next
  case (stop_signal p)
  then show ?case by (auto simp: pool_inv_def conserved_def owner_inv_def counter_inv_def held_wake unborn_wake)
next
  case (join p k)
  then show ?case by (auto simp: pool_inv_def conserved_def owner_inv_def counter_inv_def at_worker_def less_Suc_eq)
next
  case (joined p k)
  then have "\<forall>j < length (po_threads p). po_threads p ! j = Exited" by (auto simp: pool_inv_def owner_inv_def)
  then have "w \<in> set (po_threads p) \<Longrightarrow> w = Exited" for w by (auto simp: in_set_conv_nth)
  then have "map worker_holds (po_threads p) = map (\<lambda>_. {#}) (po_threads p)" by (intro map_cong refl) (metis worker_holds.simps(10))
  then have "held (po_threads p) = sum_list (map (\<lambda>_. {#}) (po_threads p))" unfolding held_def by (rule arg_cong)
  then have "held (po_threads p) = {#}" by simp
  then show ?case using joined unborn_le [of "po_threads p"]
    by (auto simp: pool_inv_def conserved_def owner_inv_def counter_inv_def held_def unborn_def)
qed (auto simp: pool_inv_def conserved_def owner_inv_def counter_inv_def)

lemma wake_one_inv: "at_worker p i Asleep \<Longrightarrow> pool_inv n p \<Longrightarrow> pool_inv n (set_worker (p\<lparr>po_notifying := k\<rparr>) i Awake)"
  by (rule set_worker_inv [where p = p and v = Asleep]) simp_all

lemma pool_step_inv:
  assumes "pool_step p q" "pool_inv n p"
  shows "pool_inv n q"
proof -
  have "pool_inv n q" if "producer_step p q" using that assms(2)
  proof (induction rule: producer_step.induct)
    case (notify_one p i)
    then show ?case by (intro wake_one_inv)
  next
    case (enqueue p f)
    then show ?case by (simp add: pool_inv_def conserved_def owner_inv_def counter_inv_def split: owner.splits)
  next
    case (notify_none p)
    then show ?case by (simp add: pool_inv_def conserved_def owner_inv_def counter_inv_def split: owner.splits)
  qed simp
  moreover have "pool_inv n q" if "spurious_step p q" using that assms(2) wake_one_inv [of p _ n "po_notifying p"]
    by (auto simp: spurious_step.simps)
  ultimately show ?thesis using assms worker_step_inv owner_step_inv by (auto simp: pool_step_def)
qed

lemma pool_reachable_inv: "pool_reachable n p \<Longrightarrow> pool_inv n p"
  unfolding pool_reachable_def
proof (induction rule: rtranclp_induct)
  case base
  show ?case by (simp add: pool_create_def pool_inv_def conserved_def owner_inv_def counter_inv_def held_def unborn_def)
qed (rule pool_step_inv)


section \<open>Stopping one worker\<close>

text \<open>The flag that \<open>stop\<close> raises is consumed by one worker. With one worker that is the right one.\<close>

definition lone_inv :: "'f pool \<Rightarrow> bool" where
  "lone_inv p \<longleftrightarrow> (\<forall>k. po_owner p = Joining k \<longrightarrow>
     (\<forall>w\<in>set (po_threads p). w \<noteq> Asleep \<and> (w = EnterWait \<longrightarrow> mo_flag (po_notifyWork p))))"

lemma one_thread:
  assumes "pool_inv 1 p" "at_worker p i v"
  shows "i = 0 \<and> po_threads p = [v]"
proof -
  have "length (po_threads p) \<le> 1" "i < length (po_threads p)" "po_threads p ! i = v"
    using assms by (auto simp: pool_inv_def owner_inv_def at_worker_def)
  then show ?thesis by (cases "po_threads p") auto
qed

lemma stopped_running: "pool_inv n p \<Longrightarrow> stopping (po_owner p) \<Longrightarrow> po_running p < 0"
  using unborn_le(2) [of "po_threads p"] by (auto simp: pool_inv_def counter_inv_def)

lemma worker_step_lone:
  assumes "worker_step i p q" "pool_inv 1 p" "lone_inv p"
  shows "lone_inv q"
  using assms
proof (induction rule: worker_step.induct)
  case (test p)
  then show ?case using one_thread [OF test.prems(1) test.hyps(1)] stopped_running [of 1 p]
    by (auto simp: lone_inv_def set_worker_def)
next
  case (enter p r m)
  then show ?case using one_thread [OF enter.prems(1) enter.hyps(1)]
    by (auto simp: lone_inv_def set_worker_def monitor_enter_def split: if_splits)
qed (use one_thread in \<open>fastforce simp: lone_inv_def set_worker_def\<close>)+

lemma not_asleep_wake [simp]: "wake w \<noteq> Asleep"
  by (cases w) auto

lemma pool_step_lone:
  assumes "pool_step p q" "pool_inv 1 p" "lone_inv p"
  shows "lone_inv q"
proof -
  have awake: "lone_inv (set_worker (p\<lparr>po_notifying := k\<rparr>) i Awake)" if "at_worker p i Asleep" for k i
    using one_thread [OF assms(2) that] assms(3) by (auto simp: lone_inv_def set_worker_def)
  have "lone_inv q" if "owner_step p q"
    using that assms(3) by cases (auto simp: lone_inv_def signal_all_internal_def)
  moreover have same: "lone_inv q" if "po_owner q = po_owner p" "po_threads q = po_threads p" "po_notifyWork q = po_notifyWork p" for q
    using assms(3) that by (simp add: lone_inv_def)
  have "lone_inv q" if "producer_step p q" using that
    by cases (simp_all add: awake same assms(3))
  moreover have "lone_inv q" if "spurious_step p q"
    using that awake [of _ "po_notifying p"] by (auto simp: spurious_step.simps)
  ultimately show ?thesis using assms worker_step_lone by (auto simp: pool_step_def)
qed

fun worker_rank :: "'f worker \<Rightarrow> nat" where
  "worker_rank Exited = 0" | "worker_rank LoopTest = 1" | "worker_rank Awake = 1" | "worker_rank EnterWait = 2"
| "worker_rank Announce = 2" | "worker_rank Spawned = 3" | "worker_rank (Holding f) = 2" | "worker_rank Fetch = 3"
| "worker_rank (Busy f) = 4" | "worker_rank Asleep = 0"

fun owner_rank :: "owner \<Rightarrow> nat" where
  "owner_rank StopSet = 10" | "owner_rank (Joining k) = 2 - k" | "owner_rank _ = 0"

definition stop_rank :: "'f pool \<Rightarrow> nat" where
  "stop_rank p = owner_rank (po_owner p) + sum_list (map worker_rank (po_threads p))"

definition lone_stop :: "'f pool \<Rightarrow> bool" where
  "lone_stop p \<longleftrightarrow> pool_inv 1 p \<and> lone_inv p \<and> stopping (po_owner p)"

lemma worker_step_rank:
  assumes "worker_step i p q" "lone_stop p"
  shows "stop_rank q < stop_rank p"
proof -
  have run: "\<not> 0 < po_running p" using assms(2) stopped_running [of 1 p] by (simp add: lone_stop_def)
  have one: "stop_rank (set_worker p' i w) < stop_rank p"
    if "at_worker p i v" "po_threads p' = po_threads p" "po_owner p' = po_owner p" "worker_rank w < worker_rank v" for v w p'
    using assms(2) one_thread [OF _ that(1)] that(2-4) by (simp add: lone_stop_def stop_rank_def set_worker_def)
  have "\<not> at_worker p i EnterWait" if "mo_flag (po_notifyWork p) = False" "po_owner p \<noteq> StopSet" "po_owner p \<noteq> Stopped"
    using that assms(2) one_thread [of p i EnterWait] by (cases "po_owner p") (auto simp: lone_stop_def lone_inv_def)
  from assms(1) show ?thesis
  proof cases
    case (test)
    then show ?thesis using one [OF test(2)] run by simp
  qed (use one run in \<open>simp_all split: if_splits\<close>)
qed

lemma owner_step_rank:
  assumes "owner_step p q" "lone_stop p" "po_owner p \<noteq> Stopped"
  shows "stop_rank q < stop_rank p"
proof -
  have len: "length (po_threads p) \<le> 1" using assms(2) by (auto simp: lone_stop_def pool_inv_def owner_inv_def)
  have w: "worker_rank (wake w) \<le> worker_rank w + 1" for w :: "'a worker" by (cases w) auto
  have "sum_list (map (worker_rank \<circ> wake) (po_threads p)) \<le> sum_list (map worker_rank (po_threads p)) + 1"
    using len w by (cases "po_threads p") auto
  then show ?thesis using assms len
    by (auto simp: owner_step.simps stop_rank_def lone_stop_def at_worker_def pool_inv_def owner_inv_def)
qed

lemma lone_stop_progress:
  assumes "lone_stop p" "po_owner p \<noteq> Stopped"
  shows "\<exists>q. inner_step p q"
proof (cases "po_owner p")
  case StopSet
  then show ?thesis using owner_step.stop_signal by (fastforce simp: inner_step_def)
next
  case (Joining k)
  show ?thesis
  proof (cases "k < length (po_threads p)")
    case False
    then show ?thesis using owner_step.joined [OF Joining] by (auto simp: inner_step_def)
  next
    case True
    define v where "v = po_threads p ! k"
    have at: "at_worker p k v" using True by (simp add: at_worker_def v_def)
    have run: "po_running p < 0" using assms stopped_running by (auto simp: lone_stop_def)
    have "v \<noteq> Asleep" using assms(1) Joining True by (auto simp: lone_stop_def lone_inv_def v_def)
    then have "(\<exists>q. worker_step k p q) \<or> v = Exited"
    proof (cases v)
      case EnterWait
      then show ?thesis using worker_step.enter [of p k] at by (metis prod.collapse)
    next
      case (Holding f)
      then show ?thesis using worker_step.cancel [of p k f] at run by (meson less_imp_le)
    qed (use at worker_step.intros [of p k] in blast)+
    then show ?thesis using at owner_step.join [OF Joining] by (auto simp: inner_step_def)
  qed
qed (use assms in \<open>simp_all add: lone_stop_def\<close>)

lemma owner_step_stopping: "owner_step p q \<Longrightarrow> stopping (po_owner p) \<Longrightarrow> stopping (po_owner q)"
  by (auto simp: owner_step.simps)

lemma worker_step_owner: "worker_step i p q \<Longrightarrow> po_owner q = po_owner p"
  by (induction rule: worker_step.induct) (simp_all add: set_worker_def)

lemma lone_stop_step: "lone_stop p \<Longrightarrow> inner_step p q \<Longrightarrow> lone_stop q"
  using pool_step_inv [of p q 1] pool_step_lone [of p q] owner_step_stopping [of p q] worker_step_owner [of _ p q]
  by (auto simp: lone_stop_def inner_step_def pool_step_def)

lemma lone_stop_returns: "lone_stop p \<Longrightarrow> inevitable inner_step (\<lambda>p. po_owner p = Stopped) p"
proof (rule inevitable_measure [where I = lone_stop and m = stop_rank])
  show "\<exists>q. inner_step p q" if "lone_stop p" "po_owner p \<noteq> Stopped" for p :: "'a pool"
    by (rule lone_stop_progress [OF that])
  show "lone_stop q \<and> stop_rank q < stop_rank p" if "lone_stop p" "po_owner p \<noteq> Stopped" "inner_step p q" for p q :: "'a pool"
    using lone_stop_step [OF that(1,3)] that worker_step_rank owner_step_rank unfolding inner_step_def by blast
qed

section \<open>Properties\<close>

text \<open>C20: in every reachable state of a pool of \<open>n\<close> threads, each submitted task is in the queue, held
  by one worker, executed or dropped, exactly once; nothing is dropped before the pool is stopped;
  there are at most \<open>n\<close> threads; once \<open>stop\<close> has begun the counter is negative, so that no worker
  begins a task; and when it has returned, no thread is left.\<close>

theorem pool_conserves_tasks:
  assumes "pool_reachable n p"
  shows "po_submitted p = po_queue p + held (po_threads p) + po_executed p + po_dropped p \<and>
    length (po_threads p) \<le> n \<and> po_running p \<le> int n \<and>
    (if stopping (po_owner p)
     then po_running p < 0 \<and> (\<forall>i q f. worker_step i p q \<longrightarrow> at_worker q i (Busy f) \<longrightarrow> False)
     else po_dropped p = {#}) \<and>
    (po_owner p = Stopped \<longrightarrow> po_threads p = [])"
proof -
  have inv: "pool_inv n p" by (rule pool_reachable_inv [OF assms])
  have "\<not> at_worker q i (Busy f)" if "po_running p < 0" "worker_step i p q" for i q f
    using that(2,1) by cases (auto simp: at_worker_def set_worker_def)
  moreover have "po_running p \<le> int n"
    using inv stopped_running [OF inv] unborn_le [of "po_threads p"]
    by (cases "stopping (po_owner p)") (auto simp: pool_inv_def counter_inv_def owner_inv_def)
  ultimately show ?thesis using inv stopped_running [OF inv]
    by (auto simp: pool_inv_def conserved_def owner_inv_def counter_inv_def)
qed

lemma pool_reachable_create: "pool_reachable n (pool_create n)"
  by (simp add: pool_reachable_def)

theorem pool_conserves_tasks_witness: "length (po_threads (pool_create 2 :: nat pool)) \<le> 2"
  using pool_conserves_tasks [OF pool_reachable_create [of 2]] by blast

text \<open>C21: \<open>stop\<close> of a pool with one worker returns: from every reachable state in which it has begun,
  whatever the worker is doing and however the two threads are scheduled, it ends.\<close>

theorem stop_returns_with_one_worker:
  assumes "pool_reachable 1 p" "stopping (po_owner p)"
  shows "inevitable inner_step (\<lambda>p. po_owner p = Stopped) p"
proof -
  have "pool_inv 1 p \<and> lone_inv p"
    using assms(1) unfolding pool_reachable_def
  proof (induction rule: rtranclp_induct)
    case base
    show ?case using pool_reachable_inv [OF pool_reachable_create] by (simp add: lone_inv_def pool_create_def)
  qed (use pool_step_inv pool_step_lone in blast)
  then show ?thesis using assms(2) by (intro lone_stop_returns) (simp add: lone_stop_def)
qed

lemma pool_reachable_step: "pool_reachable n p \<Longrightarrow> pool_step p q \<Longrightarrow> q = r \<Longrightarrow> pool_reachable n r"
  unfolding pool_reachable_def by (simp add: rtranclp.rtrancl_into_rtrancl)

lemmas worker_reachable = pool_reachable_step [OF _ pool_step_def [THEN iffD2, OF disjI1, OF exI]]
lemmas owner_reachable = pool_reachable_step [OF _ pool_step_def [THEN iffD2, OF disjI2, OF disjI1]]
lemmas producer_reachable = pool_reachable_step [OF _ pool_step_def [THEN iffD2, OF disjI2, OF disjI2, OF disjI1]]

text \<open>States written out: counter, threads, flags of the two monitors, queue, owner, notifications.\<close>

definition pool_state :: "nat \<Rightarrow> int \<Rightarrow> nat worker list \<Rightarrow> bool \<Rightarrow> bool \<Rightarrow> nat multiset \<Rightarrow> owner \<Rightarrow> nat \<Rightarrow> nat pool" where
  "pool_state n run ws flag_running flag_work queue ow notifying =
     \<lparr>po_running = run, po_numThreads = n, po_threads = ws,
      po_notifyRunning = \<lparr>mo_flag = flag_running, mo_cancelled = False\<rparr>,
      po_notifyWork = \<lparr>mo_flag = flag_work, mo_cancelled = False\<rparr>, po_queue = queue, po_owner = ow,
      po_notifying = notifying, po_submitted = queue, po_executed = {#}, po_dropped = {#}\<rparr>"

lemma pool_create_state: "pool_create n = pool_state n 0 [] False False {#} Created 0"
  by (simp add: pool_create_def pool_state_def monitor_create_def)

lemma pool_reachable_initial: "pool_reachable n (pool_state n 0 [] False False {#} Created 0)"
  by (metis pool_create_state pool_reachable_create)

lemmas step_eval = pool_state_def set_worker_def at_worker_def monitor_enter_def signal_all_internal_def

theorem stop_returns_with_one_worker_witness:
  "inevitable inner_step (\<lambda>p. po_owner p = Stopped) (pool_state 1 (- 2) [] False False {#} StopSet 0)"
proof (rule stop_returns_with_one_worker)
  have "pool_reachable 1 (pool_state 1 0 [] False False {#} Created 0)"
    by (rule pool_reachable_initial)
  from owner_reachable [OF this owner_step.stop] show "pool_reachable 1 (pool_state 1 (- 2) [] False False {#} StopSet 0)"
    by (simp add: step_eval)
  show "stopping (po_owner (pool_state 1 (- 2) [] False False {#} StopSet 0))" by (simp add: pool_state_def)
qed

lemma idle_worker:
  assumes "\<forall>w\<in>set (po_threads p). w = Asleep \<or> w = Exited"
  shows "\<not> worker_step i p q"
proof
  assume "worker_step i p q"
  then obtain v where "at_worker p i v" "v \<noteq> Asleep" "v \<noteq> Exited" by cases auto
  then show False using assms nth_mem by (auto simp: at_worker_def)
qed

lemma two_started: "pool_reachable 2 (pool_state 2 2 [EnterWait, EnterWait] False False {#} (Started True) 0)"
proof -
  note [simp] = step_eval
  have "pool_reachable 2 (pool_state 2 0 [] False False {#} Created 0)"
    by (rule pool_reachable_initial)
  then have "pool_reachable 2 (pool_state 2 0 [] False False {#} (Spawning 0) 0)"
    by (rule owner_reachable [OF _ owner_step.start]) simp_all
  then have "pool_reachable 2 (pool_state 2 0 [Spawned] False False {#} (Spawning 1) 0)"
    by (rule owner_reachable [OF _ owner_step.spawn]) simp_all
  then have "pool_reachable 2 (pool_state 2 0 [Spawned, Spawned] False False {#} (Spawning 2) 0)"
    by (rule owner_reachable [OF _ owner_step.spawn]) simp_all
  then have "pool_reachable 2 (pool_state 2 0 [Spawned, Spawned] False False {#} AwaitRunning 0)"
    by (rule owner_reachable [OF _ owner_step.spawn_all [where k = 2]]) simp_all
  then have "pool_reachable 2 (pool_state 2 1 [LoopTest, Spawned] False False {#} AwaitRunning 0)"
    by (rule worker_reachable [OF _ worker_step.spawned [where i = 0 and r = 1]]) simp_all
  then have "pool_reachable 2 (pool_state 2 2 [LoopTest, Announce] False False {#} AwaitRunning 0)"
    by (rule worker_reachable [OF _ worker_step.spawned [where i = 1 and r = 2]]) simp_all
  then have "pool_reachable 2 (pool_state 2 2 [LoopTest, LoopTest] True False {#} AwaitRunning 0)"
    by (rule worker_reachable [OF _ worker_step.announce [where i = 1]]) simp_all
  then have "pool_reachable 2 (pool_state 2 2 [LoopTest, LoopTest] False False {#} (Started True) 0)"
    by (rule owner_reachable [OF _ owner_step.wait_for [OF _ prod.collapse [symmetric]]]) simp_all
  then have "pool_reachable 2 (pool_state 2 2 [EnterWait, LoopTest] False False {#} (Started True) 0)"
    by (rule worker_reachable [OF _ worker_step.test [where i = 0]]) simp_all
  then show ?thesis
    by (rule worker_reachable [OF _ worker_step.test [where i = 1]]) simp_all
qed

text \<open>C22: with two workers \<open>stop\<close> can wait for ever. Both workers have tested the counter and not yet
  entered \<open>wait\<close> when \<open>stop\<close> raises the flag: the first one consumes it and ends, the second one
  goes to sleep, and nobody notifies again.\<close>

theorem stop_deadlocks_with_two_workers:
  "\<exists>p :: nat pool. pool_reachable 2 p \<and> po_owner p = Joining 1 \<and> po_threads p = [Exited, Asleep] \<and>
     po_notifying p = 0 \<and> (\<forall>q. \<not> inner_step p q)"
proof -
  note [simp] = step_eval
  let ?p = "pool_state 2 (- 3) [Exited, Asleep] False False {#} (Joining 1) 0"
  have "pool_reachable 2 (pool_state 2 (- 3) [EnterWait, EnterWait] False False {#} StopSet 0)"
    by (rule owner_reachable [OF two_started owner_step.stop]) simp_all
  then have "pool_reachable 2 (pool_state 2 (- 3) [EnterWait, EnterWait] False True {#} (Joining 0) 0)"
    by (rule owner_reachable [OF _ owner_step.stop_signal]) simp_all
  then have "pool_reachable 2 (pool_state 2 (- 3) [Awake, EnterWait] False False {#} (Joining 0) 0)"
    by (rule worker_reachable [OF _ worker_step.enter [where i = 0, OF _ prod.collapse [symmetric]]]) simp_all
  then have "pool_reachable 2 (pool_state 2 (- 3) [Exited, EnterWait] False False {#} (Joining 0) 0)"
    by (rule worker_reachable [OF _ worker_step.awake [where i = 0]]) simp_all
  then have "pool_reachable 2 (pool_state 2 (- 3) [Exited, Asleep] False False {#} (Joining 0) 0)"
    by (rule worker_reachable [OF _ worker_step.enter [where i = 1, OF _ prod.collapse [symmetric]]]) simp_all
  then have "pool_reachable 2 ?p"
    by (rule owner_reachable [OF _ owner_step.join]) simp_all
  moreover have "\<not> inner_step ?p q" for q
    using idle_worker [of ?p] by (simp add: inner_step_def owner_step.simps)
  ultimately show ?thesis by (intro exI [of _ ?p]) simp
qed

text \<open>C23: a task can be left in the queue while the workers sleep: \<open>execute\<close> notifies after a worker
  has found the queue empty and before it sleeps. Only a later task wakes it.\<close>

theorem execute_loses_wakeup:
  "\<exists>p :: nat pool. pool_reachable 2 p \<and> pool_queued p = 1 \<and> po_notifying p = 0 \<and> (\<forall>i q. \<not> worker_step i p q)"
proof -
  note [simp] = step_eval
  let ?p = "pool_state 2 2 [Asleep, Asleep] False False {#5#} (Started True) 0"
  have "pool_reachable 2 (pool_state 2 2 [EnterWait, EnterWait] False False {#5#} (Started True) 1)"
    by (rule producer_reachable [OF two_started producer_step.enqueue]) simp_all
  then have "pool_reachable 2 (pool_state 2 2 [EnterWait, EnterWait] False False {#5#} (Started True) 0)"
    by (rule producer_reachable [OF _ producer_step.notify_none]) simp_all
  then have "pool_reachable 2 (pool_state 2 2 [Asleep, EnterWait] False False {#5#} (Started True) 0)"
    by (rule worker_reachable [OF _ worker_step.enter [where i = 0, OF _ prod.collapse [symmetric]]]) simp_all
  then have "pool_reachable 2 ?p"
    by (rule worker_reachable [OF _ worker_step.enter [where i = 1, OF _ prod.collapse [symmetric]]]) simp_all
  moreover have "\<not> worker_step i ?p q" for i q
    using idle_worker [of ?p] by simp
  ultimately show ?thesis by (intro exI [of _ ?p]) (simp add: pool_queued_def)
qed

end
