(* ===== verification/ConcurrentSink.thy ===== *)
theory ConcurrentSink
  imports FountainSink Steps "HOL-Library.Multiset"
begin

text \<open>
  \<open>concurrent_fountain_decoder_sink.h\<close> as a step relation over any number of threads. A thread
  enqueues its buffer, tries the write lock, and whoever has it feeds the decoder from the backlog
  until that is empty. The queue is a multiset; a dequeue takes any element and fails only on an
  empty one. The last four components of the state are what the readers see and two histories:
  the buffers submitted and, in order, the buffers fed to the decoder.
\<close>

datatype writer = Idle | Pushed | Locked | Popped "u8 list" | Drained | Unlocking

record ('d, 'io) concurrent_sink =
  cs_writers :: "writer list"
  cs_writeMutex :: "nat option"
  cs_decoder :: "'d fountain_decoder_sink"
  cs_io :: 'io
  cs_backlog :: "u8 list multiset"
  cs_done :: "string list"
  cs_progress :: "(nat \<times> nat) list"
  cs_submitted :: "u8 list multiset"
  cs_fed :: "u8 list list"

definition concurrent_create :: "nat \<Rightarrow> nat \<Rightarrow> 'io \<Rightarrow> ('d, 'io) concurrent_sink" where
  "concurrent_create threads chunk_size io = \<lparr>cs_writers = replicate threads Idle, cs_writeMutex = None,
     cs_decoder = sink_create chunk_size, cs_io = io, cs_backlog = {#}, cs_done = [], cs_progress = [],
     cs_submitted = {#}, cs_fed = []\<rparr>"

definition set_writer :: "('d, 'io) concurrent_sink \<Rightarrow> nat \<Rightarrow> writer \<Rightarrow> ('d, 'io) concurrent_sink" where
  "set_writer s i w = s\<lparr>cs_writers := (cs_writers s)[i := w]\<rparr>"

definition at_writer :: "('d, 'io) concurrent_sink \<Rightarrow> nat \<Rightarrow> writer \<Rightarrow> bool" where
  "at_writer s i w \<longleftrightarrow> i < length (cs_writers s) \<and> cs_writers s ! i = w"

text \<open>\<open>update_status\<close>, with the read lock held.\<close>

definition update_status :: "('d, 'io) concurrent_sink \<Rightarrow> ('d, 'io) concurrent_sink option" where
  "update_status s = do {
     progress \<leftarrow> get_progress (cs_decoder s);
     Some (s\<lparr>cs_done := get_done (cs_decoder s), cs_progress := progress\<rparr>)
   }"

inductive enqueue_step :: "nat \<Rightarrow> ('d, 'io) concurrent_sink \<Rightarrow> ('d, 'io) concurrent_sink \<Rightarrow> bool" for i :: nat where
  enqueue: "at_writer s i Idle \<Longrightarrow> enqueue_step i s
     (set_writer (s\<lparr>cs_backlog := add_mset data (cs_backlog s), cs_submitted := add_mset data (cs_submitted s)\<rparr>) i Pushed)"

inductive process_step ::
  "('e, 'd) wirehair \<Rightarrow> WirehairResult \<Rightarrow> 'io on_store \<Rightarrow> nat \<Rightarrow> ('d, 'io) concurrent_sink \<Rightarrow> ('d, 'io) concurrent_sink \<Rightarrow> bool"
  for api :: "('e, 'd) wirehair" and junk :: WirehairResult and on_store :: "'io on_store" and i :: nat where
  locked: "at_writer s i Pushed \<Longrightarrow> cs_writeMutex s = None \<Longrightarrow>
     process_step api junk on_store i s (set_writer (s\<lparr>cs_writeMutex := Some i\<rparr>) i Locked)"
| busy: "at_writer s i Pushed \<Longrightarrow> cs_writeMutex s \<noteq> None \<Longrightarrow> process_step api junk on_store i s (set_writer s i Idle)"
| dequeue: "at_writer s i Locked \<Longrightarrow> data \<in># cs_backlog s \<Longrightarrow>
     process_step api junk on_store i s (set_writer (s\<lparr>cs_backlog := cs_backlog s - {#data#}\<rparr>) i (Popped data))"
| feed: "at_writer s i (Popped data) \<Longrightarrow> sink_write api junk on_store (cs_decoder s) (cs_io s) data = Some (b, d, io) \<Longrightarrow>
     process_step api junk on_store i s
       (set_writer (s\<lparr>cs_decoder := d, cs_io := io, cs_fed := cs_fed s @ [data]\<rparr>) i Locked)"
| drained: "at_writer s i Locked \<Longrightarrow> cs_backlog s = {#} \<Longrightarrow> process_step api junk on_store i s (set_writer s i Drained)"
| status: "at_writer s i Drained \<Longrightarrow> update_status s = Some t \<Longrightarrow>
     process_step api junk on_store i s (set_writer t i Unlocking)"
| unlock: "at_writer s i Unlocking \<Longrightarrow>
     process_step api junk on_store i s (set_writer (s\<lparr>cs_writeMutex := None\<rparr>) i Idle)"

definition writer_step where
  "writer_step api junk on_store s t \<longleftrightarrow> (\<exists>i. enqueue_step i s t \<or> process_step api junk on_store i s t)"

definition concurrent_reachable where
  "concurrent_reachable api junk on_store threads chunk_size io =
     (writer_step api junk on_store)\<^sup>*\<^sup>* (concurrent_create threads chunk_size io)"

section \<open>Mutual exclusion\<close>

fun critical :: "writer \<Rightarrow> bool" where
  "critical Idle = False" | "critical Pushed = False" | "critical _ = True"

fun popped :: "writer \<Rightarrow> u8 list multiset" where
  "popped (Popped data) = {#data#}" | "popped _ = {#}"

text \<open>The buffer in the hands of the thread that holds the lock.\<close>

definition in_hand :: "('d, 'io) concurrent_sink \<Rightarrow> u8 list multiset" where
  "in_hand s = (case cs_writeMutex s of None \<Rightarrow> {#} | Some i \<Rightarrow> popped (cs_writers s ! i))"

text \<open>Whether what the readers see is up to date.\<close>

definition settled :: "('d, 'io) concurrent_sink \<Rightarrow> bool" where
  "settled s \<longleftrightarrow> (case cs_writeMutex s of None \<Rightarrow> True | Some i \<Rightarrow> cs_writers s ! i = Unlocking)"

definition mutex_inv :: "('d, 'io) concurrent_sink \<Rightarrow> bool" where
  "mutex_inv s \<longleftrightarrow> (\<forall>i < length (cs_writers s). critical (cs_writers s ! i) \<longleftrightarrow> cs_writeMutex s = Some i) \<and>
     (\<forall>i. cs_writeMutex s = Some i \<longrightarrow> i < length (cs_writers s))"

definition fed_inv ::
  "('e, 'd) wirehair \<Rightarrow> WirehairResult \<Rightarrow> 'io on_store \<Rightarrow> nat \<Rightarrow> 'io \<Rightarrow> ('d, 'io) concurrent_sink \<Rightarrow> bool" where
  "fed_inv api junk on_store chunk_size io s \<longleftrightarrow> sink_inv (cs_decoder s) \<and>
     sink_run api junk on_store (cs_fed s) (sink_create chunk_size, io) = Some (cs_decoder s, cs_io s) \<and>
     cs_submitted s = cs_backlog s + in_hand s + mset (cs_fed s) \<and>
     (settled s \<longrightarrow> cs_done s = get_done (cs_decoder s))"

lemma sink_run_snoc:
  "sink_run api junk on_store fs a = Some (s, io) \<Longrightarrow> decode_frame api junk on_store s io data = Some (r, s', io') \<Longrightarrow>
   sink_run api junk on_store (fs @ [data]) a = Some (s', io')"
  by (simp add: sink_run_def for_each_append)

lemma get_progress_total:
  assumes "sink_inv s"
  shows "\<exists>p. get_progress s = Some p"
proof -
  have "fds_blocks_required st \<noteq> None" if "sk_streams s i = Some st" for i st
  proof -
    have "fds_block_size st = sk_chunkSize s - 6" "50 \<le> sk_chunkSize s"
      using assms that uint_sub_le [of 6 "sk_chunkSize s"] by (auto simp: sink_inv_def fds_wf_def fds_block_size_def)
    then show ?thesis by (simp add: fds_blocks_required_def)
  qed
  then have "\<exists>p. get_progress s = Some p \<and> True" unfolding get_progress_def
    by (intro for_each_total_inv) (fastforce split: option.split)+
  then show ?thesis by simp
qed

lemma mutex_inv_step:
  assumes "mutex_inv s" "at_writer s i v" "cs_writers t = cs_writers s"
    and "cs_writeMutex t = (if critical w then Some i else if critical v then None else cs_writeMutex s)"
    and "critical w \<Longrightarrow> critical v \<or> cs_writeMutex s = None"
  shows "mutex_inv (set_writer t i w)"
  using assms unfolding mutex_inv_def at_writer_def set_writer_def
  by (auto simp: nth_list_update split: if_splits)

lemma fed_inv_step:
  assumes "mutex_inv s" "fed_inv api junk on_store c io0 s" "at_writer s i v" "cs_writers t = cs_writers s"
    and "cs_writeMutex t = (if critical w then Some i else if critical v then None else cs_writeMutex s)"
    and "critical w \<Longrightarrow> critical v \<or> cs_writeMutex s = None"
    and "cs_decoder t = cs_decoder s" "cs_io t = cs_io s" "cs_fed t = cs_fed s"
    and "cs_submitted t + cs_backlog s + popped v = cs_submitted s + cs_backlog t + popped w"
    and "if w = Unlocking then cs_done t = get_done (cs_decoder s) else if critical w then True
      else cs_done t = cs_done s \<and> (critical v \<longrightarrow> v = Unlocking)"
  shows "fed_inv api junk on_store c io0 (set_writer t i w)"
proof -
  have i: "i < length (cs_writers s)" "cs_writers s ! i = v" using assms(3) by (simp_all add: at_writer_def)
  have v: "critical v \<longleftrightarrow> cs_writeMutex s = Some i" using assms(1) i by (auto simp: mutex_inv_def)
  have "in_hand (set_writer t i w) + popped v = in_hand s + popped w"
    using assms(4-6) i v by (cases v; cases w) (auto simp: in_hand_def set_writer_def split: option.splits)
  moreover have "cs_submitted s = cs_backlog s + in_hand s + mset (cs_fed s)" using assms(2) by (simp add: fed_inv_def)
  ultimately have "cs_submitted t + (cs_backlog s + popped v) =
      cs_backlog t + in_hand (set_writer t i w) + mset (cs_fed s) + (cs_backlog s + popped v)"
    using assms(10) by (metis (no_types, lifting) add.assoc add.commute)
  then have "cs_submitted t = cs_backlog t + in_hand (set_writer t i w) + mset (cs_fed s)" by simp
  moreover have "cs_done t = get_done (cs_decoder s)" if "settled (set_writer t i w)"
    using that assms(2,4,5,11) i v
    by (cases "critical w"; cases "cs_writeMutex s") (auto simp: settled_def set_writer_def fed_inv_def split: if_splits)
  ultimately show ?thesis using assms(2,7-9) by (auto simp: fed_inv_def set_writer_def)
qed

lemma process_step_inv:
  assumes "process_step api junk on_store i s t" "recover_fits api" "mutex_inv s" "fed_inv api junk on_store c io0 s"
  shows "mutex_inv t \<and> fed_inv api junk on_store c io0 t"
  using assms(1)
proof cases
  case (feed data b d io)
  have d: "decode_frame api junk on_store (cs_decoder s) (cs_io s) data = Some (r, d, io) \<Longrightarrow> sink_inv d" for r
    using decode_frame_run [of "cs_decoder s" api junk on_store "cs_io s" data] assms(2,4) by (auto simp: fed_inv_def)
  obtain r where r: "decode_frame api junk on_store (cs_decoder s) (cs_io s) data = Some (r, d, io)"
    using feed(3) by (auto simp: sink_write_def bind_eq_Some_conv)
  have m: "cs_writeMutex s = Some i" "i < length (cs_writers s)" "cs_writers s ! i = Popped data"
    using feed(2) assms(3) by (auto simp: mutex_inv_def at_writer_def)
  have "sink_run api junk on_store (cs_fed s @ [data]) (sink_create c, io0) = Some (d, io)"
    using assms(4) r by (intro sink_run_snoc) (auto simp: fed_inv_def)
  then have "fed_inv api junk on_store c io0 t"
    using assms(4) d [OF r] m feed(1) by (simp add: fed_inv_def in_hand_def settled_def set_writer_def)
  moreover have "mutex_inv t" unfolding feed(1) by (rule mutex_inv_step [OF assms(3) feed(2)]) (simp_all add: m)
  ultimately show ?thesis by blast
next
  case (status u)
  then have u: "cs_writers u = cs_writers s" "cs_writeMutex u = cs_writeMutex s" "cs_decoder u = cs_decoder s" "cs_io u = cs_io s"
    "cs_fed u = cs_fed s" "cs_submitted u = cs_submitted s" "cs_backlog u = cs_backlog s" "cs_done u = get_done (cs_decoder s)"
    by (auto simp: update_status_def bind_eq_Some_conv)
  have m: "cs_writeMutex s = Some i" using status(2) assms(3) by (auto simp: mutex_inv_def at_writer_def)
  show ?thesis unfolding status(1)
    by (intro conjI mutex_inv_step [OF assms(3) status(2)] fed_inv_step [OF assms(3,4) status(2)]) (simp_all add: u m)
next
  case locked
  then show ?thesis unfolding locked(1)
    by (intro conjI mutex_inv_step [OF assms(3) locked(2)] fed_inv_step [OF assms(3,4) locked(2)]) simp_all
next
  case busy
  then show ?thesis unfolding busy(1)
    by (intro conjI mutex_inv_step [OF assms(3) busy(2)] fed_inv_step [OF assms(3,4) busy(2)]) simp_all
next
  case (dequeue data)
  have m: "cs_writeMutex s = Some i" using dequeue(2) assms(3) by (auto simp: mutex_inv_def at_writer_def)
  show ?thesis unfolding dequeue(1) using dequeue(3)
    by (intro conjI mutex_inv_step [OF assms(3) dequeue(2)] fed_inv_step [OF assms(3,4) dequeue(2)]) (simp_all add: m)
next
  case drained
  have m: "cs_writeMutex s = Some i" using drained(2) assms(3) by (auto simp: mutex_inv_def at_writer_def)
  show ?thesis unfolding drained(1)
    by (intro conjI mutex_inv_step [OF assms(3) drained(2)] fed_inv_step [OF assms(3,4) drained(2)]) (simp_all add: m)
next
  case unlock
  show ?thesis unfolding unlock(1)
    by (intro conjI mutex_inv_step [OF assms(3) unlock(2)] fed_inv_step [OF assms(3,4) unlock(2)]) simp_all
qed

lemma enqueue_step_inv:
  assumes "enqueue_step i s t" "mutex_inv s" "fed_inv api junk on_store c io0 s"
  shows "mutex_inv t \<and> fed_inv api junk on_store c io0 t"
  using assms(1)
proof cases
  case (enqueue data)
  show ?thesis unfolding enqueue(1)
    by (intro conjI mutex_inv_step [OF assms(2) enqueue(2)] fed_inv_step [OF assms(2,3) enqueue(2)]) simp_all
qed

lemma reachable_inv:
  assumes "concurrent_reachable api junk on_store threads c io s" "recover_fits api" "c < 2 ^ 32"
  shows "mutex_inv s \<and> fed_inv api junk on_store c io s"
  using assms(1) unfolding concurrent_reachable_def
proof (induction rule: rtranclp_induct)
  case base
  show ?case using sink_create_inv [OF assms(3)]
    by (simp add: concurrent_create_def mutex_inv_def fed_inv_def in_hand_def sink_run_def get_done_def sink_create_def)
next
  case (step s t)
  then show ?case using enqueue_step_inv [of _ s t] process_step_inv [of api junk on_store _ s t] assms(2)
    unfolding writer_step_def by blast
qed


section \<open>Properties\<close>

text \<open>C24: whatever the threads do, in every reachable state at most one of them is between taking and
  releasing the write lock, namely its holder; every submitted buffer is in the backlog, in the
  holder's hands or fed, exactly once; the decoder is in the state that one thread reaches by feeding
  the same buffers in that order; and while nobody holds the lock the readers see its finished files.\<close>

theorem concurrent_sink_serializes:
  assumes "recover_fits api" "chunk_size < 2 ^ 32"
    and "concurrent_reachable api junk on_store threads chunk_size io s"
  shows "(\<forall>i < length (cs_writers s). critical (cs_writers s ! i) \<longleftrightarrow> cs_writeMutex s = Some i) \<and>
    cs_submitted s = cs_backlog s + in_hand s + mset (cs_fed s) \<and>
    sink_run api junk on_store (cs_fed s) (sink_create chunk_size, io) = Some (cs_decoder s, cs_io s) \<and>
    (cs_writeMutex s = None \<longrightarrow> cs_done s = get_done (cs_decoder s))"
  using reachable_inv [OF assms(3,1,2)] by (auto simp: mutex_inv_def fed_inv_def settled_def)

theorem concurrent_sink_serializes_witness:
  "let s = (concurrent_create 2 50 () :: (u8 list list, unit) concurrent_sink) in
   cs_submitted s = cs_backlog s + in_hand s + mset (cs_fed s)"
proof -
  have "recover_fits single_code" by (simp add: recover_fits_def single_code_def)
  moreover have "concurrent_reachable single_code Wirehair_InvalidInput None 2 50 () (concurrent_create 2 50 ())"
    by (simp add: concurrent_reachable_def)
  ultimately show ?thesis unfolding Let_def
    by (intro concurrent_sink_serializes [THEN conjunct2, THEN conjunct1]) simp_all
qed

definition lone_writer :: "nat \<Rightarrow> ('d, 'io) concurrent_sink \<Rightarrow> bool" where
  "lone_writer i s \<longleftrightarrow> i < length (cs_writers s) \<and> (\<forall>j < length (cs_writers s). j \<noteq> i \<longrightarrow> cs_writers s ! j = Idle) \<and>
     (cs_writers s ! i \<in> {Idle, Drained, Unlocking} \<longrightarrow> cs_backlog s = {#})"

fun writer_rank :: "writer \<Rightarrow> nat" where
  "writer_rank Idle = 0" | "writer_rank Unlocking = 1" | "writer_rank Drained = 2" | "writer_rank Locked = 3"
| "writer_rank (Popped data) = 4" | "writer_rank Pushed = 5"

lemma lone_writer_mutex:
  assumes "mutex_inv s" "lone_writer i s" "cs_writers s ! i = Pushed"
  shows "cs_writeMutex s = None"
proof (cases "cs_writeMutex s")
  case (Some j)
  then have "critical (cs_writers s ! j)" "j < length (cs_writers s)" using assms(1) by (auto simp: mutex_inv_def)
  then show ?thesis using assms(2,3) by (cases "j = i") (auto simp: lone_writer_def)
qed

lemma lone_writer_down:
  assumes "process_step api junk on_store i s t" "mutex_inv s" "lone_writer i s"
  shows "lone_writer i t \<and> 2 * size (cs_backlog t) + writer_rank (cs_writers t ! i) <
    2 * size (cs_backlog s) + writer_rank (cs_writers s ! i)"
  using assms(1)
proof cases
  case (dequeue data)
  then have "size (cs_backlog s) = Suc (size (cs_backlog s - {#data#}))" by (metis insert_DiffM size_add_mset)
  then show ?thesis using dequeue assms(3) by (auto simp: lone_writer_def set_writer_def at_writer_def)
next
  case busy
  then show ?thesis using lone_writer_mutex [OF assms(2,3)] by (simp add: at_writer_def)
qed (use assms(3) in \<open>auto simp: lone_writer_def set_writer_def at_writer_def update_status_def bind_eq_Some_conv\<close>)

lemma lone_writer_progress:
  assumes "recover_fits api" "mutex_inv s" "sink_inv (cs_decoder s)" "lone_writer i s" "cs_writers s ! i \<noteq> Idle"
  shows "\<exists>t. process_step api junk on_store i s t"
proof (cases "cs_writers s ! i")
  case Pushed
  then show ?thesis using process_step.locked [of s i] lone_writer_mutex [OF assms(2,4)] assms(4)
    by (auto simp: at_writer_def lone_writer_def)
next
  case Locked
  then have at: "at_writer s i Locked" using assms(4) by (simp add: at_writer_def lone_writer_def)
  show ?thesis
  proof (cases "cs_backlog s = {#}")
    case False
    then obtain data where "data \<in># cs_backlog s" by (rule multiset_nonemptyE)
    then show ?thesis using process_step.dequeue [OF at] by blast
  qed (use process_step.drained [OF at] in blast)
next
  case (Popped data)
  obtain r d io where "decode_frame api junk on_store (cs_decoder s) (cs_io s) data = Some (r, d, io)"
    using decode_frame_run [OF assms(3,1), of junk on_store "cs_io s" data] by blast
  then have "sink_write api junk on_store (cs_decoder s) (cs_io s) data = Some (r > 0, d, io)" by (simp add: sink_write_def)
  then show ?thesis using process_step.feed Popped assms(4) by (fastforce simp: at_writer_def lone_writer_def)
next
  case Drained
  obtain p where "get_progress (cs_decoder s) = Some p" using get_progress_total [OF assms(3)] by blast
  then have "\<exists>t. update_status s = Some t" by (simp add: update_status_def)
  then show ?thesis using process_step.status Drained assms(4) by (fastforce simp: at_writer_def lone_writer_def)
next
  case Unlocking
  then show ?thesis using process_step.unlock [of s i] assms(4) by (auto simp: at_writer_def lone_writer_def)
qed (use assms in simp)



text \<open>States of two threads written out, after buffers that the decoder refuses.\<close>

definition two_writers :: "writer \<Rightarrow> writer \<Rightarrow> nat option \<Rightarrow> u8 list multiset \<Rightarrow> u8 list multiset \<Rightarrow> u8 list list \<Rightarrow>
    (u8 list list, unit) concurrent_sink" where
  "two_writers a b lock backlog submitted fed = \<lparr>cs_writers = [a, b], cs_writeMutex = lock,
     cs_decoder = sink_create 50, cs_io = (), cs_backlog = backlog, cs_done = [], cs_progress = [],
     cs_submitted = submitted, cs_fed = fed\<rparr>"

abbreviation two_reachable :: "(u8 list list, unit) concurrent_sink \<Rightarrow> bool" where
  "two_reachable \<equiv> concurrent_reachable single_code Wirehair_InvalidInput None 2 50 ()"

lemma two_enqueue: "two_reachable s \<Longrightarrow> enqueue_step i s t \<Longrightarrow> t = u \<Longrightarrow> two_reachable u"
  unfolding concurrent_reachable_def by (metis rtranclp.rtrancl_into_rtrancl writer_step_def)

lemma two_process:
  "two_reachable s \<Longrightarrow> process_step single_code Wirehair_InvalidInput None i s t \<Longrightarrow> t = u \<Longrightarrow> two_reachable u"
  unfolding concurrent_reachable_def by (metis rtranclp.rtrancl_into_rtrancl writer_step_def)

lemmas two_eval = two_writers_def at_writer_def set_writer_def

lemma refused_write: "sink_write single_code Wirehair_InvalidInput None (sink_create 50) () [1] = Some (False, sink_create 50, ())"
  by (simp add: sink_write_def decode_frame_def sink_create_def)

lemma empty_progress: "get_progress (sink_create 50) = Some []"
  by (simp add: get_progress_def sink_create_def upt_rec)

lemma one_pushed: "two_reachable (two_writers Pushed Idle None {#[1]#} {#[1]#} [])"
proof -
  have "two_reachable (two_writers Idle Idle None {#} {#} [])"
    by (simp add: concurrent_reachable_def concurrent_create_def two_writers_def numeral_2_eq_2)
  then show ?thesis
    by (rule two_enqueue [OF _ enqueue_step.enqueue [where i = 0 and data = "[1]"]]) (simp_all add: two_eval)
qed

text \<open>C26: a buffer can stay behind: enqueued after the holder of the lock has found the queue empty,
  by a thread that then fails to take the lock. All threads are done and the buffer is not fed.\<close>

theorem backlog_can_be_stranded:
  "\<exists>s :: (u8 list list, unit) concurrent_sink. two_reachable s \<and> cs_writers s = [Idle, Idle] \<and>
     cs_writeMutex s = None \<and> cs_backlog s = {#[2]#} \<and> [2] \<notin> set (cs_fed s)"
proof -
  note [simp] = two_eval
  have "two_reachable (two_writers Locked Idle (Some 0) {#[1]#} {#[1]#} [])"
    by (rule two_process [OF one_pushed process_step.locked [where i = 0]]) simp_all
  then have "two_reachable (two_writers (Popped [1]) Idle (Some 0) {#} {#[1]#} [])"
    by (rule two_process [OF _ process_step.dequeue [where i = 0 and data = "[1]"]]) simp_all
  then have "two_reachable (two_writers Locked Idle (Some 0) {#} {#[1]#} [[1]])"
    by (rule two_process [OF _ process_step.feed [where i = 0 and data = "[1]" and b = False and d = "sink_create 50" and io = "()"]])
      (simp_all add: refused_write)
  then have "two_reachable (two_writers Drained Idle (Some 0) {#} {#[1]#} [[1]])"
    by (rule two_process [OF _ process_step.drained [where i = 0]]) simp_all
  then have "two_reachable (two_writers Drained Pushed (Some 0) {#[2]#} {#[1], [2]#} [[1]])"
    by (rule two_enqueue [OF _ enqueue_step.enqueue [where i = 1 and data = "[2]"]]) simp_all
  then have "two_reachable (two_writers Drained Idle (Some 0) {#[2]#} {#[1], [2]#} [[1]])"
    by (rule two_process [OF _ process_step.busy [where i = 1]]) simp_all
  then have "two_reachable (two_writers Unlocking Idle (Some 0) {#[2]#} {#[1], [2]#} [[1]])"
    by (rule two_process [OF _ process_step.status [where i = 0 and t = "two_writers Drained Idle (Some 0) {#[2]#} {#[1], [2]#} [[1]]"]])
      (simp_all add: update_status_def empty_progress, simp_all add: get_done_def sink_create_def)
  then have "two_reachable (two_writers Idle Idle None {#[2]#} {#[1], [2]#} [[1]])"
    by (rule two_process [OF _ process_step.unlock [where i = 0]]) simp_all
  then show ?thesis by (intro exI [of _ "two_writers Idle Idle None {#[2]#} {#[1], [2]#} [[1]]"]) simp
qed


end
