(* ===== verification/BitFile.thy ===== *)
theory BitFile
  imports Prelude
begin

text \<open>
  \<open>bitbuffer.h\<close>, \<open>bitreader.h\<close> and \<open>bitmatrix.h\<close>: bits written to and read from bytes, the first
  bit of a byte being its most significant. \<open>None\<close> is an access outside the buffer, a shift by the
  width of the type or more, or a loop that does not end. Lengths are not negative.
\<close>

unbundle bit_operations_syntax

section \<open>bitbuffer\<close>

record bitbuffer =
  bb_buffer :: "u8 list"
  bb_sizeHint :: nat

definition bb_clear :: "bitbuffer \<Rightarrow> bitbuffer" where
  "bb_clear b = b\<lparr>bb_buffer := take (bb_sizeHint b) (0 # replicate (bb_sizeHint b - 1) 0)\<rparr>"

definition bb_create :: "nat \<Rightarrow> bitbuffer" where
  "bb_create size_hint = bb_clear \<lparr>bb_buffer = [], bb_sizeHint = size_hint\<rparr>"

partial_function (option) resize_loop :: "nat \<Rightarrow> nat \<Rightarrow> nat \<Rightarrow> nat option" where
  "resize_loop sizeHint requestedSize n = (if n < requestedSize then resize_loop sizeHint requestedSize (n + sizeHint) else Some n)"

definition bb_resize :: "bitbuffer \<Rightarrow> nat \<Rightarrow> bitbuffer option" where
  "bb_resize b len =
     (let requestedSize = len div 8; n = length (bb_buffer b) in
      if n \<ge> requestedSize then Some b
      else map_option (\<lambda>n'. b\<lparr>bb_buffer := bb_buffer b @ replicate (n' - n) 0\<rparr>) (resize_loop (bb_sizeHint b) requestedSize n))"

function write_loop :: "u32 \<Rightarrow> nat \<Rightarrow> nat \<Rightarrow> nat \<Rightarrow> u8 list \<Rightarrow> u8 list option" where
  "write_loop data currentByte currentBit len buf =
     (let nextWrite = min len (8 - currentBit) in
      if len > 0 \<and> nextWrite > 0 then
        (if len - nextWrite \<ge> 32 \<or> currentByte \<ge> length buf then None
         else let bits = ucast (drop_bit (len - nextWrite) data) :: u8;
                  bits = push_bit (8 - nextWrite - currentBit) bits;
                  buf = buf[currentByte := (buf ! currentByte) OR bits];
                  bit' = (if currentBit + nextWrite \<ge> 8 then 0 else currentBit + nextWrite)
           in write_loop data (currentByte + 1) bit' (len - nextWrite) buf)
      else Some buf)"
  by pat_completeness auto
termination by (relation "measure (\<lambda>(_, _, _, len, _). len)") auto

declare write_loop.simps [simp del]

definition bb_write :: "bitbuffer \<Rightarrow> u32 \<Rightarrow> nat \<Rightarrow> nat \<Rightarrow> bitbuffer option" where
  "bb_write b data index len = do {
     b \<leftarrow> bb_resize b (uint_add index len);
     buf \<leftarrow> write_loop data (index div 8) (index mod 8) len (bb_buffer b);
     Some (b\<lparr>bb_buffer := buf\<rparr>)
   }"

definition bb_write_aligned_byte :: "bitbuffer \<Rightarrow> u8 \<Rightarrow> nat \<Rightarrow> bitbuffer option" where
  "bb_write_aligned_byte b byte index = do {
     b \<leftarrow> bb_resize b (uint_add index 8);
     (if index div 8 < length (bb_buffer b) then Some (b\<lparr>bb_buffer := (bb_buffer b)[index div 8 := byte]\<rparr>) else None)
   }"

function read_loop :: "u8 list \<Rightarrow> nat \<Rightarrow> nat \<Rightarrow> nat \<Rightarrow> u64 \<Rightarrow> u64 option" where
  "read_loop buf currentByte currentBit len res =
     (if len > 0 \<and> currentBit < 8 then
        let rdsz = min len (8 - currentBit) in
        (if currentByte \<ge> length buf \<or> len - rdsz \<ge> 64 then None
         else let bits = drop_bit (8 - rdsz) (push_bit currentBit (buf ! currentByte)) in
           read_loop buf (currentByte + 1) 0 (len - rdsz) (res OR push_bit (len - rdsz) (ucast bits)))
      else Some res)"
  by pat_completeness auto
termination by (relation "measure (\<lambda>(_, _, _, len, _). len)") auto

declare read_loop.simps [simp del]

definition bb_read :: "bitbuffer \<Rightarrow> nat \<Rightarrow> nat \<Rightarrow> u64 option" where
  "bb_read b index len = (if len \<le> 0 then Some 0 else read_loop (bb_buffer b) (index div 8) (index mod 8) len 0)"

text \<open>\<open>flush\<close> hands the buffer to the stream and clears.\<close>

definition bb_flush :: "bitbuffer \<Rightarrow> u8 list \<times> bitbuffer" where
  "bb_flush b = (bb_buffer b, bb_clear b)"

definition bb_copy_to_buffer :: "bitbuffer \<Rightarrow> u8 list \<Rightarrow> nat \<Rightarrow> bitbuffer option" where
  "bb_copy_to_buffer b data n = (if length data < n then None else Some (b\<lparr>bb_buffer := take n data\<rparr>))"

text \<open>The writer: a buffer and a position, which is passed on as an \<open>unsigned\<close>.\<close>

type_synonym bit_writer = "bitbuffer \<times> nat"

definition get_writer :: "bitbuffer \<Rightarrow> nat \<Rightarrow> bit_writer" where
  "get_writer b pos = (b, pos)"

definition writer_write :: "bit_writer \<Rightarrow> u32 \<Rightarrow> nat \<Rightarrow> bit_writer option" where
  "writer_write w data len = (case w of (b, pos) \<Rightarrow>
     map_option (\<lambda>b. (b, pos + len)) (bb_write b data (pos mod 2 ^ 32) len))"

definition writer_write_byte :: "bit_writer \<Rightarrow> u8 \<Rightarrow> bit_writer option" where
  "writer_write_byte w byte = (case w of (b, pos) \<Rightarrow>
     map_option (\<lambda>b. (b, pos + 8))
       (if pos mod 8 \<noteq> 0 then bb_write b (ucast byte) (pos mod 2 ^ 32) 8
        else bb_write_aligned_byte b byte (pos mod 2 ^ 32)))"

section \<open>bitreader\<close>

record bitreader =
  br_buffer :: "u8 list"
  br_size :: nat
  br_position :: nat
  br_bitoffset :: nat
  br_partial :: u32
  br_partialSize :: nat

definition br_assign_new_buffer :: "bitreader \<Rightarrow> u8 list \<Rightarrow> nat \<Rightarrow> bitreader" where
  "br_assign_new_buffer r buffer n = r\<lparr>br_buffer := buffer, br_size := n, br_position := 0, br_bitoffset := 0\<rparr>"

definition br_set_partial :: "bitreader \<Rightarrow> u32 \<Rightarrow> nat \<Rightarrow> bitreader" where
  "br_set_partial r bits num_bits = r\<lparr>br_partial := bits, br_partialSize := num_bits\<rparr>"

definition br_clear_partial :: "bitreader \<Rightarrow> bitreader" where
  "br_clear_partial r = r\<lparr>br_partial := 0, br_partialSize := 0\<rparr>"

definition br_create :: "u8 list \<Rightarrow> nat \<Rightarrow> bitreader" where
  "br_create buffer n = br_clear_partial (br_assign_new_buffer
     \<lparr>br_buffer = [], br_size = 0, br_position = 0, br_bitoffset = 0, br_partial = 0, br_partialSize = 0\<rparr> buffer n)"

definition br_empty :: "bitreader \<Rightarrow> bool" where
  "br_empty r \<longleftrightarrow> br_position r \<ge> br_size r"

text \<open>\<open>readBit\<close> answers -1, which is the inner \<open>None\<close>, when the buffer is empty.\<close>

definition readBit :: "bitreader \<Rightarrow> (bool option \<times> bitreader) option" where
  "readBit r =
     (if br_empty r then Some (None, r)
      else if br_position r \<ge> length (br_buffer r) then None
      else let b = (br_buffer r ! br_position r) AND push_bit (7 - br_bitoffset r) 1;
               off = br_bitoffset r + 1
        in Some (Some (b \<noteq> 0), if off = 8 then r\<lparr>br_position := br_position r + 1, br_bitoffset := off - 8\<rparr>
                               else r\<lparr>br_bitoffset := off\<rparr>))"

function br_read_loop :: "bitreader \<Rightarrow> nat \<Rightarrow> nat \<Rightarrow> u32 \<Rightarrow> (nat \<times> u32 \<times> bitreader) option" where
  "br_read_loop r how_many_bits i bits =
     (if i < how_many_bits then
        case readBit r of None \<Rightarrow> None
        | Some (None, r) \<Rightarrow> Some (i, bits, r)
        | Some (Some b, r) \<Rightarrow>
            if how_many_bits - i - 1 \<ge> 32 then None
            else br_read_loop r how_many_bits (i + 1) (bits OR push_bit (how_many_bits - i - 1) (if b then 1 else 0))
      else Some (how_many_bits, bits, r))"
  by pat_completeness auto
termination by (relation "measure (\<lambda>(_, n, i, _). n - i)") auto

declare br_read_loop.simps [simp del]

definition br_read_bits :: "bitreader \<Rightarrow> nat \<Rightarrow> (nat \<times> u32 \<times> bitreader) option" where
  "br_read_bits r how_many_bits =
     br_read_loop (if br_partialSize r \<noteq> 0 then br_clear_partial r else r) how_many_bits (br_partialSize r) (br_partial r)"

definition br_read :: "bitreader \<Rightarrow> nat \<Rightarrow> (u32 \<times> bitreader) option" where
  "br_read r how_many_bits = do {
     (res, bits, r) \<leftarrow> br_read_bits r how_many_bits;
     Some (bits, if res \<noteq> how_many_bits then br_set_partial r bits res else r)
   }"

definition bytes_and_bits :: "nat \<Rightarrow> nat \<times> nat" where
  "bytes_and_bits how_many_bits = (how_many_bits div 8, how_many_bits mod 8)"

section \<open>bitmatrix\<close>

text \<open>The eight low bits of eight pixels, the first pixel first.\<close>

definition pack8 :: "u8 list \<Rightarrow> u8" where
  "pack8 p = (let c = map (\<lambda>x. x AND 1) p in
     push_bit 7 (c ! 0) OR push_bit 6 (c ! 1) OR push_bit 5 (c ! 2) OR push_bit 4 (c ! 3) OR
     push_bit 3 (c ! 4) OR push_bit 2 (c ! 5) OR push_bit 1 (c ! 6) OR (c ! 7))"

fun pack_rest :: "u8 list \<Rightarrow> nat \<Rightarrow> u8 \<Rightarrow> u8" where
  "pack_rest [] n val = val"
| "pack_rest (x # p) n val = pack_rest p (n - 1) (val OR push_bit n (if x > 0 then 1 else 0))"

text \<open>The image is its pixels in rows without gaps.\<close>

function mat_to_bitbuffer :: "u8 list \<Rightarrow> bit_writer \<Rightarrow> bit_writer option" where
  "mat_to_bitbuffer p w =
     (if length p \<ge> 8 then
        case writer_write_byte w (pack8 (take 8 p)) of None \<Rightarrow> None | Some w \<Rightarrow> mat_to_bitbuffer (drop 8 p) w
      else if length p > 0 then writer_write_byte w (pack_rest p (length p) 0)
      else Some w)"
  by pat_completeness auto
termination by (relation "measure (\<lambda>(p, _). length p)") auto

declare mat_to_bitbuffer.simps [simp del]

record bitmatrix =
  bm_buff :: bitbuffer
  bm_xstart :: nat
  bm_ystart :: nat
  bm_width :: nat
  bm_height :: nat

definition bm_get :: "bitmatrix \<Rightarrow> nat \<Rightarrow> nat \<Rightarrow> nat \<Rightarrow> u64 option" where
  "bm_get m x y bits =
     (let y = uint_add y (bm_ystart m); x = uint_add x (bm_xstart m); i = uint_add x ((y * bm_width m) mod 2 ^ 32)
      in bb_read (bm_buff m) i bits)"

section \<open>The bits of a buffer\<close>

definition bit_at :: "u8 list \<Rightarrow> nat \<Rightarrow> bool" where
  "bit_at buf i \<longleftrightarrow> i div 8 < length buf \<and> bit (buf ! (i div 8)) (7 - i mod 8)"

lemma bit_at_update:
  "c < length buf \<Longrightarrow> bit_at (buf[c := b]) i \<longleftrightarrow> (if i div 8 = c then bit b (7 - i mod 8) else bit_at buf i)"
  by (auto simp: bit_at_def)

text \<open>What one turn of the write loop sets: the next bits, when no higher bits get in the way.\<close>

lemma written_bits:
  fixes data :: u32
  assumes "0 < nw" "nw + cbit \<le> 8" "k < 8" "len - nw < 32" "nw \<le> len"
    and "cbit = 0 \<or> (\<forall>j \<ge> len. \<not> bit data j)"
  shows "bit (push_bit (8 - nw - cbit) (ucast (drop_bit (len - nw) data) :: u8)) k \<longleftrightarrow>
    8 - nw - cbit \<le> k \<and> k < 8 - cbit \<and> bit data (len - nw + (k - (8 - nw - cbit)))"
proof -
  have "k < 8 - cbit" if "8 - nw - cbit \<le> k" "bit data (len - nw + (k - (8 - nw - cbit)))"
  proof (rule ccontr)
    assume k: "\<not> k < 8 - cbit"
    then have "len \<le> len - nw + (k - (8 - nw - cbit))" using assms(2,5) by linarith
    then show False using that(2) k assms(3,6) by auto
  qed
  then show ?thesis using assms(3) by (auto simp: bit_simps)
qed


lemma write_index:
  fixes d :: nat
  assumes "cbit \<le> d" "d < cbit + nw" "nw \<le> len" "cbit + nw \<le> 8"
  shows "len - nw + (7 - d - (8 - nw - cbit)) = cbit + len - 1 - d"
proof -
  obtain l where l: "len = nw + l" using assms(3) le_Suc_ex by blast
  have "7 - d - (8 - nw - cbit) = cbit + nw - 1 - d" using assms(1,2,4) by linarith
  then show ?thesis unfolding l using assms(1,2) by simp
qed

lemma read_index:
  fixes j rd :: nat
  assumes "len - rd \<le> j" "j < len" "0 < rd" "rd \<le> len" "rd + cbit \<le> 8"
  shows "cbit + (len - 1 - j) < 8" "j - (len - rd) + (8 - rd) - cbit = 7 - (cbit + (len - 1 - j))"
proof -
  obtain l where l: "len = rd + l" using assms(4) le_Suc_ex by blast
  obtain k where k: "j = l + k" using assms(1) l le_Suc_ex by fastforce
  have kr: "k < rd" using assms(2) l k by simp
  then show "cbit + (len - 1 - j) < 8" "j - (len - rd) + (8 - rd) - cbit = 7 - (cbit + (len - 1 - j))"
    unfolding l k using assms(5) by simp_all
qed

lemma write_loop_bits:
  assumes "cbit < 8" "8 * c + cbit + len \<le> 8 * length buf" "len \<le> 32"
    and "cbit = 0 \<or> (\<forall>j \<ge> len. \<not> bit data j)"
  shows "\<exists>buf'. write_loop data c cbit len buf = Some buf' \<and> length buf' = length buf \<and>
    (\<forall>i. bit_at buf' i \<longleftrightarrow> bit_at buf i \<or> (8 * c + cbit \<le> i \<and> i < 8 * c + cbit + len \<and> bit data (8 * c + cbit + len - 1 - i)))"
  using assms
proof (induction data c cbit len buf rule: write_loop.induct)
  case (1 data c cbit len buf)
  define nw where "nw = min len (8 - cbit)"
  show ?case
  proof (cases "len > 0")
    case False
    then show ?thesis by (subst write_loop.simps) auto
  next
    case True
    then have nw: "0 < nw" "nw + cbit \<le> 8" "nw \<le> len" "len - nw < 32" using 1(2,4) by (auto simp: nw_def)
    have c: "c < length buf" using 1(3) True by linarith
    let ?bits = "push_bit (8 - nw - cbit) (ucast (drop_bit (len - nw) data)) :: u8"
    let ?buf = "buf[c := (buf ! c) OR ?bits]"
    let ?cbit = "if cbit + nw \<ge> 8 then 0 else cbit + nw"
    have step: "write_loop data c cbit len buf = write_loop data (c + 1) ?cbit (len - nw) ?buf"
      using True nw c by (subst write_loop.simps) (simp add: Let_def flip: nw_def)
    have first: "bit_at ?buf i \<longleftrightarrow> bit_at buf i \<or>
        (8 * c + cbit \<le> i \<and> i < 8 * c + cbit + nw \<and> bit data (8 * c + cbit + len - 1 - i))" for i
    proof (cases "i div 8 = c")
      case True
      have i: "i = 8 * c + i mod 8" using True by (metis mult_div_mod_eq)
      let ?k = "7 - i mod 8"
      have m: "i mod 8 < 8" by simp
      have b: "bit ?bits ?k \<longleftrightarrow> 8 - nw - cbit \<le> ?k \<and> ?k < 8 - cbit \<and> bit data (len - nw + (?k - (8 - nw - cbit)))"
        using written_bits [OF nw(1,2) _ nw(4,3) 1(5), of ?k] by simp
      define d where "d = i mod 8"
      have d: "i = 8 * c + d" "d < 8" using i by (simp_all add: d_def)
      have im: "i mod 8 = d" by (simp add: d_def)
      have r: "8 - nw - cbit \<le> ?k \<and> ?k < 8 - cbit \<longleftrightarrow> 8 * c + cbit \<le> i \<and> i < 8 * c + cbit + nw"
        using d nw(1,2) unfolding d_def [symmetric] by auto
      have "len - nw + (?k - (8 - nw - cbit)) = 8 * c + cbit + len - 1 - i" if "8 * c + cbit \<le> i" "i < 8 * c + cbit + nw"
      proof -
        have "cbit \<le> d" "d < cbit + nw" using that d(1) by simp_all
        then have "len - nw + (7 - d - (8 - nw - cbit)) = cbit + len - 1 - d" using nw by (intro write_index) simp_all
        then show ?thesis unfolding im using d(1) by simp
      qed
      then show ?thesis using b r c True by (auto simp: bit_at_update bit_at_def bit_or_iff)
    next
      case False
      have "\<not> (8 * c + cbit \<le> i \<and> i < 8 * c + cbit + nw)"
      proof
        assume "8 * c + cbit \<le> i \<and> i < 8 * c + cbit + nw"
        then have "8 * c \<le> i" "i < 8 * (c + 1)" using nw(2) by auto
        then show False using False by (simp add: div_nat_eqI)
      qed
      then show ?thesis using False c by (auto simp: bit_at_update)
    qed
    show ?thesis
    proof (cases "len - nw = 0")
      case True
      then have "write_loop data (c + 1) ?cbit (len - nw) ?buf = Some ?buf" by (subst write_loop.simps) simp
      moreover have "len = nw" using True nw by simp
      ultimately show ?thesis using step first by simp
    next
      case False
      then have e: "cbit + nw = 8" using nw by (auto simp: nw_def)
      have g: "0 < len \<and> 0 < min len (8 - cbit)" "\<not> (32 \<le> len - min len (8 - cbit) \<or> length buf \<le> c)"
        using nw c True by (auto simp: nw_def)
      have IH: "\<exists>buf'. write_loop data (c + 1) ?cbit (len - nw) ?buf = Some buf' \<and> length buf' = length ?buf \<and>
          (\<forall>i. bit_at buf' i \<longleftrightarrow> bit_at ?buf i \<or> (8 * (c + 1) + ?cbit \<le> i \<and> i < 8 * (c + 1) + ?cbit + (len - nw) \<and>
            bit data (8 * (c + 1) + ?cbit + (len - nw) - 1 - i)))"
        unfolding nw_def
        by (rule 1(1) [OF refl g refl refl refl refl]) (use 1(3,4) e nw in \<open>auto simp: nw_def\<close>)
      have pos: "8 * (c + 1) + ?cbit = 8 * c + cbit + nw" "nw + (len - nw) = len" using e nw by simp_all
      have tot: "8 * c + cbit + nw + (len - nw) = 8 * c + cbit + len" using nw by simp
      show ?thesis using IH unfolding step pos tot using first nw by auto
    qed
  qed
qed

lemma read_loop_bits:
  assumes "cbit < 8" "8 * c + cbit + len \<le> 8 * length buf" "len \<le> 64"
  shows "\<exists>v. read_loop buf c cbit len res = Some v \<and>
    (\<forall>j. bit v j \<longleftrightarrow> bit res j \<or> j < len \<and> bit_at buf (8 * c + cbit + len - 1 - j))"
  using assms
proof (induction buf c cbit len res rule: read_loop.induct)
  case (1 buf c cbit len res)
  define rd where "rd = min len (8 - cbit)"
  show ?case
  proof (cases "len > 0")
    case False
    then show ?thesis by (subst read_loop.simps) simp
  next
    case True
    then have rd: "0 < rd" "rd + cbit \<le> 8" "rd \<le> len" "len - rd < 64" using 1(2,4) by (auto simp: rd_def)
    have c: "c < length buf" using 1(3) True by linarith
    let ?bits = "drop_bit (8 - rd) (push_bit cbit (buf ! c))"
    let ?res = "res OR push_bit (len - rd) (ucast ?bits) :: u64"
    have step: "read_loop buf c cbit len res = read_loop buf (c + 1) 0 (len - rd) ?res"
      using True 1(2) rd c by (subst read_loop.simps) (simp add: Let_def flip: rd_def)
    have first: "bit ?res j \<longleftrightarrow> bit res j \<or> len - rd \<le> j \<and> j < len \<and> bit_at buf (8 * c + cbit + len - 1 - j)" for j
    proof -
      have "bit (buf ! c) (j - (len - rd) + (8 - rd) - cbit) \<longleftrightarrow> bit_at buf (8 * c + cbit + len - 1 - j)"
        if "len - rd \<le> j" "j < len"
      proof -
        let ?i = "8 * c + cbit + len - 1 - j"
        have i: "?i = 8 * c + (cbit + (len - 1 - j))" "cbit + (len - 1 - j) < 8"
          "j - (len - rd) + (8 - rd) - cbit = 7 - (cbit + (len - 1 - j))"
          using read_index [of len rd j cbit] that rd by simp_all
        then have d: "?i div 8 = c" "?i mod 8 = cbit + (len - 1 - j)" unfolding i(1) by simp_all
        then show ?thesis using d i(3) c by (simp add: bit_at_def)
      qed
      moreover have "bit ?res j \<longleftrightarrow> bit res j \<or> len - rd \<le> j \<and> j < len \<and> j < 64 \<and> bit (buf ! c) (j - (len - rd) + (8 - rd) - cbit)"
        using rd by (auto simp: bit_simps add.commute [of j 8] dest: bit_imp_le_length)
      moreover have "j < 64" if "j < len" using that 1(4) by simp
      ultimately show ?thesis by blast
    qed
    have g: "0 < len \<and> cbit < 8" "\<not> (length buf \<le> c \<or> 64 \<le> len - min len (8 - cbit))"
      using rd c True 1(2) by (auto simp: rd_def)
    have more: "8 * (c + 1) \<le> 8 * c + cbit + rd \<or> len - rd = 0" using rd by (auto simp: rd_def)
    show ?thesis
    proof (cases "len - rd = 0")
      case True
      then have "read_loop buf (c + 1) 0 (len - rd) ?res = Some ?res" by (subst read_loop.simps) simp
      then show ?thesis using step first True by simp
    next
      case False
      then have e: "8 * (c + 1) = 8 * c + cbit + rd" using more rd by auto
      have IH: "\<exists>v. read_loop buf (c + 1) 0 (len - rd) ?res = Some v \<and>
          (\<forall>j. bit v j \<longleftrightarrow> bit ?res j \<or> j < len - rd \<and> bit_at buf (8 * (c + 1) + 0 + (len - rd) - 1 - j))"
        unfolding rd_def
        by (rule 1(1) [OF g(1) refl g(2) refl]) (use 1(3,4) e rd in \<open>auto simp: rd_def\<close>)
      have pos: "8 * (c + 1) + 0 + (len - rd) = 8 * c + cbit + len" using e rd by linarith
      have split: "j < len \<longleftrightarrow> j < len - rd \<or> len - rd \<le> j \<and> j < len" for j using rd by auto
      show ?thesis using IH unfolding step pos first using split by blast
    qed
  qed
qed


section \<open>Single operations\<close>

lemma resize_loop_ok:
  assumes "0 < h"
  shows "\<exists>n'. resize_loop h req n = Some n' \<and> n \<le> n' \<and> req \<le> n'"
proof (induction "req - n" arbitrary: n rule: less_induct)
  case less
  show ?case
  proof (cases "n < req")
    case True
    then have "req - (n + h) < req - n" using assms by simp
    then obtain n' where "resize_loop h req (n + h) = Some n'" "n + h \<le> n'" "req \<le> n'" using less by blast
    then show ?thesis using True by (subst resize_loop.simps) auto
  next
    case False
    then show ?thesis by (subst resize_loop.simps) simp
  qed
qed

lemma bb_resize_ok:
  assumes "0 < bb_sizeHint b"
  shows "\<exists>k. bb_resize b len = Some (b\<lparr>bb_buffer := bb_buffer b @ replicate k 0\<rparr>) \<and> len div 8 \<le> length (bb_buffer b) + k"
proof (cases "length (bb_buffer b) \<ge> len div 8")
  case True
  then show ?thesis by (intro exI [of _ 0]) (simp add: bb_resize_def)
next
  case False
  obtain n' where "resize_loop (bb_sizeHint b) (len div 8) (length (bb_buffer b)) = Some n'"
    "length (bb_buffer b) \<le> n'" "len div 8 \<le> n'" using resize_loop_ok [OF assms] by blast
  then show ?thesis using False by (intro exI [of _ "n' - length (bb_buffer b)"]) (auto simp: bb_resize_def Let_def)
qed

lemma bb_resize_fits: "len \<le> 8 * length (bb_buffer b) \<Longrightarrow> bb_resize b len = Some b"
  by (auto simp: bb_resize_def Let_def)

lemma bit_at_append_zero: "bit_at (buf @ replicate k 0) i \<longleftrightarrow> bit_at buf i"
  by (auto simp: bit_at_def nth_append)

lemma no_high_bits:
  fixes v :: "'a :: len word"
  assumes "unat v < 2 ^ n"
  shows "\<forall>j \<ge> n. \<not> bit v j"
proof (intro allI impI)
  fix j assume "n \<le> j"
  then have "unat v < 2 ^ j" using assms by (meson less_le_trans one_le_numeral power_increasing)
  then have "\<not> bit (unat v) j" by (simp add: bit_iff_odd)
  then show "\<not> bit v j" by (simp add: bit_unsigned_iff bit_imp_le_length)
qed

lemma bb_write_bits:
  assumes "index + len \<le> 8 * length (bb_buffer b)" "index + len < 2 ^ 32" "len \<le> 32" "unat v < 2 ^ len"
  shows "\<exists>buf. bb_write b v index len = Some (b\<lparr>bb_buffer := buf\<rparr>) \<and> length buf = length (bb_buffer b) \<and>
    (\<forall>i. bit_at buf i \<longleftrightarrow> bit_at (bb_buffer b) i \<or> index \<le> i \<and> i < index + len \<and> bit v (index + len - 1 - i))"
proof -
  have idx: "8 * (index div 8) + index mod 8 = index" by simp
  obtain buf where buf: "write_loop v (index div 8) (index mod 8) len (bb_buffer b) = Some buf" "length buf = length (bb_buffer b)"
    "\<forall>i. bit_at buf i \<longleftrightarrow> bit_at (bb_buffer b) i \<or> index \<le> i \<and> i < index + len \<and> bit v (index + len - 1 - i)"
    using write_loop_bits [of "index mod 8" "index div 8" len "bb_buffer b" v] assms no_high_bits [OF assms(4)]
    unfolding idx by auto
  have "bb_write b v index len = Some (b\<lparr>bb_buffer := buf\<rparr>)"
    unfolding bb_write_def by (simp add: uint_add_small [OF assms(2)] bb_resize_fits [OF assms(1)] buf(1))
  then show ?thesis using buf by blast
qed

lemma bb_read_bits:
  assumes "index + len \<le> 8 * length (bb_buffer b)" "len \<le> 64"
  shows "\<exists>v. bb_read b index len = Some v \<and> (\<forall>j. bit v j \<longleftrightarrow> j < len \<and> bit_at (bb_buffer b) (index + len - 1 - j))"
proof -
  have idx: "8 * (index div 8) + index mod 8 = index" by simp
  obtain v where "read_loop (bb_buffer b) (index div 8) (index mod 8) len 0 = Some v"
    "\<forall>j. bit v j \<longleftrightarrow> j < len \<and> bit_at (bb_buffer b) (index + len - 1 - j)"
    using read_loop_bits [of "index mod 8" "index div 8" len "bb_buffer b" 0] assms unfolding idx by auto
  then show ?thesis by (cases "len = 0") (auto simp: bb_read_def)
qed

section \<open>Reading bit by bit\<close>

definition br_pos :: "bitreader \<Rightarrow> nat" where
  "br_pos r = 8 * br_position r + br_bitoffset r"

definition br_ok :: "bitreader \<Rightarrow> bool" where
  "br_ok r \<longleftrightarrow> br_bitoffset r < 8 \<and> br_size r \<le> length (br_buffer r) \<and> br_pos r \<le> 8 * br_size r"

lemma readBit_run:
  assumes "br_ok r"
  shows "if br_pos r < 8 * br_size r
    then \<exists>r'. readBit r = Some (Some (bit_at (br_buffer r) (br_pos r)), r') \<and> br_ok r' \<and> br_pos r' = br_pos r + 1 \<and>
      br_buffer r' = br_buffer r \<and> br_size r' = br_size r \<and> br_partial r' = br_partial r \<and> br_partialSize r' = br_partialSize r
    else readBit r = Some (None, r)"
proof (cases "br_pos r < 8 * br_size r")
  case True
  then have p: "br_position r < br_size r" "br_position r < length (br_buffer r)" "br_bitoffset r < 8"
    using assms by (auto simp: br_ok_def br_pos_def)
  let ?b = "br_buffer r ! br_position r"
  have "?b AND push_bit (7 - br_bitoffset r) 1 = 0 \<longleftrightarrow> \<not> bit ?b (7 - br_bitoffset r)"
    by (metis (no_types, lifting) and_exp_eq_0_iff_not_bit push_bit_of_1)
  moreover have "br_pos r div 8 = br_position r" "br_pos r mod 8 = br_bitoffset r" using p(3) by (simp_all add: br_pos_def)
  ultimately show ?thesis using p assms True by (auto simp: readBit_def br_empty_def Let_def bit_at_def br_ok_def br_pos_def)
next
  case False
  then show ?thesis using assms by (auto simp: readBit_def br_empty_def br_ok_def br_pos_def)
qed

lemma br_read_loop_run:
  assumes "br_ok r" "i \<le> n" "n \<le> 32" "m = min (n - i) (8 * br_size r - br_pos r)"
  shows "\<exists>v r'. br_read_loop r n i bits = Some (i + m, v, r') \<and> br_ok r' \<and> br_pos r' = br_pos r + m \<and>
    br_buffer r' = br_buffer r \<and> br_size r' = br_size r \<and> br_partial r' = br_partial r \<and> br_partialSize r' = br_partialSize r \<and>
    (\<forall>j. bit v j \<longleftrightarrow> bit bits j \<or> n - i - m \<le> j \<and> j < n - i \<and> bit_at (br_buffer r) (br_pos r + (n - i) - 1 - j))"
  using assms
proof (induction r n i bits arbitrary: m rule: br_read_loop.induct)
  case (1 r n i bits)
  note run = readBit_run [OF 1(2)]
  show ?case
  proof (cases "i < n")
    case False
    then show ?thesis using 1(2-5) by (subst br_read_loop.simps) auto
  next
    case True
    show ?thesis
    proof (cases "br_pos r < 8 * br_size r")
      case False
      then show ?thesis using run True 1(2-5) by (subst br_read_loop.simps) auto
    next
      case less: True
      let ?b = "bit_at (br_buffer r) (br_pos r)"
      obtain r' where r': "readBit r = Some (Some ?b, r')" "br_ok r'" "br_pos r' = br_pos r + 1" "br_buffer r' = br_buffer r"
        "br_size r' = br_size r" "br_partial r' = br_partial r" "br_partialSize r' = br_partialSize r"
        using run less by auto
      let ?bits = "bits OR push_bit (n - i - 1) (if ?b then 1 else 0)"
      have sh: "\<not> 32 \<le> n - i - 1" using 1(4) by simp
      have m: "m = m - 1 + 1" "m - 1 = min (n - (i + 1)) (8 * br_size r' - br_pos r')" using 1(5) r' less True by (auto simp: min_def)
      obtain v r2 where v: "br_read_loop r' n (i + 1) ?bits = Some (i + 1 + (m - 1), v, r2)" "br_ok r2"
        "br_pos r2 = br_pos r' + (m - 1)" "br_buffer r2 = br_buffer r'" "br_size r2 = br_size r'"
        "br_partial r2 = br_partial r'" "br_partialSize r2 = br_partialSize r'"
        "\<forall>j. bit v j \<longleftrightarrow> bit ?bits j \<or> n - (i + 1) - (m - 1) \<le> j \<and> j < n - (i + 1) \<and>
          bit_at (br_buffer r') (br_pos r' + (n - (i + 1)) - 1 - j)"
        using 1(1) [OF True r'(1) refl refl sh r'(2) _ 1(4) m(2)] True by auto
      have b: "bit ?bits j \<longleftrightarrow> bit bits j \<or> j = n - i - 1 \<and> ?b" for j
        using 1(4) True by (auto simp: bit_or_iff bit_push_bit_iff bit_1_iff)
      have "n - (i + 1) - (m - 1) = n - i - m" "br_pos r' + (n - (i + 1)) = br_pos r + (n - i)" using m(1) True r'(3) by simp_all
      moreover have "n - i - m \<le> n - i - 1" "br_pos r + (n - i) - 1 - (n - i - 1) = br_pos r" "n - i - 1 < n - i" using m(1) True by auto
      moreover have "j < n - i \<longleftrightarrow> j < n - (i + 1) \<or> j = n - i - 1" for j using True by auto
      ultimately have "bit v j \<longleftrightarrow> bit bits j \<or> n - i - m \<le> j \<and> j < n - i \<and> bit_at (br_buffer r) (br_pos r + (n - i) - 1 - j)" for j
        using v(8) b r'(4) by metis
      moreover have "br_read_loop r n i bits = Some (i + m, v, r2)"
        using v(1) r'(1) True sh m(1) by (subst br_read_loop.simps) auto
      moreover have "br_pos r2 = br_pos r + m" using v(3) r'(3) m(1) by simp
      ultimately show ?thesis using v r' by auto
    qed
  qed
qed


section \<open>Sequences of values\<close>

definition writer_run :: "bit_writer \<Rightarrow> (u32 \<times> nat) list \<Rightarrow> bit_writer option" where
  "writer_run w items = for_each items (\<lambda>(v, n) w. writer_write w v n) w"

fun reader_run :: "bitreader \<Rightarrow> nat list \<Rightarrow> (u32 list \<times> bitreader) option" where
  "reader_run r [] = Some ([], r)"
| "reader_run r (n # ns) = do { (v, r) \<leftarrow> br_read r n; (vs, r) \<leftarrow> reader_run r ns; Some (v # vs, r) }"

definition item_bits :: "u32 \<times> nat \<Rightarrow> bool list" where
  "item_bits it = map (\<lambda>k. bit (fst it) (snd it - 1 - k)) [0..<snd it]"

definition items_bits :: "(u32 \<times> nat) list \<Rightarrow> bool list" where
  "items_bits items = concat (map item_bits items)"

definition items_ok :: "(u32 \<times> nat) list \<Rightarrow> bool" where
  "items_ok items \<longleftrightarrow> (\<forall>(v, n) \<in> set items. 0 < n \<and> n \<le> 32 \<and> unat v < 2 ^ n)"

definition holds_bits :: "u8 list \<Rightarrow> bool list \<Rightarrow> bool" where
  "holds_bits buf bs \<longleftrightarrow> (\<forall>i. bit_at buf i \<longleftrightarrow> i < length bs \<and> bs ! i)"

lemma length_item_bits [simp]: "length (item_bits it) = snd it"
  by (simp add: item_bits_def)

lemma length_items_bits: "length (items_bits items) = sum_list (map snd items)"
  by (induction items) (simp_all add: items_bits_def)

lemma items_bits_simps [simp]:
  "items_bits [] = []" "items_bits (it # items) = item_bits it @ items_bits items"
  by (simp_all add: items_bits_def)

lemma holds_bits_item:
  assumes "holds_bits buf (bs @ item_bits it @ cs)" "j < snd it"
  shows "bit_at buf (length bs + snd it - 1 - j) \<longleftrightarrow> bit (fst it) j"
proof -
  define m where "m = snd it - 1 - j"
  have m: "length bs + snd it - 1 - j = length bs + m" "m < snd it" "snd it - 1 - m = j" using assms(2) by (simp_all add: m_def)
  have "(bs @ item_bits it @ cs) ! (length bs + m) = item_bits it ! m" using m(2) by (simp add: nth_append)
  also have "... = bit (fst it) j" using m(2,3) by (simp add: item_bits_def)
  finally show ?thesis using assms(1) m(2) unfolding m(1) by (simp add: holds_bits_def)
qed

lemma writer_run_bits:
  assumes "items_ok items" "length bs + length (items_bits items) \<le> 8 * length (bb_buffer b)"
    "length bs + length (items_bits items) < 2 ^ 32" "holds_bits (bb_buffer b) bs"
  shows "\<exists>buf. writer_run (b, length bs) items = Some (b\<lparr>bb_buffer := buf\<rparr>, length bs + length (items_bits items)) \<and>
    length buf = length (bb_buffer b) \<and> holds_bits buf (bs @ items_bits items)"
  using assms
proof (induction items arbitrary: b bs)
  case Nil
  then show ?case by (intro exI [of _ "bb_buffer b"]) (simp add: writer_run_def)
next
  case (Cons it items)
  obtain v n where it: "it = (v, n)" by fastforce
  have n: "n \<le> 32" "unat v < 2 ^ n" using Cons.prems(1) it by (auto simp: items_ok_def)
  have fit: "length bs + n \<le> 8 * length (bb_buffer b)" "length bs + n < 2 ^ 32" using Cons.prems(2,3) it by simp_all
  obtain buf where buf: "bb_write b v (length bs) n = Some (b\<lparr>bb_buffer := buf\<rparr>)" "length buf = length (bb_buffer b)"
    "\<forall>i. bit_at buf i \<longleftrightarrow> bit_at (bb_buffer b) i \<or> length bs \<le> i \<and> i < length bs + n \<and> bit v (length bs + n - 1 - i)"
    using bb_write_bits [OF fit n] by blast
  have h: "holds_bits buf (bs @ item_bits it)"
    unfolding holds_bits_def
  proof
    fix i
    consider "i < length bs" | m where "i = length bs + m" "m < n" | "length bs + n \<le> i"
      by (metis add_less_cancel_left le_Suc_ex not_le)
    then show "bit_at buf i \<longleftrightarrow> i < length (bs @ item_bits it) \<and> (bs @ item_bits it) ! i"
      using buf(3) Cons.prems(4) by cases (auto simp: holds_bits_def nth_append it item_bits_def)
  qed
  have "length bs < 2 ^ 32" using fit by simp
  then have w: "writer_write (b, length bs) v n = Some (b\<lparr>bb_buffer := buf\<rparr>, length bs + n)"
    using buf(1) by (simp add: writer_write_def)
  have "\<exists>buf'. writer_run (b\<lparr>bb_buffer := buf\<rparr>, length (bs @ item_bits it)) items =
      Some (b\<lparr>bb_buffer := buf\<rparr>\<lparr>bb_buffer := buf'\<rparr>, length (bs @ item_bits it) + length (items_bits items)) \<and>
      length buf' = length (bb_buffer (b\<lparr>bb_buffer := buf\<rparr>)) \<and> holds_bits buf' ((bs @ item_bits it) @ items_bits items)"
    by (rule Cons.IH) (use Cons.prems buf(2) h it in \<open>auto simp: items_ok_def\<close>)
  then show ?case using w buf(2) it by (auto simp: writer_run_def ac_simps)
qed

lemma bb_read_item:
  assumes "holds_bits (bb_buffer b) (bs @ item_bits (v, n) @ cs)" "n \<le> 32" "unat v < 2 ^ n"
    "length bs + n \<le> 8 * length (bb_buffer b)"
  shows "bb_read b (length bs) n = Some (ucast v)"
proof -
  obtain u where u: "bb_read b (length bs) n = Some u" "\<forall>j. bit u j \<longleftrightarrow> j < n \<and> bit_at (bb_buffer b) (length bs + n - 1 - j)"
    using bb_read_bits [OF assms(4)] assms(2) by auto
  have hi: "bit v j \<Longrightarrow> j < n" for j using no_high_bits [OF assms(3)] not_less by blast
  have "bit u j \<longleftrightarrow> bit (ucast v :: u64) j" for j
  proof (cases "j < n")
    case True
    then show ?thesis using u(2) holds_bits_item [OF assms(1), of j] assms(2) by (simp add: bit_ucast_iff)
  next
    case False
    then show ?thesis using u(2) hi [of j] by (auto simp: bit_ucast_iff)
  qed
  then have "u = ucast v" by (intro bit_word_eqI) simp
  then show ?thesis using u(1) by simp
qed

lemma br_read_item:
  assumes "br_ok r" "holds_bits (br_buffer r) (bs @ item_bits (v, n) @ cs)" "n \<le> 32" "unat v < 2 ^ n"
    "br_pos r = length bs" "length bs + n \<le> 8 * br_size r" "br_partial r = 0" "br_partialSize r = 0"
  shows "\<exists>r'. br_read r n = Some (v, r') \<and> br_ok r' \<and> br_pos r' = length bs + n \<and> br_buffer r' = br_buffer r \<and>
    br_size r' = br_size r \<and> br_partial r' = 0 \<and> br_partialSize r' = 0"
proof -
  have m: "n = min (n - 0) (8 * br_size r - br_pos r)" using assms(5,6) by simp
  obtain u r' where u: "br_read_loop r n 0 0 = Some (n, u, r')" "br_ok r'" "br_pos r' = length bs + n"
    "br_buffer r' = br_buffer r" "br_size r' = br_size r" "br_partial r' = 0" "br_partialSize r' = 0"
    "\<forall>j. bit u j \<longleftrightarrow> j < n \<and> bit_at (br_buffer r) (length bs + n - 1 - j)"
    using br_read_loop_run [OF assms(1) _ assms(3) m, of 0] assms(5,7,8) by auto
  have hi: "bit v j \<Longrightarrow> j < n" for j using no_high_bits [OF assms(4)] not_less by blast
  have "bit u j \<longleftrightarrow> bit v j" for j
    using u(8) hi [of j] holds_bits_item [OF assms(2), of j] by auto
  then have "u = v" by (intro bit_word_eqI) simp
  then show ?thesis using u(1-7) assms(7,8) by (simp add: br_read_def br_read_bits_def)
qed

lemma reader_run_items:
  assumes "br_ok r" "holds_bits (br_buffer r) (bs @ items_bits items)" "items_ok items" "br_pos r = length bs"
    "length bs + length (items_bits items) \<le> 8 * br_size r" "br_partial r = 0" "br_partialSize r = 0"
  shows "\<exists>r'. reader_run r (map snd items) = Some (map fst items, r')"
  using assms
proof (induction items arbitrary: r bs)
  case (Cons it items)
  obtain v n where it: "it = (v, n)" by fastforce
  have n: "n \<le> 32" "unat v < 2 ^ n" using Cons.prems(3) it by (auto simp: items_ok_def)
  have h: "holds_bits (br_buffer r) (bs @ item_bits (v, n) @ items_bits items)" using Cons.prems(2) it by simp
  have fit: "length bs + n \<le> 8 * br_size r" using Cons.prems(5) it by simp
  obtain r' where r': "br_read r n = Some (v, r')" "br_ok r'" "br_pos r' = length bs + n" "br_buffer r' = br_buffer r"
    "br_size r' = br_size r" "br_partial r' = 0" "br_partialSize r' = 0"
    using br_read_item [OF Cons.prems(1) h n Cons.prems(4) fit Cons.prems(6,7)] by blast
  have "\<exists>r2. reader_run r' (map snd items) = Some (map fst items, r2)"
    by (rule Cons.IH [of r' "bs @ item_bits it"]) (use Cons.prems r' it in \<open>auto simp: items_ok_def\<close>)
  then show ?case using r'(1) it by auto
qed simp

section \<open>Properties\<close>

lemma bb_create_empty: "0 < h \<Longrightarrow> bb_create h = \<lparr>bb_buffer = replicate h 0, bb_sizeHint = h\<rparr>"
  by (cases h) (simp_all add: bb_create_def bb_clear_def)

text \<open>C27: values of 1 to 32 bits written one after the other to a new buffer that has room for them
  come back: from \<open>bitbuffer::read\<close> at the position of each, and in order from a \<open>bitreader\<close> over
  the bytes of the buffer, whatever the widths are and wherever they cross the bytes.\<close>

theorem bits_roundtrip:
  assumes "items_ok items" "0 < h" "sum_list (map snd items) \<le> 8 * h" "sum_list (map snd items) < 2 ^ 32"
  shows "\<exists>b. writer_run (get_writer (bb_create h) 0) items = Some (b, sum_list (map snd items)) \<and>
    (\<forall>xs v n ys. items = xs @ (v, n) # ys \<longrightarrow> bb_read b (sum_list (map snd xs)) n = Some (ucast v)) \<and>
    (\<exists>r. reader_run (br_create (bb_buffer b) h) (map snd items) = Some (map fst items, r))"
proof -
  let ?b = "bb_create h"
  have b: "bb_buffer ?b = replicate h 0" using bb_create_empty [OF assms(2)] by simp
  have z: "holds_bits (bb_buffer ?b) []" by (simp add: holds_bits_def b bit_at_def)
  obtain buf where buf: "writer_run (?b, 0) items = Some (?b\<lparr>bb_buffer := buf\<rparr>, sum_list (map snd items))"
    "length buf = h" "holds_bits buf (items_bits items)"
    using writer_run_bits [OF assms(1), of "[]" ?b] assms(3,4) z b by (auto simp: length_items_bits)
  have read: "bb_read (?b\<lparr>bb_buffer := buf\<rparr>) (sum_list (map snd xs)) n = Some (ucast v)" if "items = xs @ (v, n) # ys" for xs v n ys
  proof -
    have "sum_list (map snd xs) + n \<le> 8 * h" using that assms(3) by simp
    moreover have "n \<le> 32" "unat v < 2 ^ n" using that assms(1) by (auto simp: items_ok_def)
    moreover have "items_bits items = items_bits xs @ item_bits (v, n) @ items_bits ys" using that by (simp add: items_bits_def)
    ultimately show ?thesis
      using bb_read_item [of "?b\<lparr>bb_buffer := buf\<rparr>" "items_bits xs" v n "items_bits ys"] buf(2,3) by (simp add: length_items_bits)
  qed
  have "\<exists>r. reader_run (br_create buf h) (map snd items) = Some (map fst items, r)"
    by (rule reader_run_items [of _ "[]"])
      (use buf assms(1,3) in \<open>simp_all add: br_create_def br_clear_partial_def br_assign_new_buffer_def br_ok_def br_pos_def length_items_bits\<close>)
  then show ?thesis using buf(1) read by (intro exI [of _ "?b\<lparr>bb_buffer := buf\<rparr>"]) (simp add: get_writer_def)
qed

theorem bits_roundtrip_witness:
  "\<exists>b. writer_run (get_writer (bb_create 2) 0) [(5, 3), (1000, 11)] = Some (b, 14) \<and> bb_read b 3 11 = Some 1000"
proof -
  let ?items = "[(5, 3), (1000, 11)] :: (u32 \<times> nat) list"
  have "items_ok ?items" by (simp add: items_ok_def)
  moreover have "sum_list (map snd ?items) \<le> 8 * 2" "sum_list (map snd ?items) < 2 ^ 32" by simp_all
  ultimately obtain b where b: "writer_run (get_writer (bb_create 2) 0) ?items = Some (b, sum_list (map snd ?items))"
      "\<forall>xs v n ys. ?items = xs @ (v, n) # ys \<longrightarrow> bb_read b (sum_list (map snd xs)) n = Some (ucast v)"
    using bits_roundtrip [of ?items 2] by (meson zero_less_numeral)
  have "bb_read b 3 11 = Some (ucast (1000 :: u32))" using b(2) [rule_format, of "[(5, 3)]" 1000 11 "[]"] by simp
  then show ?thesis using b(1) by auto
qed

text \<open>A read that the buffer cuts short is completed from the next buffer: reading \<open>n\<close> bits when
  \<open>k < n\<close> are left, assigning a new buffer and reading \<open>n\<close> bits again gives what one read of the joined
  buffers gives.\<close>

theorem reader_joins_buffers:
  assumes "br_ok r" "br_size r = length (br_buffer r)" "br_partialSize r = 0" "br_partial r = 0" "n \<le> 32"
    and "k = 8 * br_size r - br_pos r" "0 < k" "k < n" "n - k \<le> 8 * length buf" "length buf = size'"
  shows "\<exists>v r1 r2 r3. br_read r n = Some (v, r1) \<and> br_empty r1 \<and> br_partialSize r1 = k \<and>
    br_read (br_assign_new_buffer r1 buf size') n = Some (r2) \<and>
    br_read (r\<lparr>br_buffer := br_buffer r @ buf, br_size := br_size r + size'\<rparr>) n = Some (r3) \<and> fst r2 = fst r3 \<and>
    br_pos (snd r3) = 8 * br_size r + br_pos (snd r2)"
proof -
  let ?p = "br_pos r" and ?a = "br_buffer r"
  have m1: "k = min (n - 0) (8 * br_size r - br_pos r)" using assms(6,8) by simp
  obtain v r1 where r1: "br_read_loop r n 0 0 = Some (k, v, r1)" "br_ok r1" "br_pos r1 = ?p + k" "br_buffer r1 = ?a"
    "br_size r1 = br_size r" "\<forall>j. bit v j \<longleftrightarrow> n - k \<le> j \<and> j < n \<and> bit_at ?a (?p + n - 1 - j)"
    using br_read_loop_run [OF assms(1) _ assms(5) m1, of 0] by auto
  have b1: "br_read r n = Some (v, br_set_partial r1 v k)"
    using r1(1) assms(3,4,8) by (simp add: br_read_def br_read_bits_def)
  have e1: "br_empty (br_set_partial r1 v k)"
    using r1(2,3,5) assms(1,6) by (auto simp: br_empty_def br_set_partial_def br_ok_def br_pos_def)
  let ?r2 = "br_clear_partial (br_assign_new_buffer (br_set_partial r1 v k) buf size')"
  have ok2: "br_ok ?r2" "br_pos ?r2 = 0" "br_buffer ?r2 = buf" "br_size ?r2 = size'" using assms(10)
    by (simp_all add: br_ok_def br_pos_def br_assign_new_buffer_def br_clear_partial_def)
  have m2: "n - k = min (n - k) (8 * br_size ?r2 - br_pos ?r2)" using assms(9,10) ok2 by simp
  obtain u r2 where r2: "br_read_loop ?r2 n k v = Some (n, u, r2)" "br_pos r2 = n - k"
    "\<forall>j. bit u j \<longleftrightarrow> bit v j \<or> j < n - k \<and> bit_at buf (n - k - 1 - j)"
    using br_read_loop_run [OF ok2(1) _ assms(5) m2, of v] assms(8) ok2 by auto
  have b2: "br_read (br_assign_new_buffer (br_set_partial r1 v k) buf size') n = Some (u, r2)"
    using r2(1) assms(7) by (simp add: br_read_def br_read_bits_def br_set_partial_def br_assign_new_buffer_def)
  let ?r3 = "r\<lparr>br_buffer := ?a @ buf, br_size := br_size r + size'\<rparr>"
  have ok3: "br_ok ?r3" "br_pos ?r3 = ?p" using assms(1,10) by (auto simp: br_ok_def br_pos_def)
  have m3: "n = min (n - 0) (8 * br_size ?r3 - br_pos ?r3)" using assms(6-10) ok3 by (auto simp: min_def)
  obtain w r3 where r3: "br_read_loop ?r3 n 0 0 = Some (n, w, r3)" "br_pos r3 = ?p + n"
    "\<forall>j. bit w j \<longleftrightarrow> j < n \<and> bit_at (?a @ buf) (?p + n - 1 - j)"
    using br_read_loop_run [OF ok3(1) _ assms(5) m3, of 0] ok3(2) by auto
  have b3: "br_read ?r3 n = Some (w, r3)"
    using r3(1) assms(3,4) by (simp add: br_read_def br_read_bits_def)
  have sz: "8 * length ?a = ?p + k" using assms(1,2,6) by (simp add: br_ok_def)
  have "bit w j \<longleftrightarrow> bit u j" for j
  proof (cases "n - k \<le> j \<and> j < n")
    case True
    then have "?p + n - 1 - j < 8 * length ?a" using sz by linarith
    then have "(?p + n - 1 - j) div 8 < length ?a" by (simp add: less_mult_imp_div_less)
    then have "bit_at (?a @ buf) (?p + n - 1 - j) = bit_at ?a (?p + n - 1 - j)" by (simp add: bit_at_def nth_append)
    then show ?thesis using True r1(6) r2(3) r3(3) by auto
  next
    case False
    have "bit_at (?a @ buf) (?p + n - 1 - j) = bit_at buf (n - k - 1 - j)" if "j < n - k"
    proof -
      have "?p + n - 1 - j = 8 * length ?a + (n - k - 1 - j)" using sz that by linarith
      then show ?thesis by (auto simp: bit_at_def nth_append)
    qed
    moreover have "j < n - k \<longleftrightarrow> j < n" using False assms(8) by auto
    ultimately show ?thesis using False r1(6) r2(3) r3(3) by blast
  qed
  then have "u = w" by (intro bit_word_eqI) simp
  moreover have "br_pos r3 = 8 * br_size r + br_pos r2" using r3(2) r2(2) sz assms(2,8) by simp
  ultimately show ?thesis using b1 b2 b3 e1 by (auto simp: br_set_partial_def)
qed


definition short_reader :: bitreader where
  "short_reader = \<lparr>br_buffer = [0xAB], br_size = 1, br_position = 0, br_bitoffset = 4, br_partial = 0, br_partialSize = 0\<rparr>"

theorem reader_joins_buffers_witness:
  "\<exists>v r1 r2 r3. br_read short_reader 6 = Some (v, r1) \<and> br_empty r1 \<and> br_partialSize r1 = 4 \<and>
     br_read (br_assign_new_buffer r1 [0xC0] 1) 6 = Some r2 \<and>
     br_read (short_reader\<lparr>br_buffer := br_buffer short_reader @ [0xC0], br_size := br_size short_reader + 1\<rparr>) 6 = Some r3 \<and>
     fst r2 = fst r3 \<and> br_pos (snd r3) = 8 * br_size short_reader + br_pos (snd r2)"
  by (rule reader_joins_buffers) (simp_all add: short_reader_def br_ok_def br_pos_def)

text \<open>The room is rounded down to whole bytes, so a value that ends inside the byte after the last
  one is written outside the buffer: no buffer of whole bytes takes eight bits four bits before its
  end.\<close>

theorem write_past_the_end:
  assumes "0 < h" "8 * h + 4 < 2 ^ 32"
  shows "bb_write (bb_create h) v (8 * h - 4) 8 = None"
proof -
  obtain g where g: "h = Suc g" using assms(1) by (cases h) auto
  have i: "8 * h - 4 = 8 * g + 4" "8 * h - 4 + 8 = 8 * h + 4" using g by simp_all
  have "uint_add (8 * h - 4) 8 = 8 * h + 4" using assms(2) uint_add_small [of "8 * h - 4" 8] i by simp
  then have r: "bb_resize (bb_create h) (uint_add (8 * g + 4) 8) = Some (bb_create h)"
    unfolding i(1) using bb_create_empty [OF assms(1)] by (simp add: bb_resize_def)
  have "(8 * g + 4) div 8 = g" "(8 * g + 4) mod 8 = 4" by simp_all
  moreover have "length (bb_buffer (bb_create h)) = Suc g" using bb_create_empty [OF assms(1)] g by simp
  moreover have "write_loop v g 4 8 buf = None" if "length buf = Suc g" for buf
    using that by (subst write_loop.simps, simp add: Let_def, subst write_loop.simps, simp add: Let_def)
  ultimately show ?thesis unfolding bb_write_def i(1) r by simp
qed

theorem write_past_the_end_witness: "bb_write (bb_create 1) 0xFF 4 8 = None"
  using write_past_the_end [of 1 "0xFF"] by simp

section \<open>Images\<close>

lemma pack8_bits:
  assumes "length p = 8" "k < 8"
  shows "bit (pack8 p) (7 - k) \<longleftrightarrow> bit (p ! k) 0"
proof -
  obtain a b c d e f g h where p: "p = [a, b, c, d, e, f, g, h]"
    using assms(1) by (auto simp: length_Suc_conv numeral_eq_Suc)
  have one: "bit (push_bit n (x AND 1 :: u8)) j \<longleftrightarrow> j = n \<and> n < 8 \<and> bit x 0" "bit (x AND 1 :: u8) j \<longleftrightarrow> j = 0 \<and> bit x 0" for x n j
    by (auto simp: bit_simps)
  have nths: "map (\<lambda>x. x AND 1) p ! 0 = a AND 1" "map (\<lambda>x. x AND 1) p ! 1 = b AND 1" "map (\<lambda>x. x AND 1) p ! 2 = c AND 1"
    "map (\<lambda>x. x AND 1) p ! 3 = d AND 1" "map (\<lambda>x. x AND 1) p ! 4 = e AND 1" "map (\<lambda>x. x AND 1) p ! 5 = f AND 1"
    "map (\<lambda>x. x AND 1) p ! 6 = g AND 1" "map (\<lambda>x. x AND 1) p ! 7 = h AND 1" by (simp_all add: p)
  have e: "pack8 p = push_bit 7 (a AND 1) OR push_bit 6 (b AND 1) OR push_bit 5 (c AND 1) OR push_bit 4 (d AND 1) OR
      push_bit 3 (e AND 1) OR push_bit 2 (f AND 1) OR push_bit 1 (g AND 1) OR (h AND 1)"
    unfolding pack8_def Let_def nths ..
  have bits: "bit (pack8 p) j \<longleftrightarrow> j = 7 \<and> bit a 0 \<or> j = 6 \<and> bit b 0 \<or> j = 5 \<and> bit c 0 \<or> j = 4 \<and> bit d 0 \<or>
      j = 3 \<and> bit e 0 \<or> j = 2 \<and> bit f 0 \<or> j = 1 \<and> bit g 0 \<or> j = 0 \<and> bit h 0" for j
    unfolding e bit_or_iff one by simp
  have "k = 0 \<or> k = 1 \<or> k = 2 \<or> k = 3 \<or> k = 4 \<or> k = 5 \<or> k = 6 \<or> k = 7" using assms(2) by linarith
  then show ?thesis unfolding bits by (elim disjE) (simp_all add: p)
qed


lemma bit_at_byte: "c < length buf \<Longrightarrow> k < 8 \<Longrightarrow> bit_at buf (8 * c + k) \<longleftrightarrow> bit (buf ! c) (7 - k)"
  by (simp add: bit_at_def)

text \<open>Whole groups of eight pixels go to whole bytes.\<close>

lemma mat_to_bitbuffer_bytes:
  assumes "length p = 8 * g" "c + g \<le> length (bb_buffer b)" "8 * (c + g) < 2 ^ 32"
  shows "\<exists>buf. mat_to_bitbuffer p (b, 8 * c) = Some (b\<lparr>bb_buffer := buf\<rparr>, 8 * (c + g)) \<and> length buf = length (bb_buffer b) \<and>
    (\<forall>i. i < c \<longrightarrow> buf ! i = bb_buffer b ! i) \<and> (\<forall>i < g. buf ! (c + i) = pack8 (take 8 (drop (8 * i) p)))"
  using assms
proof (induction g arbitrary: p c b)
  case 0
  then show ?case by (intro exI [of _ "bb_buffer b"]) (simp add: mat_to_bitbuffer.simps)
next
  case (Suc g)
  let ?v = "pack8 (take 8 p)"
  let ?b = "b\<lparr>bb_buffer := (bb_buffer b)[c := ?v]\<rparr>"
  have small: "8 * c < 2 ^ 32" "8 * c + 8 < 2 ^ 32" "8 * c + 8 \<le> 8 * length (bb_buffer b)" using Suc.prems by simp_all
  have "uint_add (8 * c) 8 = 8 * c + 8" by (rule uint_add_small [OF small(2)])
  then have "bb_write_aligned_byte b ?v (8 * c) = Some ?b"
    using small(3) bb_resize_fits [of "8 * c + 8" b] by (simp add: bb_write_aligned_byte_def)
  then have w: "writer_write_byte (b, 8 * c) ?v = Some (?b, 8 * (c + 1))" using small(1) by (simp add: writer_write_byte_def)
  obtain buf where buf: "mat_to_bitbuffer (drop 8 p) (?b, 8 * (c + 1)) = Some (?b\<lparr>bb_buffer := buf\<rparr>, 8 * (c + 1 + g))"
    "length buf = length (bb_buffer ?b)" "\<forall>i. i < c + 1 \<longrightarrow> buf ! i = bb_buffer ?b ! i"
    "\<forall>i < g. buf ! (c + 1 + i) = pack8 (take 8 (drop (8 * i) (drop 8 p)))"
    using Suc.IH [of "drop 8 p" "c + 1" ?b] Suc.prems by auto
  have "buf ! (c + i) = pack8 (take 8 (drop (8 * i) p))" if "i < Suc g" for i
  proof (cases i)
    case 0
    then show ?thesis using buf(3) small(3) by simp
  next
    case (Suc k)
    then show ?thesis using buf(4) that by (auto simp: add.commute)
  qed
  moreover have "mat_to_bitbuffer p (b, 8 * c) = Some (b\<lparr>bb_buffer := buf\<rparr>, 8 * (c + Suc g))"
    using w buf(1) Suc.prems(1) by (subst mat_to_bitbuffer.simps) simp
  ultimately show ?case using buf(2,3) by auto
qed

lemma mat_to_bitbuffer_pixels:
  assumes "8 dvd length p" "length p < 2 ^ 32" "length p \<le> 8 * h" "0 < h"
  shows "\<exists>buf. mat_to_bitbuffer p (get_writer (bb_create h) 0) = Some (bb_create h\<lparr>bb_buffer := buf\<rparr>, length p) \<and> length buf = h \<and>
    (\<forall>i < length p. bit_at buf i \<longleftrightarrow> bit (p ! i) 0)"
proof -
  obtain g where g: "length p = 8 * g" using assms(1) by (rule dvdE)
  have b: "bb_buffer (bb_create h) = replicate h 0" using bb_create_empty [OF assms(4)] by simp
  obtain buf where buf: "mat_to_bitbuffer p (bb_create h, 8 * 0) = Some (bb_create h\<lparr>bb_buffer := buf\<rparr>, 8 * (0 + g))"
    "length buf = h" "\<forall>i < g. buf ! (0 + i) = pack8 (take 8 (drop (8 * i) p))"
    using mat_to_bitbuffer_bytes [OF g, of 0 "bb_create h"] b assms(2,3) g by auto
  have pix: "bit_at buf i \<longleftrightarrow> bit (p ! i) 0" if "i < length p" for i
  proof -
    let ?c = "i div 8" and ?k = "i mod 8"
    have c: "?c < g" "8 * ?c + ?k = i" "?k < 8" using that g by (simp_all add: less_mult_imp_div_less)
    have "?c < length buf" using c(1) buf(2) g assms(3) by simp
    then have "bit_at buf i \<longleftrightarrow> bit (pack8 (take 8 (drop (8 * ?c) p))) (7 - ?k)"
      using bit_at_byte [of ?c buf ?k] c buf(3) by simp
    also have "... \<longleftrightarrow> bit (take 8 (drop (8 * ?c) p) ! ?k) 0"
      by (rule pack8_bits) (use c g in simp_all)
    also have "take 8 (drop (8 * ?c) p) ! ?k = p ! i" using c g by simp
    finally show ?thesis .
  qed
  then show ?thesis using buf(1,2) g by (auto simp: get_writer_def)
qed

text \<open>An image whose number of pixels is a multiple of eight, turned into bits, is read back by
  \<open>bitmatrix\<close>: \<open>get (x, y, n)\<close> is the \<open>n\<close> low pixel bits from column \<open>x\<close> of row \<open>y\<close> on, continued
  in the following rows, the first one most significant.\<close>

theorem bitmatrix_reads_image:
  assumes "length p = width * height" "8 dvd length p" "length p < 2 ^ 32" "length p \<le> 8 * h" "0 < h"
    and "x + y * width + n \<le> length p" "n \<le> 64"
  shows "\<exists>b pos v. mat_to_bitbuffer p (get_writer (bb_create h) 0) = Some (b, pos) \<and> pos = length p \<and>
    bm_get \<lparr>bm_buff = b, bm_xstart = 0, bm_ystart = 0, bm_width = width, bm_height = height\<rparr> x y n = Some v \<and>
    (\<forall>j. bit v j \<longleftrightarrow> j < n \<and> bit (p ! (x + y * width + n - 1 - j)) 0)"
proof -
  obtain buf where buf: "mat_to_bitbuffer p (get_writer (bb_create h) 0) = Some (bb_create h\<lparr>bb_buffer := buf\<rparr>, length p)" "length buf = h"
    and pix: "\<And>i. i < length p \<Longrightarrow> bit_at buf i \<longleftrightarrow> bit (p ! i) 0"
    using mat_to_bitbuffer_pixels [OF assms(2-5)] by blast
  let ?b = "bb_create h\<lparr>bb_buffer := buf\<rparr>" and ?i = "x + y * width"
  have "?i + n \<le> 8 * length (bb_buffer ?b)" using assms(4,6) buf(2) by simp
  then obtain v where v: "bb_read ?b ?i n = Some v" "\<forall>j. bit v j \<longleftrightarrow> j < n \<and> bit_at buf (?i + n - 1 - j)"
    using bb_read_bits [OF _ assms(7), of ?i ?b] by auto
  have le: "x \<le> ?i + n" "y * width \<le> ?i + n" "?i \<le> ?i + n" by simp_all
  have small: "x < 2 ^ 32" "y * width < 2 ^ 32" "?i < 2 ^ 32" using le assms(3,6) by linarith+
  have get: "bm_get \<lparr>bm_buff = ?b, bm_xstart = 0, bm_ystart = 0, bm_width = width, bm_height = height\<rparr> x y n = Some v"
  proof (cases "width = 0")
    case True
    then show ?thesis using v(1) small by (simp add: bm_get_def uint_add_def)
  next
    case False
    then have "y \<le> y * width" by simp
    then have "y < 2 ^ 32" using small(2) by linarith
    then show ?thesis using v(1) small by (simp add: bm_get_def uint_add_def)
  qed
  have "?i + n - 1 - j < length p" if "j < n" for j using that assms(6) by simp
  then have "\<forall>j. bit v j \<longleftrightarrow> j < n \<and> bit (p ! (?i + n - 1 - j)) 0" using v(2) pix by blast
  then show ?thesis using buf(1) get by blast
qed

theorem bitmatrix_reads_image_witness:
  "\<exists>b pos v. mat_to_bitbuffer [1, 0, 1, 1, 0, 255, 1, 254] (get_writer (bb_create 1) 0) = Some (b, pos) \<and>
     pos = length [1, 0, 1, 1, 0, 255, 1, 254 :: u8] \<and>
     bm_get \<lparr>bm_buff = b, bm_xstart = 0, bm_ystart = 0, bm_width = 4, bm_height = 2\<rparr> 1 1 3 = Some v \<and>
     (\<forall>j. bit v j \<longleftrightarrow> j < 3 \<and> bit ([1, 0, 1, 1, 0, 255, 1, 254 :: u8] ! (1 + 1 * 4 + 3 - 1 - j)) 0)"
proof (rule bitmatrix_reads_image [where height = 2])
  have "length [1, 0, 1, 1, 0, 255, 1, 254 :: u8] = 8" by simp
  then show "8 dvd length [1, 0, 1, 1, 0, 255, 1, 254 :: u8]" by (metis dvd_refl)
qed simp_all

text \<open>The pixels left over are packed one place too low and below the top of the byte: of a row of
  four white pixels, the first comes back black.\<close>

theorem bitmatrix_misplaces_remainder:
  "\<exists>b pos. mat_to_bitbuffer [1, 1, 1, 1] (get_writer (bb_create 1) 0) = Some (b, pos) \<and>
     bm_get \<lparr>bm_buff = b, bm_xstart = 0, bm_ystart = 0, bm_width = 4, bm_height = 1\<rparr> 0 0 1 = Some 0 \<and>
     bm_get \<lparr>bm_buff = b, bm_xstart = 0, bm_ystart = 0, bm_width = 4, bm_height = 1\<rparr> 3 0 4 = Some 15"
proof -
  have "bb_resize (bb_create 1) 8 = Some (bb_create 1)" by (intro bb_resize_fits) (simp add: bb_create_empty)
  then have m: "mat_to_bitbuffer [1, 1, 1, 1] (get_writer (bb_create 1) 0) = Some (\<lparr>bb_buffer = [30], bb_sizeHint = 1\<rparr>, 8)"
    by (subst mat_to_bitbuffer.simps)
      (simp add: get_writer_def writer_write_byte_def bb_write_aligned_byte_def uint_add_def bb_create_empty)
  have "read_loop [30] 0 0 1 0 = Some 0" "read_loop [30] 0 3 4 0 = Some 15"
    by (subst read_loop.simps, simp, subst read_loop.simps, simp)+
  then show ?thesis unfolding m by (simp add: bm_get_def bb_read_def uint_add_def)
qed

end
