(* ===== verification/GridConfig.thy ===== *)
theory GridConfig
  imports Prelude
begin

text \<open>
  \<open>GridConf.h\<close>, \<open>Config.h\<close> and \<open>ConfigScope.h\<close>: the grids of the image modes. Arithmetic is that of
  \<open>unsigned int\<close>; a division by zero (and rounding an infinite quotient) is \<open>None\<close>. The active
  configuration of a thread is the value that \<open>update\<close> returns.
\<close>

definition uint_mul :: "nat \<Rightarrow> nat \<Rightarrow> nat" where
  "uint_mul a b = (a * b) mod 2 ^ 32"

definition uint_div :: "nat \<Rightarrow> nat \<Rightarrow> nat option" where
  "uint_div a b = (if b = 0 then None else Some (a div b))"

text \<open>\<open>lrint(a / b)\<close>: to nearest, ties to even.\<close>

definition lrint_quotient :: "nat \<Rightarrow> nat \<Rightarrow> nat option" where
  "lrint_quotient a b = (if b = 0 then None
     else let q = (2 * a + b) div (2 * b) in Some (if (2 * a + b) mod (2 * b) = 0 \<and> odd q then q - 1 else q))"

record conf =
  color_bits :: nat
  symbol_bits :: nat
  ecc_bytes :: nat
  ecc_block_size :: nat
  image_size_x :: nat
  image_size_y :: nat
  cell_size :: nat
  cell_spacing_x :: nat
  cell_spacing_y :: nat
  cell_offset :: nat
  cells_per_col_x :: nat
  cells_per_col_y :: nat
  fountain_chunks_scalar :: int
  legacy_mode :: bool

definition conf_default :: conf where
  "conf_default = \<lparr>color_bits = 0, symbol_bits = 0, ecc_bytes = 0, ecc_block_size = 0, image_size_x = 1, image_size_y = 1,
     cell_size = 8, cell_spacing_x = 9, cell_spacing_y = 9, cell_offset = 9, cells_per_col_x = 0, cells_per_col_y = 0,
     fountain_chunks_scalar = 2, legacy_mode = False\<rparr>"

definition bits_per_cell :: "conf \<Rightarrow> nat" where
  "bits_per_cell c = uint_add (color_bits c) (symbol_bits c)"

definition corner_padding_x :: "conf \<Rightarrow> nat option" where
  "corner_padding_x c = lrint_quotient 54 (cell_spacing_x c)"

definition corner_padding_y :: "conf \<Rightarrow> nat option" where
  "corner_padding_y c = lrint_quotient 54 (cell_spacing_y c)"

definition total_cells :: "conf \<Rightarrow> nat option" where
  "total_cells c = do {
     px \<leftarrow> corner_padding_x c; py \<leftarrow> corner_padding_y c;
     Some (uint_sub (uint_mul (cells_per_col_x c) (cells_per_col_y c)) (uint_mul (uint_mul px py) 4))
   }"

definition or_bits_per_cell :: "conf \<Rightarrow> nat \<Rightarrow> nat" where
  "or_bits_per_cell c bitspercell = (if bitspercell = 0 then bits_per_cell c else bitspercell)"

definition capacity :: "conf \<Rightarrow> nat \<Rightarrow> nat option" where
  "capacity c bitspercell = do {
     cells \<leftarrow> total_cells c;
     Some (uint_mul cells (or_bits_per_cell c bitspercell) div 8)
   }"

definition fountain_chunks_per_frame :: "conf \<Rightarrow> nat \<Rightarrow> nat" where
  "fountain_chunks_per_frame c bitspercell =
     (if fountain_chunks_scalar c < 0 then nat (- fountain_chunks_scalar c)
      else uint_mul (or_bits_per_cell c bitspercell) (nat (fountain_chunks_scalar c)))"

definition fountain_chunk_size :: "conf \<Rightarrow> nat \<Rightarrow> nat option" where
  "fountain_chunk_size c bitspercell = do {
     cap \<leftarrow> capacity c (or_bits_per_cell c bitspercell);
     n \<leftarrow> uint_div (uint_mul cap (uint_sub (ecc_block_size c) (ecc_bytes c))) (ecc_block_size c);
     uint_div n (fountain_chunks_per_frame c (or_bits_per_cell c bitspercell))
   }"

definition Conf5x5 :: conf where
  "Conf5x5 = conf_default\<lparr>color_bits := 2, symbol_bits := 2, ecc_bytes := 40, ecc_block_size := 216, image_size_x := 988,
     image_size_y := 988, cell_size := 5, cell_spacing_x := 6, cell_spacing_y := 6, cell_offset := 9, cells_per_col_x := 162,
     cells_per_col_y := 162, fountain_chunks_scalar := 3\<rparr>"

definition Conf5x5d :: conf where
  "Conf5x5d = conf_default\<lparr>color_bits := 2, symbol_bits := 2, ecc_bytes := 35, ecc_block_size := 182, image_size_x := 958,
     image_size_y := 958, cell_size := 5, cell_spacing_x := 5, cell_spacing_y := 6, cell_offset := 9, cells_per_col_x := 188,
     cells_per_col_y := 157, fountain_chunks_scalar := 4\<rparr>"

definition Conf8x8 :: conf where
  "Conf8x8 = conf_default\<lparr>color_bits := 2, symbol_bits := 4, ecc_bytes := 30, ecc_block_size := 155, image_size_x := 1024,
     image_size_y := 1024, cell_size := 8, cell_spacing_x := 9, cell_spacing_y := 9, cell_offset := 8, cells_per_col_x := 112,
     cells_per_col_y := 112, fountain_chunks_scalar := 2\<rparr>"

definition Conf8x8_micro :: conf where
  "Conf8x8_micro = conf_default\<lparr>color_bits := 2, symbol_bits := 4, ecc_bytes := 33, ecc_block_size := 168, image_size_x := 736,
     image_size_y := 637, cell_size := 8, cell_spacing_x := 9, cell_spacing_y := 9, cell_offset := 9, cells_per_col_x := 80,
     cells_per_col_y := 69, fountain_chunks_scalar := 1\<rparr>"

definition Conf8x8_mini :: conf where
  "Conf8x8_mini = conf_default\<lparr>color_bits := 2, symbol_bits := 4, ecc_bytes := 36, ecc_block_size := 179, image_size_x := 1024,
     image_size_y := 720, cell_size := 8, cell_spacing_x := 9, cell_spacing_y := 9, cell_offset := 9, cells_per_col_x := 112,
     cells_per_col_y := 78, fountain_chunks_scalar := 2\<rparr>"

section \<open>Modes\<close>

definition temp_conf :: "int \<Rightarrow> conf" where
  "temp_conf mode_val =
     (if mode_val = 4 then Conf8x8\<lparr>color_bits := 2, legacy_mode := True, fountain_chunks_scalar := - 10\<rparr>
      else if mode_val = 8 then Conf8x8\<lparr>color_bits := 3, legacy_mode := True, fountain_chunks_scalar := - 10\<rparr>
      else if mode_val = 66 then Conf8x8_micro
      else if mode_val = 67 then Conf8x8_mini
      else Conf8x8)"

definition config_update :: "int \<Rightarrow> conf \<Rightarrow> conf" where
  "config_update mode_val active = temp_conf mode_val"

definition color_mode :: "conf \<Rightarrow> nat" where
  "color_mode active = (if legacy_mode active then 0 else 1)"

definition dark :: bool where "dark \<longleftrightarrow> True"

definition anchor_size :: nat where "anchor_size = 30"

definition config_cell_size :: nat where "config_cell_size = 8"

definition interleave_blocks :: "conf \<Rightarrow> nat" where
  "interleave_blocks active = ecc_block_size active"

definition interleave_partitions :: nat where "interleave_partitions = 2"

definition compression_level :: nat where "compression_level = 16"

text \<open>\<open>ConfigScope\<close>: what is run inside sees the mode, and afterwards mode 0 is active, not the one
  from before.\<close>

definition in_config_scope :: "int \<Rightarrow> (conf \<Rightarrow> 'a \<times> conf) \<Rightarrow> conf \<Rightarrow> 'a \<times> conf" where
  "in_config_scope mode_val body active =
     (case body (config_update mode_val active) of (r, active) \<Rightarrow> (r, config_update 0 active))"

lemmas conf_eval = conf_default_def Conf8x8_def Conf8x8_micro_def Conf8x8_mini_def bits_per_cell_def corner_padding_x_def
  corner_padding_y_def lrint_quotient_def total_cells_def or_bits_per_cell_def capacity_def fountain_chunks_per_frame_def
  fountain_chunk_size_def uint_mul_def uint_div_def uint_add_def uint_sub_def

lemma temp_conf_cases: "temp_conf m \<in> {temp_conf 4, temp_conf 8, temp_conf 66, temp_conf 67, temp_conf 68}"
  by (auto simp: temp_conf_def)

text \<open>The check of one mode, which evaluates.\<close>

definition conf_ok :: "conf \<Rightarrow> nat \<Rightarrow> bool" where
  "conf_ok c bits = (case (total_cells c, capacity c bits, fountain_chunk_size c bits) of
     (Some cells, Some cap, Some chunk) \<Rightarrow>
       ecc_bytes c < ecc_block_size c \<and> ecc_block_size c \<le> 255 \<and> ecc_block_size c dvd cap \<and>
       chunk * fountain_chunks_per_frame c bits = cap div ecc_block_size c * (ecc_block_size c - ecc_bytes c) \<and>
       50 \<le> chunk \<and> chunk < 2 ^ 16 \<and> interleave_partitions dvd cells \<and> interleave_blocks c dvd cells div interleave_partitions \<and>
       cell_offset c + cells_per_col_x c * cell_spacing_x c \<le> image_size_x c \<and>
       cell_offset c + cells_per_col_y c * cell_spacing_y c \<le> image_size_y c
   | _ \<Rightarrow> False)"

lemma modes_evaluated:
  "conf_ok (temp_conf 4) 0" "conf_ok (temp_conf 4) 2" "conf_ok (temp_conf 4) 4"
  "conf_ok (temp_conf 8) 0" "conf_ok (temp_conf 8) 3" "conf_ok (temp_conf 8) 4"
  "conf_ok (temp_conf 66) 0" "conf_ok (temp_conf 66) 2" "conf_ok (temp_conf 66) 4"
  "conf_ok (temp_conf 67) 0" "conf_ok (temp_conf 67) 2" "conf_ok (temp_conf 67) 4"
  "conf_ok (temp_conf 68) 0" "conf_ok (temp_conf 68) 2" "conf_ok (temp_conf 68) 4"
  by (simp_all add: temp_conf_def conf_eval conf_ok_def interleave_partitions_def interleave_blocks_def)

lemma mode_bits:
  "color_bits (temp_conf 4) = 2" "color_bits (temp_conf 8) = 3" "color_bits (temp_conf 66) = 2"
  "color_bits (temp_conf 67) = 2" "color_bits (temp_conf 68) = 2" "symbol_bits (temp_conf 4) = 4" "symbol_bits (temp_conf 8) = 4"
  "symbol_bits (temp_conf 66) = 4" "symbol_bits (temp_conf 67) = 4" "symbol_bits (temp_conf 68) = 4"
  by (simp_all add: temp_conf_def Conf8x8_def Conf8x8_micro_def Conf8x8_mini_def)

lemma mode_ok:
  assumes "c \<in> {temp_conf 4, temp_conf 8, temp_conf 66, temp_conf 67, temp_conf 68}" "bits \<in> {0, color_bits c, symbol_bits c}"
  shows "conf_ok c bits"
  using assms modes_evaluated mode_bits by (metis empty_iff insertE)

text \<open>C28: in every mode, for whole cells and for symbols or colours alone, the frame is a whole number of
  Reed-Solomon blocks of at most 255 bytes, and what they carry is exactly the chunks of a frame, each
  of which has room for the header and fits the fountain sink; the cells divide into the interleaving
  blocks and partitions; and the grid of cells fits the image.\<close>

theorem modes_fill_the_frame:
  assumes "bits \<in> {0, color_bits (temp_conf m), symbol_bits (temp_conf m)}"
  shows "\<exists>cells cap chunk. let c = temp_conf m in
    total_cells c = Some cells \<and> capacity c bits = Some cap \<and> fountain_chunk_size c bits = Some chunk \<and>
    ecc_bytes c < ecc_block_size c \<and> ecc_block_size c \<le> 255 \<and> ecc_block_size c dvd cap \<and>
    chunk * fountain_chunks_per_frame c bits = cap div ecc_block_size c * (ecc_block_size c - ecc_bytes c) \<and>
    50 \<le> chunk \<and> chunk < 2 ^ 16 \<and> interleave_partitions dvd cells \<and> interleave_blocks c dvd cells div interleave_partitions \<and>
    cell_offset c + cells_per_col_x c * cell_spacing_x c \<le> image_size_x c \<and>
    cell_offset c + cells_per_col_y c * cell_spacing_y c \<le> image_size_y c"
  using mode_ok [OF temp_conf_cases assms] by (auto simp: conf_ok_def Let_def split: option.splits)


theorem modes_fill_the_frame_witness:
  "\<exists>cells cap chunk. let c = temp_conf 68 in total_cells c = Some cells \<and> capacity c 0 = Some cap \<and>
     fountain_chunk_size c 0 = Some chunk \<and> chunk * fountain_chunks_per_frame c 0 = cap div ecc_block_size c * (ecc_block_size c - ecc_bytes c)"
  using modes_fill_the_frame [of 0 68] unfolding Let_def by auto

end
