(* ===== verification/Layout.thy ===== *)
theory Layout
  imports Prelude "HOL-Library.Multiset"
begin

text \<open>
  Where the cells of an image are and in which order: \<open>Interleave.h\<close>, \<open>CellPositions\<close>,
  \<open>AdjacentCellFinder\<close>, \<open>CellDrift\<close> and \<open>LinearDecodePositions.h\<close>. Dimensions, spacing and marker
  size are pairs (\<open>vec_xy\<close>) of numbers that are not negative, as are their products within an \<open>int\<close>; \<open>None\<close> is an access outside a vector,
  a division by zero or a loop that does not end.
\<close>

section \<open>Interleave\<close>

text \<open>The innermost loop: \<open>chunk, chunk + num_chunks, ...\<close> below the partition size.\<close>

function stride :: "nat \<Rightarrow> nat \<Rightarrow> nat \<Rightarrow> nat list" where
  "stride num_chunks partitionSize i =
     (if i < partitionSize \<and> num_chunks > 0 then i # stride num_chunks partitionSize (i + num_chunks) else [])"
  by pat_completeness auto
termination by (relation "measure (\<lambda>(_, s, i). s - i)") auto

declare stride.simps [simp del]

definition one_partition :: "nat \<Rightarrow> nat \<Rightarrow> nat list" where
  "one_partition num_chunks partitionSize = concat (map (stride num_chunks partitionSize) [0..<num_chunks])"

partial_function (option) part_loop :: "nat \<Rightarrow> nat \<Rightarrow> nat \<Rightarrow> nat \<Rightarrow> nat list \<Rightarrow> nat list option" where
  "part_loop n num_chunks partitionSize part indices =
     (if part < n
      then part_loop n num_chunks partitionSize (part + partitionSize)
             (indices @ map (\<lambda>i. i + part) (one_partition num_chunks partitionSize))
      else Some indices)"

definition interleave_indices :: "nat \<Rightarrow> nat \<Rightarrow> nat \<Rightarrow> nat list option" where
  "interleave_indices n num_chunks partitions =
     (if num_chunks = 0 then Some [0..<n]
      else if partitions = 0 then None
      else part_loop n num_chunks (n div partitions) 0 [])"

definition interleave_reverse :: "nat \<Rightarrow> nat \<Rightarrow> nat \<Rightarrow> nat list option" where
  "interleave_reverse n num_chunks partitions = do {
     indices \<leftarrow> interleave_indices n num_chunks partitions;
     for_each [0..<length indices] (\<lambda>src inverted. wr inverted (indices ! src) src) (replicate (length indices) 0)
   }"

definition interleave :: "'p list \<Rightarrow> nat \<Rightarrow> nat \<Rightarrow> 'p list option" where
  "interleave positions num_chunks partitions = do {
     indices \<leftarrow> interleave_indices (length positions) num_chunks partitions;
     for_each indices (\<lambda>idx res. map_option (\<lambda>p. res @ [p]) (rd positions idx)) []
   }"

section \<open>CellPositions\<close>

type_synonym vec_xy = "int \<times> int"
type_synonym coordinate = "int \<times> int"

text \<open>One of the three loops: \<open>cells\<close> cells in rows of \<open>width\<close>.\<close>

definition cell_rows :: "vec_xy \<Rightarrow> int \<Rightarrow> int \<Rightarrow> int \<Rightarrow> int \<Rightarrow> coordinate list" where
  "cell_rows spacing width cells x0 y0 =
     map (\<lambda>i. ((i mod width) * fst spacing + x0, (i div width) * snd spacing + y0)) [0..cells - 1]"

definition compute_linear :: "vec_xy \<Rightarrow> vec_xy \<Rightarrow> int \<Rightarrow> vec_xy \<Rightarrow> coordinate list" where
  "compute_linear spacing dimensions off marker_size =
     (let offset_y = off;
          marker_offset_x = fst spacing * fst marker_size;
          top_width = fst dimensions - fst marker_size - fst marker_size;
          top_cells = top_width * snd marker_size;
          mid_y = snd marker_size * snd spacing;
          mid_width = fst dimensions;
          mid_height = snd dimensions - snd marker_size - snd marker_size;
          mid_cells = mid_width * mid_height;
          bottom_y = (snd dimensions - snd marker_size) * snd spacing;
          bottom_width = top_width;
          bottom_cells = bottom_width * snd marker_size
      in cell_rows spacing top_width top_cells (marker_offset_x + off) offset_y @
         cell_rows spacing mid_width mid_cells off (mid_y + offset_y) @
         cell_rows spacing bottom_width bottom_cells (marker_offset_x + off) (bottom_y + offset_y))"

definition compute :: "vec_xy \<Rightarrow> vec_xy \<Rightarrow> int \<Rightarrow> vec_xy \<Rightarrow> nat \<Rightarrow> nat \<Rightarrow> coordinate list option" where
  "compute spacing dimensions off marker_size interleave_blocks interleave_partitions =
     (let pos = compute_linear spacing dimensions off marker_size in
      if interleave_blocks \<noteq> 0 then interleave pos interleave_blocks interleave_partitions else Some pos)"

record CellPositions =
  cp_index :: nat
  cp_positions :: "coordinate list"

definition cp_create :: "vec_xy \<Rightarrow> vec_xy \<Rightarrow> int \<Rightarrow> vec_xy \<Rightarrow> nat \<Rightarrow> nat \<Rightarrow> CellPositions option" where
  "cp_create spacing dimensions off marker_size interleave_blocks interleave_partitions =
     map_option (\<lambda>p. \<lparr>cp_index = 0, cp_positions = p\<rparr>)
       (compute spacing dimensions off marker_size interleave_blocks interleave_partitions)"

definition cp_count :: "CellPositions \<Rightarrow> nat" where
  "cp_count c = length (cp_positions c)"

definition cp_reset :: "CellPositions \<Rightarrow> CellPositions" where
  "cp_reset c = c\<lparr>cp_index := 0\<rparr>"

definition cp_done :: "CellPositions \<Rightarrow> bool" where
  "cp_done c \<longleftrightarrow> cp_index c \<ge> length (cp_positions c)"

definition cp_next :: "CellPositions \<Rightarrow> (coordinate \<times> CellPositions) option" where
  "cp_next c = map_option (\<lambda>p. (p, c\<lparr>cp_index := cp_index c + 1\<rparr>)) (rd (cp_positions c) (cp_index c))"

section \<open>AdjacentCellFinder\<close>

record AdjacentCellFinder =
  af_positions :: "coordinate list"
  af_dimensionsX :: int
  af_markerSizeX :: int
  af_firstMid :: int
  af_firstBottom :: int

definition af_create :: "coordinate list \<Rightarrow> vec_xy \<Rightarrow> vec_xy \<Rightarrow> AdjacentCellFinder" where
  "af_create positions dimensions marker_size =
     (let midHeight = snd dimensions - snd marker_size - snd marker_size;
          midCells = fst dimensions * midHeight;
          edgeCells = (fst dimensions - fst marker_size - fst marker_size) * snd marker_size
      in \<lparr>af_positions = positions, af_dimensionsX = fst dimensions, af_markerSizeX = fst marker_size,
          af_firstMid = edgeCells, af_firstBottom = edgeCells + midCells\<rparr>)"

definition calc_mid_width :: "AdjacentCellFinder \<Rightarrow> int" where
  "calc_mid_width a = af_dimensionsX a - af_markerSizeX a - af_markerSizeX a"

definition in_row_with_margin :: "AdjacentCellFinder \<Rightarrow> int \<Rightarrow> bool" where
  "in_row_with_margin a index = (if index < af_firstMid a then True else if index < af_firstBottom a then False else True)"

text \<open>\<open>_positions[i].first\<close>.\<close>

definition pos_x :: "AdjacentCellFinder \<Rightarrow> int \<Rightarrow> int option" where
  "pos_x a i = (if 0 \<le> i \<and> i < int (length (af_positions a)) then Some (fst (af_positions a ! nat i)) else None)"

definition af_right :: "AdjacentCellFinder \<Rightarrow> int \<Rightarrow> int option" where
  "af_right a index =
     (if index < 0 \<or> index \<ge> int (length (af_positions a)) - 1 then Some (- 1)
      else do {
        x' \<leftarrow> pos_x a (index + 1); x \<leftarrow> pos_x a index;
        Some (if x' < x then - 1 else index + 1)
      })"

definition af_left :: "AdjacentCellFinder \<Rightarrow> int \<Rightarrow> int option" where
  "af_left a index =
     (if index - 1 < 0 then Some (- 1)
      else do {
        x' \<leftarrow> pos_x a (index - 1); x \<leftarrow> pos_x a index;
        Some (if x' > x then - 1 else index - 1)
      })"

definition af_bottom :: "AdjacentCellFinder \<Rightarrow> int \<Rightarrow> int option" where
  "af_bottom a index =
     (if index < 0 \<or> index \<ge> int (length (af_positions a)) then Some (- 1)
      else let increment = (if in_row_with_margin a index then af_dimensionsX a - af_markerSizeX a else af_dimensionsX a);
               n = index + increment;
               n = (if in_row_with_margin a n then n - af_markerSizeX a else n)
        in if n < 0 \<or> n \<ge> int (length (af_positions a)) then Some (- 1)
           else do {
             x' \<leftarrow> pos_x a n; x \<leftarrow> pos_x a index;
             Some (if x' \<noteq> x then - 1 else n)
           })"

definition af_top :: "AdjacentCellFinder \<Rightarrow> int \<Rightarrow> int option" where
  "af_top a index =
     (let increment = (if in_row_with_margin a index then af_dimensionsX a - af_markerSizeX a else af_dimensionsX a);
          n = index - increment;
          n = (if in_row_with_margin a n then n + af_markerSizeX a else n)
      in if n < 0 then Some (- 1)
         else do {
           x' \<leftarrow> pos_x a n; x \<leftarrow> pos_x a index;
           Some (if x' \<noteq> x then - 1 else n)
         })"

definition af_find :: "AdjacentCellFinder \<Rightarrow> int \<Rightarrow> int list option" where
  "af_find a index = do {
     r \<leftarrow> af_right a index; l \<leftarrow> af_left a index; b \<leftarrow> af_bottom a index; t \<leftarrow> af_top a index;
     Some [r, l, b, t]
   }"

section \<open>CellDrift\<close>

type_synonym CellDrift = "int \<times> int"

definition driftPairs :: "(int \<times> int) list" where
  "driftPairs = [(-1, -1), (0, -1), (1, -1), (-1, 0), (0, 0), (1, 0), (-1, 1), (0, 1), (1, 1)]"

definition drift_limit :: int where "drift_limit = 7"

definition updateDrift :: "CellDrift \<Rightarrow> int \<Rightarrow> int \<Rightarrow> CellDrift" where
  "updateDrift d dx dy =
     (max (min (fst d + dx) drift_limit) (0 - drift_limit), max (min (snd d + dy) drift_limit) (0 - drift_limit))"

definition calculate_cooldown :: "u8 \<Rightarrow> u8 \<Rightarrow> u8" where
  "calculate_cooldown previous idx =
     (if idx = 4 then 4
      else if unat idx mod 2 = 0 then 0xFF
      else if xor previous idx = 6 then 0xFF
      else idx)"

section \<open>LinearDecodePositions\<close>

record LinearDecodePositions =
  ld_index :: nat
  ld_positions :: "coordinate list"
  ld_drift :: CellDrift

definition ld_create :: "vec_xy \<Rightarrow> vec_xy \<Rightarrow> int \<Rightarrow> vec_xy \<Rightarrow> LinearDecodePositions option" where
  "ld_create spacing dimensions off marker_size =
     map_option (\<lambda>p. \<lparr>ld_index = 0, ld_positions = p, ld_drift = (0, 0)\<rparr>) (compute spacing dimensions off marker_size 0 1)"

definition ld_reset :: "LinearDecodePositions \<Rightarrow> LinearDecodePositions" where
  "ld_reset l = l\<lparr>ld_index := 0, ld_drift := (0, 0)\<rparr>"

definition ld_done :: "LinearDecodePositions \<Rightarrow> bool" where
  "ld_done l \<longleftrightarrow> ld_index l \<ge> length (ld_positions l)"

definition ld_next :: "LinearDecodePositions \<Rightarrow> ((nat \<times> coordinate \<times> CellDrift) \<times> LinearDecodePositions) option" where
  "ld_next l = map_option (\<lambda>p. ((ld_index l, p, ld_drift l), l\<lparr>ld_index := ld_index l + 1\<rparr>)) (rd (ld_positions l) (ld_index l))"

definition ld_update :: "LinearDecodePositions \<Rightarrow> nat \<Rightarrow> CellDrift \<Rightarrow> nat \<Rightarrow> LinearDecodePositions" where
  "ld_update l index drift error_distance = l\<lparr>ld_drift := drift\<rparr>"


section \<open>The interleaving is a permutation\<close>

lemma stride_set:
  assumes "0 < n"
  shows "set (stride n s i) = {j. i \<le> j \<and> j < s \<and> n dvd j - i} \<and> distinct (stride n s i)"
  using assms
proof (induction n s i rule: stride.induct)
  case (1 n s i)
  show ?case
  proof (cases "i < s")
    case True
    then have IH: "set (stride n s (i + n)) = {j. i + n \<le> j \<and> j < s \<and> n dvd j - (i + n)}" "distinct (stride n s (i + n))"
      using 1 by auto
    have "i \<le> j \<and> n dvd j - i \<longleftrightarrow> j = i \<or> i + n \<le> j \<and> n dvd j - (i + n)" for j
    proof -
      have "n dvd j - i \<longleftrightarrow> j = i \<or> i + n \<le> j \<and> n dvd j - (i + n)" if "i \<le> j"
      proof -
        obtain k where k: "j = i + k" using \<open>i \<le> j\<close> le_Suc_ex by blast
        then show ?thesis using 1(2) by (cases "k < n") (auto simp: dvd_minus_self dest: dvd_imp_le)
      qed
      then show ?thesis by auto
    qed
    then have "{j. i \<le> j \<and> j < s \<and> n dvd j - i} = insert i {j. i + n \<le> j \<and> j < s \<and> n dvd j - (i + n)}"
      using True by auto
    then show ?thesis using True 1(2) IH by (subst (1 2) stride.simps) auto
  next
    case False
    then show ?thesis by (subst (1 2) stride.simps) auto
  qed
qed

lemma one_partition_perm:
  assumes "0 < n"
  shows "mset (one_partition n s) = mset [0..<s]"
proof -
  have in_class: "set (stride n s c) = {j. j < s \<and> j mod n = c}" if "c < n" for c
  proof -
    have "c \<le> j \<and> n dvd j - c \<longleftrightarrow> j mod n = c" for j
      using that by (metis mod_eq_dvd_iff_nat mod_less mod_less_eq_dividend)
    then show ?thesis using stride_set [OF assms, of s c] by auto
  qed
  have "distinct (concat (map (stride n s) [0..<m]))" if "m \<le> n" for m
    using that
  proof (induction m)
    case (Suc m)
    have "x \<notin> set (stride n s m)" if "x \<in> set (concat (map (stride n s) [0..<m]))" for x
    proof -
      obtain c where "c < m" "x \<in> set (stride n s c)" using \<open>x \<in> _\<close> by auto
      then show ?thesis using in_class [of c] in_class [of m] Suc.prems by auto
    qed
    then have "set (concat (map (stride n s) [0..<m])) \<inter> set (stride n s m) = {}" by blast
    then show ?case using stride_set [OF assms, of s m] Suc by (simp del: set_concat)
  qed simp
  then have "distinct (one_partition n s)" by (simp add: one_partition_def)
  moreover have "set (one_partition n s) = (\<Union>c\<in>{0..<n}. {j. j < s \<and> j mod n = c})"
    by (simp add: one_partition_def in_class)
  then have "set (one_partition n s) = {0..<s}" using assms by auto
  ultimately show ?thesis using set_eq_iff_mset_eq_distinct [of "one_partition n s" "[0..<s]"] by simp
qed

lemma part_loop_perm:
  assumes "0 < c" "part = p * s" "n = k * s" "0 < s" "p \<le> k"
  shows "\<exists>rest. part_loop n c s part indices = Some (indices @ rest) \<and> mset rest = mset [part..<n]"
  using assms
proof (induction "k - p" arbitrary: p part indices)
  case 0
  then show ?case by (subst part_loop.simps) simp
next
  case (Suc m)
  then have less: "part < n" "part + s \<le> n" by (simp_all, metis Suc_leI add.commute mult_Suc mult_le_mono1 zero_less_Suc zero_less_diff)
  let ?ix = "map (\<lambda>i. i + part) (one_partition c s)"
  obtain rest where r: "part_loop n c s (part + s) (indices @ ?ix) = Some ((indices @ ?ix) @ rest)" "mset rest = mset [part + s..<n]"
    using Suc.hyps(1) [of "Suc p" "part + s" "indices @ ?ix"] Suc.hyps(2) Suc.prems
    by (metis Suc_leI add.commute diff_Suc_Suc mult_Suc zero_less_Suc zero_less_diff Suc_diff_Suc nat.inject)
  have "mset ?ix = image_mset (\<lambda>i. i + part) (mset [0..<s])" using one_partition_perm [OF Suc.prems(1), of s] by simp
  also have "... = mset [part..<part + s]" by (metis add.commute map_add_upt mset_map)
  finally have "mset (?ix @ rest) = mset ([part..<part + s] @ [part + s..<n])" using r(2) by simp
  also have "[part..<part + s] @ [part + s..<n] = [part..<n]" using less(2) by (metis le_add1 le_add_diff_inverse upt_add_eq_append)
  finally have "mset (?ix @ rest) = mset [part..<n]" .
  moreover have "part_loop n c s part indices = Some (indices @ (?ix @ rest))"
    using r(1) less(1) by (subst part_loop.simps) simp
  ultimately show ?case by blast
qed

lemma interleave_indices_perm:
  assumes "num_chunks = 0 \<or> 0 < partitions \<and> partitions dvd n"
  shows "\<exists>indices. interleave_indices n num_chunks partitions = Some indices \<and> mset indices = mset [0..<n]"
proof (cases "num_chunks = 0")
  case False
  then obtain k where k: "n = partitions * k" "0 < partitions" using assms by (auto elim: dvdE)
  show ?thesis
  proof (cases "k = 0")
    case True
    then show ?thesis using k False by (auto simp: interleave_indices_def) (subst part_loop.simps, simp)
  next
    case kk: False
    have "\<exists>rest. part_loop n num_chunks k 0 [] = Some ([] @ rest) \<and> mset rest = mset [0..<n]"
      by (rule part_loop_perm [where p = 0 and k = partitions]) (use False k kk in simp_all)
    then show ?thesis using False k by (auto simp: interleave_indices_def)
  qed
qed (simp add: interleave_indices_def)

lemma reverse_loop:
  assumes "mset indices = mset [0..<n]"
  shows "\<exists>inv. for_each [0..<length indices] (\<lambda>src inverted. wr inverted (indices ! src) src) (replicate (length indices) 0) = Some inv \<and>
    length inv = n \<and> (\<forall>i < n. inv ! (indices ! i) = i)"
proof -
  have len: "length indices = n" using assms by (metis diff_zero length_upt size_mset)
  have dist: "distinct indices" using assms by (metis distinct_upt mset_eq_imp_distinct_iff)
  have less: "indices ! i < n" if "i < n" for i using assms len that by (metis atLeastLessThan_iff nth_mem set_mset_mset set_upt)
  let ?P = "\<lambda>src inv. length inv = n \<and> (\<forall>i < src. inv ! (indices ! i) = (i :: nat))"
  have "\<exists>inv. for_each [0..<length indices] (\<lambda>src inverted. wr inverted (indices ! src) src) (replicate (length indices) 0) = Some inv \<and>
    ?P (length indices) inv"
  proof (rule for_range_total)
    fix i s assume "0 \<le> i" "i < length indices" "?P i s"
    then show "\<exists>s'. wr s (indices ! i) i = Some s' \<and> ?P (Suc i) s'"
      using less [of i] len dist by (auto simp: wr_def less_Suc_eq nth_list_update nth_eq_iff_index_eq)
  qed (simp_all add: len)
  then show ?thesis using len by simp
qed

lemma gather_loop:
  assumes "\<forall>i \<in> set indices. i < length positions"
  shows "for_each indices (\<lambda>idx res. map_option (\<lambda>p. res @ [p]) (rd positions idx)) acc = Some (acc @ map ((!) positions) indices)"
  using assms by (induction indices arbitrary: acc) (simp_all add: rd_def)




section \<open>The grid\<close>

text \<open>The reference: the cells outside the four corner squares, row by row, and where they are.\<close>

definition in_grid :: "vec_xy \<Rightarrow> vec_xy \<Rightarrow> int \<Rightarrow> int \<Rightarrow> bool" where
  "in_grid dims ms c r \<longleftrightarrow> fst ms \<le> c \<and> c < fst dims - fst ms \<or> snd ms \<le> r \<and> r < snd dims - snd ms"

definition grid_cells :: "vec_xy \<Rightarrow> vec_xy \<Rightarrow> (int \<times> int) list" where
  "grid_cells dims ms = concat (map (\<lambda>r. map (\<lambda>c. (c, r)) (filter (\<lambda>c. in_grid dims ms c r) [0..fst dims - 1])) [0..snd dims - 1])"

definition cell_coord :: "vec_xy \<Rightarrow> int \<Rightarrow> int \<times> int \<Rightarrow> coordinate" where
  "cell_coord sp off cell = (fst cell * fst sp + off, snd cell * snd sp + off)"

definition grid_ok :: "vec_xy \<Rightarrow> vec_xy \<Rightarrow> vec_xy \<Rightarrow> bool" where
  "grid_ok sp dims ms \<longleftrightarrow> 0 < fst sp \<and> 0 < snd sp \<and> 0 \<le> fst ms \<and> 0 \<le> snd ms \<and>
     2 \<le> fst dims - 2 * fst ms \<and> 1 \<le> snd dims - 2 * snd ms"

lemma upto_add: "map (\<lambda>i. i + k) [a..b] = [a + k..b + k :: int]"
  by (rule nth_equalityI) (simp_all add: algebra_simps)

lemma upto_three: "a \<le> b \<Longrightarrow> b \<le> c \<Longrightarrow> c \<le> d \<Longrightarrow> [a..d - 1] = [a..b - 1] @ [b..c - 1] @ [c..d - 1 :: int]"
proof -
  have split: "[x..z - 1] = [x..y - 1] @ [y..z - 1]" if "x \<le> y" "y \<le> z" for x y z :: int
    using that upto_split1 [of x y "z - 1"] by (cases "y = z") simp_all
  show "[a..d - 1] = [a..b - 1] @ [b..c - 1] @ [c..d - 1]" if "a \<le> b" "b \<le> c" "c \<le> d"
    using that split [of a b d] split [of b c d] by simp
qed

lemma upto_concat:
  assumes "0 < w" "0 \<le> h"
  shows "map (\<lambda>i. f (i mod w) (i div w)) [0..w * h - 1] = concat (map (\<lambda>r. map (\<lambda>c. f c r) [0..w - 1]) [0..h - 1 :: int])"
proof -
  have "map (\<lambda>i. f (i mod w) (i div w)) [0..w * int n - 1] = concat (map (\<lambda>r. map (\<lambda>c. f c r) [0..w - 1]) [0..int n - 1])" for n
  proof (induction n)
    case (Suc n)
    have "[0..w * int (Suc n) - 1] = [0..w * int n - 1] @ [w * int n..w * int (Suc n) - 1]"
      using assms(1) upto_split1 [of 0 "w * int n" "w * int (Suc n) - 1"] by (simp add: algebra_simps)
    also have "[w * int n..w * int (Suc n) - 1] = map (\<lambda>i. i + w * int n) [0..w - 1]"
      by (simp add: upto_add algebra_simps)
    finally have s: "[0..w * int (Suc n) - 1] = [0..w * int n - 1] @ map (\<lambda>i. i + w * int n) [0..w - 1]" .
    have "map (\<lambda>i. f ((i + w * int n) mod w) ((i + w * int n) div w)) [0..w - 1] = map (\<lambda>c. f c (int n)) [0..w - 1]"
      using assms(1) by (intro map_cong refl) simp
    moreover have "[0..int (Suc n) - 1] = [0..int n - 1] @ [int n]" using upto_rec2 [of 0 "int n"] by simp
    ultimately show ?case unfolding s using Suc by (simp add: o_def)
  qed simp
  from this [of "nat h"] show ?thesis using assms(2) by simp
qed

lemma cell_rows_grid:
  assumes "0 < w" "0 \<le> h"
  shows "cell_rows sp w (w * h) (a * fst sp + off) (b * snd sp + off) =
    map (cell_coord sp off) (concat (map (\<lambda>r. map (\<lambda>c. (c, r)) [a..a + w - 1]) [b..b + h - 1]))"
proof -
  let ?f = "\<lambda>c r. cell_coord sp off (c + a, r + b)"
  have "cell_rows sp w (w * h) (a * fst sp + off) (b * snd sp + off) = map (\<lambda>i. ?f (i mod w) (i div w)) [0..w * h - 1]"
    by (simp add: cell_rows_def cell_coord_def algebra_simps)
  also have "\<dots> = concat (map (\<lambda>r. map (\<lambda>c. ?f c r) [0..w - 1]) [0..h - 1])" by (rule upto_concat [OF assms])
  also have "\<dots> = map (cell_coord sp off) (concat (map (\<lambda>r. map (\<lambda>c. (c, r)) (map (\<lambda>c. c + a) [0..w - 1])) (map (\<lambda>r. r + b) [0..h - 1])))"
    by (simp add: map_concat o_def)
  also have "map (\<lambda>c. c + a) [0..w - 1] = [a..a + w - 1]" by (simp add: upto_add algebra_simps)
  also have "map (\<lambda>r. r + b) [0..h - 1] = [b..b + h - 1]" by (simp add: upto_add algebra_simps)
  finally show ?thesis .
qed

lemma grid_row:
  assumes "grid_ok sp dims ms" "0 \<le> r" "r < snd dims"
  shows "filter (\<lambda>c. in_grid dims ms c r) [0..fst dims - 1] =
    (if snd ms \<le> r \<and> r < snd dims - snd ms then [0..fst dims - 1] else [fst ms..fst dims - fst ms - 1])"
proof (cases "snd ms \<le> r \<and> r < snd dims - snd ms")
  case True
  then show ?thesis by (simp add: in_grid_def)
next
  case False
  have p: "0 \<le> fst ms" "fst ms \<le> fst dims - fst ms" "fst dims - fst ms \<le> fst dims" using assms by (auto simp: grid_ok_def)
  have "[0..fst dims - 1] = [0..fst ms - 1] @ [fst ms..fst dims - fst ms - 1] @ [fst dims - fst ms..fst dims - 1]"
    by (rule upto_three [OF p])
  moreover have "filter (\<lambda>c. in_grid dims ms c r) [0..fst ms - 1] = []"
    "filter (\<lambda>c. in_grid dims ms c r) [fst dims - fst ms..fst dims - 1] = []"
    "filter (\<lambda>c. in_grid dims ms c r) [fst ms..fst dims - fst ms - 1] = [fst ms..fst dims - fst ms - 1]"
    using False by (auto simp: filter_empty_conv filter_id_conv in_grid_def)
  ultimately have "filter (\<lambda>c. in_grid dims ms c r) [0..fst dims - 1] = [fst ms..fst dims - fst ms - 1]"
    by (metis append_Nil append_Nil2 filter_append)
  then show ?thesis unfolding if_not_P [OF False] .
qed

lemma grid_positions:
  assumes "grid_ok sp dims ms"
  shows "compute_linear sp dims off ms = map (cell_coord sp off) (grid_cells dims ms) \<and>
    compute sp dims off ms 0 k = Some (map (cell_coord sp off) (grid_cells dims ms)) \<and>
    distinct (map (cell_coord sp off) (grid_cells dims ms)) \<and>
    int (length (grid_cells dims ms)) = fst dims * snd dims - 4 * fst ms * snd ms"
proof -
  let ?row = "\<lambda>r. map (\<lambda>c. (c, r)) (filter (\<lambda>c. in_grid dims ms c r) [0..fst dims - 1])"
  let ?short = "\<lambda>r. map (\<lambda>c. (c, r)) [fst ms..fst ms + (fst dims - fst ms - fst ms) - 1]"
  have p: "0 \<le> snd ms" "snd ms \<le> snd dims - snd ms" "snd dims - snd ms \<le> snd dims" "0 < fst dims - fst ms - fst ms" "0 < fst dims"
    using assms by (auto simp: grid_ok_def)
  have split: "[0..snd dims - 1] = [0..0 + snd ms - 1] @ [snd ms..snd ms + (snd dims - snd ms - snd ms) - 1] @
      [snd dims - snd ms..snd dims - snd ms + snd ms - 1]"
    using upto_three [OF p(1,2,3)] by simp
  have "map ?row [0..0 + snd ms - 1] = map ?short [0..0 + snd ms - 1]"
    "map ?row [snd dims - snd ms..snd dims - snd ms + snd ms - 1] = map ?short [snd dims - snd ms..snd dims - snd ms + snd ms - 1]"
    "map ?row [snd ms..snd ms + (snd dims - snd ms - snd ms) - 1] =
       map (\<lambda>r. map (\<lambda>c. (c, r)) [0..0 + fst dims - 1]) [snd ms..snd ms + (snd dims - snd ms - snd ms) - 1]"
    using p by (auto intro!: map_cong simp: grid_row [OF assms])
  then have rows: "grid_cells dims ms = concat (map ?short [0..0 + snd ms - 1]) @
      concat (map (\<lambda>r. map (\<lambda>c. (c, r)) [0..0 + fst dims - 1]) [snd ms..snd ms + (snd dims - snd ms - snd ms) - 1]) @
      concat (map ?short [snd dims - snd ms..snd dims - snd ms + snd ms - 1])"
    unfolding grid_cells_def split map_append concat_append by (simp only:)
  have lin: "compute_linear sp dims off ms = map (cell_coord sp off) (grid_cells dims ms)"
    unfolding rows map_append compute_linear_def Let_def
    using cell_rows_grid [OF p(4,1), of sp "fst ms" off 0] cell_rows_grid [OF p(5), of "snd dims - snd ms - snd ms" sp 0 off "snd ms"]
      cell_rows_grid [OF p(4,1), of sp "fst ms" off "snd dims - snd ms"] p
    by (simp add: mult.commute)
  have "distinct (concat (map (\<lambda>r. map (\<lambda>c. (c, r)) (g r)) xs))" if "distinct xs" "\<forall>r. distinct (g r)" for g :: "int \<Rightarrow> int list" and xs
    using that by (induction xs) (auto simp: distinct_map inj_on_def)
  then have "distinct (grid_cells dims ms)" unfolding grid_cells_def by simp
  moreover have "inj (cell_coord sp off)" using assms by (auto simp: inj_on_def cell_coord_def grid_ok_def prod_eq_iff)
  ultimately have "distinct (map (cell_coord sp off) (grid_cells dims ms))" by (metis distinct_map inj_on_subset top_greatest)
  moreover have "int (length (concat (map (\<lambda>r. map (\<lambda>c. (c, r)) [a..a + w - 1]) [b..b + h - 1]))) = w * h" if "0 \<le> w" "0 \<le> h" for a b w h
  proof -
    have "length (concat (map (\<lambda>r. map (\<lambda>c. (c, r)) [a..a + w - 1]) xs)) = nat w * length xs" for xs :: "int list"
      by (induction xs) simp_all
    then show ?thesis using that by (simp add: nat_mult_distrib)
  qed
  then have "int (length (grid_cells dims ms)) = (fst dims - fst ms - fst ms) * snd ms + fst dims * (snd dims - snd ms - snd ms) +
      (fst dims - fst ms - fst ms) * snd ms"
    unfolding rows length_append of_nat_add using p by (simp only: less_imp_le diff_ge_0_iff_ge)
  ultimately show ?thesis using lin by (simp add: compute_def algebra_simps)
qed

text \<open>C30: the positions are the cells of the grid outside the four corner squares, row by row, each at
  its multiple of the spacing.\<close>

theorem positions_are_the_grid:
  assumes "grid_ok sp dims ms"
  shows "compute_linear sp dims off ms = map (cell_coord sp off) (grid_cells dims ms) \<and>
    compute sp dims off ms 0 k = Some (map (cell_coord sp off) (grid_cells dims ms)) \<and>
    distinct (map (cell_coord sp off) (grid_cells dims ms)) \<and>
    int (length (grid_cells dims ms)) = fst dims * snd dims - 4 * fst ms * snd ms"
  by (rule grid_positions [OF assms])

theorem positions_are_the_grid_witness:
  "compute_linear (9, 9) (5, 4) 8 (1, 1) = map (cell_coord (9, 9) 8) (grid_cells (5, 4) (1, 1))"
  using positions_are_the_grid [of "(9, 9)" "(5, 4)" "(1, 1)" 8] by (simp add: grid_ok_def)

end
