(* ===== verification/Neighbours.thy ===== *)
theory Neighbours
  imports Layout
begin

text \<open>
  What \<open>AdjacentCellFinder\<close> finds on the positions of \<open>CellPositions\<close>: every index it answers is the
  neighbouring cell, but near the markers it misses some.
\<close>

definition top_width :: "vec_xy \<Rightarrow> vec_xy \<Rightarrow> int" where
  "top_width dims ms = fst dims - fst ms - fst ms"

definition mid_height :: "vec_xy \<Rightarrow> vec_xy \<Rightarrow> int" where
  "mid_height dims ms = snd dims - snd ms - snd ms"

definition total_positions :: "vec_xy \<Rightarrow> vec_xy \<Rightarrow> int" where
  "total_positions dims ms = top_width dims ms * snd ms + fst dims * mid_height dims ms + top_width dims ms * snd ms"

text \<open>A cell by its section, its row in the section and its column there.\<close>

inductive cell_at :: "vec_xy \<Rightarrow> vec_xy \<Rightarrow> int \<Rightarrow> int \<times> int \<Rightarrow> bool" for dims ms where
  top: "0 \<le> r \<Longrightarrow> r < snd ms \<Longrightarrow> 0 \<le> c \<Longrightarrow> c < top_width dims ms \<Longrightarrow> i = top_width dims ms * r + c \<Longrightarrow>
     cell_at dims ms i (fst ms + c, r)"
| middle: "0 \<le> r \<Longrightarrow> r < mid_height dims ms \<Longrightarrow> 0 \<le> c \<Longrightarrow> c < fst dims \<Longrightarrow>
     i = top_width dims ms * snd ms + (fst dims * r + c) \<Longrightarrow> cell_at dims ms i (c, snd ms + r)"
| bottom: "0 \<le> r \<Longrightarrow> r < snd ms \<Longrightarrow> 0 \<le> c \<Longrightarrow> c < top_width dims ms \<Longrightarrow>
     i = top_width dims ms * snd ms + fst dims * mid_height dims ms + (top_width dims ms * r + c) \<Longrightarrow>
     cell_at dims ms i (fst ms + c, snd dims - snd ms + r)"

lemma cell_rows_nth:
  assumes "0 \<le> r" "r < h" "0 \<le> c" "c < w" "i = w * r + c"
  shows "0 \<le> i \<and> i < w * h \<and> cell_rows sp w (w * h) x0 y0 ! nat i = (c * fst sp + x0, r * snd sp + y0)"
proof -
  have "w * (r + 1) \<le> w * h" using assms by (intro mult_left_mono) simp_all
  then have "w * r + w \<le> w * h" by (simp add: algebra_simps)
  moreover have "0 \<le> w * r" using assms by simp
  ultimately have i: "0 \<le> i" "i < w * h" using assms by linarith+
  have "i mod w = c" "i div w = r" using assms by simp_all
  then show ?thesis using i by (simp add: cell_rows_def nth_upto)
qed

lemma length_cell_rows: "0 \<le> n \<Longrightarrow> length (cell_rows sp w n x0 y0) = nat n"
  by (simp add: cell_rows_def)

lemma position_of_cell:
  assumes "grid_ok sp dims ms" "cell_at dims ms i cell"
  shows "0 \<le> i \<and> i < total_positions dims ms \<and> compute_linear sp dims off ms ! nat i = cell_coord sp off cell"
proof -
  let ?w = "top_width dims ms" and ?h = "mid_height dims ms"
  let ?A = "cell_rows sp ?w (?w * snd ms) (fst sp * fst ms + off) off"
  let ?B = "cell_rows sp (fst dims) (fst dims * ?h) off (snd ms * snd sp + off)"
  let ?C = "cell_rows sp ?w (?w * snd ms) (fst sp * fst ms + off) ((snd dims - snd ms) * snd sp + off)"
  have lin: "compute_linear sp dims off ms = ?A @ ?B @ ?C"
    by (simp add: compute_linear_def Let_def top_width_def mid_height_def)
  have pos: "0 \<le> ?w * snd ms" "0 \<le> fst dims * ?h" using assms(1) by (auto simp: grid_ok_def top_width_def mid_height_def)
  have len: "length ?A = nat (?w * snd ms)" "length ?B = nat (fst dims * ?h)" "length ?C = nat (?w * snd ms)"
    using pos by (simp_all add: length_cell_rows)
  show ?thesis using assms(2)
  proof cases
    case (top r c)
    note n = cell_rows_nth [OF top(2-6), of sp "fst sp * fst ms + off" off]
    then have "(?A @ ?B @ ?C) ! nat i = ?A ! nat i" by (simp add: nth_append len nat_less_iff)
    then show ?thesis unfolding lin top(1) total_positions_def using pos n
      by (auto simp: cell_coord_def algebra_simps)
  next
    case (middle r c)
    let ?j = "fst dims * r + c"
    note n = cell_rows_nth [OF middle(2-5) refl, of sp off "snd ms * snd sp + off"]
    have "\<not> nat i < length ?A" "nat i - length ?A = nat ?j" "nat ?j < length ?B"
      using middle(6) n pos by (auto simp: len nat_less_iff nat_diff_distrib')
    then have "(?A @ ?B @ ?C) ! nat i = ?B ! nat ?j" by (simp add: nth_append)
    then show ?thesis unfolding lin middle(1) total_positions_def using pos n middle(6)
      by (auto simp: cell_coord_def algebra_simps)
  next
    case (bottom r c)
    let ?j = "?w * r + c"
    note n = cell_rows_nth [OF bottom(2-5) refl, of sp "fst sp * fst ms + off" "(snd dims - snd ms) * snd sp + off"]
    have "\<not> nat i < length ?A" "\<not> nat i - length ?A < length ?B" "nat i - length ?A - length ?B = nat ?j"
      using bottom(6) n pos by (auto simp: len nat_less_iff nat_diff_distrib')
    then have "(?A @ ?B @ ?C) ! nat i = ?C ! nat ?j" by (simp add: nth_append)
    then show ?thesis unfolding lin bottom(1) total_positions_def using pos n bottom(6)
      by (auto simp: cell_coord_def algebra_simps)
  qed
qed

lemma length_positions: "grid_ok sp dims ms \<Longrightarrow> int (length (compute_linear sp dims off ms)) = total_positions dims ms"
  by (simp add: compute_linear_def Let_def length_cell_rows grid_ok_def top_width_def mid_height_def total_positions_def mult.commute)

lemma div_row:
  fixes i :: int
  assumes "0 < w" "0 \<le> i" "i < w * h"
  shows "\<exists>r c. 0 \<le> r \<and> r < h \<and> 0 \<le> c \<and> c < w \<and> i = w * r + c"
proof (intro exI conjI)
  show "0 \<le> i div w" "0 \<le> i mod w" "i mod w < w" "i = w * (i div w) + i mod w" using assms by (simp_all add: pos_imp_zdiv_nonneg_iff)
  show "i div w < h"
  proof (rule ccontr)
    assume "\<not> i div w < h"
    then have "w * h \<le> w * (i div w)" using assms(1) by (intro mult_left_mono) simp_all
    also have "\<dots> \<le> i" using mult_div_mod_eq [of w i] pos_mod_sign [OF assms(1), of i] by linarith
    finally show False using assms(3) by simp
  qed
qed

lemma cell_exists:
  assumes "grid_ok sp dims ms" "0 \<le> i" "i < total_positions dims ms"
  shows "\<exists>cell. cell_at dims ms i cell"
proof -
  let ?w = "top_width dims ms" and ?h = "mid_height dims ms"
  have w: "0 < ?w" "0 < fst dims" using assms(1) by (auto simp: grid_ok_def top_width_def)
  consider "i < ?w * snd ms" | "?w * snd ms \<le> i" "i < ?w * snd ms + fst dims * ?h" | "?w * snd ms + fst dims * ?h \<le> i" by linarith
  then show ?thesis
  proof cases
    case 1
    obtain r c where "0 \<le> r" "r < snd ms" "0 \<le> c" "c < ?w" "i = ?w * r + c" using div_row [OF w(1) assms(2) 1] by blast
    then show ?thesis by (blast intro: cell_at.top)
  next
    case 2
    obtain r c where "0 \<le> r" "r < ?h" "0 \<le> c" "c < fst dims" "i - ?w * snd ms = fst dims * r + c"
      using div_row [OF w(2), of "i - ?w * snd ms" ?h] 2 by auto
    then have "cell_at dims ms i (c, snd ms + r)" by (intro cell_at.middle) simp_all
    then show ?thesis ..
  next
    case 3
    obtain r c where "0 \<le> r" "r < snd ms" "0 \<le> c" "c < ?w" "i - (?w * snd ms + fst dims * ?h) = ?w * r + c"
      using div_row [OF w(1), of "i - (?w * snd ms + fst dims * ?h)" "snd ms"] 3 assms(3) by (auto simp: total_positions_def)
    then have "cell_at dims ms i (fst ms + c, snd dims - snd ms + r)" by (intro cell_at.bottom) simp_all
    then show ?thesis ..
  qed
qed


lemma cell_unique:
  assumes "grid_ok sp dims ms" "cell_at dims ms i x" "cell_at dims ms i y"
  shows "x = y"
proof -
  have "cell_coord sp 0 x = cell_coord sp 0 y" using position_of_cell [OF assms(1,2)] position_of_cell [OF assms(1,3)] by metis
  then show ?thesis using assms(1) by (auto simp: cell_coord_def grid_ok_def prod_eq_iff)
qed

section \<open>Left and right\<close>

lemma cell_succ:
  assumes g: "grid_ok sp dims ms" and i: "cell_at dims ms i cell" and j: "cell_at dims ms (i + 1) cell'"
  shows "cell' = (fst cell + 1, snd cell) \<or> fst cell' < fst cell"
proof -
  let ?w = "top_width dims ms" and ?h = "mid_height dims ms"
  have g': "0 \<le> fst ms" "0 \<le> snd ms" "2 \<le> ?w" "1 \<le> ?h" "?w = fst dims - 2 * fst ms" "?h = snd dims - 2 * snd ms" "0 < fst dims"
    using g by (auto simp: grid_ok_def top_width_def mid_height_def)
  have u: "cell' = (x, y)" if "cell_at dims ms (i + 1) (x, y)" for x y using cell_unique [OF g j that] by simp
  have N: "i + 1 < total_positions dims ms" using position_of_cell [OF g j] by simp
  show ?thesis using i
  proof cases
    case (top y x)
    consider "x + 1 < ?w" | "x + 1 = ?w" "y + 1 < snd ms" | "x + 1 = ?w" "y + 1 = snd ms" using top by linarith
    then show ?thesis
    proof cases
      case 1
      then have "cell_at dims ms (i + 1) (fst ms + (x + 1), y)" using top by (intro cell_at.top) simp_all
      from u [OF this] show ?thesis using top by simp
    next
      case 2
      then have "cell_at dims ms (i + 1) (fst ms + 0, y + 1)" using top(2-6) 2 g'(1-4,7) by (intro cell_at.top) (simp_all add: distrib_left)
      from u [OF this] show ?thesis using top 2 g' by simp
    next
      case 3
      have "cell_at dims ms (i + 1) (0, snd ms + 0)" using top(2-6) 3(1) g'(1-4,7) by (intro cell_at.middle) (simp_all add: distrib_left flip: 3(2))
      from u [OF this] show ?thesis using top 3 g' by simp
    qed
  next
    case (middle y x)
    consider "x + 1 < fst dims" | "x + 1 = fst dims" "y + 1 < ?h" | "x + 1 = fst dims" "y + 1 = ?h" using middle by linarith
    then show ?thesis
    proof cases
      case 1
      then have "cell_at dims ms (i + 1) (x + 1, snd ms + y)" using middle by (intro cell_at.middle) simp_all
      from u [OF this] show ?thesis using middle by simp
    next
      case 2
      then have "cell_at dims ms (i + 1) (0, snd ms + (y + 1))" using middle(2-6) 2 g'(1-4,7) by (intro cell_at.middle) (simp_all add: distrib_left)
      from u [OF this] show ?thesis using middle 2 g' by simp
    next
      case 3
      have e: "i + 1 = ?w * snd ms + fst dims * ?h" using middle(6) 3(1) by (simp add: distrib_left flip: 3(2))
      then have "0 < snd ms" using N g' by (cases "snd ms = 0") (simp_all add: total_positions_def)
      then have "cell_at dims ms (i + 1) (fst ms + 0, snd dims - snd ms + 0)" using e g' by (intro cell_at.bottom) simp_all
      from u [OF this] show ?thesis using middle 3 g' by simp
    qed
  next
    case (bottom y x)
    consider "x + 1 < ?w" | "x + 1 = ?w" "y + 1 < snd ms" | "x + 1 = ?w" "y + 1 = snd ms" using bottom by linarith
    then show ?thesis
    proof cases
      case 1
      then have "cell_at dims ms (i + 1) (fst ms + (x + 1), snd dims - snd ms + y)" using bottom by (intro cell_at.bottom) simp_all
      from u [OF this] show ?thesis using bottom by simp
    next
      case 2
      then have "cell_at dims ms (i + 1) (fst ms + 0, snd dims - snd ms + (y + 1))"
        using bottom(2-6) 2 g'(1-4,7) by (intro cell_at.bottom) (simp_all add: distrib_left)
      from u [OF this] show ?thesis using bottom 2 g' by simp
    next
      case 3
      then have "i + 1 = total_positions dims ms" using bottom(6) by (simp add: total_positions_def distrib_left flip: 3(2))
      then show ?thesis using N by simp
    qed
  qed
qed

text \<open>What the finder sees of a cell is its column.\<close>

lemma pos_x_cell:
  assumes "grid_ok sp dims ms" "cell_at dims ms i cell"
  shows "pos_x (af_create (compute_linear sp dims off ms) dims ms) i = Some (fst cell * fst sp + off)"
  using position_of_cell [OF assms, of off] length_positions [OF assms(1), of off]
  by (simp add: pos_x_def af_create_def Let_def cell_coord_def)

definition neighbour :: "vec_xy \<Rightarrow> vec_xy \<Rightarrow> int \<Rightarrow> int \<times> int \<Rightarrow> bool" where
  "neighbour dims ms n cell \<longleftrightarrow> n = - 1 \<or> cell_at dims ms n cell"

lemma column_cmp:
  assumes "grid_ok sp dims ms"
  shows "c' * fst sp < c * fst sp \<longleftrightarrow> c' < c" "c' * fst sp = c * fst sp \<longleftrightarrow> c' = c"
  using assms by (auto simp: grid_ok_def)

lemma length_af:
  assumes g: "grid_ok sp dims ms" and a: "a = af_create (compute_linear sp dims off ms) dims ms"
  shows "int (length (af_positions a)) = total_positions dims ms"
  using length_positions [OF g, of off] by (simp add: a af_create_def Let_def)

lemma right_neighbour:
  assumes g: "grid_ok sp dims ms" and a: "a = af_create (compute_linear sp dims off ms) dims ms"
    and at_i: "cell_at dims ms i (c, r)"
  shows "\<exists>n. af_right a i = Some n \<and> neighbour dims ms n (c + 1, r)"
proof (cases "i \<ge> total_positions dims ms - 1")
  case True
  then show ?thesis by (simp add: af_right_def length_af [OF g a] neighbour_def)
next
  case False
  have i: "0 \<le> i" using position_of_cell [OF g at_i] by simp
  then obtain c' r' where j: "cell_at dims ms (i + 1) (c', r')" using cell_exists [OF g, of "i + 1"] False by auto
  have "af_right a i = Some (if c' < c then - 1 else i + 1)"
    using i False pos_x_cell [OF g j, of off] pos_x_cell [OF g at_i, of off]
    by (simp add: af_right_def length_af [OF g refl] a column_cmp [OF g])
  then show ?thesis using cell_succ [OF g at_i j] j by (auto simp: neighbour_def)
qed

lemma left_neighbour:
  assumes g: "grid_ok sp dims ms" and a: "a = af_create (compute_linear sp dims off ms) dims ms"
    and at_i: "cell_at dims ms i (c, r)"
  shows "\<exists>n. af_left a i = Some n \<and> neighbour dims ms n (c - 1, r)"
proof (cases "i - 1 < 0")
  case True
  then show ?thesis by (simp add: af_left_def neighbour_def)
next
  case False
  have i: "i < total_positions dims ms" using position_of_cell [OF g at_i] by simp
  then obtain c' r' where j: "cell_at dims ms (i - 1) (c', r')" using cell_exists [OF g, of "i - 1"] False by auto
  have "af_left a i = Some (if c < c' then - 1 else i - 1)"
    using False pos_x_cell [OF g j, of off] pos_x_cell [OF g at_i, of off]
    by (simp add: af_left_def a column_cmp [OF g])
  then show ?thesis using cell_succ [OF g j, of "(c, r)"] at_i j by (auto simp: neighbour_def)
qed


section \<open>Above and below\<close>

lemma grid_facts:
  assumes "grid_ok sp dims ms"
  shows "0 \<le> fst ms" "0 \<le> snd ms" "2 \<le> top_width dims ms" "1 \<le> mid_height dims ms"
    "fst dims = top_width dims ms + 2 * fst ms" "snd dims = mid_height dims ms + 2 * snd ms"
  using assms by (auto simp: grid_ok_def top_width_def mid_height_def)

lemma margin_af:
  "in_row_with_margin (af_create ps dims ms) i \<longleftrightarrow>
     i < top_width dims ms * snd ms \<or> top_width dims ms * snd ms + fst dims * mid_height dims ms \<le> i"
  by (auto simp: in_row_with_margin_def af_create_def Let_def top_width_def mid_height_def)

lemma af_fields:
  "af_dimensionsX (af_create ps dims ms) = fst dims" "af_markerSizeX (af_create ps dims ms) = fst ms"
  by (simp_all add: af_create_def Let_def)

text \<open>The cell in a candidate position is the one in the same column, or the candidate is given up.\<close>

lemma candidate_neighbour:
  assumes g: "grid_ok sp dims ms" and a: "a = af_create (compute_linear sp dims off ms) dims ms"
    and i: "cell_at dims ms i (c, r)" and n: "0 \<le> n" "n < total_positions dims ms"
    and same: "\<And>r'. cell_at dims ms n (c, r') \<Longrightarrow> r' = r2"
  shows "\<exists>m. (do { x' \<leftarrow> pos_x a n; x \<leftarrow> pos_x a i; Some (if x' \<noteq> x then - 1 else n) }) = Some m \<and> neighbour dims ms m (c, r2)"
proof -
  obtain c' r' where j: "cell_at dims ms n (c', r')" using cell_exists [OF g n] by auto
  show ?thesis
    using pos_x_cell [OF g j, of off] pos_x_cell [OF g i, of off] same [of r'] j g
    by (auto simp: a neighbour_def grid_ok_def)
qed

lemma row_mono:
  fixes w :: int
  shows "0 \<le> w \<Longrightarrow> r \<le> h \<Longrightarrow> w * r \<le> w * h"
  by (rule mult_left_mono)

lemma section_of:
  assumes g: "grid_ok sp dims ms" and j: "cell_at dims ms n (c, r)"
  defines "fm \<equiv> top_width dims ms * snd ms" and "fb \<equiv> top_width dims ms * snd ms + fst dims * mid_height dims ms"
  shows "n < fm \<and> (\<exists>x. c = fst ms + x \<and> 0 \<le> x \<and> x < top_width dims ms \<and> n = top_width dims ms * r + x \<and> 0 \<le> r \<and> r < snd ms) \<or>
    fm \<le> n \<and> n < fb \<and> (\<exists>y. r = snd ms + y \<and> 0 \<le> y \<and> y < mid_height dims ms \<and> 0 \<le> c \<and> c < fst dims \<and> n = fm + (fst dims * y + c)) \<or>
    fb \<le> n \<and> (\<exists>x y. c = fst ms + x \<and> 0 \<le> x \<and> x < top_width dims ms \<and> r = snd dims - snd ms + y \<and> 0 \<le> y \<and> y < snd ms \<and>
         n = fb + (top_width dims ms * y + x))"
  using j
proof cases
  case (top x)
  then have "top_width dims ms * (r + 1) \<le> fm" using grid_facts [OF g] unfolding fm_def by (intro row_mono) simp_all
  then show ?thesis using top by (auto simp: distrib_left)
next
  case (middle y)
  then have "fst dims * (y + 1) \<le> fst dims * mid_height dims ms" "0 \<le> fst dims * y"
    using grid_facts [OF g] by (auto intro!: row_mono)
  then have "fm \<le> n \<and> n < fb" using middle by (simp add: distrib_left fm_def fb_def)
  then show ?thesis using middle unfolding fm_def by blast
next
  case (bottom y x)
  then have "0 \<le> top_width dims ms * y" using grid_facts [OF g] by simp
  then have "fb \<le> n" using bottom by (simp add: fb_def)
  then show ?thesis using bottom unfolding fb_def by blast
qed

lemma bottom_neighbour:
  assumes g: "grid_ok sp dims ms" and a: "a = af_create (compute_linear sp dims off ms) dims ms"
    and at_i: "cell_at dims ms i (c, r)"
  shows "\<exists>n. af_bottom a i = Some n \<and> neighbour dims ms n (c, r + 1)"
proof -
  let ?w = "top_width dims ms" and ?h = "mid_height dims ms"
  let ?fm = "?w * snd ms" and ?fb = "?w * snd ms + fst dims * ?h"
  note f = grid_facts [OF g]
  define n0 where "n0 = i + (if in_row_with_margin a i then fst dims - fst ms else fst dims)"
  define n where "n = (if in_row_with_margin a n0 then n0 - fst ms else n0)"
  have i: "0 \<le> i" "i < total_positions dims ms" using position_of_cell [OF g at_i] by simp_all
  have fields: "af_dimensionsX a = fst dims" "af_markerSizeX a = fst ms" by (simp_all add: a af_fields)
  have "\<not> (i < 0 \<or> i \<ge> total_positions dims ms)" using i by simp
  then have run: "af_bottom a i = (if n < 0 \<or> n \<ge> total_positions dims ms then Some (- 1)
      else do { x' \<leftarrow> pos_x a n; x \<leftarrow> pos_x a i; Some (if x' \<noteq> x then - 1 else n) })"
    unfolding af_bottom_def Let_def length_af [OF g a] fields n_def n0_def by (simp only: if_False)
  have same: "r' = r + 1" if n: "0 \<le> n" "n < total_positions dims ms" and j: "cell_at dims ms n (c, r')" for r'
  proof -
    have margin: "in_row_with_margin a k \<longleftrightarrow> k < ?fm \<or> ?fb \<le> k" for k by (simp add: a margin_af)
    have h: "0 < fst dims * ?h" "fst dims \<le> fst dims * ?h" using f row_mono [of "fst dims" 1 ?h] by simp_all
    have u: "x' = c \<and> y' = r'" if "cell_at dims ms n (x', y')" for x' y' using cell_unique [OF g that j] by simp
    show ?thesis using section_of [OF g at_i]
    proof (elim disjE conjE exE)
      fix x assume m: "i < ?fm" and x: "c = fst ms + x" "0 \<le> x" "x < ?w" "i = ?w * r + x" "0 \<le> r" "r < snd ms"
      have n0: "n0 = ?w * (r + 1) + x + fst ms" using m f(5) by (simp add: n0_def margin x(4) distrib_left)
      have le: "?w * (r + 1) \<le> ?fm" using x(6) f by (intro row_mono) simp_all
      show ?thesis
      proof (cases "n0 < ?fm")
        case True
        then have "?w * (r + 1) < ?fm" using n0 x f(1) by linarith
        then have "r + 1 < snd ms" using f(3) by simp
        then have "cell_at dims ms n (fst ms + x, r + 1)" using True n0 x by (intro cell_at.top) (simp_all add: n_def margin)
        then show ?thesis using u by blast
      next
        case False
        have "n0 < ?fb" using n0 le x(3) f(1,5) h(2) by linarith
        then have "n = n0" using False by (simp add: n_def margin)
        define k where "k = n0 - ?fm"
        have "0 \<le> k" "k < fst dims" using False n0 le x(3) f(1,5) unfolding k_def by linarith+
        then have "cell_at dims ms n (k, snd ms + 0)"
          using \<open>n = n0\<close> f(4) by (intro cell_at.middle) (simp_all add: k_def)
        then have k: "k = c" "r' = snd ms" using u by auto
        have "?w * (r + 1) = ?fm" using k(1) x(1) n0 unfolding k_def by linarith
        then have "r + 1 = snd ms" using f(3) by simp
        then show ?thesis using k by simp
      qed
    next
      fix y assume m: "?fm \<le> i" "i < ?fb" and y: "r = snd ms + y" "0 \<le> y" "y < ?h" "0 \<le> c" "c < fst dims" "i = ?fm + (fst dims * y + c)"
      have n0: "n0 = ?fm + fst dims * (y + 1) + c" using m by (simp add: n0_def margin y(6) distrib_left)
      have nn: "0 \<le> fst dims * (y + 1)" using y f by simp
      show ?thesis
      proof (cases "y + 1 < ?h")
        case True
        then have "fst dims * (y + 1 + 1) \<le> fst dims * ?h" using f by (intro row_mono) simp_all
        then have "fst dims * (y + 1) + fst dims \<le> fst dims * ?h" by (simp add: distrib_left)
        then have "\<not> n0 < ?fm" "\<not> ?fb \<le> n0" using n0 nn y(4,5) by linarith+
        then have "n = n0" by (simp add: n_def margin)
        then have "cell_at dims ms n (c, snd ms + (y + 1))" using n0 y True by (intro cell_at.middle) simp_all
        then show ?thesis using u y(1) by force
      next
        case False
        then have yh: "y + 1 = ?h" using y(3) by simp
        then have "n0 = ?fb + c" using n0 by simp
        then have "n = ?fb + (c - fst ms)" using y(4) by (simp add: n_def margin)
        moreover have "?fm + fst dims - fst ms \<le> n" using calculation y(4) h(2) by linarith
        moreover have "fst dims * (y' + 1) \<le> fst dims * ?h" if "y' < ?h" for y' using that f by (intro row_mono) simp_all
        then have "fst dims * y' + fst dims \<le> fst dims * ?h" if "y' < ?h" for y' using that by (simp add: distrib_left)
        ultimately show ?thesis using section_of [OF g j] yh y(1) f
          by (elim disjE conjE exE) (auto, fastforce)
      qed
    next
      fix x y assume m: "?fb \<le> i" and x: "c = fst ms + x" "0 \<le> x" "x < ?w" "r = snd dims - snd ms + y" "0 \<le> y" "y < snd ms"
        "i = ?fb + (?w * y + x)"
      have n0: "n0 = ?fb + ?w * (y + 1) + x + fst ms" using m f(5) by (simp add: n0_def margin x(7) distrib_left)
      have nn: "0 \<le> ?w * (y + 1)" using x f by simp
      have "n = ?fb + ?w * (y + 1) + x" using n0 nn x f by (simp add: n_def margin)
      moreover from this have "?w * (y + 1) < ?w * snd ms" using n(2) x(2) unfolding total_positions_def by linarith
      then have "y + 1 < snd ms" using f(3) by simp
      ultimately have "cell_at dims ms n (fst ms + x, snd dims - snd ms + (y + 1))" using x by (intro cell_at.bottom) simp_all
      then show ?thesis using u x(4) by force
    qed
  qed
  show ?thesis
    unfolding run using candidate_neighbour [OF g a at_i, of n "r + 1"] same
    by (auto simp: neighbour_def)
qed

lemma top_neighbour:
  assumes g: "grid_ok sp dims ms" and a: "a = af_create (compute_linear sp dims off ms) dims ms"
    and at_i: "cell_at dims ms i (c, r)"
  shows "\<exists>n. af_top a i = Some n \<and> neighbour dims ms n (c, r - 1)"
proof -
  let ?w = "top_width dims ms" and ?h = "mid_height dims ms"
  let ?fm = "?w * snd ms" and ?fb = "?w * snd ms + fst dims * ?h"
  note f = grid_facts [OF g]
  define n0 where "n0 = i - (if in_row_with_margin a i then fst dims - fst ms else fst dims)"
  define n where "n = (if in_row_with_margin a n0 then n0 + fst ms else n0)"
  have i: "0 \<le> i" "i < total_positions dims ms" using position_of_cell [OF g at_i] by simp_all
  have fields: "af_dimensionsX a = fst dims" "af_markerSizeX a = fst ms" by (simp_all add: a af_fields)
  have N: "n < total_positions dims ms" using i f by (auto simp: n_def n0_def)
  have run: "af_top a i = (if n < 0 then Some (- 1)
      else do { x' \<leftarrow> pos_x a n; x \<leftarrow> pos_x a i; Some (if x' \<noteq> x then - 1 else n) })"
    unfolding af_top_def Let_def fields n_def n0_def ..
  have same: "r' = r - 1" if n: "0 \<le> n" and j: "cell_at dims ms n (c, r')" for r'
  proof -
    have margin: "in_row_with_margin a k \<longleftrightarrow> k < ?fm \<or> ?fb \<le> k" for k by (simp add: a margin_af)
    have h: "0 < fst dims * ?h" "fst dims \<le> fst dims * ?h" using f row_mono [of "fst dims" 1 ?h] by simp_all
    have u: "x' = c \<and> y' = r'" if "cell_at dims ms n (x', y')" for x' y' using cell_unique [OF g that j] by simp
    show ?thesis using section_of [OF g at_i]
    proof (elim disjE conjE exE)
      fix x assume m: "i < ?fm" and x: "c = fst ms + x" "0 \<le> x" "x < ?w" "i = ?w * r + x" "0 \<le> r" "r < snd ms"
      have "n0 < ?fm" "n0 = i - ?w - fst ms" using m f by (simp_all add: n0_def margin)
      then have nx: "n = ?w * (r - 1) + x" using x(4) by (simp add: n_def margin right_diff_distrib)
      then have "0 < ?w * r" using n x(3) by (simp add: right_diff_distrib)
      then have "1 \<le> r" using f(3) by (simp add: zero_less_mult_iff)
      then have "cell_at dims ms n (fst ms + x, r - 1)" using x nx by (intro cell_at.top) simp_all
      then show ?thesis using u by blast
    next
      fix y assume m: "?fm \<le> i" "i < ?fb" and y: "r = snd ms + y" "0 \<le> y" "y < ?h" "0 \<le> c" "c < fst dims" "i = ?fm + (fst dims * y + c)"
      have n0: "n0 = ?fm + fst dims * (y - 1) + c" using m by (simp add: n0_def margin y(6) right_diff_distrib)
      show ?thesis
      proof (cases "1 \<le> y")
        case True
        then have "0 \<le> fst dims * (y - 1)" using f by simp
        then have "\<not> n0 < ?fm" using n0 y(4) by linarith
        moreover have "\<not> ?fb \<le> n0" using m f by (simp add: n0_def margin)
        ultimately have "n = n0" by (simp add: n_def margin)
        then have "cell_at dims ms n (c, snd ms + (y - 1))" using n0 y True by (intro cell_at.middle) simp_all
        then show ?thesis using u y(1) by force
      next
        case False
        then have y0: "y = 0" using y(2) by simp
        then have "n = ?fm - ?w + (c - fst ms)" using n0 y(5) f by (simp add: n_def margin)
        note nn = this
        show ?thesis using section_of [OF g j]
        proof (elim disjE conjE exE)
          fix x' assume "c = fst ms + x'" "n = ?w * r' + x'"
          then have "?w * r' = ?w * (snd ms - 1)" using nn by (simp add: right_diff_distrib)
          then show ?thesis using f(3) y0 y(1) by simp
        next
          fix y' assume m: "?fm \<le> n" "0 \<le> y'" "n = ?fm + (fst dims * y' + c)"
          have "0 \<le> fst dims * y'" using m(2) f by simp
          then show ?thesis using m(3) nn f(1,3) by linarith
        next
          assume "?fb \<le> n"
          then show ?thesis using nn y(5) h f(1,3) by linarith
        qed
      qed
    next
      fix x y assume m: "?fb \<le> i" and x: "c = fst ms + x" "0 \<le> x" "x < ?w" "r = snd dims - snd ms + y" "0 \<le> y" "y < snd ms"
        "i = ?fb + (?w * y + x)"
      have n0: "n0 = ?fb + ?w * (y - 1) + x - fst ms" using m f(5) by (simp add: n0_def margin x(7) right_diff_distrib)
      show ?thesis
      proof (cases "?fb \<le> n0")
        case True
        then have nn: "n = ?fb + ?w * (y - 1) + x" using n0 by (simp add: n_def margin)
        have "0 < ?w * y" using True n0 x(3) f(1) by (simp add: right_diff_distrib)
        then have "1 \<le> y" using f(3) by (simp add: zero_less_mult_iff)
        then have "cell_at dims ms n (fst ms + x, snd dims - snd ms + (y - 1))" using x nn by (intro cell_at.bottom) simp_all
        then show ?thesis using u x(4) by force
      next
        case False
        have wy: "0 \<le> ?w * y" "?w * (y - 1) = ?w * y - ?w" using x(5) f by (simp_all add: right_diff_distrib)
        have "fst dims * (?h - 1) = fst dims * ?h - fst dims" by (simp add: right_diff_distrib)
        define k where "k = fst ms + x + ?w * y"
        have nk: "n0 = ?fm + (fst dims * (?h - 1) + k)" using n0 wy f(5) by (simp add: k_def right_diff_distrib)
        have "0 \<le> k" "k < fst dims" using nk False x(2) f(1) wy(1) \<open>fst dims * (?h - 1) = _\<close> by (simp_all add: k_def)
        moreover have "\<not> n0 < ?fm" using nk \<open>0 \<le> k\<close> h \<open>fst dims * (?h - 1) = _\<close> by linarith
        then have "n = n0" using False by (simp add: n_def margin)
        ultimately have "cell_at dims ms n (k, snd ms + (?h - 1))" using f nk by (intro cell_at.middle) simp_all
        then have "k = c" "r' = snd ms + (?h - 1)" using u by auto
        then have "y = 0" using x(1) f(3) by (simp add: k_def)
        then show ?thesis using x(4) f(6) \<open>r' = _\<close> by simp
      qed
    qed
  qed
  show ?thesis
    unfolding run using candidate_neighbour [OF g a at_i, of n "r - 1"] same N
    by (auto simp: neighbour_def)
qed

section \<open>The answer\<close>

definition step_to :: "vec_xy \<Rightarrow> (int \<times> int) list \<Rightarrow> int \<Rightarrow> int \<Rightarrow> int \<times> int \<Rightarrow> bool" where
  "step_to sp ps i n d \<longleftrightarrow> n = - 1 \<or>
     0 \<le> n \<and> n < int (length ps) \<and> ps ! nat n = (fst (ps ! nat i) + fst d * fst sp, snd (ps ! nat i) + snd d * snd sp)"

lemma neighbour_step:
  assumes g: "grid_ok sp dims ms" and i: "cell_at dims ms i (c, r)" and n: "neighbour dims ms n (c + dx, r + dy)"
  shows "step_to sp (compute_linear sp dims off ms) i n (dx, dy)"
  using n position_of_cell [OF g i, of off] position_of_cell [OF g, of n "(c + dx, r + dy)" off] length_positions [OF g, of off]
  by (auto simp: step_to_def neighbour_def cell_coord_def algebra_simps)

text \<open>C31: for every grid whose corner markers leave room and every index in it, find answers four
  indices, and each of them is -1 or the index of the cell exactly one step to the right, to the left,
  below and above; no answer is a cell of another row or column, at the markers and at the ends of the
  list included.\<close>

theorem neighbours_are_adjacent:
  assumes "grid_ok sp dims ms" "0 \<le> i" "i < int (length (compute_linear sp dims off ms))"
  shows "\<exists>r l b t. af_find (af_create (compute_linear sp dims off ms) dims ms) i = Some [r, l, b, t] \<and>
    step_to sp (compute_linear sp dims off ms) i r (1, 0) \<and> step_to sp (compute_linear sp dims off ms) i l (- 1, 0) \<and>
    step_to sp (compute_linear sp dims off ms) i b (0, 1) \<and> step_to sp (compute_linear sp dims off ms) i t (0, - 1)"
proof -
  obtain x y where c: "cell_at dims ms i (x, y)"
    using cell_exists [OF assms(1,2)] assms(3) length_positions [OF assms(1), of off] by auto
  note g = assms(1) and st = neighbour_step [OF assms(1) c]
  obtain r l b t where "af_right (af_create (compute_linear sp dims off ms) dims ms) i = Some r" "neighbour dims ms r (x + 1, y)"
    "af_left (af_create (compute_linear sp dims off ms) dims ms) i = Some l" "neighbour dims ms l (x - 1, y)"
    "af_bottom (af_create (compute_linear sp dims off ms) dims ms) i = Some b" "neighbour dims ms b (x, y + 1)"
    "af_top (af_create (compute_linear sp dims off ms) dims ms) i = Some t" "neighbour dims ms t (x, y - 1)"
    using right_neighbour [OF g refl c, of off] left_neighbour [OF g refl c, of off]
      bottom_neighbour [OF g refl c, of off] top_neighbour [OF g refl c, of off] by blast
  then show ?thesis using st [of r 1 0] st [of l "- 1" 0] st [of b 0 1] st [of t 0 "- 1"] by (simp add: af_find_def)
qed

theorem neighbours_are_adjacent_witness:
  "\<exists>r l b t. af_find (af_create (compute_linear (9, 9) (112, 112) 8 (6, 6)) (112, 112) (6, 6)) 600 = Some [r, l, b, t] \<and>
    step_to (9, 9) (compute_linear (9, 9) (112, 112) 8 (6, 6)) 600 r (1, 0) \<and>
    step_to (9, 9) (compute_linear (9, 9) (112, 112) 8 (6, 6)) 600 l (- 1, 0) \<and>
    step_to (9, 9) (compute_linear (9, 9) (112, 112) 8 (6, 6)) 600 b (0, 1) \<and>
    step_to (9, 9) (compute_linear (9, 9) (112, 112) 8 (6, 6)) 600 t (0, - 1)"
proof (rule neighbours_are_adjacent)
  show g: "grid_ok (9, 9) (112, 112) (6, 6)" by (simp add: grid_ok_def)
  show "600 < int (length (compute_linear (9, 9) (112, 112) 8 (6, 6)))"
    unfolding length_positions [OF g] by (simp add: total_positions_def top_width_def mid_height_def)
qed simp

text \<open>Near the markers the finder misses cells. In the grid of the default mode (112 cells in each
  direction, markers of 6) cell 594 is right below cell 494, in the last row between the upper markers, and
  asked for the cell above 594 the finder answers 494; asked for the cell below 494 it answers -1,
  because the index it tries is already one of the first full row.\<close>

theorem adjacent_cell_missed:
  "let ps = compute_linear (9, 9) (112, 112) 8 (6, 6); a = af_create ps (112, 112) (6, 6) in
     ps ! 594 = (fst (ps ! 494), snd (ps ! 494) + 9) \<and> af_top a 594 = Some 494 \<and> af_bottom a 494 = Some (- 1)"
proof -
  let ?ps = "compute_linear (9, 9) (112, 112) 8 (6, 6)"
  let ?a = "af_create ?ps (112, 112) (6, 6)"
  have g: "grid_ok (9, 9) (112, 112) (6, 6)" by (simp add: grid_ok_def)
  have sizes: "top_width (112, 112) (6, 6) = 100" "mid_height (112, 112) (6, 6) = 100"
    by (simp_all add: top_width_def mid_height_def)
  have c: "cell_at (112, 112) (6, 6) 494 (100, 4)" "cell_at (112, 112) (6, 6) 594 (100, 5)" "cell_at (112, 112) (6, 6) 600 (0, 6)"
    using cell_at.top [of 4 "(6, 6)" 94 "(112, 112)" 494] cell_at.top [of 5 "(6, 6)" 94 "(112, 112)" 594]
      cell_at.middle [of 0 "(112, 112)" "(6, 6)" 0 600] by (simp_all add: sizes)
  have ps: "?ps ! 494 = (908, 44)" "?ps ! 594 = (908, 53)"
    using position_of_cell [OF g c(1), of 8] position_of_cell [OF g c(2), of 8] by (simp_all add: cell_coord_def)
  have x: "pos_x ?a 494 = Some 908" "pos_x ?a 594 = Some 908" "pos_x ?a 600 = Some 8"
    using pos_x_cell [OF g c(1), of 8] pos_x_cell [OF g c(2), of 8] pos_x_cell [OF g c(3), of 8] by simp_all
  have m: "in_row_with_margin ?a k \<longleftrightarrow> k < 600 \<or> 11800 \<le> k" for k
    by (auto simp: margin_af top_width_def mid_height_def)
  have len: "int (length (af_positions ?a)) = 12400"
    by (simp add: length_af [OF g refl] total_positions_def top_width_def mid_height_def)
  show ?thesis unfolding Let_def
    by (simp add: ps af_top_def af_bottom_def Let_def af_fields m len x)
qed

end
