(* ===== verification/FloodDecode.thy ===== *)
theory FloodDecode
  imports Neighbours
begin

text \<open>
  \<open>FloodDecodePositions\<close>: the order in which the reader visits the cells. The heap is the list of its
  entries; which of the entries with the lowest priority number \<open>std::priority_queue\<close> has on top is not
  specified, so \<open>next\<close> is given the choice, and every statement holds for all choices.
\<close>

section \<open>The queue of cells\<close>

type_synonym decode_prio = "u16 \<times> u8"
type_synonym decode_instructions = "CellDrift \<times> u8 \<times> u8"

record FloodDecodePositions =
  fd_index :: nat
  fd_count :: nat
  fd_heap :: "decode_prio list"
  fd_remaining :: "bool list"
  fd_instructions :: "decode_instructions list"
  fd_positions :: "coordinate list"
  fd_cellFinder :: AdjacentCellFinder

text \<open>Under \<open>PrioCompare\<close> the top has the smallest priority number.\<close>

definition is_top :: "decode_prio \<Rightarrow> decode_prio list \<Rightarrow> bool" where
  "is_top e h \<longleftrightarrow> e \<in> set h \<and> list_all (\<lambda>e'. \<not> snd e > snd e') h"

definition calc_mid_width :: "AdjacentCellFinder \<Rightarrow> int" where
  "calc_mid_width a = af_dimensionsX a - af_markerSizeX a - af_markerSizeX a"

definition fd_reset :: "FloodDecodePositions \<Rightarrow> FloodDecodePositions" where
  "fd_reset fd =
     (let n = length (fd_positions fd);
          smallRowLen = of_int (calc_mid_width (fd_cellFinder fd)) :: u16;
          lastElem = of_nat n - 1 :: u16;
          betweenMarkerBlock = of_int (af_firstMid (fd_cellFinder fd)) :: u16;
          dims_x = of_int (af_dimensionsX (fd_cellFinder fd)) :: u16
      in fd\<lparr>fd_index := 0, fd_count := 0,
            fd_remaining := replicate n True,
            fd_instructions := fd_instructions fd @ replicate n ((0, 0), 0xFE, 0xFE),
            fd_heap := fd_heap fd @
              [(0, 0), (smallRowLen - 1, 0), (lastElem, 0), (lastElem - (smallRowLen - 1), 0),
               (betweenMarkerBlock, 1), (betweenMarkerBlock + dims_x - 1, 1),
               (lastElem - betweenMarkerBlock, 1), (lastElem - (betweenMarkerBlock + dims_x - 1), 1)]\<rparr>)"

definition fd_create :: "vec_xy \<Rightarrow> vec_xy \<Rightarrow> int \<Rightarrow> vec_xy \<Rightarrow> FloodDecodePositions option" where
  "fd_create spacing dimensions off marker_size = do {
     positions \<leftarrow> compute spacing dimensions off marker_size 0 1;
     Some (fd_reset \<lparr>fd_index = 0, fd_count = 0, fd_heap = [], fd_remaining = [], fd_instructions = [],
       fd_positions = positions, fd_cellFinder = af_create positions dimensions marker_size\<rparr>)
   }"

definition fd_done :: "FloodDecodePositions \<Rightarrow> bool" where
  "fd_done fd \<longleftrightarrow> fd_count fd = length (fd_positions fd)"

type_synonym iter = "nat \<times> coordinate \<times> CellDrift \<times> u8"

function fd_next :: "(decode_prio list \<Rightarrow> decode_prio) \<Rightarrow> FloodDecodePositions \<Rightarrow> (iter \<times> FloodDecodePositions) option" where
  "fd_next pick fd =
     (if fd_heap fd = [] then Some ((0, (0, 0), (0, 0), 0xFF), fd)
      else let e = pick (fd_heap fd); i = unat (fst e); fd' = fd\<lparr>fd_heap := remove1 e (fd_heap fd)\<rparr> in
        if \<not> is_top e (fd_heap fd) then None
        else case rd (fd_remaining fd) i of
          None \<Rightarrow> None
        | Some False \<Rightarrow> fd_next pick fd'
        | Some True \<Rightarrow> do {
            xy \<leftarrow> rd (fd_positions fd) i;
            instr \<leftarrow> rd (fd_instructions fd) i;
            Some ((i, xy, fst instr, snd (snd instr)),
                  fd'\<lparr>fd_remaining := (fd_remaining fd)[i := False], fd_count := fd_count fd + 1\<rparr>)
          })"
  by pat_completeness auto
termination
  by (relation "measure (\<lambda>(pick, fd). length (fd_heap fd))") (auto simp: is_top_def length_remove1 split: if_splits)

declare fd_next.simps [simp del]

definition update_adjacent :: "CellDrift \<Rightarrow> nat \<Rightarrow> u8 \<Rightarrow> int \<Rightarrow> FloodDecodePositions \<Rightarrow> FloodDecodePositions option" where
  "update_adjacent drift error_distance cooldown n fd =
     (if n < 0 then Some fd
      else do {
        remaining \<leftarrow> rd (fd_remaining fd) (nat n);
        if \<not> remaining then Some fd
        else do {
          di \<leftarrow> rd (fd_instructions fd) (nat n);
          if unat (fst (snd di)) \<le> error_distance then Some fd
          else Some (fd\<lparr>fd_instructions := (fd_instructions fd)[nat n := (drift, of_nat error_distance, cooldown)],
                        fd_heap := fd_heap fd @ [(of_int n, of_nat error_distance)]\<rparr>)
        }
      })"

definition update_adjacents :: "int list \<Rightarrow> CellDrift \<Rightarrow> nat \<Rightarrow> u8 \<Rightarrow> FloodDecodePositions \<Rightarrow> FloodDecodePositions option" where
  "update_adjacents adj drift error_distance cooldown = for_each adj (update_adjacent drift error_distance cooldown)"

text \<open>Two steps further from a cell that has neighbours on both sides.\<close>

definition beyond :: "(AdjacentCellFinder \<Rightarrow> int \<Rightarrow> int option) \<Rightarrow> (AdjacentCellFinder \<Rightarrow> int \<Rightarrow> int option) \<Rightarrow>
    int \<Rightarrow> int \<Rightarrow> CellDrift \<Rightarrow> nat \<Rightarrow> u8 \<Rightarrow> FloodDecodePositions \<Rightarrow> FloodDecodePositions option" where
  "beyond step1 step2 idx1 idx2 drift error_distance cooldown fd =
     (if idx1 \<ge> 0 \<and> idx2 \<ge> 0 then do {
        h0 \<leftarrow> step1 (fd_cellFinder fd) idx1;
        h1 \<leftarrow> step1 (fd_cellFinder fd) h0;
        h2 \<leftarrow> step2 (fd_cellFinder fd) idx2;
        h3 \<leftarrow> step2 (fd_cellFinder fd) h2;
        update_adjacents [h0, h1, h2, h3] drift error_distance cooldown fd
      } else Some fd)"

definition fd_update :: "FloodDecodePositions \<Rightarrow> nat \<Rightarrow> CellDrift \<Rightarrow> nat \<Rightarrow> u8 \<Rightarrow> FloodDecodePositions option" where
  "fd_update fd index drift error_distance cooldown = do {
     adj \<leftarrow> af_find (fd_cellFinder fd) (int index);
     fd \<leftarrow> update_adjacents adj drift error_distance cooldown fd;
     di \<leftarrow> rd (fd_instructions fd) index;
     fd \<leftarrow> (if fst (snd di) < 3 \<and> error_distance < 3 \<and> snd (snd di) = 4 \<and> cooldown = 4
       then do {
         fd \<leftarrow> beyond af_right af_left (adj ! 0) (adj ! 1) drift error_distance cooldown fd;
         beyond af_top af_bottom (adj ! 3) (adj ! 2) drift error_distance cooldown fd
       } else Some fd);
     di \<leftarrow> rd (fd_instructions fd) index;
     Some (fd\<lparr>fd_instructions := (fd_instructions fd)[index := (fst di, of_nat error_distance, cooldown)]\<rparr>)
   }"

section \<open>Every cell can be reached from the first\<close>

lemma right_hit:
  assumes g: "grid_ok sp dims ms" and a: "a = af_create (compute_linear sp dims off ms) dims ms"
    and "cell_at dims ms i (c, r)" and j: "cell_at dims ms (i + 1) (c', r')" and "c \<le> c'"
  shows "af_right a i = Some (i + 1)"
  using position_of_cell [OF g assms(3), of off] position_of_cell [OF g j, of off]
    pos_x_cell [OF g j, of off] pos_x_cell [OF g assms(3), of off] assms(5)
  by (simp add: af_right_def length_af [OF g refl] a column_cmp [OF g])

lemma left_hit:
  assumes g: "grid_ok sp dims ms" and a: "a = af_create (compute_linear sp dims off ms) dims ms"
    and "cell_at dims ms i (c, r)" and j: "cell_at dims ms (i - 1) (c', r')" and "c' \<le> c"
  shows "af_left a i = Some (i - 1)"
  using position_of_cell [OF g j, of off]
    pos_x_cell [OF g j, of off] pos_x_cell [OF g assms(3), of off] assms(5)
  by (simp add: af_left_def a column_cmp [OF g])

lemma bottom_hit:
  assumes g: "grid_ok sp dims ms" and a: "a = af_create (compute_linear sp dims off ms) dims ms"
    and i: "cell_at dims ms i (c, r)" and j: "cell_at dims ms j (c, r')"
    and k: "k = i + (if in_row_with_margin a i then fst dims - fst ms else fst dims)"
    and n: "j = (if in_row_with_margin a k then k - fst ms else k)"
  shows "af_bottom a i = Some j"
proof -
  have fields: "af_dimensionsX a = fst dims" "af_markerSizeX a = fst ms" by (simp_all add: a af_fields)
  have "\<not> (i < 0 \<or> i \<ge> total_positions dims ms)" "\<not> (j < 0 \<or> j \<ge> total_positions dims ms)"
    using position_of_cell [OF g i, of off] position_of_cell [OF g j, of off] by simp_all
  then show ?thesis
    using pos_x_cell [OF g j, of off] pos_x_cell [OF g i, of off]
    unfolding af_bottom_def Let_def length_af [OF g a] fields k [symmetric] n [symmetric] by (simp add: a)
qed

definition closed_under :: "AdjacentCellFinder \<Rightarrow> int set \<Rightarrow> bool" where
  "closed_under a S \<longleftrightarrow> (\<forall>i\<in>S. \<forall>adj. af_find a i = Some adj \<longrightarrow> (\<forall>j\<in>set adj. 0 \<le> j \<longrightarrow> j \<in> S))"

lemma closed_step:
  assumes g: "grid_ok sp dims ms" and a: "a = af_create (compute_linear sp dims off ms) dims ms"
    and "closed_under a S" "i \<in> S" "cell_at dims ms i (c, r)" "0 \<le> j"
    and "af_right a i = Some j \<or> af_left a i = Some j \<or> af_bottom a i = Some j"
  shows "j \<in> S"
proof -
  obtain rt l b t where "af_right a i = Some rt" "af_left a i = Some l" "af_bottom a i = Some b" "af_top a i = Some t"
    using right_neighbour [OF g a assms(5)] left_neighbour [OF g a assms(5)]
      bottom_neighbour [OF g a assms(5)] top_neighbour [OF g a assms(5)] by blast
  then have "af_find a i = Some [rt, l, b, t]" "j = rt \<or> j = l \<or> j = b" using assms(7) by (auto simp: af_find_def)
  then show ?thesis using assms(3,4,6) unfolding closed_under_def by force
qed

text \<open>The first cell of a row other than the first, when all cells before it are in the set.\<close>

lemma row_start_reached:
  assumes g: "grid_ok sp dims ms" and a: "a = af_create (compute_linear sp dims off ms) dims ms"
    and S: "closed_under a S" and m: "fst ms < top_width dims ms"
    and before: "\<And>k. 0 \<le> k \<Longrightarrow> k < i \<Longrightarrow> k \<in> S"
    and i: "cell_at dims ms i cell" "0 < i"
    and first: "\<And>c r. cell_at dims ms (i - 1) (c, r) \<Longrightarrow> fst cell < c"
  shows "i \<in> S"
proof -
  let ?w = "top_width dims ms" and ?h = "mid_height dims ms"
  let ?fm = "?w * snd ms" and ?fb = "?w * snd ms + fst dims * ?h"
  note f = grid_facts [OF g]
  note step = closed_step [OF g a S]
  have margin: "in_row_with_margin a k \<longleftrightarrow> k < ?fm \<or> ?fb \<le> k" for k by (simp add: a margin_af)
  have h: "fst dims \<le> fst dims * ?h" "0 < fst dims" using f row_mono [of "fst dims" 1 ?h] by simp_all
  show ?thesis using i(1)
  proof cases
    case (top r c)
    have "c = 0"
    proof (rule ccontr)
      assume "c \<noteq> 0"
      then have "cell_at dims ms (i - 1) (fst ms + (c - 1), r)" using top by (intro cell_at.top) simp_all
      from first [OF this] show False using top(1) by simp
    qed
    then have "0 < ?w * r" using i(2) top by simp
    then have r: "1 \<le> r" using f(3) by (simp add: zero_less_mult_iff)
    have up: "cell_at dims ms (i - ?w) (fst ms, r - 1)"
      using cell_at.top [of "r - 1" ms 0 dims "i - ?w"] top \<open>c = 0\<close> r f by (simp add: right_diff_distrib)
    have le: "?w * r + ?w \<le> ?fm" using row_mono [of ?w "r + 1" "snd ms"] top(3) f by (simp add: distrib_left)
    have "af_bottom a (i - ?w) = Some i"
      by (rule bottom_hit [OF g a up, where r' = r and k = "i + fst ms"]) (use i(1) top \<open>c = 0\<close> le m f in \<open>simp_all add: margin\<close>)
    moreover have "i - ?w \<in> S" using before position_of_cell [OF g up, of off] f by simp
    ultimately show ?thesis using step [OF _ up] i(2) by auto
  next
    case (middle r c)
    have "c = 0"
    proof (rule ccontr)
      assume "c \<noteq> 0"
      then have "cell_at dims ms (i - 1) (c - 1, snd ms + r)" using middle by (intro cell_at.middle) simp_all
      from first [OF this] show False using middle(1) by simp
    qed
    show ?thesis
    proof (cases "1 \<le> r")
      case True
      have up: "cell_at dims ms (i - fst dims) (0, snd ms + (r - 1))"
        using True middle \<open>c = 0\<close> f by (intro cell_at.middle) (simp_all add: right_diff_distrib)
      have "0 \<le> fst dims * (r - 1)" using True f by simp
      moreover have "fst dims * r + fst dims \<le> fst dims * ?h"
        using row_mono [of "fst dims" "r + 1" ?h] middle(3) f by (simp add: distrib_left)
      ultimately have "?fm \<le> i - fst dims" "i < ?fb" using middle(3,6) \<open>c = 0\<close> h(2) by (simp_all add: right_diff_distrib)
      then have "\<not> in_row_with_margin a (i - fst dims)" "\<not> in_row_with_margin a i" using h(2) unfolding margin by linarith+
      then have "af_bottom a (i - fst dims) = Some i"
        by (intro bottom_hit [OF g a up, where r' = "snd ms + r" and k = i]) (use i(1) middle \<open>c = 0\<close> in simp_all)
      moreover have "i - fst dims \<in> S" using before position_of_cell [OF g up, of off] f by simp
      ultimately show ?thesis using step [OF _ up] i(2) by auto
    next
      case False
      then have r0: "i = ?fm" "0 < snd ms" using middle \<open>c = 0\<close> i(2) f by (auto simp: less_le)
      have up: "cell_at dims ms (?fm - ?w) (fst ms, snd ms - 1)"
        using cell_at.top [of "snd ms - 1" ms 0 dims "?fm - ?w"] r0 f by (simp add: right_diff_distrib)
      have mid: "cell_at dims ms (?fm + d) (d, snd ms)" if "0 \<le> d" "d < fst dims" for d
        using cell_at.middle [of 0 dims ms d "?fm + d"] that f by simp
      have "in_row_with_margin a (?fm - ?w)" "\<not> in_row_with_margin a (?fm + fst ms)" "fst ms < fst dims"
        using f(1-3,5) h m unfolding margin by linarith+
      then have "af_bottom a (?fm - ?w) = Some (?fm + fst ms)"
        by (intro bottom_hit [OF g a up mid, where k = "?fm + fst ms"]) (use f in simp_all)
      moreover have "?fm - ?w \<in> S" using before position_of_cell [OF g up, of off] r0 f by simp
      ultimately have start: "?fm + fst ms \<in> S" using step [OF _ up] i(2) r0 f by auto
      have "?fm + (fst ms - int d) \<in> S" if "int d \<le> fst ms" for d
        using that
      proof (induction d)
        case (Suc d)
        have "af_left a (?fm + (fst ms - int d)) = Some (?fm + (fst ms - int d) - 1)"
          by (rule left_hit [OF g a mid, where c' = "fst ms - int (Suc d)" and r' = "snd ms"])
            (use Suc mid [of "fst ms - int (Suc d)"] f in \<open>simp_all add: algebra_simps\<close>)
        moreover have "0 \<le> ?fm" using f by simp
        then have "0 \<le> ?fm + (fst ms - int d) - 1" using Suc.prems by linarith
        moreover have "?fm + (fst ms - int d) - 1 = ?fm + (fst ms - int (Suc d))" by simp
        ultimately show ?case using step [OF Suc.IH mid] Suc.prems f(1,3,5) by force
      qed (use start in simp)
      from this [of "nat (fst ms)"] show ?thesis using r0 f by simp
    qed
  next
    case (bottom r c)
    have "c = 0"
    proof (rule ccontr)
      assume "c \<noteq> 0"
      then have "cell_at dims ms (i - 1) (fst ms + (c - 1), snd dims - snd ms + r)" using bottom by (intro cell_at.bottom) simp_all
      from first [OF this] show False using bottom(1) by simp
    qed
    show ?thesis
    proof (cases "1 \<le> r")
      case True
      have up: "cell_at dims ms (i - ?w) (fst ms + 0, snd dims - snd ms + (r - 1))"
        using True bottom \<open>c = 0\<close> f by (intro cell_at.bottom) (simp_all add: right_diff_distrib)
      have "0 \<le> ?w * (r - 1)" using True f by simp
      then have "?fb \<le> i - ?w" using bottom(6) \<open>c = 0\<close> by (simp add: right_diff_distrib)
      then have "af_bottom a (i - ?w) = Some i"
        by (intro bottom_hit [OF g a up, where r' = "snd dims - snd ms + r" and k = "i + fst ms"])
          (use i(1) bottom \<open>c = 0\<close> f in \<open>simp_all add: margin\<close>)
      moreover have "i - ?w \<in> S" using before position_of_cell [OF g up, of off] f by simp
      ultimately show ?thesis using step [OF _ up] i(2) by auto
    next
      case False
      then have r0: "i = ?fb" using bottom \<open>c = 0\<close> by simp
      have up: "cell_at dims ms (?fb - fst dims + fst ms) (fst ms, snd ms + (?h - 1))"
        using f m by (intro cell_at.middle) (simp_all add: right_diff_distrib)
      have "\<not> in_row_with_margin a (?fb - fst dims + fst ms)" "in_row_with_margin a (?fb + fst ms)"
        using f(1-3,5) h m unfolding margin by linarith+
      then have "af_bottom a (?fb - fst dims + fst ms) = Some i"
        by (intro bottom_hit [OF g a up, where r' = "snd dims - snd ms + r" and k = "?fb + fst ms"])
          (use i(1) bottom(1) \<open>c = 0\<close> r0 in simp_all)
      moreover have "?fb - fst dims + fst ms \<in> S" using before position_of_cell [OF g up, of off] r0 f by simp
      ultimately show ?thesis using step [OF _ up] i(2) by auto
    qed
  qed
qed

lemma all_reached:
  assumes g: "grid_ok sp dims ms" and a: "a = af_create (compute_linear sp dims off ms) dims ms"
    and S: "closed_under a S" and m: "fst ms < top_width dims ms" and "0 \<in> S"
  shows "0 \<le> i \<Longrightarrow> i < total_positions dims ms \<Longrightarrow> i \<in> S"
proof (induction "nat i" arbitrary: i rule: less_induct)
  case less
  obtain cell where i: "cell_at dims ms i cell" using cell_exists [OF g less.prems] by blast
  have before: "k \<in> S" if "0 \<le> k" "k < i" for k using less that by simp
  show ?case
  proof (cases "i = 0")
    case False
    then have pos: "0 < i" using less.prems by simp
    then obtain c r where p: "cell_at dims ms (i - 1) (c, r)" using cell_exists [OF g, of "i - 1"] less.prems by auto
    show ?thesis
    proof (cases "c \<le> fst cell")
      case True
      then have "af_right a (i - 1) = Some i" using right_hit [OF g a p, of "fst cell" "snd cell"] i by simp
      then show ?thesis using closed_step [OF g a S before [of "i - 1"] p] pos by simp
    next
      case False
      show ?thesis by (rule row_start_reached [OF g a S m before i pos]) (use False cell_unique [OF g p] in auto)
    qed
  qed (use assms(5) in simp)
qed

section \<open>The invariant of the queue\<close>

definition queued :: "FloodDecodePositions \<Rightarrow> nat set" where
  "queued fd = (\<lambda>e. unat (fst e)) ` set (fd_heap fd)"

text \<open>
  \<open>V\<close> are the cells that were handed out and \<open>W\<close> those whose neighbours were put into the heap.
\<close>

definition flood_inv :: "vec_xy \<Rightarrow> vec_xy \<Rightarrow> int \<Rightarrow> vec_xy \<Rightarrow> nat set \<Rightarrow> nat set \<Rightarrow> FloodDecodePositions \<Rightarrow> bool" where
  "flood_inv sp dims off ms V W fd \<longleftrightarrow>
     fd_positions fd = compute_linear sp dims off ms \<and>
     fd_cellFinder fd = af_create (compute_linear sp dims off ms) dims ms \<and>
     length (fd_remaining fd) = length (fd_positions fd) \<and> length (fd_instructions fd) = length (fd_positions fd) \<and>
     queued fd \<subseteq> {..<length (fd_positions fd)} \<and>
     (\<forall>i<length (fd_positions fd). fd_remaining fd ! i \<longleftrightarrow> i \<notin> V) \<and>
     (\<forall>i<length (fd_positions fd). i \<notin> V \<longrightarrow> fst (snd (fd_instructions fd ! i)) \<noteq> 0xFE \<longrightarrow> i \<in> queued fd) \<and>
     (\<forall>i\<in>W. \<forall>adj. af_find (fd_cellFinder fd) (int i) = Some adj \<longrightarrow> (\<forall>j\<in>set adj. 0 \<le> j \<longrightarrow> nat j \<in> V \<union> queued fd)) \<and>
     0 \<in> V \<union> queued fd \<and> fd_count fd = card V \<and> V \<subseteq> {..<length (fd_positions fd)}"

lemma flood_invD:
  assumes "flood_inv sp dims off ms V W fd"
  shows "fd_positions fd = compute_linear sp dims off ms"
    "fd_cellFinder fd = af_create (compute_linear sp dims off ms) dims ms"
    "length (fd_remaining fd) = length (fd_positions fd)" "length (fd_instructions fd) = length (fd_positions fd)"
    "queued fd \<subseteq> {..<length (fd_positions fd)}"
    "\<And>i. i < length (fd_positions fd) \<Longrightarrow> fd_remaining fd ! i \<longleftrightarrow> i \<notin> V"
    "\<And>i. i < length (fd_positions fd) \<Longrightarrow> i \<notin> V \<Longrightarrow> fst (snd (fd_instructions fd ! i)) \<noteq> 0xFE \<Longrightarrow> i \<in> queued fd"
    "\<And>i adj j. i \<in> W \<Longrightarrow> af_find (fd_cellFinder fd) (int i) = Some adj \<Longrightarrow> j \<in> set adj \<Longrightarrow> 0 \<le> j \<Longrightarrow> nat j \<in> V \<union> queued fd"
    "0 \<in> V \<union> queued fd" "fd_count fd = card V" "V \<subseteq> {..<length (fd_positions fd)}"
  using assms unfolding flood_inv_def by blast+

lemma flood_invI:
  assumes "fd_positions fd = compute_linear sp dims off ms"
    "fd_cellFinder fd = af_create (compute_linear sp dims off ms) dims ms"
    "length (fd_remaining fd) = length (fd_positions fd)" "length (fd_instructions fd) = length (fd_positions fd)"
    "queued fd \<subseteq> {..<length (fd_positions fd)}"
    "\<And>i. i < length (fd_positions fd) \<Longrightarrow> fd_remaining fd ! i \<longleftrightarrow> i \<notin> V"
    "\<And>i. i < length (fd_positions fd) \<Longrightarrow> i \<notin> V \<Longrightarrow> fst (snd (fd_instructions fd ! i)) \<noteq> 0xFE \<Longrightarrow> i \<in> queued fd"
    "\<And>i adj j. i \<in> W \<Longrightarrow> af_find (fd_cellFinder fd) (int i) = Some adj \<Longrightarrow> j \<in> set adj \<Longrightarrow> 0 \<le> j \<Longrightarrow> nat j \<in> V \<union> queued fd"
    "0 \<in> V \<union> queued fd" "fd_count fd = card V" "V \<subseteq> {..<length (fd_positions fd)}"
  shows "flood_inv sp dims off ms V W fd"
  using assms unfolding flood_inv_def by blast

text \<open>A cell index as the finder answers it.\<close>

definition cell_index :: "FloodDecodePositions \<Rightarrow> int \<Rightarrow> bool" where
  "cell_index fd j \<longleftrightarrow> j = - 1 \<or> 0 \<le> j \<and> j < int (length (fd_positions fd))"

lemma update_adjacent_inv:
  assumes inv: "flood_inv sp dims off ms V W fd" and n: "length (fd_positions fd) \<le> 65536"
    and j: "cell_index fd j" and e: "e < 0xFE"
  shows "\<exists>fd'. update_adjacent d e c j fd = Some fd' \<and> flood_inv sp dims off ms V W fd' \<and> queued fd \<subseteq> queued fd' \<and>
    (0 \<le> j \<longrightarrow> nat j \<in> V \<union> queued fd')"
proof (cases "j < 0")
  case True
  then show ?thesis using inv by (simp add: update_adjacent_def)
next
  case False
  note I = flood_invD [OF inv]
  from False j have jn: "0 \<le> j" "nat j < length (fd_positions fd)" by (auto simp: cell_index_def)
  show ?thesis
  proof (cases "fd_remaining fd ! nat j \<and> \<not> unat (fst (snd (fd_instructions fd ! nat j))) \<le> e")
    case True
    let ?fd = "fd\<lparr>fd_instructions := (fd_instructions fd)[nat j := (d, of_nat e, c)],
                  fd_heap := fd_heap fd @ [(of_int j, of_nat e)]\<rparr>"
    have run: "update_adjacent d e c j fd = Some ?fd" using True jn I(3,4) False by (simp add: update_adjacent_def)
    have "unat (of_int j :: u16) = nat j" using jn n by (simp add: unat_eq_nat_uint uint_word_of_int take_bit_int_eq_self)
    then have q: "queued ?fd = insert (nat j) (queued fd)" by (simp add: queued_def)
    have "flood_inv sp dims off ms V W ?fd" using I jn unfolding flood_inv_def q by (auto simp: nth_list_update)
    then show ?thesis using run q by auto
  next
    case False
    then have run: "update_adjacent d e c j fd = Some fd" using jn I(3,4) \<open>\<not> j < 0\<close> by (auto simp: update_adjacent_def)
    have "nat j \<in> V \<union> queued fd" using False I(6) [OF jn(2)] I(7) [OF jn(2)] e by (cases "nat j \<in> V") force+
    then show ?thesis using run inv by auto
  qed
qed

lemma update_adjacents_inv:
  assumes "flood_inv sp dims off ms V W fd" "length (fd_positions fd) \<le> 65536"
    and "\<forall>j\<in>set adj. cell_index fd j" and e: "e < 0xFE"
  shows "\<exists>fd'. update_adjacents adj d e c fd = Some fd' \<and> flood_inv sp dims off ms V W fd' \<and> queued fd \<subseteq> queued fd' \<and>
    (\<forall>j\<in>set adj. 0 \<le> j \<longrightarrow> nat j \<in> V \<union> queued fd')"
  using assms(1-3) unfolding update_adjacents_def
proof (induction adj arbitrary: fd)
  case (Cons j js)
  obtain fd1 where 1: "update_adjacent d e c j fd = Some fd1" "flood_inv sp dims off ms V W fd1" "queued fd \<subseteq> queued fd1"
    "0 \<le> j \<longrightarrow> nat j \<in> V \<union> queued fd1"
    using update_adjacent_inv [OF Cons.prems(1,2) _ e, of j d c] Cons.prems(3) by auto
  have p: "fd_positions fd1 = fd_positions fd" using flood_invD(1) [OF 1(2)] flood_invD(1) [OF Cons.prems(1)] by simp
  obtain fd2 where "for_each js (update_adjacent d e c) fd1 = Some fd2" "flood_inv sp dims off ms V W fd2" "queued fd1 \<subseteq> queued fd2"
    "\<forall>j\<in>set js. 0 \<le> j \<longrightarrow> nat j \<in> V \<union> queued fd2"
    using Cons.IH [OF 1(2)] Cons.prems(2,3) p by (auto simp: cell_index_def)
  then show ?case using 1 by auto
qed simp

lemma finder_steps:
  assumes inv: "flood_inv sp dims off ms V W fd" and g: "grid_ok sp dims ms" and j: "cell_index fd j"
    and f: "f = af_right \<or> f = af_left \<or> f = af_bottom \<or> f = af_top"
  shows "\<exists>k. f (fd_cellFinder fd) j = Some k \<and> cell_index fd k"
proof (cases "j = - 1")
  case True
  note F = grid_facts [OF g]
  have "0 \<le> top_width dims ms * snd ms" using F by simp
  then have "af_top (fd_cellFinder fd) (- 1) = Some (- 1)"
    using F by (simp add: af_top_def Let_def flood_invD(2) [OF inv] margin_af af_fields)
  then show ?thesis using True f by (auto simp: cell_index_def af_right_def af_left_def af_bottom_def)
next
  case False
  then obtain c r where "cell_at dims ms j (c, r)"
    using cell_exists [OF g, of j] j length_positions [OF g, of off] flood_invD(1) [OF inv] by (auto simp: cell_index_def)
  note cell = this
  have ok: "cell_index fd k" if "neighbour dims ms k x" for k x
    using that position_of_cell [OF g, of k x off] length_positions [OF g, of off] flood_invD(1) [OF inv]
    by (auto simp: neighbour_def cell_index_def)
  show ?thesis
    using f right_neighbour [OF g flood_invD(2) [OF inv] cell] left_neighbour [OF g flood_invD(2) [OF inv] cell]
      bottom_neighbour [OF g flood_invD(2) [OF inv] cell] top_neighbour [OF g flood_invD(2) [OF inv] cell] ok by blast
qed

lemma beyond_inv:
  assumes inv: "flood_inv sp dims off ms V W fd" and n: "length (fd_positions fd) \<le> 65536" and g: "grid_ok sp dims ms"
    and ij: "cell_index fd i" "cell_index fd j" and e: "e < 0xFE"
    and f: "f = af_right \<or> f = af_left \<or> f = af_bottom \<or> f = af_top" "h = af_right \<or> h = af_left \<or> h = af_bottom \<or> h = af_top"
  shows "\<exists>fd'. beyond f h i j d e c fd = Some fd' \<and> flood_inv sp dims off ms V W fd' \<and> queued fd \<subseteq> queued fd'"
proof (cases "i \<ge> 0 \<and> j \<ge> 0")
  case True
  obtain h0 where 0: "f (fd_cellFinder fd) i = Some h0" "cell_index fd h0" using finder_steps [OF inv g ij(1) f(1)] by blast
  obtain h1 where 1: "f (fd_cellFinder fd) h0 = Some h1" "cell_index fd h1" using finder_steps [OF inv g 0(2) f(1)] by blast
  obtain h2 where 2: "h (fd_cellFinder fd) j = Some h2" "cell_index fd h2" using finder_steps [OF inv g ij(2) f(2)] by blast
  obtain h3 where 3: "h (fd_cellFinder fd) h2 = Some h3" "cell_index fd h3" using finder_steps [OF inv g 2(2) f(2)] by blast
  show ?thesis using update_adjacents_inv [OF inv n _ e, of "[h0, h1, h2, h3]" d c] True 0 1 2 3 by (auto simp: beyond_def)
next
  case False
  then show ?thesis using inv by (auto simp: beyond_def)
qed

lemma fd_update_inv:
  assumes inv: "flood_inv sp dims off ms V W fd" and n: "length (fd_positions fd) \<le> 65536" and g: "grid_ok sp dims ms"
    and i: "i \<in> V" and e: "e < 0xFE"
  shows "\<exists>fd'. fd_update fd i d e c = Some fd' \<and> flood_inv sp dims off ms V (insert i W) fd'"
proof -
  note I = flood_invD [OF inv]
  have ci: "cell_index fd (int i)" using I(11) i by (auto simp: cell_index_def)
  obtain r l b t where s: "af_right (fd_cellFinder fd) (int i) = Some r" "cell_index fd r"
    "af_left (fd_cellFinder fd) (int i) = Some l" "cell_index fd l" "af_bottom (fd_cellFinder fd) (int i) = Some b" "cell_index fd b"
    "af_top (fd_cellFinder fd) (int i) = Some t" "cell_index fd t"
    using finder_steps [OF inv g ci] by metis
  then have adj: "af_find (fd_cellFinder fd) (int i) = Some [r, l, b, t]" by (simp add: af_find_def)
  obtain fd1 where 1: "update_adjacents [r, l, b, t] d e c fd = Some fd1" "flood_inv sp dims off ms V W fd1"
    "\<forall>j\<in>set [r, l, b, t]. 0 \<le> j \<longrightarrow> nat j \<in> V \<union> queued fd1"
    using update_adjacents_inv [OF inv n _ e, of "[r, l, b, t]" d c] s by auto
  note I1 = flood_invD [OF 1(2)]
  have same: "cell_index fd1 = cell_index fd" "length (fd_positions fd1) \<le> 65536" "fd_cellFinder fd1 = fd_cellFinder fd"
    using I(1,2) I1(1,2) n by (simp_all add: cell_index_def fun_eq_iff)
  have W: "flood_inv sp dims off ms V (insert i W) fd1"
  proof (rule flood_invI [OF I1(1-7) _ I1(9-11)])
    fix k adj' j assume "k \<in> insert i W" and f: "af_find (fd_cellFinder fd1) (int k) = Some adj'" "j \<in> set adj'" "0 \<le> j"
    then consider "k = i" | "k \<in> W" by blast
    then show "nat j \<in> V \<union> queued fd1"
    proof cases
      case 1
      then show ?thesis using f adj same(3) \<open>\<forall>j\<in>set [r, l, b, t]. _ j\<close> by auto
    qed (use I1(8) f in blast)
  qed
  obtain fd2 where 2: "beyond af_right af_left r l d e c fd1 = Some fd2" "flood_inv sp dims off ms V (insert i W) fd2"
    using beyond_inv [OF W same(2) g _ _ e, of r l af_right af_left d c] s same(1) by auto
  note I2 = flood_invD [OF 2(2)]
  have same2: "cell_index fd2 = cell_index fd" "length (fd_positions fd2) \<le> 65536"
    using I(1) I2(1) n by (simp_all add: cell_index_def fun_eq_iff)
  obtain fd3 where 3: "beyond af_top af_bottom t b d e c fd2 = Some fd3" "flood_inv sp dims off ms V (insert i W) fd3"
    using beyond_inv [OF 2(2) same2(2) g _ _ e, of t b af_top af_bottom d c] s same2(1) by auto
  have upd: "rd (fd_instructions fdx) i = Some (fd_instructions fdx ! i) \<and> flood_inv sp dims off ms V (insert i W)
      (fdx\<lparr>fd_instructions := (fd_instructions fdx)[i := (fst (fd_instructions fdx ! i), of_nat e, c)]\<rparr>)"
    if inv_x: "flood_inv sp dims off ms V (insert i W) fdx" for fdx
  proof
    note J = flood_invD [OF inv_x]
    show "rd (fd_instructions fdx) i = Some (fd_instructions fdx ! i)" using J(4,11) i by auto
    show "flood_inv sp dims off ms V (insert i W)
      (fdx\<lparr>fd_instructions := (fd_instructions fdx)[i := (fst (fd_instructions fdx ! i), of_nat e, c)]\<rparr>)" (is "flood_inv _ _ _ _ _ _ ?fd")
    proof (rule flood_invI)
      have q: "queued ?fd = queued fdx" by (simp add: queued_def)
      show "k \<in> queued ?fd" if "k < length (fd_positions ?fd)" "k \<notin> V" "fst (snd (fd_instructions ?fd ! k)) \<noteq> 0xFE" for k
        using J(7) [of k] that i unfolding q by (cases "k = i") simp_all
    qed (use J in \<open>simp_all add: queued_def\<close>)
  qed
  have "i < length (fd_instructions fd1)" using I1(4,11) i by auto
  then show ?thesis
    using 1(1) 2(1) 3(1) upd [OF W] upd [OF 3(2)] by (simp add: fd_update_def adj split del: if_split) auto
qed

lemma top_of_heap:
  assumes "is_top e (fd_heap fd)"
  shows "queued fd = insert (unat (fst e)) (queued (fd\<lparr>fd_heap := remove1 e (fd_heap fd)\<rparr>))"
proof -
  have "x \<in> set (fd_heap fd) \<longleftrightarrow> x = e \<or> x \<in> set (remove1 e (fd_heap fd))" for x
    using assms notin_set_remove1 [of x "fd_heap fd" e] by (cases "x = e") (auto simp: is_top_def)
  then have "set (fd_heap fd) = insert e (set (remove1 e (fd_heap fd)))" by blast
  then show ?thesis by (auto simp: queued_def)
qed

definition next_cell :: "nat set \<Rightarrow> FloodDecodePositions \<Rightarrow> iter \<Rightarrow> bool" where
  "next_cell V fd it \<longleftrightarrow> fst it \<notin> V \<and> fst it < length (fd_positions fd) \<and> fst (snd it) = fd_positions fd ! fst it"

lemma fd_next_inv:
  assumes "flood_inv sp dims off ms V V fd" "i < length (fd_positions fd)" "i \<notin> V" "i \<in> queued fd"
    and "\<And>h. h \<noteq> [] \<Longrightarrow> is_top (pick h) h"
  shows "\<exists>it fd'. fd_next pick fd = Some (it, fd') \<and> next_cell V fd it \<and> flood_inv sp dims off ms (insert (fst it) V) V fd'"
  using assms
proof (induction pick fd rule: fd_next.induct)
  case (1 pick fd)
  note I = flood_invD [OF "1.prems"(1)]
  have ne: "fd_heap fd \<noteq> []" using "1.prems"(4) by (auto simp: queued_def)
  note tp = "1.prems"(5) [OF ne]
  let ?e = "pick (fd_heap fd)"
  let ?k = "unat (fst ?e)" and ?fd = "fd\<lparr>fd_heap := remove1 ?e (fd_heap fd)\<rparr>"
  note q = top_of_heap [of ?e fd, OF tp]
  have k: "?k < length (fd_positions fd)" using I(5) q by auto
  show ?case
  proof (cases "fd_remaining fd ! ?k")
    case False
    then have kV: "?k \<in> V" using I(6) [OF k] by simp
    have "flood_inv sp dims off ms V V ?fd"
    proof (rule flood_invI)
      show "i \<in> queued ?fd" if "i < length (fd_positions ?fd)" "i \<notin> V" "fst (snd (fd_instructions ?fd ! i)) \<noteq> 0xFE" for i
        using I(7) [of i] that q kV by auto
      show "nat j \<in> V \<union> queued ?fd" if "i \<in> V" "af_find (fd_cellFinder ?fd) (int i) = Some adj" "j \<in> set adj" "0 \<le> j" for i adj j
        using I(8) [of i adj j] that q kV by auto
    qed (use I q kV in auto)
    moreover have "i \<in> queued ?fd" using "1.prems"(3,4) q kV by auto
    ultimately obtain it fd' where "fd_next pick ?fd = Some (it, fd')" "next_cell V ?fd it" "flood_inv sp dims off ms (insert (fst it) V) V fd'"
      using "1.IH" [OF ne refl refl refl, of False] tp "1.prems"(2,3,5) False I(3) k by auto
    then show ?thesis using ne tp False I(3) k by (subst fd_next.simps) (auto simp: Let_def next_cell_def)
  next
    case True
    then have kV: "?k \<notin> V" using I(6) [OF k] by simp
    let ?fd' = "?fd\<lparr>fd_remaining := (fd_remaining fd)[?k := False], fd_count := fd_count fd + 1\<rparr>"
    have q': "queued ?fd' = queued ?fd" by (simp add: queued_def)
    have card: "card (insert ?k V) = card V + 1" using kV I(11) finite_subset by fastforce
    have "flood_inv sp dims off ms (insert ?k V) V ?fd'"
    proof (rule flood_invI)
      show "i \<in> queued ?fd'" if "i < length (fd_positions ?fd')" "i \<notin> insert ?k V" "fst (snd (fd_instructions ?fd' ! i)) \<noteq> 0xFE" for i
        using I(7) [of i] that q unfolding q' by auto
      show "nat j \<in> insert ?k V \<union> queued ?fd'" if "i \<in> V" "af_find (fd_cellFinder ?fd') (int i) = Some adj" "j \<in> set adj" "0 \<le> j" for i adj j
        using I(8) [of i adj j] that q unfolding q' by auto
      show "fd_remaining ?fd' ! i \<longleftrightarrow> i \<notin> insert ?k V" if "i < length (fd_positions ?fd')" for i
        using I(3) I(6) [of i] that k by (cases "?k = i") simp_all
    qed (use I q q' k card in auto)
    then show ?thesis using ne tp True I(3,4) k kV by (subst fd_next.simps) (auto simp: Let_def next_cell_def)
  qed
qed

lemma fd_create_inv:
  assumes g: "grid_ok sp dims ms" and n: "length (compute_linear sp dims off ms) \<le> 65536"
  shows "\<exists>fd. fd_create sp dims off ms = Some fd \<and> flood_inv sp dims off ms {} {} fd"
proof -
  let ?ps = "compute_linear sp dims off ms" and ?w = "top_width dims ms" and ?h = "mid_height dims ms"
  let ?fm = "?w * snd ms" and ?n = "int (length (compute_linear sp dims off ms))"
  define fd where "fd = fd_reset \<lparr>fd_index = 0, fd_count = 0, fd_heap = [], fd_remaining = [], fd_instructions = [],
    fd_positions = ?ps, fd_cellFinder = af_create ?ps dims ms\<rparr>"
  note f = grid_facts [OF g]
  have u: "unat (of_int k :: u16) < length ?ps" if "0 \<le> k" "k < ?n" for k
    using that n by (simp add: unat_eq_nat_uint uint_word_of_int take_bit_int_eq_self)
  have "fst dims \<le> fst dims * ?h" "?w \<le> fst dims" "0 < fst dims" "0 \<le> ?fm" using f row_mono [of "fst dims" 1 ?h] by simp_all
  moreover have "?n = ?fm + fst dims * ?h + ?fm" using length_positions [OF g, of off] by (simp add: total_positions_def)
  ultimately have b: "?w \<le> ?n" "0 \<le> ?fm" "?fm + fst dims \<le> ?n" "0 < ?n" "0 < fst dims" "2 * ?fm < ?n" "2 * ?fm + fst dims \<le> ?n"
    by linarith+
  have seeds: "queued fd = (\<lambda>k. unat (of_int k :: u16)) ` {0, ?w - 1, ?n - 1, ?n - ?w, ?fm, ?fm + fst dims - 1, ?n - 1 - ?fm, ?n - ?fm - fst dims}"
    by (simp add: fd_def fd_reset_def queued_def Let_def af_create_def calc_mid_width_def top_width_def algebra_simps
        insert_commute)
  have "\<forall>k\<in>{0, ?w - 1, ?n - 1, ?n - ?w, ?fm, ?fm + fst dims - 1, ?n - 1 - ?fm, ?n - ?fm - fst dims}. 0 \<le> k \<and> k < ?n"
    using b f(1-4) unfolding ball_simps by (intro conjI TrueI; linarith)
  then have "queued fd \<subseteq> {..<length ?ps}" unfolding seeds using u by blast
  then have "flood_inv sp dims off ms {} {} fd"
    by (intro flood_invI) (simp_all add: fd_def fd_reset_def Let_def, simp add: queued_def)
  moreover have "fd_create sp dims off ms = Some fd" by (simp add: fd_create_def compute_def fd_def)
  ultimately show ?thesis by blast
qed

section \<open>Reading a frame\<close>

text \<open>
  A client takes cells from \<open>next\<close> and reports each of them with \<open>update\<close>, as \<open>CimbReader::read\<close> does; what it
  reports, and the choices of the heap, are arbitrary.
\<close>

type_synonym round = "(decode_prio list \<Rightarrow> decode_prio) \<times> CellDrift \<times> nat \<times> u8"

fun flood_run :: "round list \<Rightarrow> FloodDecodePositions \<Rightarrow> (iter list \<times> FloodDecodePositions) option" where
  "flood_run [] fd = Some ([], fd)"
| "flood_run ((pick, drift, error_distance, cooldown) # rs) fd = do {
     (it, fd) \<leftarrow> fd_next pick fd;
     fd \<leftarrow> fd_update fd (fst it) drift error_distance cooldown;
     (its, fd) \<leftarrow> flood_run rs fd;
     Some (it # its, fd)
   }"

definition round_ok :: "round \<Rightarrow> bool" where
  "round_ok r \<longleftrightarrow> (\<forall>h. h \<noteq> [] \<longrightarrow> is_top (fst r h) h) \<and> fst (snd (snd r)) < 0xFE"

text \<open>While a cell is left the heap holds one.\<close>

lemma some_cell_queued:
  assumes inv: "flood_inv sp dims off ms V V fd" and g: "grid_ok sp dims ms" and m: "fst ms < top_width dims ms"
    and i: "i < length (fd_positions fd)" "i \<notin> V"
  shows "\<exists>k. k < length (fd_positions fd) \<and> k \<notin> V \<and> k \<in> queued fd"
proof (rule ccontr)
  assume none: "\<not> ?thesis"
  note I = flood_invD [OF inv]
  have q: "k \<in> V" if "k \<in> V \<union> queued fd" for k using that none I(5) by auto
  have "closed_under (fd_cellFinder fd) (int ` V)"
    unfolding closed_under_def
  proof (intro ballI allI impI)
    fix k adj j assume "k \<in> int ` V" "af_find (fd_cellFinder fd) k = Some adj" "j \<in> set adj" "0 \<le> j"
    then have "nat j \<in> V" using I(8) q by blast
    then show "j \<in> int ` V" using \<open>0 \<le> j\<close> by (intro rev_image_eqI [where x = "nat j"]) simp_all
  qed
  then have "int i \<in> int ` V"
    using all_reached [OF g I(2) _ m, of "int ` V" "int i"] q [OF I(9)] i(1) I(1) length_positions [OF g, of off] by auto
  then show False using i(2) by auto
qed

lemma flood_run_inv:
  assumes g: "grid_ok sp dims ms" and m: "fst ms < top_width dims ms"
  shows "flood_inv sp dims off ms V V fd \<Longrightarrow> length (fd_positions fd) \<le> 65536 \<Longrightarrow> \<forall>r\<in>set rs. round_ok r \<Longrightarrow>
    card V + length rs \<le> length (fd_positions fd) \<Longrightarrow>
    \<exists>its fd'. flood_run rs fd = Some (its, fd') \<and> length its = length rs \<and> flood_inv sp dims off ms (V \<union> fst ` set its) (V \<union> fst ` set its) fd' \<and>
      distinct (map fst its) \<and> fst ` set its \<inter> V = {} \<and> (\<forall>it\<in>set its. fst (snd it) = compute_linear sp dims off ms ! fst it)"
proof (induction rs arbitrary: V fd)
  case (Cons r rs)
  note I = flood_invD [OF Cons.prems(1)]
  obtain pick d e c where r: "r = (pick, d, e, c)" by (cases r) auto
  have ok: "e < 0xFE" "\<And>h. h \<noteq> [] \<Longrightarrow> is_top (pick h) h" using Cons.prems(3) r by (auto simp: round_ok_def)
  have fin: "finite V" using I(11) finite_subset by blast
  have "\<not> {..<length (fd_positions fd)} \<subseteq> V" using Cons.prems(4) card_mono [OF fin, of "{..<length (fd_positions fd)}"] by auto
  then obtain i where "i < length (fd_positions fd)" "i \<notin> V" by auto
  then obtain k where "k < length (fd_positions fd)" "k \<notin> V" "k \<in> queued fd" using some_cell_queued [OF Cons.prems(1) g m] by blast
  then obtain it fd1 where 1: "fd_next pick fd = Some (it, fd1)" "next_cell V fd it" "flood_inv sp dims off ms (insert (fst it) V) V fd1"
    using fd_next_inv [OF Cons.prems(1) _ _ _ ok(2)] by blast
  have p1: "fd_positions fd1 = fd_positions fd" using flood_invD(1) [OF 1(3)] I(1) by simp
  obtain fd2 where 2: "fd_update fd1 (fst it) d e c = Some fd2" "flood_inv sp dims off ms (insert (fst it) V) (insert (fst it) V) fd2"
    using fd_update_inv [OF 1(3) _ g _ ok(1), of "fst it" d c] Cons.prems(2) p1 by auto
  have p2: "fd_positions fd2 = fd_positions fd" using flood_invD(1) [OF 2(2)] I(1) by simp
  have new: "fst it \<notin> V" "fst (snd it) = compute_linear sp dims off ms ! fst it" using 1(2) I(1) by (simp_all add: next_cell_def)
  obtain its fd3 where 3: "flood_run rs fd2 = Some (its, fd3)" "length its = length rs"
    "flood_inv sp dims off ms (insert (fst it) V \<union> fst ` set its) (insert (fst it) V \<union> fst ` set its) fd3"
    "distinct (map fst its)" "fst ` set its \<inter> insert (fst it) V = {}" "\<forall>it\<in>set its. fst (snd it) = compute_linear sp dims off ms ! fst it"
    using Cons.IH [OF 2(2)] Cons.prems(2-4) p2 new(1) fin by auto
  then have "flood_inv sp dims off ms (V \<union> fst ` set (it # its)) (V \<union> fst ` set (it # its)) fd3" by simp
  then show ?case using 1(1) 2(1) 3 new by (auto simp: r)
qed simp

text \<open>C32: the reader visits every cell of the frame exactly once. For every grid whose markers fit and
  which has at most 65536 cells, whatever the client reports for the cells (any drift, any cooldown, any
  error distance below the mark of an unvisited cell) and whichever of equally urgent cells the priority
  queue has on top, as many rounds of next and update as there are cells run without an access outside a
  table, hand out each cell once with its position, and end with done; so next answers its sentinel only
  after that.\<close>

theorem flood_visits_every_cell:
  assumes "grid_ok sp dims ms" "fst ms < top_width dims ms" "length (compute_linear sp dims off ms) \<le> 65536"
    and "\<forall>r\<in>set rs. round_ok r" "length rs = length (compute_linear sp dims off ms)"
  shows "\<exists>fd its fd'. fd_create sp dims off ms = Some fd \<and> flood_run rs fd = Some (its, fd') \<and> fd_done fd' \<and>
    distinct (map fst its) \<and> fst ` set its = {..<length (compute_linear sp dims off ms)} \<and>
    (\<forall>it\<in>set its. fst (snd it) = compute_linear sp dims off ms ! fst it)"
proof -
  obtain fd where fd: "fd_create sp dims off ms = Some fd" "flood_inv sp dims off ms {} {} fd"
    using fd_create_inv [OF assms(1,3)] by blast
  note p = flood_invD(1) [OF fd(2)]
  obtain its fd' where r: "flood_run rs fd = Some (its, fd')" "length its = length rs" "flood_inv sp dims off ms (fst ` set its) (fst ` set its) fd'"
    "distinct (map fst its)" "\<forall>it\<in>set its. fst (snd it) = compute_linear sp dims off ms ! fst it"
    using flood_run_inv [OF assms(1,2) fd(2) _ assms(4)] assms(3,5) p by auto
  note I = flood_invD [OF r(3)]
  have c: "card (fst ` set its) = length (compute_linear sp dims off ms)"
    using distinct_card [OF r(4)] r(2) assms(5) by simp
  then have "fst ` set its = {..<length (compute_linear sp dims off ms)}"
    using I(1,11) card_subset_eq [of "{..<length (compute_linear sp dims off ms)}"] by simp
  then show ?thesis using fd(1) r I(1,10) c by (auto simp: fd_done_def)
qed

definition first_top :: "decode_prio list \<Rightarrow> decode_prio" where
  "first_top h = hd (filter (\<lambda>e. list_all (\<lambda>e'. \<not> snd e > snd e') h) h)"

lemma first_top_ok: "h \<noteq> [] \<Longrightarrow> is_top (first_top h) h"
proof -
  assume "h \<noteq> []"
  then obtain e where "e \<in> set h" "\<forall>e'\<in>set h. snd e \<le> snd e'"
    using Min_in [of "snd ` set h"] Min_le [of "snd ` set h"] by fastforce
  then have "filter (\<lambda>e. list_all (\<lambda>e'. \<not> snd e > snd e') h) h \<noteq> []" by (force simp: filter_empty_conv list_all_iff not_less)
  from hd_in_set [OF this] show ?thesis by (auto simp: first_top_def is_top_def)
qed

theorem flood_visits_every_cell_witness:
  "\<exists>fd its fd'. fd_create (9, 9) (112, 112) 8 (6, 6) = Some fd \<and>
    flood_run (replicate 12400 (first_top, (1, - 1), 3, 4)) fd = Some (its, fd') \<and> fd_done fd' \<and>
    distinct (map fst its) \<and> fst ` set its = {..<length (compute_linear (9, 9) (112, 112) 8 (6, 6))} \<and>
    (\<forall>it\<in>set its. fst (snd it) = compute_linear (9, 9) (112, 112) 8 (6, 6) ! fst it)"
proof (rule flood_visits_every_cell)
  show g: "grid_ok (9, 9) (112, 112) (6, 6)" by (simp add: grid_ok_def)
  have "length (compute_linear (9, 9) (112, 112) 8 (6, 6)) = 12400"
    using length_positions [OF g, of 8] by (simp add: total_positions_def top_width_def mid_height_def)
  then show "length (compute_linear (9, 9) (112, 112) 8 (6, 6)) \<le> 65536"
    "length (replicate 12400 (first_top, (1, - 1), 3, 4)) = length (compute_linear (9, 9) (112, 112) 8 (6, 6))" by simp_all
  show "\<forall>r\<in>set (replicate 12400 (first_top, (1, - 1), 3, 4)). round_ok r" using first_top_ok by (simp add: round_ok_def)
qed (simp add: top_width_def)

end
