(* ===== verification/ImageHash.thy ===== *)
theory ImageHash
  imports BitFile Layout
begin

text \<open>
  \<open>bit_extractor.h\<close>, \<open>ahash_result.h\<close>, \<open>average_hash.h\<close>, \<open>hamming_distance.h\<close>, \<open>Cell.h\<close> as far as the
  hashes need it, and the symbol search of \<open>CimbDecoder.cpp\<close>: nine windows of a cell are hashed at once
  and the best pair of a window and a tile is taken. An image is its size, its channels and its bytes.
\<close>

type_synonym u128 = "128 word"

section \<open>bit_extractor and ahash_result\<close>

fun get_offsets :: "nat \<Rightarrow> nat \<Rightarrow> nat \<Rightarrow> nat list" where
  "get_offsets readlen 0 off = []"
| "get_offsets readlen (Suc 0) off = [off]"
| "get_offsets readlen (Suc (Suc n)) off = off # get_offsets readlen (Suc n) (off + readlen + 2)"

definition pattern :: "nat \<Rightarrow> nat \<Rightarrow> nat list" where
  "pattern readlen k = get_offsets readlen readlen (k mod 3 + (k div 3) * (readlen + 2))"

definition BITMASK :: "nat \<Rightarrow> u64" where
  "BITMASK readlen = push_bit readlen 1 - 1"

fun extract_hash :: "nat \<Rightarrow> nat \<Rightarrow> u128 \<Rightarrow> nat list \<Rightarrow> u64" where
  "extract_hash n readlen bits [] = 0"
| "extract_hash n readlen bits (bit_offset # t) =
     push_bit (length t * readlen) (ucast (drop_bit (n - bit_offset - readlen) bits) AND BITMASK readlen)
     OR extract_hash n readlen bits t"

definition ahash_ORDER :: "nat list" where "ahash_ORDER = [4, 5, 7, 3, 1, 8, 0, 2, 6]"
definition ahash_FAST :: nat where "ahash_FAST = 5"
definition ahash_ALL :: nat where "ahash_ALL = 9"

definition cell_area :: "nat \<Rightarrow> nat" where "cell_area cellsize = (cellsize + 2) * (cellsize + 2)"

record ahash_result =
  ah_bits :: u128
  ah_mode :: nat
  ah_results :: "u64 list"

definition extract_all :: "nat \<Rightarrow> u128 \<Rightarrow> u64 list" where
  "extract_all cellsize bits = map (\<lambda>k. extract_hash (cell_area cellsize) cellsize bits (pattern cellsize k)) [0, 1, 2, 3, 4, 5, 6, 7, 8]"

definition extract_fast :: "nat \<Rightarrow> u128 \<Rightarrow> u64 list" where
  "extract_fast cellsize bits = (let e = (\<lambda>k. extract_hash (cell_area cellsize) cellsize bits (pattern cellsize k)) in
     [0, e 1, 0, e 3, e 4, e 5, 0, e 7, 0])"

definition ahash_create :: "nat \<Rightarrow> u128 \<Rightarrow> nat \<Rightarrow> ahash_result" where
  "ahash_create cellsize bits mode =
     \<lparr>ah_bits = bits, ah_mode = mode,
      ah_results = (if mode = ahash_ALL then extract_all cellsize bits else extract_fast cellsize bits)\<rparr>"

text \<open>What a loop from \<open>begin\<close> to \<open>end\<close> sees.\<close>

definition ahash_iterate :: "ahash_result \<Rightarrow> (nat \<times> u64) list" where
  "ahash_iterate hr = map (\<lambda>i. (ahash_ORDER ! i, ah_results hr ! (ahash_ORDER ! i))) [0..<ah_mode hr]"

section \<open>The hashes\<close>

definition popcnt64 :: "u64 \<Rightarrow> nat" where
  "popcnt64 x = length (filter (bit x) [0..<64])"

definition hamming_distance :: "u64 \<Rightarrow> u64 \<Rightarrow> nat" where
  "hamming_distance a b = popcnt64 (a XOR b)"

fun fuzzy_rows :: "bitmatrix \<Rightarrow> nat \<Rightarrow> nat list \<Rightarrow> nat \<Rightarrow> u128 \<Rightarrow> u128 option" where
  "fuzzy_rows img readlen [] bitpos res = Some res"
| "fuzzy_rows img readlen (i # rows) bitpos res = do {
     r \<leftarrow> bm_get img 0 i readlen;
     fuzzy_rows img readlen rows (bitpos - readlen) (res OR push_bit bitpos (ucast (ucast r :: u32)))
   }"

definition fuzzy_ahash :: "nat \<Rightarrow> bitmatrix \<Rightarrow> nat \<Rightarrow> ahash_result option" where
  "fuzzy_ahash cellsize img mode = (let readlen = cellsize + 2 in
     map_option (\<lambda>res. ahash_create cellsize res mode) (fuzzy_rows img readlen [0..<readlen] (readlen * readlen - readlen) 0))"

text \<open>An image of one channel, of at most eight rows and columns; a threshold of 0 stands for the mean.\<close>

definition mean_of_grays :: "u8 list \<Rightarrow> u8" where
  "mean_of_grays p = (let all = sum_list (map ucast p) :: u16; count = of_nat (length p) :: u16 in
     if count = 0 then 0 else of_nat (unat all div unat count))"

definition average_hash :: "nat \<Rightarrow> nat \<Rightarrow> u8 list \<Rightarrow> u8 \<Rightarrow> u64" where
  "average_hash rows cols p threshold = (let threshold = (if threshold = 0 then mean_of_grays p else threshold) in
     foldl (\<lambda>res k. res OR push_bit (rows * cols - 1 - k) (if p ! k > threshold then 1 else 0)) 0 [0..<rows * cols])"

section \<open>The symbol search\<close>

text \<open>The distances of one window to the tiles; the answer says whether the search is over.\<close>

record search =
  se_fit :: nat
  se_drift :: nat
  se_distance :: nat

fun search_tiles :: "u64 \<Rightarrow> nat \<Rightarrow> nat \<Rightarrow> u64 list \<Rightarrow> search \<Rightarrow> search \<times> bool" where
  "search_tiles h drift_idx i [] s = (s, False)"
| "search_tiles h drift_idx i (t # ts) s =
     (let distance = hamming_distance h t in
      if distance < se_distance s then
        (if distance = 0 then (\<lparr>se_fit = i, se_drift = drift_idx, se_distance = distance\<rparr>, True)
         else search_tiles h drift_idx (i + 1) ts \<lparr>se_fit = i, se_drift = drift_idx, se_distance = distance\<rparr>)
      else search_tiles h drift_idx (i + 1) ts s)"

fun search_windows :: "u64 list \<Rightarrow> nat \<Rightarrow> (nat \<times> u64) list \<Rightarrow> search \<Rightarrow> search" where
  "search_windows tiles cooldown [] s = s"
| "search_windows tiles cooldown ((drift_idx, h) # ws) s =
     (if drift_idx = cooldown then search_windows tiles cooldown ws s
      else case search_tiles h drift_idx 0 tiles s of
        (s, True) \<Rightarrow> s
      | (s, False) \<Rightarrow> search_windows tiles cooldown ws s)"

definition get_best_symbol :: "u64 list \<Rightarrow> ahash_result \<Rightarrow> nat \<Rightarrow> search" where
  "get_best_symbol tileHashes results cooldown =
     search_windows tileHashes (if cooldown = 4 then 0xFF else cooldown) (ahash_iterate results)
       \<lparr>se_fit = 0, se_drift = 0, se_distance = 1000\<rparr>"

definition decode_symbol :: "nat \<Rightarrow> u64 list \<Rightarrow> bitmatrix \<Rightarrow> nat \<Rightarrow> search option" where
  "decode_symbol cellsize tileHashes cell cooldown =
     map_option (\<lambda>results. get_best_symbol tileHashes results cooldown)
       (fuzzy_ahash cellsize cell (if cooldown = 0xFE then ahash_ALL else ahash_FAST))"

section \<open>The windows\<close>

lemma bit_BITMASK: "bit (BITMASK n) j \<longleftrightarrow> j < n \<and> j < 64"
proof -
  have "BITMASK n = mask n" by (simp add: BITMASK_def mask_eq_exp_minus_1)
  then show ?thesis by (auto simp: bit_mask_iff)
qed

lemma bit_extract_hash:
  assumes "0 < readlen" "length os * readlen \<le> 64" "\<forall>off\<in>set os. off + readlen \<le> n"
  shows "bit (extract_hash n readlen bits os) j \<longleftrightarrow> j < length os * readlen \<and>
    bit bits (n - os ! (length os - 1 - j div readlen) - readlen + j mod readlen)"
  using assms(2,3)
proof (induction os)
  case (Cons off os)
  let ?l = "length os * readlen"
  have IH: "bit (extract_hash n readlen bits os) j \<longleftrightarrow> j < ?l \<and> bit bits (n - os ! (length os - 1 - j div readlen) - readlen + j mod readlen)"
    using Cons by simp
  have head: "bit (push_bit ?l (ucast (drop_bit (n - off - readlen) bits) AND BITMASK readlen) :: u64) j \<longleftrightarrow>
    ?l \<le> j \<and> j < ?l + readlen \<and> bit bits (n - off - readlen + (j - ?l))"
    using Cons.prems(1) by (auto simp: bit_simps bit_BITMASK)
  show ?case
  proof (cases "j < ?l")
    case True
    then have "j div readlen < length os" by (simp add: less_mult_imp_div_less)
    then have "(off # os) ! (length os - j div readlen) = os ! (length os - 1 - j div readlen)" by (simp add: nth_Cons')
    then show ?thesis using True head IH by (simp add: bit_or_iff)
  next
    case False
    show ?thesis
    proof (cases "j < ?l + readlen")
      case True
      obtain t where "j = length os * readlen + t" "t < readlen" using True False le_Suc_ex [of ?l j] by auto
      then have "j div readlen = length os" "j mod readlen = j - ?l" using assms(1) by simp_all
      then show ?thesis using True False head IH by (simp add: bit_or_iff)
    qed (use False head IH in \<open>simp add: bit_or_iff\<close>)
  qed
qed simp

lemma get_offsets_map: "get_offsets readlen n off = map (\<lambda>i. off + i * (readlen + 2)) [0..<n]"
proof (induction readlen n off rule: get_offsets.induct)
  case (3 readlen n off)
  have "[0..<Suc (Suc n)] = 0 # map Suc [0..<Suc n]" by (simp add: map_Suc_upt upt_conv_Cons del: upt_Suc)
  then show ?case using 3 by (simp add: comp_def algebra_simps del: upt_Suc)
qed simp_all

lemma bm_get_bits:
  assumes "(y + bm_ystart m) * bm_width m + (x + bm_xstart m) + n \<le> 8 * length (bb_buffer (bm_buff m))"
    and "8 * length (bb_buffer (bm_buff m)) < 2 ^ 32" "n \<le> 64" "y + bm_ystart m < 2 ^ 32"
  shows "\<exists>v. bm_get m x y n = Some v \<and>
    (\<forall>j. bit v j \<longleftrightarrow> j < n \<and> bit_at (bb_buffer (bm_buff m)) (bm_xstart m + x + (bm_ystart m + y) * bm_width m + n - 1 - j))"
proof -
  let ?i = "(x + bm_xstart m) + (y + bm_ystart m) * bm_width m"
  have "?i + n \<le> 8 * length (bb_buffer (bm_buff m))" using assms(1) by linarith
  then obtain v where v: "bb_read (bm_buff m) ?i n = Some v"
    "\<forall>j. bit v j \<longleftrightarrow> j < n \<and> bit_at (bb_buffer (bm_buff m)) (?i + n - 1 - j)"
    using bb_read_bits [OF _ assms(3)] by blast
  have "(y + bm_ystart m) * bm_width m < 2 ^ 32" "?i < 2 ^ 32" "x + bm_xstart m < 2 ^ 32" using assms(1,2) by linarith+
  then have "bm_get m x y n = Some v" using v(1) assms(4) unfolding bm_get_def Let_def uint_add_def by simp
  moreover have "?i = bm_xstart m + x + (bm_ystart m + y) * bm_width m" by (simp add: add.commute)
  ultimately show ?thesis using v(2) by metis
qed

text \<open>The cell lies in the image.\<close>

definition cell_inside :: "nat \<Rightarrow> bitmatrix \<Rightarrow> bool" where
  "cell_inside readlen m \<longleftrightarrow> bm_xstart m + readlen \<le> bm_width m \<and>
     (bm_ystart m + readlen) * bm_width m \<le> 8 * length (bb_buffer (bm_buff m)) \<and> 8 * length (bb_buffer (bm_buff m)) < 2 ^ 32"

definition pixel :: "bitmatrix \<Rightarrow> nat \<Rightarrow> nat \<Rightarrow> bool" where
  "pixel m x y = bit_at (bb_buffer (bm_buff m)) (bm_xstart m + x + (bm_ystart m + y) * bm_width m)"

lemma row_col:
  fixes a b l :: nat
  assumes "b < l"
  shows "(a * l + b) div l = a" "(a * l + b) mod l = b"
  using assms by simp_all

lemma bit_row:
  fixes v :: u64
  assumes "\<And>k. bit v k \<Longrightarrow> k < l" "l \<le> 32" "b + l \<le> 128"
  shows "bit (push_bit b (ucast (ucast v :: u32)) :: u128) j \<longleftrightarrow> b \<le> j \<and> j < b + l \<and> bit v (j - b)"
proof (cases "b \<le> j")
  case True
  then obtain k where k: "j = b + k" using le_Suc_ex by blast
  have "bit v k \<Longrightarrow> k < 32 \<and> b + k < 128 \<and> k < l" using assms(1) [of k] assms(2,3) by linarith
  then show ?thesis unfolding k by (auto simp: bit_simps)
qed (simp add: bit_simps)

lemma fuzzy_rows_bits:
  assumes inside: "cell_inside l m" and l: "0 < l" "l * l \<le> 128" "l \<le> 32"
  shows "i \<le> l \<Longrightarrow> \<exists>res'. fuzzy_rows m l [i..<l] (l * l - l - i * l) res = Some res' \<and>
    (\<forall>j. bit res' j \<longleftrightarrow> bit res j \<or> j < l * l - i * l \<and> pixel m ((l * l - 1 - j) mod l) ((l * l - 1 - j) div l))"
proof (induction "l - i" arbitrary: i res)
  case 0
  then show ?case by simp
next
  case (Suc n)
  then have i: "i < l" by simp
  let ?b = "l * l - l - i * l" and ?buf = "bb_buffer (bm_buff m)"
  have row: "(i + bm_ystart m) * bm_width m + bm_width m \<le> (bm_ystart m + l) * bm_width m"
    using mult_le_mono1 [of "Suc (i + bm_ystart m)" "bm_ystart m + l" "bm_width m"] i by simp
  have w: "0 < bm_width m" using inside l by (simp add: cell_inside_def)
  have "i + bm_ystart m \<le> (i + bm_ystart m) * bm_width m" using w by simp
  then have "i + bm_ystart m < 2 ^ 32" "(i + bm_ystart m) * bm_width m + (0 + bm_xstart m) + l \<le> 8 * length ?buf"
    using row inside unfolding cell_inside_def by linarith+
  then obtain v where v: "bm_get m 0 i l = Some v"
    "\<forall>j. bit v j \<longleftrightarrow> j < l \<and> bit_at ?buf (bm_xstart m + 0 + (bm_ystart m + i) * bm_width m + l - 1 - j)"
    using bm_get_bits [of i m 0 l] inside l unfolding cell_inside_def by auto
  let ?res = "res OR push_bit ?b (ucast (ucast v :: u32))"
  have step: "bit ?res j \<longleftrightarrow> bit res j \<or> l * l - Suc i * l \<le> j \<and> j < l * l - i * l \<and> pixel m ((l * l - 1 - j) mod l) ((l * l - 1 - j) div l)" for j
  proof -
    have il: "i * l + l \<le> l * l" using mult_le_mono1 [of "Suc i" l l] i by simp
    have e: "l * l - Suc i * l = ?b" "l * l - i * l = ?b + l" using il by simp_all
    have "bit (push_bit ?b (ucast (ucast v :: u32)) :: u128) j \<longleftrightarrow> ?b \<le> j \<and> j < ?b + l \<and> bit v (j - ?b)"
    proof (rule bit_row)
      show "k < l" if "bit v k" for k using v(2) that by simp
      have "?b + l \<le> l * l" using il by simp
      then show "?b + l \<le> 128" using l(2) by linarith
    qed (rule l(3))
    moreover have "bit v (j - ?b) \<longleftrightarrow> pixel m ((l * l - 1 - j) mod l) ((l * l - 1 - j) div l)" if "?b \<le> j" "j < ?b + l"
    proof -
      define t where "t = j - ?b"
      have t: "j = ?b + t" "t < l" using that unfolding t_def by linarith+
      define k where "k = l - 1 - t"
      have k: "l * l - 1 - j = i * l + k" "k < l" "l - 1 - t = k" unfolding t(1) k_def using il t(2) by linarith+
      have "(l * l - 1 - j) div l = i" "(l * l - 1 - j) mod l = k" unfolding k(1) using k(2) by simp_all
      moreover have "bit v t \<longleftrightarrow> bit_at ?buf (bm_xstart m + 0 + (bm_ystart m + i) * bm_width m + k)"
      proof -
        have "bm_xstart m + 0 + (bm_ystart m + i) * bm_width m + l - 1 - t = bm_xstart m + 0 + (bm_ystart m + i) * bm_width m + k"
          unfolding k_def using t(2) by linarith
        then show ?thesis using v(2) t(2) by metis
      qed
      ultimately show ?thesis using t(1) by (simp add: pixel_def ac_simps)
    qed
    ultimately show ?thesis unfolding e bit_or_iff by blast
  qed
  have b': "?b - l = l * l - l - Suc i * l" by simp
  have less: "n = l - Suc i" "Suc i \<le> l" using Suc.hyps(2) i by simp_all
  obtain res' where r: "fuzzy_rows m l [Suc i..<l] (?b - l) ?res = Some res'"
    "\<And>j. bit res' j \<longleftrightarrow> bit ?res j \<or> j < l * l - Suc i * l \<and> pixel m ((l * l - 1 - j) mod l) ((l * l - 1 - j) div l)"
    using Suc.hyps(1) [OF less, of ?res] i unfolding b' by auto
  have "fuzzy_rows m l [i..<l] ?b res = Some res'" unfolding upt_conv_Cons [OF i] using v(1) r(1) by simp
  moreover have "bit res' j \<longleftrightarrow> bit res j \<or> j < l * l - i * l \<and> pixel m ((l * l - 1 - j) mod l) ((l * l - 1 - j) div l)" for j
  proof -
    have "l * l - Suc i * l \<le> l * l - i * l" by simp
    then have "j < l * l - i * l \<longleftrightarrow> j < l * l - Suc i * l \<or> l * l - Suc i * l \<le> j \<and> j < l * l - i * l" by linarith
    then show ?thesis unfolding r(2) step by blast
  qed
  ultimately show ?case by blast
qed

text \<open>The pixels of the window \<open>k\<close> of a cell, row by row, as an image of black and white.\<close>

definition window :: "nat \<Rightarrow> bitmatrix \<Rightarrow> nat \<Rightarrow> u8 list" where
  "window cellsize m k = map (\<lambda>u. if pixel m (k mod 3 + u mod cellsize) (k div 3 + u div cellsize) then 255 else 0) [0..<cellsize * cellsize]"

lemma average_hash_bits:
  assumes "rows * cols \<le> 64" "threshold \<noteq> 0"
  shows "bit (average_hash rows cols p threshold) j \<longleftrightarrow> j < rows * cols \<and> p ! (rows * cols - 1 - j) > threshold"
proof -
  let ?n = "rows * cols"
  have "bit (foldl (\<lambda>res k. res OR push_bit (?n - 1 - k) (if p ! k > threshold then 1 else 0)) 0 [0..<m] :: u64) j \<longleftrightarrow>
    ?n - m \<le> j \<and> j < ?n \<and> p ! (?n - 1 - j) > threshold" if "m \<le> ?n" for m
    using that
  proof (induction m)
    case (Suc m)
    have "bit (push_bit (?n - 1 - m) (if p ! m > threshold then 1 else 0) :: u64) j \<longleftrightarrow> j = ?n - 1 - m \<and> p ! m > threshold"
      using Suc.prems assms(1) by (auto simp: bit_simps)
    moreover have "j = ?n - 1 - m \<longleftrightarrow> j < ?n \<and> m = ?n - 1 - j" using Suc.prems by arith
    moreover have "?n - Suc m \<le> j \<longleftrightarrow> ?n - m \<le> j \<or> j = ?n - 1 - m" using Suc.prems by arith
    ultimately show ?case using Suc by (auto simp: bit_or_iff)
  qed auto
  from this [of ?n] show ?thesis using assms(2) by (simp add: average_hash_def)
qed

definition sizes_ok :: "nat \<Rightarrow> bool" where
  "sizes_ok cellsize \<longleftrightarrow> 0 < cellsize \<and> cellsize \<le> 8"

lemma sizes_bounds:
  assumes "sizes_ok c"
  shows "c * c \<le> 64" "(c + 2) * (c + 2) \<le> 128"
  using mult_le_mono [of c 8 c 8] mult_le_mono [of "c + 2" 10 "c + 2" 10] assms by (simp_all add: sizes_ok_def)

lemma extracted_window:
  assumes c: "sizes_ok c" and k: "k < 9"
    and bits: "\<And>j. bit bits j \<longleftrightarrow> j < cell_area c \<and> pixel m ((cell_area c - 1 - j) mod (c + 2)) ((cell_area c - 1 - j) div (c + 2))"
  shows "extract_hash (cell_area c) c bits (pattern c k) = average_hash c c (window c m k) 1"
proof (rule bit_eqI)
  fix j
  let ?l = "c + 2" and ?dx = "k mod 3" and ?dy = "k div 3"
  have c0: "0 < c" "c * c \<le> 64" using c sizes_bounds [OF c] by (simp_all add: sizes_ok_def)
  have pat: "pattern c k = map (\<lambda>i. (?dx + ?dy * ?l) + i * ?l) [0..<c]" by (simp add: pattern_def get_offsets_map)
  have d: "?dx \<le> 2" "?dy \<le> 2" using k by auto
  have off: "?dx + ?dy * ?l + i * ?l + c + ((?l - c) - ?dx) + (2 - ?dy + (c - 1 - i)) * ?l = cell_area c" if "i < c" for i
  proof -
    have "?l - c - ?dx = 2 - ?dx" by simp
    moreover have "?dy * ?l + i * ?l + ?l + (2 - ?dy + (c - 1 - i)) * ?l = (?dy + i + 1 + (2 - ?dy + (c - 1 - i))) * ?l"
      by (simp add: add_mult_distrib)
    moreover have "?dy + i + 1 + (2 - ?dy + (c - 1 - i)) = ?l" using d that by simp
    ultimately show ?thesis using d by (simp add: cell_area_def)
  qed
  have off_le: "\<forall>off\<in>set (pattern c k). off + c \<le> cell_area c"
  proof
    fix x assume "x \<in> set (pattern c k)"
    then obtain i where "i < c" "x = ?dx + ?dy * ?l + i * ?l" unfolding pat by auto
    then show "x + c \<le> cell_area c" using off [of i] by linarith
  qed
  have len: "length (pattern c k) = c" by (simp add: pat)
  show "bit (extract_hash (cell_area c) c bits (pattern c k)) j \<longleftrightarrow> bit (average_hash c c (window c m k) 1) j"
  proof (cases "j < c * c")
    case True
    define i where "i = c - 1 - j div c"
    define t where "t = c - 1 - j mod c"
    have i: "i < c" "j div c = c - 1 - i" using True c0 less_mult_imp_div_less [of j c c] by (simp_all add: i_def)
    have "j mod c < c" using c0 by simp
    then have t: "t < c" "j mod c = c - 1 - t" unfolding t_def by linarith+
    have j: "j = (c - 1 - i) * c + (c - 1 - t)" using i(2) t(2) div_mult_mod_eq [of j c] by simp
    have u: "c * c - 1 - j = i * c + t"
    proof -
      have "(c - 1 - i) * c + c + i * c = c * c" using i(1) by (metis Suc_diff_Suc add.commute add_mult_distrib le_add_diff_inverse less_imp_le minus_nat.diff_0 mult_Suc plus_1_eq_Suc diff_Suc_eq_diff_pred)
      then show ?thesis unfolding j using t(1) by linarith
    qed
    have "pattern c k ! i = ?dx + ?dy * ?l + i * ?l" unfolding pat using i(1) by simp
    define q where "q = cell_area c - (?dx + ?dy * ?l + i * ?l) - c + (c - 1 - t)"
    have le: "?dx + ?dy * ?l + i * ?l + c \<le> cell_area c" using off [OF i(1)] by linarith
    then have "cell_area c - 1 - q = ?dx + ?dy * ?l + i * ?l + t" "q < cell_area c"
      unfolding q_def using t(1) by linarith+
    then have qq: "cell_area c - 1 - q = (?dy + i) * ?l + (?dx + t)" "q < cell_area c" by (simp_all add: add_mult_distrib)
    have "(cell_area c - 1 - q) mod ?l = ?dx + t" "(cell_area c - 1 - q) div ?l = ?dy + i"
      unfolding qq(1) by (rule row_col; use d t(1) in simp)+
    then have px: "bit bits q \<longleftrightarrow> pixel m (?dx + t) (?dy + i)" using bits [of q] qq(2) by simp
    have "bit (extract_hash (cell_area c) c bits (pattern c k)) j \<longleftrightarrow> pixel m (?dx + t) (?dy + i)"
    proof -
      have "length (pattern c k) - 1 - j div c = i" by (simp add: len i_def)
      then show ?thesis
        using bit_extract_hash [OF c0(1) _ off_le, of bits j] len c0(2) True t(2) px
        unfolding q_def \<open>pattern c k ! i = _\<close> [symmetric] by simp
    qed
    moreover have "i * c + t < c * c" using u True by linarith
    then have "bit (average_hash c c (window c m k) 1) j \<longleftrightarrow> pixel m (?dx + t) (?dy + i)"
      using average_hash_bits [OF c0(2), of 1 "window c m k" j] True u t(1) by (simp add: window_def)
    ultimately show ?thesis by simp
  next
    case False
    then show ?thesis
      using bit_extract_hash [OF c0(1) _ off_le, of bits j] average_hash_bits [OF c0(2), of 1 "window c m k" j] len c0(2) by simp
  qed
qed

lemma ahash_of_cell:
  assumes c: "sizes_ok c" and inside: "cell_inside (c + 2) m"
  shows "\<exists>hr. fuzzy_ahash c m mode = Some hr \<and> ah_mode hr = mode \<and>
    (\<forall>k<9. mode = ahash_ALL \<or> k \<in> {1, 3, 4, 5, 7} \<longrightarrow> ah_results hr ! k = average_hash c c (window c m k) 1)"
proof -
  let ?l = "c + 2"
  have "?l \<le> 32" using c by (simp add: sizes_ok_def)
  then obtain res where res: "fuzzy_rows m ?l [0..<?l] (?l * ?l - ?l) 0 = Some res"
    "\<And>j. bit res j \<longleftrightarrow> j < ?l * ?l \<and> pixel m ((?l * ?l - 1 - j) mod ?l) ((?l * ?l - 1 - j) div ?l)"
    using fuzzy_rows_bits [OF inside _ sizes_bounds(2) [OF c], of 0 0] by (auto simp del: upt_Suc)
  note w = extracted_window [OF c, of _ res m, unfolded cell_area_def, OF _ res(2), folded cell_area_def]
  have "fuzzy_ahash c m mode = Some (ahash_create c res mode)" using res(1) by (simp add: fuzzy_ahash_def del: upt_Suc)
  moreover have "ah_results (ahash_create c res mode) ! k = average_hash c c (window c m k) 1"
    if "k < 9" "mode = ahash_ALL \<or> k \<in> {1, 3, 4, 5, 7}" for k
  proof (cases "mode = ahash_ALL")
    case True
    have "[0, 1, 2, 3, 4, 5, 6, 7, 8] = [0..<9 :: nat]" by (simp add: upt_rec)
    then show ?thesis using True that w [of k] by (simp add: ahash_create_def extract_all_def)
  next
    case False
    then show ?thesis using that w [of k] by (auto simp: ahash_create_def extract_fast_def Let_def)
  qed
  ultimately show ?thesis by (auto simp: ahash_create_def)
qed

section \<open>The best symbol\<close>

lemma hamming_le: "hamming_distance a b \<le> 64"
  using length_filter_le [of "bit (a XOR b)" "[0..<64]"] by (simp add: hamming_distance_def popcnt64_def)

text \<open>A result comes from one of the windows, and nothing that was looked at is nearer.\<close>

definition found :: "u64 list \<Rightarrow> (nat \<times> u64) set \<Rightarrow> search \<Rightarrow> bool" where
  "found tiles ws s \<longleftrightarrow> (\<exists>(d, h)\<in>ws. se_fit s < length tiles \<and> se_drift s = d \<and> se_distance s = hamming_distance h (tiles ! se_fit s))"

lemma search_tiles_best:
  assumes "search_tiles h d i ts s = (s', fin)"
  shows "se_distance s' \<le> se_distance s \<and> (fin \<longrightarrow> se_distance s' = 0) \<and> (\<forall>t\<in>set ts. se_distance s' \<le> hamming_distance h t) \<and>
    (s' = s \<or> (\<exists>j<length ts. s' = \<lparr>se_fit = i + j, se_drift = d, se_distance = hamming_distance h (ts ! j)\<rparr>))"
  using assms
proof (induction ts arbitrary: i s)
  case (Cons t ts)
  let ?n = "\<lparr>se_fit = i, se_drift = d, se_distance = hamming_distance h t\<rparr>"
  show ?case
  proof (cases "hamming_distance h t < se_distance s")
    case less: True
    show ?thesis
    proof (cases "hamming_distance h t = 0")
      case True
      then show ?thesis using Cons.prems less by auto
    next
      case False
      then have "search_tiles h d (i + 1) ts ?n = (s', fin)" using Cons.prems less by simp
      note IH = Cons.IH [OF this]
      have "s' = ?n \<or> (\<exists>j<length ts. s' = \<lparr>se_fit = i + Suc j, se_drift = d, se_distance = hamming_distance h (ts ! j)\<rparr>)"
        using IH by simp
      then have "\<exists>j<length (t # ts). s' = \<lparr>se_fit = i + j, se_drift = d, se_distance = hamming_distance h ((t # ts) ! j)\<rparr>"
        by (metis Suc_less_eq add.right_neutral length_Cons nth_Cons_0 nth_Cons_Suc zero_less_Suc)
      then show ?thesis using IH less by auto
    qed
  next
    case False
    then have "search_tiles h d (i + 1) ts s = (s', fin)" using Cons.prems by simp
    note IH = Cons.IH [OF this]
    then have "s' = s \<or> (\<exists>j<length (t # ts). s' = \<lparr>se_fit = i + j, se_drift = d, se_distance = hamming_distance h ((t # ts) ! j)\<rparr>)"
      by (metis Suc_less_eq add_Suc_right add_Suc_shift length_Cons nth_Cons_Suc plus_1_eq_Suc add.commute)
    then show ?thesis using IH False by auto
  qed
qed simp

lemma search_windows_best:
  assumes "tiles \<noteq> []"
  shows "(let s' = search_windows tiles cd ws s in se_distance s' \<le> se_distance s \<and>
    (\<forall>(d, h)\<in>set ws. d \<noteq> cd \<longrightarrow> (\<forall>t\<in>set tiles. se_distance s' \<le> hamming_distance h t)) \<and>
    (s' = s \<or> found tiles {w \<in> set ws. fst w \<noteq> cd} s'))"
proof (induction ws arbitrary: s)
  case (Cons w ws)
  obtain d h where w: "w = (d, h)" by (cases w)
  show ?case
  proof (cases "d = cd")
    case True
    then show ?thesis using Cons [of s] by (auto simp: Let_def w found_def)
  next
    case False
    obtain s1 fin where 1: "search_tiles h d 0 tiles s = (s1, fin)" by fastforce
    note T = search_tiles_best [OF 1]
    have f1: "s1 = s \<or> found tiles {w' \<in> set (w # ws). fst w' \<noteq> cd} s1" using T False by (auto simp: found_def w)
    show ?thesis
    proof (cases fin)
      case True
      then have "search_windows tiles cd (w # ws) s = s1" "se_distance s1 = 0" using 1 T False by (simp_all add: w)
      then show ?thesis using f1 by (auto simp: Let_def)
    next
      case nf: False
      then have run: "search_windows tiles cd (w # ws) s = search_windows tiles cd ws s1" using 1 False by (simp add: w)
      let ?s = "search_windows tiles cd ws s1"
      have R: "se_distance ?s \<le> se_distance s1" "\<forall>(d, h)\<in>set ws. d \<noteq> cd \<longrightarrow> (\<forall>t\<in>set tiles. se_distance ?s \<le> hamming_distance h t)"
        "?s = s1 \<or> found tiles {w \<in> set ws. fst w \<noteq> cd} ?s" using Cons [of s1] by (simp_all add: Let_def)
      have "?s = s \<or> found tiles {w' \<in> set (w # ws). fst w' \<noteq> cd} ?s" using R(3) f1 by (auto simp: found_def)
      moreover have "\<forall>t\<in>set tiles. se_distance ?s \<le> hamming_distance h t" using T R(1) le_trans by blast
      moreover have "se_distance ?s \<le> se_distance s" using T R(1) by linarith
      ultimately show ?thesis using R(2) unfolding run by (auto simp: Let_def w)
    qed
  qed
qed (simp add: Let_def)

definition allowed_drifts :: "nat \<Rightarrow> nat set" where
  "allowed_drifts cooldown = (if cooldown = 0xFE then {4, 5, 7, 3, 1, 8, 0, 2, 6} else {4, 5, 7, 3, 1}) - (if cooldown = 4 then {} else {cooldown})"

lemma iterate_windows:
  assumes "ah_mode hr = (if cooldown = 0xFE then ahash_ALL else ahash_FAST)"
  shows "set (ahash_iterate hr) =
    (\<lambda>k. (k, ah_results hr ! k)) ` (if cooldown = 0xFE then {4, 5, 7, 3, 1, 8, 0, 2, 6} else {4, 5, 7, 3, 1})"
proof -
  have "set (map ((!) ahash_ORDER) [0..<9]) = {4, 5, 7, 3, 1, 8, 0, 2, 6}" "set (map ((!) ahash_ORDER) [0..<5]) = {4, 5, 7, 3, 1}"
    by (simp_all add: ahash_ORDER_def upt_rec)
  then have "(!) ahash_ORDER ` set [0..<ah_mode hr] = (if cooldown = 0xFE then {4, 5, 7, 3, 1, 8, 0, 2, 6} else {4, 5, 7, 3, 1})"
    unfolding assms ahash_ALL_def ahash_FAST_def by simp
  then have "(\<lambda>k. (k, ah_results hr ! k)) ` (if cooldown = 0xFE then {4, 5, 7, 3, 1, 8, 0, 2, 6} else {4, 5, 7, 3, 1}) =
      (\<lambda>k. (k, ah_results hr ! k)) ` (!) ahash_ORDER ` set [0..<ah_mode hr]" by (rule arg_cong [OF sym])
  also have "\<dots> = set (ahash_iterate hr)" unfolding image_image ahash_iterate_def set_map ..
  finally show ?thesis by (rule sym)
qed

lemma decode_symbol_found:
  assumes c: "sizes_ok c" and inside: "cell_inside (c + 2) cell" and tiles: "tiles \<noteq> []"
  shows "\<exists>s. decode_symbol c tiles cell cooldown = Some s \<and> se_fit s < length tiles \<and> se_drift s \<in> allowed_drifts cooldown \<and>
    se_distance s = hamming_distance (average_hash c c (window c cell (se_drift s)) 1) (tiles ! se_fit s) \<and> se_distance s \<le> 64 \<and>
    (\<forall>k\<in>allowed_drifts cooldown. \<forall>t\<in>set tiles. se_distance s \<le> hamming_distance (average_hash c c (window c cell k) 1) t)"
proof -
  let ?mode = "if cooldown = 0xFE then ahash_ALL else ahash_FAST"
  let ?cd = "if cooldown = 4 then 0xFF else cooldown"
  let ?K = "if cooldown = 0xFE then {4, 5, 7, 3, 1, 8, 0, 2, 6} else {4, 5, 7, 3, 1 :: nat}"
  let ?s0 = "\<lparr>se_fit = 0, se_drift = 0, se_distance = 1000\<rparr>"
  obtain hr where hr: "fuzzy_ahash c cell ?mode = Some hr" "ah_mode hr = ?mode"
    "\<And>k. k < 9 \<Longrightarrow> ?mode = ahash_ALL \<or> k \<in> {1, 3, 4, 5, 7} \<Longrightarrow> ah_results hr ! k = average_hash c c (window c cell k) 1"
    using ahash_of_cell [OF c inside, of ?mode] by blast
  have h: "ah_results hr ! k = average_hash c c (window c cell k) 1" if "k \<in> ?K" for k
    using that hr(3) [of k] by (auto split: if_splits)
  have ws: "set (ahash_iterate hr) = (\<lambda>k. (k, ah_results hr ! k)) ` ?K" using iterate_windows [OF hr(2)] .
  have ex: "allowed_drifts cooldown = {k \<in> ?K. k \<noteq> ?cd}" by (auto simp: allowed_drifts_def)
  define s where "s = get_best_symbol tiles hr cooldown"
  have B: "\<forall>(d, h)\<in>set (ahash_iterate hr). d \<noteq> ?cd \<longrightarrow> (\<forall>t\<in>set tiles. se_distance s \<le> hamming_distance h t)"
    "s = ?s0 \<or> found tiles {w \<in> set (ahash_iterate hr). fst w \<noteq> ?cd} s"
    using search_windows_best [OF tiles, of ?cd "ahash_iterate hr" ?s0] by (simp_all add: Let_def s_def get_best_symbol_def)
  have min: "\<forall>k\<in>allowed_drifts cooldown. \<forall>t\<in>set tiles. se_distance s \<le> hamming_distance (average_hash c c (window c cell k) 1) t"
    using B(1) h unfolding ws ex by fastforce
  have "4 \<in> allowed_drifts cooldown \<or> 5 \<in> allowed_drifts cooldown" by (auto simp: allowed_drifts_def)
  then obtain k where "k \<in> allowed_drifts cooldown" by blast
  then have le: "se_distance s \<le> 64" using min tiles hamming_le le_trans by (metis list.set_intros(1) neq_Nil_conv)
  then have "found tiles {w \<in> set (ahash_iterate hr). fst w \<noteq> ?cd} s" using B(2) by auto
  then have "se_fit s < length tiles \<and> se_drift s \<in> allowed_drifts cooldown \<and>
    se_distance s = hamming_distance (average_hash c c (window c cell (se_drift s)) 1) (tiles ! se_fit s)"
    using h unfolding found_def ws ex by auto
  then show ?thesis using hr(1) le min by (auto simp: decode_symbol_def s_def)
qed

text \<open>C33: a cell that lies in the image is decoded, with an access to the bits of the image only, to the
  tile and the drift with the least Hamming distance between the average hash of the drifted window and
  the hash of the tile, over all tiles and all windows that the cooldown leaves; the distance is at most
  64 and is reported with them. In particular the shifts and masks that take nine hashes from one read
  give what average_hash gives for each window on its own.\<close>

theorem decode_symbol_best:
  assumes c: "sizes_ok c" and inside: "cell_inside (c + 2) cell" and tiles: "tiles \<noteq> []"
  shows "\<exists>s. decode_symbol c tiles cell cooldown = Some s \<and> se_fit s < length tiles \<and> se_drift s \<in> allowed_drifts cooldown \<and>
    se_distance s = hamming_distance (average_hash c c (window c cell (se_drift s)) 1) (tiles ! se_fit s) \<and> se_distance s \<le> 64 \<and>
    (\<forall>k\<in>allowed_drifts cooldown. \<forall>t\<in>set tiles. se_distance s \<le> hamming_distance (average_hash c c (window c cell k) 1) t)"
  by (rule decode_symbol_found [OF assms])

theorem decode_symbol_best_witness:
  "let cell = \<lparr>bm_buff = \<lparr>bb_buffer = replicate 20 0x5A, bb_sizeHint = 20\<rparr>, bm_xstart = 1, bm_ystart = 2, bm_width = 16, bm_height = 10\<rparr> in
   \<exists>s. decode_symbol 5 [0, 7] cell 4 = Some s \<and> se_fit s < length [0, 7 :: u64] \<and> se_drift s \<in> allowed_drifts 4 \<and>
    se_distance s = hamming_distance (average_hash 5 5 (window 5 cell (se_drift s)) 1) ([0, 7] ! se_fit s) \<and> se_distance s \<le> 64 \<and>
    (\<forall>k\<in>allowed_drifts 4. \<forall>t\<in>set [0, 7]. se_distance s \<le> hamming_distance (average_hash 5 5 (window 5 cell k) 1) t)"
  unfolding Let_def
proof (rule decode_symbol_best)
  show "sizes_ok 5" by (simp add: sizes_ok_def)
  show "cell_inside (5 + 2) \<lparr>bm_buff = \<lparr>bb_buffer = replicate 20 0x5A, bb_sizeHint = 20\<rparr>, bm_xstart = 1, bm_ystart = 2, bm_width = 16, bm_height = 10\<rparr>"
    by (simp add: cell_inside_def)
qed simp

end
