(* ===== verification/CimbReader.thy ===== *)
theory CimbReader
  imports FloodDecode ImageHash GridConfig
begin

text \<open>
  \<open>CimbReader\<close>: reading the symbols of a frame. The image comes in as the pixels after the grayscale
  conversion and the adaptive threshold of OpenCV, row by row; the colour correction is left out. Of
  the decoder the reader uses the hashes of the tiles. Coordinates are integers, and a bit matrix takes
  them modulo \<open>2 ^ 32\<close>.
\<close>

section \<open>The reader\<close>

record PositionData =
  pd_i :: nat
  pd_x :: int
  pd_y :: int

record CimbReader =
  cr_cols :: nat
  cr_rows :: nat
  cr_grayscale :: bitbuffer
  cr_gridPadding :: nat
  cr_positions :: FloodDecodePositions
  cr_tileHashes :: "u64 list"
  cr_good :: bool

definition preprocessSymbolGrid :: "u8 list \<Rightarrow> nat \<Rightarrow> nat \<Rightarrow> bitbuffer option" where
  "preprocessSymbolGrid symbols cols rows =
     map_option fst (mat_to_bitbuffer symbols (get_writer (bb_create (rows * cols div 8)) 0))"

definition cr_create :: "conf \<Rightarrow> u8 list \<Rightarrow> nat \<Rightarrow> nat \<Rightarrow> u64 list \<Rightarrow> CimbReader option" where
  "cr_create conf symbols cols rows tileHashes = do {
     px \<leftarrow> corner_padding_x conf;
     py \<leftarrow> corner_padding_y conf;
     let padding = min (uint_sub cols (image_size_x conf)) (uint_sub rows (image_size_y conf)) div 2;
     positions \<leftarrow> fd_create (int (cell_spacing_x conf), int (cell_spacing_y conf))
       (int (cells_per_col_x conf), int (cells_per_col_y conf)) (int (uint_add (cell_offset conf) padding)) (int px, int py);
     grayscale \<leftarrow> preprocessSymbolGrid symbols cols rows;
     Some \<lparr>cr_cols = cols, cr_rows = rows, cr_grayscale = grayscale, cr_gridPadding = padding, cr_positions = positions,
       cr_tileHashes = tileHashes, cr_good = (cols \<ge> image_size_x conf \<and> rows \<ge> image_size_y conf)\<rparr>
   }"

definition cr_done :: "CimbReader \<Rightarrow> bool" where
  "cr_done r \<longleftrightarrow> \<not> cr_good r \<or> fd_done (cr_positions r)"

definition num_reads :: "CimbReader \<Rightarrow> nat" where
  "num_reads r = length (fd_positions (cr_positions r))"

definition to_uint :: "int \<Rightarrow> nat" where
  "to_uint x = nat (x mod 2 ^ 32)"

definition cr_cell :: "CimbReader \<Rightarrow> int \<Rightarrow> int \<Rightarrow> bitmatrix" where
  "cr_cell r x y = \<lparr>bm_buff = cr_grayscale r, bm_xstart = to_uint (x - 1), bm_ystart = to_uint (y - 1),
     bm_width = cr_cols r, bm_height = cr_rows r\<rparr>"

definition cr_read :: "(decode_prio list \<Rightarrow> decode_prio) \<Rightarrow> CimbReader \<Rightarrow> PositionData \<Rightarrow> (nat \<times> PositionData \<times> CimbReader) option" where
  "cr_read pick r pos =
     (if cr_done r then Some (0, pos, r)
      else do {
        (it, fd) \<leftarrow> fd_next pick (cr_positions r);
        let i = fst it;
        let xy = fst (snd it);
        let drift = fst (snd (snd it));
        let cooldown = snd (snd (snd it));
        let x = fst xy + fst drift;
        let y = snd xy + snd drift;
        s \<leftarrow> decode_symbol config_cell_size (cr_tileHashes r) (cr_cell r x y) (unat cooldown);
        best_drift \<leftarrow> rd driftPairs (se_drift s);
        fd \<leftarrow> fd_update fd i (updateDrift drift (fst best_drift) (snd best_drift)) (se_distance s)
          (calculate_cooldown cooldown (of_nat (se_drift s)));
        Some (se_fit s, \<lparr>pd_i = i, pd_x = x + fst best_drift, pd_y = y + snd best_drift\<rparr>, r\<lparr>cr_positions := fd\<rparr>)
      })"

section \<open>The drifts that are handed on\<close>

definition drifts_in :: "CellDrift set \<Rightarrow> FloodDecodePositions \<Rightarrow> bool" where
  "drifts_in D fd \<longleftrightarrow> (\<forall>di\<in>set (fd_instructions fd). fst di \<in> D)"

lemma drifts_in_update:
  assumes "drifts_in D fd" "fst di \<in> D"
  shows "\<forall>di\<in>set ((fd_instructions fd)[i := di]). fst di \<in> D"
  using assms set_update_subset_insert [of "fd_instructions fd" i di] unfolding drifts_in_def by fast

lemma update_adjacents_drifts:
  "for_each adj (update_adjacent d e c) fd = Some fd' \<Longrightarrow> drifts_in D fd \<Longrightarrow> d \<in> D \<Longrightarrow> drifts_in D fd'"
proof (induction adj arbitrary: fd)
  case (Cons j js)
  obtain fd1 where 1: "update_adjacent d e c j fd = Some fd1" "for_each js (update_adjacent d e c) fd1 = Some fd'"
    using Cons.prems(1) by (auto split: option.splits)
  have "drifts_in D fd1"
    using 1(1) Cons.prems(2,3) drifts_in_update [OF Cons.prems(2), of "(d, of_nat e, c)" "nat j"]
    by (auto simp: update_adjacent_def drifts_in_def rd_eq_Some bind_eq_Some_conv split: if_splits)
  then show ?case using Cons.IH 1(2) Cons.prems(3) by blast
qed simp

lemma beyond_drifts: "beyond f h i j d e c fd = Some fd' \<Longrightarrow> drifts_in D fd \<Longrightarrow> d \<in> D \<Longrightarrow> drifts_in D fd'"
  by (auto simp: beyond_def update_adjacents_def bind_eq_Some_conv simp del: for_each.simps intro: update_adjacents_drifts split: if_splits)

lemma fd_update_drifts:
  assumes "fd_update fd i d e c = Some fd'" "drifts_in D fd" "d \<in> D"
  shows "drifts_in D fd'"
proof -
  obtain adj fd1 and di :: decode_instructions and fd2 where u: "update_adjacents adj d e c fd = Some fd1"
    "(if fst (snd di) < 3 \<and> e < 3 \<and> snd (snd di) = 4 \<and> c = 4
       then do { fd \<leftarrow> beyond af_right af_left (adj ! 0) (adj ! 1) d e c fd1; beyond af_top af_bottom (adj ! 3) (adj ! 2) d e c fd }
       else Some fd1) = Some fd2"
    "i < length (fd_instructions fd2)"
    "fd' = fd2\<lparr>fd_instructions := (fd_instructions fd2)[i := (fst (fd_instructions fd2 ! i), of_nat e, c)]\<rparr>"
    using assms(1) unfolding fd_update_def bind_eq_Some_conv rd_eq_Some by blast
  have "drifts_in D fd1" using u(1) assms(2,3) update_adjacents_drifts unfolding update_adjacents_def by blast
  then have 2: "drifts_in D fd2" using u(2) assms(3) by (auto simp: bind_eq_Some_conv intro: beyond_drifts split: if_splits)
  then have "fst (fd_instructions fd2 ! i) \<in> D" using u(3) by (simp add: drifts_in_def)
  then show ?thesis using drifts_in_update [OF 2, of "(fst (fd_instructions fd2 ! i), of_nat e, c)" i] by (simp add: u(4) drifts_in_def)
qed

lemma fd_next_drifts:
  "fd_next pick fd = Some (it, fd') \<Longrightarrow> drifts_in D fd \<Longrightarrow> (0, 0) \<in> D \<Longrightarrow> drifts_in D fd' \<and> fst (snd (snd it)) \<in> D"
proof (induction pick fd rule: fd_next.induct)
  case (1 pick fd)
  let ?e = "pick (fd_heap fd)"
  let ?fd = "fd\<lparr>fd_heap := remove1 ?e (fd_heap fd)\<rparr>"
  note E = fd_next.simps [of pick fd]
  show ?case
  proof (cases "fd_heap fd = []")
    case True
    then show ?thesis using "1.prems" E by auto
  next
    case ne: False
    then obtain b where b: "is_top ?e (fd_heap fd)" "rd (fd_remaining fd) (unat (fst ?e)) = Some b"
      using "1.prems"(1) E by (auto simp: Let_def rd_def split: if_splits)
    show ?thesis
    proof (cases b)
      case True
      let ?di = "fd_instructions fd ! unat (fst ?e)"
      have "unat (fst ?e) < length (fd_instructions fd) \<and> fst (snd (snd it)) = fst ?di \<and> fd_instructions fd' = fd_instructions fd"
        using True "1.prems"(1) E ne b by (auto simp: Let_def bind_eq_Some_conv rd_eq_Some)
      then show ?thesis using "1.prems"(2) by (simp add: drifts_in_def)
    next
      case False
      have "fd_next pick ?fd = Some (it, fd')" using "1.prems"(1) E ne b False by (simp add: Let_def)
      moreover have "drifts_in D ?fd" using "1.prems"(2) by (simp add: drifts_in_def)
      ultimately show ?thesis using "1.IH" [OF ne refl refl refl _ b(2)] b False "1.prems"(3) by simp
    qed
  qed
qed

lemma fd_create_drifts: "fd_create sp dims off ms = Some fd \<Longrightarrow> drifts_in D fd \<longleftrightarrow> (0, 0) \<in> D \<or> compute_linear sp dims off ms = []"
  by (auto simp: fd_create_def compute_def fd_reset_def drifts_in_def Let_def)

section \<open>Reads stay in the image\<close>

definition conf_sp :: "conf \<Rightarrow> vec_xy" where
  "conf_sp c = (int (cell_spacing_x c), int (cell_spacing_y c))"

definition conf_dims :: "conf \<Rightarrow> vec_xy" where
  "conf_dims c = (int (cells_per_col_x c), int (cells_per_col_y c))"

definition conf_ms :: "conf \<Rightarrow> vec_xy" where
  "conf_ms c = (int (the (corner_padding_x c)), int (the (corner_padding_y c)))"

text \<open>
  The grid has room for its markers, and a window of ten pixels that starts one pixel before a cell fits
  the image even when the cell has drifted by seven pixels.
\<close>

definition grid_fits :: "conf \<Rightarrow> bool" where
  "grid_fits c \<longleftrightarrow> corner_padding_x c \<noteq> None \<and> corner_padding_y c \<noteq> None \<and> grid_ok (conf_sp c) (conf_dims c) (conf_ms c) \<and>
     fst (conf_ms c) < top_width (conf_dims c) (conf_ms c) \<and> total_positions (conf_dims c) (conf_ms c) \<le> 65536 \<and>
     8 \<le> cell_offset c \<and> cell_offset c \<le> 256 \<and>
     int (cell_offset c) + (fst (conf_dims c) - 1) * fst (conf_sp c) + 16 \<le> int (image_size_x c) \<and>
     int (cell_offset c) + (snd (conf_dims c) - 1) * snd (conf_sp c) + 16 \<le> int (image_size_y c)"

lemma modes_grid_fits: "grid_fits (temp_conf m)"
proof -
  have "grid_fits (temp_conf 4)" "grid_fits (temp_conf 8)" "grid_fits (temp_conf 66)" "grid_fits (temp_conf 67)" "grid_fits (temp_conf 68)"
    by (simp_all add: temp_conf_def conf_eval grid_fits_def grid_ok_def conf_sp_def conf_dims_def conf_ms_def top_width_def
        mid_height_def total_positions_def)
  then show ?thesis using temp_conf_cases [of m] by auto
qed

definition conf_positions :: "conf \<Rightarrow> nat \<Rightarrow> coordinate list" where
  "conf_positions c padding = compute_linear (conf_sp c) (conf_dims c) (int (cell_offset c + padding)) (conf_ms c)"

definition reader_inv :: "conf \<Rightarrow> CellDrift set \<Rightarrow> nat set \<Rightarrow> CimbReader \<Rightarrow> bool" where
  "reader_inv c D V r \<longleftrightarrow>
     flood_inv (conf_sp c) (conf_dims c) (int (cell_offset c + cr_gridPadding r)) (conf_ms c) V V (cr_positions r) \<and>
     drifts_in D (cr_positions r) \<and> cr_good r \<and>
     8 * length (bb_buffer (cr_grayscale r)) = cr_cols r * cr_rows r \<and> cr_cols r * cr_rows r < 2 ^ 32 \<and>
     image_size_x c + 2 * cr_gridPadding r \<le> cr_cols r \<and> image_size_y c + 2 * cr_gridPadding r \<le> cr_rows r"

definition small_drifts :: "CellDrift set" where
  "small_drifts = {d. \<bar>fst d\<bar> \<le> 7 \<and> \<bar>snd d\<bar> \<le> 7}"

lemma position_in_grid:
  assumes "grid_ok sp dims ms" "i < length (compute_linear sp dims off ms)"
  shows "\<exists>c r. compute_linear sp dims off ms ! i = (c * fst sp + off, r * snd sp + off) \<and>
    0 \<le> c \<and> c \<le> fst dims - 1 \<and> 0 \<le> r \<and> r \<le> snd dims - 1"
proof -
  note g = assms(1)
  obtain cell where cell: "cell_at dims ms (int i) cell"
    using cell_exists [OF g, of "int i"] assms(2) length_positions [OF g, of off] by auto
  have "0 \<le> fst cell \<and> fst cell \<le> fst dims - 1 \<and> 0 \<le> snd cell \<and> snd cell \<le> snd dims - 1"
    using cell grid_facts [OF g] by cases auto
  then show ?thesis using position_of_cell [OF g cell, of off] by (auto simp: cell_coord_def)
qed

lemma cell_in_image:
  assumes inv: "reader_inv c small_drifts V r" and fits: "grid_fits c" and i: "i < length (conf_positions c (cr_gridPadding r))"
    and x: "x = fst (conf_positions c (cr_gridPadding r) ! i) + dx" "y = snd (conf_positions c (cr_gridPadding r) ! i) + dy"
    and d: "(dx, dy) \<in> small_drifts"
  shows "cell_inside 10 (cr_cell r x y) \<and> to_uint (x - 1) = nat (x - 1) \<and> to_uint (y - 1) = nat (y - 1) \<and> 1 \<le> x \<and> 1 \<le> y"
proof -
  let ?off = "int (cell_offset c + cr_gridPadding r)" and ?w = "int (cr_cols r)" and ?h = "int (cr_rows r)"
  note g = fits [unfolded grid_fits_def]
  obtain a b where ab: "conf_positions c (cr_gridPadding r) ! i = (a * fst (conf_sp c) + ?off, b * snd (conf_sp c) + ?off)"
    "0 \<le> a" "a \<le> fst (conf_dims c) - 1" "0 \<le> b" "b \<le> snd (conf_dims c) - 1"
    using position_in_grid [OF _ i [unfolded conf_positions_def]] g unfolding conf_positions_def by blast
  have sp: "0 < fst (conf_sp c)" "0 < snd (conf_sp c)" using g by (simp_all add: grid_ok_def)
  have "a * fst (conf_sp c) \<le> (fst (conf_dims c) - 1) * fst (conf_sp c)" "b * snd (conf_sp c) \<le> (snd (conf_dims c) - 1) * snd (conf_sp c)"
    "0 \<le> a * fst (conf_sp c)" "0 \<le> b * snd (conf_sp c)"
    using ab sp by (auto intro!: mult_right_mono)
  moreover have "int (image_size_x c) + 2 * int (cr_gridPadding r) \<le> ?w" "int (image_size_y c) + 2 * int (cr_gridPadding r) \<le> ?h"
    using inv unfolding reader_inv_def by linarith+
  moreover have "\<bar>dx\<bar> \<le> 7" "\<bar>dy\<bar> \<le> 7" using d by (simp_all add: small_drifts_def)
  moreover have "x = a * fst (conf_sp c) + ?off + dx" "y = b * snd (conf_sp c) + ?off + dy" using x ab(1) by simp_all
  ultimately have r: "1 \<le> x" "1 \<le> y" "x - 1 + 10 \<le> ?w" "y - 1 + 10 \<le> ?h" using g by linarith+
  have area: "cr_cols r * cr_rows r < 2 ^ 32" using inv by (simp add: reader_inv_def)
  have "0 < cr_cols r" "0 < cr_rows r" using r by linarith+
  then have "cr_cols r \<le> cr_cols r * cr_rows r" "cr_rows r \<le> cr_cols r * cr_rows r" by simp_all
  then have "cr_cols r < 2 ^ 32" "cr_rows r < 2 ^ 32" using area by linarith+
  then have "?w < 2 ^ 32" "?h < 2 ^ 32" by simp_all
  then have u: "to_uint (x - 1) = nat (x - 1)" "to_uint (y - 1) = nat (y - 1)" using r by (simp_all add: to_uint_def)
  have rows: "nat (x - 1) + 10 \<le> cr_cols r" "nat (y - 1) + 10 \<le> cr_rows r" using r by linarith+
  have "(nat (y - 1) + 10) * cr_cols r \<le> cr_rows r * cr_cols r" using rows(2) by (rule mult_le_mono1)
  then show ?thesis using u rows(1) r inv by (simp add: cell_inside_def cr_cell_def reader_inv_def mult.commute)
qed

text \<open>One read: a cell that was not read before, and the reader stays well-formed.\<close>

lemma updateDrift_small: "updateDrift d dx dy \<in> small_drifts"
  by (auto simp: updateDrift_def small_drifts_def drift_limit_def)

lemma driftPairs_near: "k < 9 \<Longrightarrow> \<exists>dx dy. rd driftPairs k = Some (dx, dy) \<and> \<bar>dx\<bar> \<le> 1 \<and> \<bar>dy\<bar> \<le> 1"
  by (auto simp: driftPairs_def rd_def numeral_nat less_Suc_eq)

lemma allowed_below: "k \<in> allowed_drifts cooldown \<Longrightarrow> k < 9"
  by (auto simp: allowed_drifts_def split: if_splits)

definition near :: "coordinate \<Rightarrow> PositionData \<Rightarrow> bool" where
  "near xy pos \<longleftrightarrow> \<bar>pd_x pos - fst xy\<bar> \<le> 8 \<and> \<bar>pd_y pos - snd xy\<bar> \<le> 8"

lemma reader_not_done:
  assumes inv: "reader_inv c D V r"
  shows "cr_done r \<longleftrightarrow> V = {..<length (conf_positions c (cr_gridPadding r))}"
proof -
  have f: "flood_inv (conf_sp c) (conf_dims c) (int (cell_offset c + cr_gridPadding r)) (conf_ms c) V V (cr_positions r)"
    using inv by (simp add: reader_inv_def)
  note I = flood_invD [OF f]
  have "card V = length (fd_positions (cr_positions r)) \<longleftrightarrow> V = {..<length (fd_positions (cr_positions r))}"
    using I(11) card_subset_eq [of "{..<length (fd_positions (cr_positions r))}" V] by auto
  then show ?thesis using I(1,10) inv by (simp add: cr_done_def fd_done_def reader_inv_def conf_positions_def)
qed

text \<open>A read for any set of drifts that the windows it finds do not leave.\<close>

lemma cr_read_found:
  assumes inv: "reader_inv c D V r" and D: "D \<subseteq> small_drifts" "(0, 0) \<in> D" and fits: "grid_fits c" and tiles: "cr_tileHashes r \<noteq> []"
    and left: "V \<noteq> {..<length (conf_positions c (cr_gridPadding r))}" and pick: "\<forall>h. h \<noteq> [] \<longrightarrow> is_top (pick h) h"
  shows "\<exists>i drift cooldown s dx dy fd. let xy = conf_positions c (cr_gridPadding r) ! i; x = fst xy + fst drift; y = snd xy + snd drift in
    cr_read pick r pos = Some (se_fit s, \<lparr>pd_i = i, pd_x = x + dx, pd_y = y + dy\<rparr>, r\<lparr>cr_positions := fd\<rparr>) \<and>
    i \<notin> V \<and> i < length (conf_positions c (cr_gridPadding r)) \<and> drift \<in> D \<and> cell_inside (config_cell_size + 2) (cr_cell r x y) \<and>
    decode_symbol config_cell_size (cr_tileHashes r) (cr_cell r x y) cooldown = Some s \<and> se_fit s < length (cr_tileHashes r) \<and>
    rd driftPairs (se_drift s) = Some (dx, dy) \<and> \<bar>dx\<bar> \<le> 1 \<and> \<bar>dy\<bar> \<le> 1 \<and>
    (updateDrift drift dx dy \<in> D \<longrightarrow> reader_inv c D (insert i V) (r\<lparr>cr_positions := fd\<rparr>))"
proof -
  let ?ps = "conf_positions c (cr_gridPadding r)" and ?off = "int (cell_offset c + cr_gridPadding r)"
  note g = fits [unfolded grid_fits_def]
  have f: "flood_inv (conf_sp c) (conf_dims c) ?off (conf_ms c) V V (cr_positions r)" and dr: "drifts_in D (cr_positions r)"
    using inv by (simp_all add: reader_inv_def)
  have inv': "reader_inv c small_drifts V r" using inv D(1) by (auto simp: reader_inv_def drifts_in_def)
  note I = flood_invD [OF f]
  have ps: "fd_positions (cr_positions r) = ?ps" using I(1) by (simp add: conf_positions_def)
  have n: "length ?ps \<le> 65536" using length_positions [of "conf_sp c" "conf_dims c" "conf_ms c" ?off] g by (simp add: conf_positions_def)
  obtain i where "i < length ?ps" "i \<notin> V" using left I(11) ps by auto
  then obtain k where "k < length (fd_positions (cr_positions r))" "k \<notin> V" "k \<in> queued (cr_positions r)"
    using some_cell_queued [OF f] g ps by metis
  then obtain it fd1 where 1: "fd_next pick (cr_positions r) = Some (it, fd1)" "next_cell V (cr_positions r) it"
    "flood_inv (conf_sp c) (conf_dims c) ?off (conf_ms c) (insert (fst it) V) V fd1"
    using fd_next_inv [OF f _ _ _ pick [rule_format]] by blast
  have d1: "drifts_in D fd1" "fst (snd (snd it)) \<in> D" using fd_next_drifts [OF 1(1) dr D(2)] by simp_all
  obtain i xy drift cooldown where it: "it = (i, xy, drift, cooldown)" by (cases it) auto
  have i: "i \<notin> V" "i < length ?ps" "xy = ?ps ! i" using 1(2) ps it by (simp_all add: next_cell_def)
  define x where "x = fst xy + fst drift"
  define y where "y = snd xy + snd drift"
  have "drift \<in> small_drifts" using d1(2) D(1) it by auto
  then have inside: "cell_inside (config_cell_size + 2) (cr_cell r x y)"
    using cell_in_image [OF inv' fits i(2), of x "fst drift" y "snd drift"] i(3) by (simp add: x_def y_def config_cell_size_def)
  obtain s where s: "decode_symbol config_cell_size (cr_tileHashes r) (cr_cell r x y) (unat cooldown) = Some s"
    "se_fit s < length (cr_tileHashes r)" "se_drift s \<in> allowed_drifts (unat cooldown)" "se_distance s \<le> 64"
    using decode_symbol_found [OF _ inside tiles, of "unat cooldown"] by (auto simp: sizes_ok_def config_cell_size_def)
  obtain dx dy where b: "rd driftPairs (se_drift s) = Some (dx, dy)" "\<bar>dx\<bar> \<le> 1" "\<bar>dy\<bar> \<le> 1"
    using driftPairs_near [OF allowed_below [OF s(3)]] by blast
  have p1: "fd_positions fd1 = ?ps" using flood_invD(1) [OF 1(3)] by (simp add: conf_positions_def)
  obtain fd2 where 2: "fd_update fd1 i (updateDrift drift dx dy) (se_distance s) (calculate_cooldown cooldown (of_nat (se_drift s))) = Some fd2"
    "flood_inv (conf_sp c) (conf_dims c) ?off (conf_ms c) (insert i V) (insert i V) fd2"
    using fd_update_inv [OF 1(3), of i "se_distance s" "updateDrift drift dx dy"] n p1 g s(4) it by auto
  have "reader_inv c D (insert i V) (r\<lparr>cr_positions := fd2\<rparr>)" if "updateDrift drift dx dy \<in> D"
    using fd_update_drifts [OF 2(1) d1(1) that] inv 2(2) by (simp add: reader_inv_def)
  moreover have "cr_read pick r pos = Some (se_fit s, \<lparr>pd_i = i, pd_x = x + dx, pd_y = y + dy\<rparr>, r\<lparr>cr_positions := fd2\<rparr>)"
    using 1(1) it s(1) b(1) 2(1) left reader_not_done [OF inv] by (simp add: cr_read_def Let_def flip: x_def y_def)
  moreover have "drift \<in> D" using d1(2) it by simp
  ultimately show ?thesis
    using i inside s(1,2) b unfolding Let_def x_def y_def
    by (intro exI [of _ i] exI [of _ drift] exI [of _ "unat cooldown"] exI [of _ s] exI [of _ dx] exI [of _ dy] exI [of _ fd2]) simp
qed

lemma cr_read_step:
  assumes inv: "reader_inv c small_drifts V r" and fits: "grid_fits c" and tiles: "cr_tileHashes r \<noteq> []"
    and left: "V \<noteq> {..<length (conf_positions c (cr_gridPadding r))}" and pick: "\<And>h. h \<noteq> [] \<Longrightarrow> is_top (pick h) h"
  shows "\<exists>bits p r'. cr_read pick r pos = Some (bits, p, r') \<and> pd_i p \<notin> V \<and> pd_i p < length (conf_positions c (cr_gridPadding r)) \<and>
    bits < length (cr_tileHashes r) \<and> near (conf_positions c (cr_gridPadding r) ! pd_i p) p \<and>
    reader_inv c small_drifts (insert (pd_i p) V) r' \<and> cr_tileHashes r' = cr_tileHashes r \<and> cr_gridPadding r' = cr_gridPadding r"
proof -
  let ?ps = "conf_positions c (cr_gridPadding r)"
  have pk: "\<forall>h. h \<noteq> [] \<longrightarrow> is_top (pick h) h" using pick by blast
  have z: "(0, 0) \<in> small_drifts" by (simp add: small_drifts_def)
  obtain i drift and s :: search and dx dy fd where f: "cr_read pick r pos = Some (se_fit s,
      \<lparr>pd_i = i, pd_x = fst (?ps ! i) + fst drift + dx, pd_y = snd (?ps ! i) + snd drift + dy\<rparr>, r\<lparr>cr_positions := fd\<rparr>)"
    "i \<notin> V" "i < length ?ps" "drift \<in> small_drifts" "se_fit s < length (cr_tileHashes r)" "\<bar>dx\<bar> \<le> 1" "\<bar>dy\<bar> \<le> 1"
    "updateDrift drift dx dy \<in> small_drifts \<longrightarrow> reader_inv c small_drifts (insert i V) (r\<lparr>cr_positions := fd\<rparr>)"
    using cr_read_found [OF inv order.refl z fits tiles left pk, of pos] unfolding Let_def
    by blast
  have "\<bar>fst drift\<bar> \<le> 7" "\<bar>snd drift\<bar> \<le> 7" using f(4) by (simp_all add: small_drifts_def)
  then have "near (?ps ! i) \<lparr>pd_i = i, pd_x = fst (?ps ! i) + fst drift + dx, pd_y = snd (?ps ! i) + snd drift + dy\<rparr>"
    using f(6,7) by (auto simp: near_def abs_le_iff)
  then show ?thesis using f updateDrift_small by simp
qed

end
