(* ===== verification/FrameDecoder.thy ===== *)
theory FrameDecoder
  imports CimbReader
begin

text \<open>
  \<open>Decoder.h\<close>: the loops that turn the cells of a frame into the bytes for the Reed-Solomon stream. What
  \<open>CimbReader\<close> promises the loops is a locale. Colours are read with floating point and the colour
  correction, so \<open>read_color\<close> is a parameter; the heap's choices in the successive calls of \<open>next\<close> are
  a list, which also bounds the loop, and \<open>None\<close> is a list that was too short.
\<close>

section \<open>The decoder's loops\<close>

type_synonym pick = "decode_prio list \<Rightarrow> decode_prio"

fun symbol_pass ::
  "('r \<Rightarrow> bool) \<Rightarrow> ('p \<Rightarrow> 'r \<Rightarrow> PositionData \<Rightarrow> (nat \<times> PositionData \<times> 'r) option) \<Rightarrow> nat list \<Rightarrow> nat \<Rightarrow> nat \<Rightarrow>
   'p list \<Rightarrow> 'r \<Rightarrow> bitbuffer \<Rightarrow> PositionData list \<Rightarrow> ('r \<times> bitbuffer \<times> PositionData list) option" where
  "symbol_pass isdone read lookup opBits colorStride [] r buff colorPositions =
     (if isdone r then Some (r, buff, colorPositions) else None)"
| "symbol_pass isdone read lookup opBits colorStride (pick # picks) r buff colorPositions =
     (if isdone r then Some (r, buff, colorPositions)
      else do {
        (bits, pos, r) \<leftarrow> read pick r \<lparr>pd_i = 0, pd_x = 0, pd_y = 0\<rparr>;
        l \<leftarrow> rd lookup (pd_i pos);
        buff \<leftarrow> bb_write buff (of_nat bits) (uint_mul l opBits) opBits;
        colorPositions \<leftarrow> wr colorPositions (pd_i pos) \<lparr>pd_i = uint_mul l colorStride, pd_x = pd_x pos, pd_y = pd_y pos\<rparr>;
        symbol_pass isdone read lookup opBits colorStride picks r buff colorPositions
      })"

definition color_pass :: "(PositionData \<Rightarrow> nat) \<Rightarrow> nat \<Rightarrow> PositionData list \<Rightarrow> bitbuffer \<Rightarrow> bitbuffer option" where
  "color_pass read_color colorBits colorPositions buff =
     for_each colorPositions (\<lambda>p buff. bb_write buff (of_nat (read_color p)) (pd_i p) colorBits) buff"

text \<open>The result is what is flushed into the Reed-Solomon streams, one buffer after the other.\<close>

definition do_decode_coupled :: "conf \<Rightarrow> bool \<Rightarrow> (CimbReader \<Rightarrow> PositionData \<Rightarrow> nat) \<Rightarrow> pick list \<Rightarrow> CimbReader \<Rightarrow> u8 list list option" where
  "do_decode_coupled c il read_color picks reader = do {
     let bitsPerOp = bits_per_cell c;
     cap \<leftarrow> capacity c bitsPerOp;
     lookup \<leftarrow> interleave_reverse (num_reads reader) (if il then interleave_blocks c else 0) interleave_partitions;
     (reader, bb, colorPositions) \<leftarrow> symbol_pass cr_done cr_read lookup bitsPerOp bitsPerOp picks reader (bb_create cap)
       (replicate (num_reads reader) \<lparr>pd_i = 0, pd_x = 0, pd_y = 0\<rparr>);
     bb \<leftarrow> color_pass (read_color reader) (color_bits c) colorPositions bb;
     Some [fst (bb_flush bb)]
   }"

definition do_decode :: "conf \<Rightarrow> bool \<Rightarrow> (CimbReader \<Rightarrow> PositionData \<Rightarrow> nat) \<Rightarrow> pick list \<Rightarrow> CimbReader \<Rightarrow> u8 list list option" where
  "do_decode c il read_color picks reader =
     (if legacy_mode c then do_decode_coupled c il read_color picks reader
      else do {
        symCapacity \<leftarrow> capacity c (symbol_bits c);
        colorCapacity \<leftarrow> capacity c (color_bits c);
        lookup \<leftarrow> interleave_reverse (num_reads reader) (if il then interleave_blocks c else 0) interleave_partitions;
        (reader, symbolBuff, colorPositions) \<leftarrow> symbol_pass cr_done cr_read lookup (symbol_bits c) (color_bits c) picks reader
          (bb_create symCapacity) (replicate (num_reads reader) \<lparr>pd_i = 0, pd_x = 0, pd_y = 0\<rparr>);
        colorBuff \<leftarrow> color_pass (read_color reader) (color_bits c) colorPositions (bb_create colorCapacity);
        Some [fst (bb_flush symbolBuff), fst (bb_flush colorBuff)]
      })"

section \<open>What the loops need of a reader\<close>

text \<open>Each cell's value has its own slot of \<open>w\<close> bits, and other bits are clear.\<close>

definition slots :: "nat \<Rightarrow> (nat \<Rightarrow> nat) \<Rightarrow> nat set \<Rightarrow> (nat \<Rightarrow> nat) \<Rightarrow> u8 list \<Rightarrow> bool" where
  "slots w slot V f buf \<longleftrightarrow>
     (\<forall>k. bit_at buf k \<longleftrightarrow> (\<exists>i\<in>V. slot i * w \<le> k \<and> k < slot i * w + w \<and> bit (of_nat (f i) :: u32) (slot i * w + w - 1 - k)))"

lemma slots_write:
  assumes s: "slots w slot V f (bb_buffer b)" and i: "i \<notin> V" and w: "w \<le> 32" "v < 2 ^ w"
    and fit: "slot i * w + w \<le> 8 * length (bb_buffer b)" "8 * length (bb_buffer b) < 2 ^ 32"
  shows "\<exists>buf. bb_write b (of_nat v) (uint_mul (slot i) w) w = Some (b\<lparr>bb_buffer := buf\<rparr>) \<and> length buf = length (bb_buffer b) \<and>
    slots w slot (insert i V) (f(i := v)) buf"
proof -
  have lt: "slot i * w + w < 2 ^ 32" "slot i * w < 2 ^ 32" using fit by linarith+
  have idx: "uint_mul (slot i) w = slot i * w" using lt(2) by (simp add: uint_mul_def)
  have "(2 :: nat) ^ w \<le> 2 ^ 32" using w(1) by (intro power_increasing) simp_all
  then have "v < 2 ^ 32" using w(2) by linarith
  then have "unat (of_nat v :: u32) = v" by (simp add: unat_of_nat)
  then have v: "unat (of_nat v :: u32) < 2 ^ w" using w(2) by simp
  obtain buf where buf: "bb_write b (of_nat v) (slot i * w) w = Some (b\<lparr>bb_buffer := buf\<rparr>)" "length buf = length (bb_buffer b)"
    "\<forall>k. bit_at buf k \<longleftrightarrow> bit_at (bb_buffer b) k \<or> slot i * w \<le> k \<and> k < slot i * w + w \<and> bit (of_nat v :: u32) (slot i * w + w - 1 - k)"
    using bb_write_bits [OF fit(1) lt(1) w(1) v] by blast
  have "\<And>j. j \<in> V \<Longrightarrow> (f(i := v)) j = f j" using i by auto
  then have "slots w slot (insert i V) (f(i := v)) buf" using s buf(3) unfolding slots_def by auto
  then show ?thesis using buf idx by auto
qed

locale cell_reader =
  fixes inv :: "nat set \<Rightarrow> 'r \<Rightarrow> bool" and isdone :: "'r \<Rightarrow> bool"
    and read :: "'p \<Rightarrow> 'r \<Rightarrow> PositionData \<Rightarrow> (nat \<times> PositionData \<times> 'r) option"
    and pick_ok :: "'p \<Rightarrow> bool" and cells :: nat and expected :: "nat \<Rightarrow> nat \<Rightarrow> PositionData \<Rightarrow> bool"
  assumes visited: "inv V r \<Longrightarrow> V \<subseteq> {..<cells}"
    and done_iff: "inv V r \<Longrightarrow> isdone r \<longleftrightarrow> V = {..<cells}"
    and step: "inv V r \<Longrightarrow> V \<noteq> {..<cells} \<Longrightarrow> pick_ok p \<Longrightarrow>
      \<exists>bits pos r'. read p r pos0 = Some (bits, pos, r') \<and> pd_i pos \<notin> V \<and> pd_i pos < cells \<and> expected (pd_i pos) bits pos \<and>
        inv (insert (pd_i pos) V) r'"
begin

lemma symbol_pass_run:
  assumes "inv V r" "\<forall>p\<in>set picks. pick_ok p" "length picks = cells - card V"
    and lookup: "length lookup = cells" "\<And>i. i < cells \<Longrightarrow> lookup ! i < cells"
    and w: "w \<le> 32" "\<And>i bits pos. expected i bits pos \<Longrightarrow> bits < 2 ^ w"
    and fit: "cells * w \<le> 8 * length (bb_buffer b)" "8 * length (bb_buffer b) < 2 ^ 32"
    and s: "slots w ((!) lookup) V f (bb_buffer b)" and cps: "length cps = cells"
    and old: "\<forall>i\<in>V. \<exists>pos. expected i (f i) pos \<and> cps ! i = pos\<lparr>pd_i := uint_mul (lookup ! i) cs\<rparr>"
  shows "\<exists>r' buf cps' f'. symbol_pass isdone read lookup w cs picks r b cps = Some (r', b\<lparr>bb_buffer := buf\<rparr>, cps') \<and>
    inv {..<cells} r' \<and> length buf = length (bb_buffer b) \<and> slots w ((!) lookup) {..<cells} f' buf \<and> length cps' = cells \<and>
    (\<forall>i<cells. \<exists>pos. expected i (f' i) pos \<and> cps' ! i = pos\<lparr>pd_i := uint_mul (lookup ! i) cs\<rparr>)"
  using assms(1-3) fit s cps old
proof (induction picks arbitrary: V r b f cps)
  case Nil
  have "V = {..<cells}" using visited [OF Nil.prems(1)] Nil.prems(3) card_mono [OF _ visited [OF Nil.prems(1)]]
    by (intro card_subset_eq) simp_all
  then show ?case
    using Nil.prems done_iff [OF Nil.prems(1)]
    by (intro exI [of _ r] exI [of _ "bb_buffer b"] exI [of _ cps] exI [of _ f]) auto
next
  case (Cons p picks)
  have fin: "finite V" using visited [OF Cons.prems(1)] finite_subset by blast
  have left: "V \<noteq> {..<cells}" using Cons.prems(3) by auto
  obtain bits pos r1 where 1: "read p r \<lparr>pd_i = 0, pd_x = 0, pd_y = 0\<rparr> = Some (bits, pos, r1)" "pd_i pos \<notin> V" "pd_i pos < cells"
    "expected (pd_i pos) bits pos" "inv (insert (pd_i pos) V) r1"
    using step [OF Cons.prems(1) left, of p "\<lparr>pd_i = 0, pd_x = 0, pd_y = 0\<rparr>"] Cons.prems(2) by auto
  let ?i = "pd_i pos"
  have "lookup ! ?i * w + w \<le> cells * w" using lookup(2) [OF 1(3)] mult_le_mono1 [of "Suc (lookup ! ?i)" cells w] by simp
  then have fit': "lookup ! ?i * w + w \<le> 8 * length (bb_buffer b)" using Cons.prems(4) by linarith
  obtain buf where buf: "bb_write b (of_nat bits) (uint_mul (lookup ! ?i) w) w = Some (b\<lparr>bb_buffer := buf\<rparr>)"
    "length buf = length (bb_buffer b)" "slots w ((!) lookup) (insert ?i V) (f(?i := bits)) buf"
    using slots_write [OF Cons.prems(6) 1(2) w(1) w(2) [OF 1(4)] fit' Cons.prems(5)] by blast
  let ?cps = "cps[?i := pos\<lparr>pd_i := uint_mul (lookup ! ?i) cs\<rparr>]"
  have old': "\<forall>j\<in>insert ?i V. \<exists>pos. expected j ((f(?i := bits)) j) pos \<and> ?cps ! j = pos\<lparr>pd_i := uint_mul (lookup ! j) cs\<rparr>"
  proof
    fix j assume j: "j \<in> insert ?i V"
    show "\<exists>pos. expected j ((f(?i := bits)) j) pos \<and> ?cps ! j = pos\<lparr>pd_i := uint_mul (lookup ! j) cs\<rparr>"
    proof (cases "j = ?i")
      case True
      then show ?thesis using 1(3,4) Cons.prems(7) by (intro exI [of _ pos]) simp
    next
      case False
      then show ?thesis using j Cons.prems(8) by auto
    qed
  qed
  have len: "length picks = cells - card (insert ?i V)" using Cons.prems(3) fin 1(2) by simp
  have ok: "\<forall>p\<in>set picks. pick_ok p" using Cons.prems(2) by simp
  have b1: "cells * w \<le> 8 * length (bb_buffer (b\<lparr>bb_buffer := buf\<rparr>))" "8 * length (bb_buffer (b\<lparr>bb_buffer := buf\<rparr>)) < 2 ^ 32"
    "slots w ((!) lookup) (insert ?i V) (f(?i := bits)) (bb_buffer (b\<lparr>bb_buffer := buf\<rparr>))" "length ?cps = cells"
    using Cons.prems(4,5,7) buf(2,3) by simp_all
  obtain r' buf' cps' f' where 2: "symbol_pass isdone read lookup w cs picks r1 (b\<lparr>bb_buffer := buf\<rparr>) ?cps =
      Some (r', b\<lparr>bb_buffer := buf\<rparr>\<lparr>bb_buffer := buf'\<rparr>, cps')" "inv {..<cells} r'" "length buf' = length buf"
    "slots w ((!) lookup) {..<cells} f' buf'" "length cps' = cells"
    "\<forall>i<cells. \<exists>pos. expected i (f' i) pos \<and> cps' ! i = pos\<lparr>pd_i := uint_mul (lookup ! i) cs\<rparr>"
    using Cons.IH [OF 1(5) ok len b1 old'] by auto
  have "pos\<lparr>pd_i := uint_mul (lookup ! ?i) cs\<rparr> = \<lparr>pd_i = uint_mul (lookup ! ?i) cs, pd_x = pd_x pos, pd_y = pd_y pos\<rparr>" by simp
  note run = 2(1) [unfolded this]
  have "symbol_pass isdone read lookup w cs (p # picks) r b cps = Some (r', b\<lparr>bb_buffer := buf'\<rparr>, cps')"
    using 1(1,3) run buf(1) left done_iff [OF Cons.prems(1)] lookup(1) Cons.prems(7) by simp
  then show ?case using 2 buf(2) by auto
qed

end

text \<open>The colours go into their slots in the same way, in the order of the cells.\<close>

lemma color_pass_run:
  assumes n: "length cps = n" "length lookup = n" "\<And>i. i < n \<Longrightarrow> lookup ! i < n"
    and cps: "\<And>i. i < n \<Longrightarrow> pd_i (cps ! i) = uint_mul (lookup ! i) w"
    and w: "w \<le> 32" "\<And>p. rc p < 2 ^ w"
    and fit: "n * w \<le> 8 * length (bb_buffer b)" "8 * length (bb_buffer b) < 2 ^ 32" and s: "slots w ((!) lookup) {} f (bb_buffer b)"
  shows "\<exists>buf. color_pass rc w cps b = Some (b\<lparr>bb_buffer := buf\<rparr>) \<and> length buf = length (bb_buffer b) \<and>
    slots w ((!) lookup) {..<n} (\<lambda>i. rc (cps ! i)) buf"
proof -
  have "m \<le> n \<Longrightarrow> \<exists>buf. color_pass rc w (take m cps) b = Some (b\<lparr>bb_buffer := buf\<rparr>) \<and> length buf = length (bb_buffer b) \<and>
    slots w ((!) lookup) {..<m} (\<lambda>i. rc (cps ! i)) buf" for m
  proof (induction m)
    case 0
    then show ?case using s by (intro exI [of _ "bb_buffer b"]) (simp add: color_pass_def slots_def)
  next
    case (Suc m)
    then obtain buf where buf: "color_pass rc w (take m cps) b = Some (b\<lparr>bb_buffer := buf\<rparr>)" "length buf = length (bb_buffer b)"
      "slots w ((!) lookup) {..<m} (\<lambda>i. rc (cps ! i)) buf" by auto
    have m: "m < n" using Suc.prems by simp
    have "lookup ! m * w + w \<le> n * w" using n(3) [OF m] mult_le_mono1 [of "Suc (lookup ! m)" n w] by simp
    then have "lookup ! m * w + w \<le> 8 * length (bb_buffer (b\<lparr>bb_buffer := buf\<rparr>))" using fit(1) buf(2) by simp
    then obtain buf' where buf': "bb_write (b\<lparr>bb_buffer := buf\<rparr>) (of_nat (rc (cps ! m))) (uint_mul (lookup ! m) w) w =
        Some (b\<lparr>bb_buffer := buf\<rparr>\<lparr>bb_buffer := buf'\<rparr>)" "length buf' = length buf"
      "slots w ((!) lookup) (insert m {..<m}) ((\<lambda>i. rc (cps ! i))(m := rc (cps ! m))) buf'"
      using slots_write [of w "(!) lookup" "{..<m}" "\<lambda>i. rc (cps ! i)" "b\<lparr>bb_buffer := buf\<rparr>" m "rc (cps ! m)"] buf w fit(2) by auto
    have "insert m {..<m} = {..<Suc m}" "(\<lambda>i. rc (cps ! i))(m := rc (cps ! m)) = (\<lambda>i. rc (cps ! i))" by auto
    then have "slots w ((!) lookup) {..<Suc m} (\<lambda>i. rc (cps ! i)) buf'" using buf'(3) by simp
    moreover have "color_pass rc w (take (Suc m) cps) b = Some (b\<lparr>bb_buffer := buf'\<rparr>)"
      using buf(1) buf'(1) m n(1) cps [OF m] by (simp add: color_pass_def take_Suc_conv_app_nth for_each_append)
    ultimately show ?case using buf(2) buf'(2) by auto
  qed
  from this [of n] n(1) show ?thesis by simp
qed

section \<open>The reader of a camera image\<close>

definition pick_ok :: "pick \<Rightarrow> bool" where
  "pick_ok pick \<longleftrightarrow> (\<forall>h. h \<noteq> [] \<longrightarrow> is_top (pick h) h)"

definition camera_inv :: "conf \<Rightarrow> u64 list \<Rightarrow> nat \<Rightarrow> nat set \<Rightarrow> CimbReader \<Rightarrow> bool" where
  "camera_inv c tiles padding V r \<longleftrightarrow> reader_inv c small_drifts V r \<and> grid_fits c \<and> tiles \<noteq> [] \<and> cr_tileHashes r = tiles \<and>
     cr_gridPadding r = padding"

interpretation camera: cell_reader "camera_inv c tiles padding" cr_done cr_read pick_ok "length (conf_positions c padding)"
  "\<lambda>i bits pos. bits < length tiles \<and> near (conf_positions c padding ! i) pos" for c tiles padding
proof unfold_locales
  show "V \<subseteq> {..<length (conf_positions c padding)}" if "camera_inv c tiles padding V r" for V r
  proof -
    have f: "flood_inv (conf_sp c) (conf_dims c) (int (cell_offset c + padding)) (conf_ms c) V V (cr_positions r)"
      using that by (auto simp: camera_inv_def reader_inv_def)
    show ?thesis using flood_invD(11) [OF f] by (simp add: flood_invD(1) [OF f] conf_positions_def)
  qed
  show "cr_done r \<longleftrightarrow> V = {..<length (conf_positions c padding)}" if "camera_inv c tiles padding V r" for V r
    using that reader_not_done by (auto simp: camera_inv_def)
  show "\<exists>bits pos r'. cr_read p r pos0 = Some (bits, pos, r') \<and> pd_i pos \<notin> V \<and> pd_i pos < length (conf_positions c padding) \<and>
      (bits < length tiles \<and> near (conf_positions c padding ! pd_i pos) pos) \<and> camera_inv c tiles padding (insert (pd_i pos) V) r'"
    if "camera_inv c tiles padding V r" "V \<noteq> {..<length (conf_positions c padding)}" "pick_ok p" for V r p pos0
    using that cr_read_step [of c V r p pos0] unfolding camera_inv_def pick_ok_def by blast
qed

lemma cr_create_inv:
  assumes fits: "grid_fits c" and img: "length symbols = cols * rows" "8 dvd cols * rows" "cols * rows < 2 ^ 32"
    and size: "image_size_x c \<le> cols" "image_size_y c \<le> rows" and D: "(0, 0) \<in> D"
  shows "\<exists>r. cr_create c symbols cols rows tiles = Some r \<and> reader_inv c D {} r \<and> cr_tileHashes r = tiles \<and>
    cr_gridPadding r = min (cols - image_size_x c) (rows - image_size_y c) div 2 \<and> cr_cols r = cols \<and> cr_rows r = rows \<and>
    preprocessSymbolGrid symbols cols rows = Some (cr_grayscale r)"
proof -
  note g = fits [unfolded grid_fits_def]
  obtain px py where p: "corner_padding_x c = Some px" "corner_padding_y c = Some py" using g by auto
  have pos: "0 < image_size_x c" "0 < image_size_y c"
  proof -
    have "0 \<le> (fst (conf_dims c) - 1) * fst (conf_sp c)" "0 \<le> (snd (conf_dims c) - 1) * snd (conf_sp c)"
      using g by (auto simp: grid_ok_def)
    then show "0 < image_size_x c" "0 < image_size_y c" using g by linarith+
  qed
  then have cr: "0 < cols" "0 < rows" using size by linarith+
  then have le: "cols \<le> cols * rows" "rows \<le> cols * rows" by simp_all
  then have lt: "cols < 2 ^ 32" "rows < 2 ^ 32" using img(3) by linarith+
  let ?pad = "min (cols - image_size_x c) (rows - image_size_y c) div 2"
  have sub: "uint_sub cols (image_size_x c) = cols - image_size_x c" "uint_sub rows (image_size_y c) = rows - image_size_y c"
    using size lt by (auto intro!: uint_sub_le)
  have "cols div 2 < 2 ^ 31" using lt(1) by (intro less_mult_imp_div_less) simp
  moreover have "?pad \<le> cols div 2" by (simp add: div_le_mono)
  moreover have "cell_offset c \<le> 256" using g by blast
  ultimately have "cell_offset c + ?pad \<le> 256 + 2 ^ 31" by linarith
  also have "(256 :: nat) + 2 ^ 31 < 2 ^ 32" by simp
  finally have "cell_offset c + ?pad < 2 ^ 32" .
  then have off: "uint_add (cell_offset c) ?pad = cell_offset c + ?pad" by (rule uint_add_small)
  have gok: "grid_ok (conf_sp c) (conf_dims c) (conf_ms c)" using g by blast
  have "length (compute_linear (conf_sp c) (conf_dims c) (int (cell_offset c + ?pad)) (conf_ms c)) \<le> 65536"
    using length_positions [OF gok, of "int (cell_offset c + ?pad)"] g by simp
  then obtain fd where fd: "fd_create (conf_sp c) (conf_dims c) (int (cell_offset c + ?pad)) (conf_ms c) = Some fd"
    "flood_inv (conf_sp c) (conf_dims c) (int (cell_offset c + ?pad)) (conf_ms c) {} {} fd"
    using fd_create_inv [OF gok] by blast
  obtain k where k: "cols * rows = 8 * k" using img(2) by (rule dvdE)
  have k0: "0 < k" using k cr by (metis mult_is_0 neq0_conv)
  have kk: "rows * cols div 8 = k" using k by (simp add: mult.commute)
  obtain buf where buf: "mat_to_bitbuffer symbols (bb_create k, 8 * 0) = Some (bb_create k\<lparr>bb_buffer := buf\<rparr>, 8 * (0 + k))"
    "length buf = length (bb_buffer (bb_create k))"
    using mat_to_bitbuffer_bytes [of symbols k 0 "bb_create k"] img k k0 by (auto simp: bb_create_empty)
  have gray: "preprocessSymbolGrid symbols cols rows = Some (bb_create k\<lparr>bb_buffer := buf\<rparr>)"
    using buf(1) by (simp add: preprocessSymbolGrid_def get_writer_def kk)
  let ?r = "\<lparr>cr_cols = cols, cr_rows = rows, cr_grayscale = bb_create k\<lparr>bb_buffer := buf\<rparr>, cr_gridPadding = ?pad, cr_positions = fd,
    cr_tileHashes = tiles, cr_good = True\<rparr>"
  have "cr_create c symbols cols rows tiles = Some ?r"
    using p fd(1) gray size by (simp add: cr_create_def sub off conf_sp_def conf_dims_def conf_ms_def Let_def)
  moreover have "reader_inv c D {} ?r"
  proof -
    have "2 * ?pad \<le> cols - image_size_x c" "2 * ?pad \<le> rows - image_size_y c" by linarith+
    then have "image_size_x c + 2 * ?pad \<le> cols" "image_size_y c + 2 * ?pad \<le> rows" using size by linarith+
    moreover have "drifts_in D fd" using fd_create_drifts [OF fd(1)] D by blast
    moreover have "8 * length (bb_buffer (bb_create k\<lparr>bb_buffer := buf\<rparr>)) = cols * rows" using buf(2) k k0 by (simp add: bb_create_empty)
    ultimately show ?thesis using fd(2) img(3) unfolding reader_inv_def CimbReader.simps by blast
  qed
  ultimately show ?thesis using gray by auto
qed

section \<open>The decoder on a frame\<close>

lemma interleave_lookup:
  assumes "num_chunks = 0 \<or> 0 < partitions \<and> partitions dvd n"
  shows "\<exists>indices lookup. interleave_indices n num_chunks partitions = Some indices \<and> length indices = n \<and>
    interleave_reverse n num_chunks partitions = Some lookup \<and> length lookup = n \<and>
    (\<forall>i<n. lookup ! i < n \<and> indices ! i < n \<and> lookup ! (indices ! i) = i \<and> indices ! (lookup ! i) = i)"
proof -
  obtain indices where ix: "interleave_indices n num_chunks partitions = Some indices" "mset indices = mset [0..<n]"
    using interleave_indices_perm [OF assms] by blast
  obtain lookup where l: "interleave_reverse n num_chunks partitions = Some lookup" "length lookup = n" "\<forall>i < n. lookup ! (indices ! i) = i"
    using reverse_loop [OF ix(2)] ix(1) by (auto simp: interleave_reverse_def)
  have set: "set indices = {0..<n}" "length indices = n" using ix(2) by (metis set_mset_mset set_upt, metis diff_zero length_upt size_mset)
  have "lookup ! i < n \<and> indices ! i < n \<and> indices ! (lookup ! i) = i" if i: "i < n" for i
  proof -
    obtain j where "j < n" "indices ! j = i" using i set by (metis atLeastLessThan_iff in_set_conv_nth zero_le)
    moreover have "indices ! i \<in> set indices" using i set(2) by simp
    ultimately show ?thesis using l(3) set(1) by auto
  qed
  then show ?thesis using ix(1) l set(2) by blast
qed

definition conf_cells :: "conf \<Rightarrow> nat" where
  "conf_cells c = nat (total_positions (conf_dims c) (conf_ms c))"

lemma length_conf_positions: "grid_fits c \<Longrightarrow> length (conf_positions c padding) = conf_cells c"
  using length_positions [of "conf_sp c" "conf_dims c" "conf_ms c" "int (cell_offset c + padding)"]
  by (simp add: conf_positions_def conf_cells_def grid_fits_def)

definition slots_fit :: "conf \<Rightarrow> nat \<Rightarrow> bool" where
  "slots_fit c w \<longleftrightarrow> 0 < w \<and> w \<le> 32 \<and> (\<exists>cap. capacity c w = Some cap \<and> 8 * cap = conf_cells c * w \<and> 0 < cap \<and> 8 * cap < 2 ^ 32)"

definition frame_fits :: "conf \<Rightarrow> bool" where
  "frame_fits c \<longleftrightarrow> grid_fits c \<and> interleave_partitions dvd conf_cells c \<and> slots_fit c (symbol_bits c) \<and> slots_fit c (color_bits c) \<and>
     slots_fit c (bits_per_cell c)"

lemma modes_frame_fits: "frame_fits (temp_conf m)"
proof -
  have ev: "conf_cells (temp_conf 4) = 12400" "conf_cells (temp_conf 8) = 12400" "conf_cells (temp_conf 68) = 12400"
    "conf_cells (temp_conf 66) = 5376" "conf_cells (temp_conf 67) = 8592"
    by (simp_all add: temp_conf_def conf_eval conf_cells_def conf_dims_def conf_ms_def top_width_def mid_height_def total_positions_def)
  have "frame_fits (temp_conf 4)" "frame_fits (temp_conf 8)" "frame_fits (temp_conf 68)" "frame_fits (temp_conf 66)" "frame_fits (temp_conf 67)"
    unfolding frame_fits_def ev slots_fit_def
    by (simp_all add: modes_grid_fits; simp add: temp_conf_def conf_eval interleave_partitions_def)+
  then show ?thesis using temp_conf_cases [of m] by auto
qed

lemma no_bits: "\<not> bit_at (replicate k 0) i"
  by (auto simp: bit_at_def)

text \<open>What a run of the decoder gives for any reader that keeps the promises.\<close>

lemma do_decode_run:
  assumes R: "cell_reader I cr_done cr_read pick_ok (conf_cells c) expected" and inv: "I {} r"
    and fits: "frame_fits c" "\<not> legacy_mode c" and n: "num_reads r = conf_cells c"
    and val: "\<And>i bits pos. expected i bits pos \<Longrightarrow> bits < 2 ^ symbol_bits c"
    and picks: "\<forall>p\<in>set picks. pick_ok p" "length picks = conf_cells c" and rc: "\<forall>r p. rc r p < 2 ^ color_bits c"
  shows "\<exists>lookup sb cb r' f cps. interleave_reverse (conf_cells c) (if il then interleave_blocks c else 0) interleave_partitions = Some lookup \<and>
    do_decode c il rc picks r = Some [sb, cb] \<and> capacity c (symbol_bits c) = Some (length sb) \<and> capacity c (color_bits c) = Some (length cb) \<and>
    slots (symbol_bits c) ((!) lookup) {..<conf_cells c} f sb \<and>
    slots (color_bits c) ((!) lookup) {..<conf_cells c} (\<lambda>i. rc r' (cps ! i)) cb \<and>
    (\<forall>i<conf_cells c. \<exists>pos. expected i (f i) pos \<and> pd_x (cps ! i) = pd_x pos \<and> pd_y (cps ! i) = pd_y pos)"
proof -
  let ?n = "conf_cells c" and ?nc = "if il then interleave_blocks c else 0"
  have "?nc = 0 \<or> 0 < interleave_partitions \<and> interleave_partitions dvd ?n"
    using fits(1) by (simp add: frame_fits_def interleave_partitions_def)
  then obtain lookup where l: "interleave_reverse ?n ?nc interleave_partitions = Some lookup" "length lookup = ?n" "\<And>i. i < ?n \<Longrightarrow> lookup ! i < ?n"
    using interleave_lookup [of ?nc interleave_partitions ?n] by blast
  obtain scap where s: "capacity c (symbol_bits c) = Some scap" "8 * scap = ?n * symbol_bits c" "0 < scap" "8 * scap < 2 ^ 32" "symbol_bits c \<le> 32"
    using fits(1) by (auto simp: frame_fits_def slots_fit_def)
  obtain ccap where k: "capacity c (color_bits c) = Some ccap" "8 * ccap = ?n * color_bits c" "0 < ccap" "8 * ccap < 2 ^ 32" "color_bits c \<le> 32"
    using fits(1) by (auto simp: frame_fits_def slots_fit_def)
  have z: "bb_buffer (bb_create scap) = replicate scap 0" "bb_buffer (bb_create ccap) = replicate ccap 0"
    using bb_create_empty s(3) k(3) by simp_all
  let ?cps0 = "replicate ?n \<lparr>pd_i = 0, pd_x = 0, pd_y = 0\<rparr>"
  have e: "length picks = ?n - card {}" "?n * symbol_bits c \<le> 8 * length (bb_buffer (bb_create scap))"
    "8 * length (bb_buffer (bb_create scap)) < 2 ^ 32" "slots (symbol_bits c) ((!) lookup) {} (\<lambda>_. 0) (bb_buffer (bb_create scap))"
    "length ?cps0 = ?n" "\<forall>i\<in>{}. \<exists>pos. expected i 0 pos \<and> ?cps0 ! i = pos\<lparr>pd_i := uint_mul (lookup ! i) (color_bits c)\<rparr>"
    using picks(2) s z by (simp_all add: slots_def no_bits)
  have "\<exists>r' buf cps f. symbol_pass cr_done cr_read lookup (symbol_bits c) (color_bits c) picks r (bb_create scap) ?cps0 =
      Some (r', bb_create scap\<lparr>bb_buffer := buf\<rparr>, cps) \<and> I {..<?n} r' \<and> length buf = length (bb_buffer (bb_create scap)) \<and>
      slots (symbol_bits c) ((!) lookup) {..<?n} f buf \<and> length cps = ?n \<and>
      (\<forall>i<?n. \<exists>pos. expected i (f i) pos \<and> cps ! i = pos\<lparr>pd_i := uint_mul (lookup ! i) (color_bits c)\<rparr>)"
    by (rule cell_reader.symbol_pass_run [OF R inv picks(1) e(1) l(2)]) (rule l(3) s(5) val e(2-6); assumption?)+
  then obtain r' buf cps f where run: "symbol_pass cr_done cr_read lookup (symbol_bits c) (color_bits c) picks r (bb_create scap) ?cps0 =
      Some (r', bb_create scap\<lparr>bb_buffer := buf\<rparr>, cps)" "length buf = scap"
    "slots (symbol_bits c) ((!) lookup) {..<?n} f buf" "length cps = ?n"
    "\<forall>i<?n. \<exists>pos. expected i (f i) pos \<and> cps ! i = pos\<lparr>pd_i := uint_mul (lookup ! i) (color_bits c)\<rparr>"
    using z(1) by auto
  have pdi: "pd_i (cps ! i) = uint_mul (lookup ! i) (color_bits c)" if "i < ?n" for i using run(5) that by fastforce
  have k': "?n * color_bits c \<le> 8 * length (bb_buffer (bb_create ccap))" "8 * length (bb_buffer (bb_create ccap)) < 2 ^ 32"
    "slots (color_bits c) ((!) lookup) {} (\<lambda>_. 0) (bb_buffer (bb_create ccap))" "\<And>p. rc r' p < 2 ^ color_bits c"
    using k z rc by (simp_all add: slots_def no_bits)
  have "\<exists>cb. color_pass (rc r') (color_bits c) cps (bb_create ccap) = Some (bb_create ccap\<lparr>bb_buffer := cb\<rparr>) \<and>
      length cb = length (bb_buffer (bb_create ccap)) \<and> slots (color_bits c) ((!) lookup) {..<?n} (\<lambda>i. rc r' (cps ! i)) cb"
    by (rule color_pass_run [OF run(4) l(2)]) (rule l(3) pdi k(5) k'; assumption?)+
  then obtain cb where cb: "color_pass (rc r') (color_bits c) cps (bb_create ccap) = Some (bb_create ccap\<lparr>bb_buffer := cb\<rparr>)"
    "length cb = ccap" "slots (color_bits c) ((!) lookup) {..<?n} (\<lambda>i. rc r' (cps ! i)) cb"
    using z(2) by auto
  have dec: "do_decode c il rc picks r = Some [buf, cb]"
    using fits(2) s(1) k(1) l(1) run(1) cb(1) n by (simp add: do_decode_def bb_flush_def)
  have pos: "\<forall>i<?n. \<exists>pos. expected i (f i) pos \<and> pd_x (cps ! i) = pd_x pos \<and> pd_y (cps ! i) = pd_y pos"
    using run(5) by fastforce
  show ?thesis using l(1) dec s(1) k(1) run(2,3) cb(2,3) pos by blast
qed

lemma conf_positions_reads:
  assumes "reader_inv c D V r" "grid_fits c"
  shows "num_reads r = conf_cells c"
proof -
  have f: "flood_inv (conf_sp c) (conf_dims c) (int (cell_offset c + cr_gridPadding r)) (conf_ms c) V V (cr_positions r)"
    using assms(1) by (simp add: reader_inv_def)
  show ?thesis using length_conf_positions [OF assms(2), of "cr_gridPadding r"] by (simp add: num_reads_def flood_invD(1) [OF f] conf_positions_def)
qed



end
