(* ===== verification/FrameEncoder.thy ===== *)
theory FrameEncoder
  imports FrameDecoder Pipeline
begin

text \<open>
  \<open>Encoder.h\<close>, \<open>CimbWriter\<close> and \<open>CimbEncoder\<close>: a frame is filled from a stream, its symbols first and its
  colours after them, and painted cell by cell. The image is the list of the tiles that are pasted, each
  with its place and its number; anchors and guides are pictures that are pasted before. \<open>sread\<close> and
  \<open>sgood\<close> are the operations of the stream behind \<open>reed_solomon_stream\<close>. \<open>None\<close> is an undefined access or a
  loop that does not end.
\<close>

section \<open>The writer\<close>

record CimbWriter =
  cw_pastes :: "(coordinate \<times> nat) list"
  cw_positions :: CellPositions
  cw_numTiles :: nat
  cw_offsetX :: nat
  cw_offsetY :: nat

definition cw_create :: "conf \<Rightarrow> nat \<Rightarrow> nat \<Rightarrow> nat \<times> nat \<Rightarrow> CimbWriter option" where
  "cw_create c symbolBits colorBits sz = do {
     px \<leftarrow> corner_padding_x c;
     py \<leftarrow> corner_padding_y c;
     positions \<leftarrow> cp_create (int (cell_spacing_x c), int (cell_spacing_y c)) (int (cells_per_col_x c), int (cells_per_col_y c))
       (int (cell_offset c)) (int px, int py) (interleave_blocks c) interleave_partitions;
     let height = max (snd sz) (image_size_y c);
     let width = max (fst sz) (image_size_x c);
     Some \<lparr>cw_pastes = [], cw_positions = positions, cw_numTiles = 2 ^ colorBits * 2 ^ symbolBits,
       cw_offsetX = (width - image_size_x c) div 2, cw_offsetY = (height - image_size_y c) div 2\<rparr>
   }"

definition cw_paste :: "CimbWriter \<Rightarrow> nat \<Rightarrow> int \<Rightarrow> int \<Rightarrow> CimbWriter" where
  "cw_paste w img x y = w\<lparr>cw_pastes := cw_pastes w @ [((x + int (cw_offsetX w), y + int (cw_offsetY w)), img)]\<rparr>"

text \<open>\<open>CimbEncoder::encode\<close> picks the tile: the colour times the number of symbols plus the symbol.\<close>

definition encode_tile :: "CimbWriter \<Rightarrow> nat \<Rightarrow> nat option" where
  "encode_tile w bits = (if cw_numTiles w = 0 then None else Some (bits mod cw_numTiles w))"

definition cw_write :: "CimbWriter \<Rightarrow> nat \<Rightarrow> (bool \<times> CimbWriter) option" where
  "cw_write w bits =
     (if cp_done (cw_positions w) then Some (False, w)
      else do {
        (xy, positions) \<leftarrow> cp_next (cw_positions w);
        cell \<leftarrow> encode_tile w bits;
        Some (True, cw_paste (w\<lparr>cw_positions := positions\<rparr>) cell (fst xy) (snd xy))
      })"

section \<open>The encoder\<close>

record Encoder =
  en_eccBytes :: nat
  en_eccBlockSize :: nat
  en_bitsPerSymbol :: nat
  en_bitsPerColor :: nat
  en_coupled :: bool

definition en_create :: "conf \<Rightarrow> nat \<Rightarrow> int \<Rightarrow> Encoder" where
  "en_create c bits_per_symbol bits_per_color = \<lparr>en_eccBytes = ecc_bytes c, en_eccBlockSize = ecc_block_size c,
     en_bitsPerSymbol = (if bits_per_symbol \<noteq> 0 then bits_per_symbol else symbol_bits c),
     en_bitsPerColor = (if bits_per_color \<ge> 0 then nat bits_per_color else color_bits c), en_coupled = legacy_mode c\<rparr>"

text \<open>One buffer: values into the slots until the buffer is empty or the last slot is filled.\<close>

partial_function (option) encode_cells ::
  "nat \<Rightarrow> nat \<Rightarrow> nat \<Rightarrow> nat \<Rightarrow> bitreader \<Rightarrow> bitbuffer \<Rightarrow> nat \<Rightarrow> (bitreader \<times> bitbuffer \<times> nat \<times> bool) option" where
  "encode_cells bits_per_op bitsPerRead bitsPerWrite endBitPos br bb bitPos =
     (if br_empty br then Some (br, bb, bitPos, False)
      else do {
        (bits, br) \<leftarrow> br_read br bitsPerRead;
        bb \<leftarrow> (if br_partialSize br = 0 then bb_write bb bits bitPos bitsPerWrite else Some bb);
        let bitPos = uint_add bitPos bits_per_op;
        (if bitPos \<ge> endBitPos then Some (br, bb, 0, True)
         else encode_cells bits_per_op bitsPerRead bitsPerWrite endBitPos br bb bitPos)
      })"

partial_function (option) encode_passes ::
  "('s \<Rightarrow> nat \<Rightarrow> (u8 list \<times> 's) option) \<Rightarrow> ('s \<Rightarrow> bool) \<Rightarrow> nat \<Rightarrow> nat \<Rightarrow> nat \<Rightarrow>
   's reed_solomon_stream \<Rightarrow> bitreader \<Rightarrow> bitbuffer \<Rightarrow> nat \<Rightarrow> nat \<Rightarrow> nat \<Rightarrow> nat \<Rightarrow> (bitbuffer \<times> 's) option" where
  "encode_passes sread sgood bitsPerColor bits_per_op endBitPos rss br bb bitPos progress bitsPerRead bitsPerWrite =
     (if rss_good rss \<and> sgood (rss_stream rss) \<and> progress < 2 then do {
        (bytes, rss) \<leftarrow> rss_readsome sread rss;
        (if bytes = 0 then Some (bb, rss_stream rss)
         else do {
           (br, bb, bitPos, switch) \<leftarrow> encode_cells bits_per_op bitsPerRead bitsPerWrite endBitPos
             (br_assign_new_buffer br (rss_buffer rss) (nat bytes)) bb bitPos;
           (if switch then encode_passes sread sgood bitsPerColor bits_per_op endBitPos rss br bb bitPos (progress + 1) bitsPerColor bitsPerColor
            else encode_passes sread sgood bitsPerColor bits_per_op endBitPos rss br bb bitPos progress bitsPerRead bitsPerWrite)
         })
      } else Some (bb, rss_stream rss))"

partial_function (option) encode_dump :: "nat \<Rightarrow> nat \<Rightarrow> bitbuffer \<Rightarrow> nat \<Rightarrow> CimbWriter \<Rightarrow> CimbWriter option" where
  "encode_dump bits_per_op endBitPos bb bitPos w =
     (if bitPos < endBitPos then do {
        bits \<leftarrow> bb_read bb bitPos bits_per_op;
        (_, w) \<leftarrow> cw_write w (unat (ucast bits :: u32));
        encode_dump bits_per_op endBitPos bb (uint_add bitPos bits_per_op) w
      } else Some w)"

partial_function (option) encode_coupled_cells :: "nat \<Rightarrow> bitreader \<Rightarrow> CimbWriter \<Rightarrow> (bitreader \<times> CimbWriter) option" where
  "encode_coupled_cells bits_per_op br w =
     (if br_empty br then Some (br, w)
      else do {
        (bits, br) \<leftarrow> br_read br bits_per_op;
        w \<leftarrow> (if br_partialSize br = 0 then map_option snd (cw_write w (unat bits)) else Some w);
        encode_coupled_cells bits_per_op br w
      })"

partial_function (option) encode_coupled_loop ::
  "('s \<Rightarrow> nat \<Rightarrow> (u8 list \<times> 's) option) \<Rightarrow> ('s \<Rightarrow> bool) \<Rightarrow> nat \<Rightarrow> 's reed_solomon_stream \<Rightarrow> bitreader \<Rightarrow> CimbWriter \<Rightarrow>
   (CimbWriter \<times> 's) option" where
  "encode_coupled_loop sread sgood bits_per_op rss br w =
     (if rss_good rss \<and> sgood (rss_stream rss) then do {
        (bytes, rss) \<leftarrow> rss_readsome sread rss;
        (if bytes = 0 then Some (w, rss_stream rss)
         else do {
           (br, w) \<leftarrow> encode_coupled_cells bits_per_op (br_assign_new_buffer br (rss_buffer rss) (nat bytes)) w;
           (if cp_done (cw_positions w) then Some (w, rss_stream rss)
            else encode_coupled_loop sread sgood bits_per_op rss br w)
         })
      } else Some (w, rss_stream rss))"

definition encode_next_coupled ::
  "(nat \<Rightarrow> nat \<Rightarrow> u8) \<Rightarrow> ('s \<Rightarrow> nat \<Rightarrow> (u8 list \<times> 's) option) \<Rightarrow> ('s \<Rightarrow> bool) \<Rightarrow> conf \<Rightarrow> Encoder \<Rightarrow> 's \<Rightarrow> nat \<times> nat \<Rightarrow>
   ((coordinate \<times> nat) list option \<times> 's) option" where
  "encode_next_coupled mem sread sgood c e stream canvas_size =
     (if \<not> sgood stream then Some (None, stream)
      else do {
        let bits_per_op = en_bitsPerColor e + en_bitsPerSymbol e;
        w \<leftarrow> cw_create c (en_bitsPerSymbol e) (en_bitsPerColor e) canvas_size;
        rss \<leftarrow> rss_create mem sgood stream (en_eccBytes e) (en_eccBlockSize e);
        (w, stream) \<leftarrow> encode_coupled_loop sread sgood bits_per_op rss (br_create [] 0) w;
        Some (Some (cw_pastes w), stream)
      })"

definition encode_next ::
  "(nat \<Rightarrow> nat \<Rightarrow> u8) \<Rightarrow> ('s \<Rightarrow> nat \<Rightarrow> (u8 list \<times> 's) option) \<Rightarrow> ('s \<Rightarrow> bool) \<Rightarrow> conf \<Rightarrow> Encoder \<Rightarrow> 's \<Rightarrow> nat \<times> nat \<Rightarrow>
   ((coordinate \<times> nat) list option \<times> 's) option" where
  "encode_next mem sread sgood c e stream canvas_size =
     (if en_coupled e then encode_next_coupled mem sread sgood c e stream canvas_size
      else if \<not> sgood stream then Some (None, stream)
      else do {
        let bits_per_op = en_bitsPerColor e + en_bitsPerSymbol e;
        w \<leftarrow> cw_create c (en_bitsPerSymbol e) (en_bitsPerColor e) canvas_size;
        let numCells = cp_count (cw_positions w);
        cap \<leftarrow> capacity c bits_per_op;
        rss \<leftarrow> rss_create mem sgood stream (en_eccBytes e) (en_eccBlockSize e);
        let endBitPos = uint_mul numCells bits_per_op;
        (bb, stream) \<leftarrow> encode_passes sread sgood (en_bitsPerColor e) bits_per_op endBitPos rss (br_create [] 0)
          (bb_create cap) 0 0 (en_bitsPerSymbol e) bits_per_op;
        w \<leftarrow> encode_dump bits_per_op endBitPos bb 0 w;
        Some (Some (cw_pastes w), stream)
      })"

section \<open>The fields of a buffer\<close>

text \<open>The \<open>i\<close>-th value of \<open>w\<close> bits.\<close>

definition field_at :: "nat \<Rightarrow> u8 list \<Rightarrow> nat \<Rightarrow> nat" where
  "field_at w buf i = horner_sum of_bool 2 (map (\<lambda>j. bit_at buf (i * w + w - 1 - j)) [0..<w])"

lemma bit_field_at: "bit (field_at w buf i) j \<longleftrightarrow> j < w \<and> bit_at buf (i * w + w - 1 - j)"
  by (auto simp: field_at_def bit_horner_sum_bit_iff)

lemma field_at_less: "field_at w buf i < 2 ^ w"
  unfolding field_at_def by (rule less_le_trans [OF horner_sum_of_bool_2_less]) simp

lemma bit_of_nat_u32: "bit (of_nat m :: u32) j \<longleftrightarrow> j < 32 \<and> bit m j"
  by (simp add: bit_of_nat_iff)

lemma field_at_eq:
  fixes v :: u32
  assumes "\<And>j. bit v j \<longleftrightarrow> j < w \<and> bit_at buf (i * w + w - 1 - j)"
  shows "unat v = field_at w buf i"
  by (rule bit_eqI) (auto simp: bit_field_at bit_unsigned_iff assms)

lemma bit_at_append: "bit_at (a @ b) k \<longleftrightarrow> (if k < 8 * length a then bit_at a k else bit_at b (k - 8 * length a))"
proof (cases "k < 8 * length a")
  case True
  then have "k div 8 < length a" by simp
  then show ?thesis using True by (simp add: bit_at_def nth_append)
next
  case False
  then obtain d where d: "k = 8 * length a + d" using le_Suc_ex not_less by blast
  then show ?thesis by (auto simp: bit_at_def nth_append)
qed

lemma field_at_shift:
  assumes "8 * length pre = q * w" "i * w + w \<le> 8 * length b"
  shows "field_at w (pre @ b @ post) (q + i) = field_at w b i"
proof -
  have "bit_at (pre @ b @ post) ((q + i) * w + w - 1 - j) \<longleftrightarrow> bit_at b (i * w + w - 1 - j)" if "j < w" for j
  proof -
    have "(q + i) * w + w - 1 - j = 8 * length pre + (i * w + w - 1 - j)" using assms(1) that by (simp add: add_mult_distrib)
    moreover have "i * w + w - 1 - j < 8 * length b" using assms(2) that by linarith
    ultimately show ?thesis by (simp add: bit_at_append)
  qed
  then show ?thesis unfolding field_at_def by (intro arg_cong [where f = "horner_sum of_bool 2"] map_cong) simp_all
qed

lemma field_at_take:
  assumes "i * w + w \<le> 8 * n" "n \<le> length buf"
  shows "field_at w (take n buf) i = field_at w buf i"
  using field_at_shift [of "[]" 0 w i "take n buf" "drop n buf"] assms by simp

lemma br_read_field:
  assumes r: "br_ok r" "br_partial r = 0" "br_partialSize r = 0" and w: "w \<le> 32" "br_pos r = i * w" "i * w + w \<le> 8 * br_size r"
  shows "\<exists>v r'. br_read r w = Some (v, r') \<and> unat v = field_at w (br_buffer r) i \<and> br_ok r' \<and> br_pos r' = (i + 1) * w \<and>
    br_buffer r' = br_buffer r \<and> br_size r' = br_size r \<and> br_partial r' = 0 \<and> br_partialSize r' = 0"
proof -
  have m: "w = min (w - 0) (8 * br_size r - br_pos r)" using w by simp
  obtain v r' where v: "br_read_loop r w 0 0 = Some (w, v, r')" "br_ok r'" "br_pos r' = i * w + w" "br_buffer r' = br_buffer r"
    "br_size r' = br_size r" "br_partial r' = 0" "br_partialSize r' = 0"
    "\<forall>j. bit v j \<longleftrightarrow> j < w \<and> bit_at (br_buffer r) (i * w + w - 1 - j)"
    using br_read_loop_run [OF r(1) _ w(1) m, of 0] r w(2) by auto
  have "unat v = field_at w (br_buffer r) i" by (rule field_at_eq) (use v(8) in blast)
  then show ?thesis using v r by (auto simp: br_read_def br_read_bits_def)
qed

section \<open>Filling the slots\<close>

lemma br_ok_empty: "br_ok br \<Longrightarrow> br_empty br \<longleftrightarrow> 8 * br_size br \<le> br_pos br"
  unfolding br_ok_def br_pos_def br_empty_def by linarith

text \<open>
  A pass over a block: \<open>val\<close> are the values of the slots, of which the block holds those from slot \<open>q - j\<close>
  on, and \<open>I\<close> is what holds of the buffer before slot \<open>q\<close>.
\<close>

lemma encode_cells_run:
  assumes step: "\<And>q bb v. q < n \<Longrightarrow> I q bb \<Longrightarrow> unat v = val q \<Longrightarrow> \<exists>bb'. bb_write bb v (q * op) bw = Some bb' \<and> I (Suc q) bb'"
    and r: "0 < r" "r \<le> 32" and op: "0 < op" "n * op < 2 ^ 32"
  shows "br_ok br \<Longrightarrow> br_partial br = 0 \<Longrightarrow> br_partialSize br = 0 \<Longrightarrow> br_pos br = j * r \<Longrightarrow> 8 * br_size br = c * r \<Longrightarrow> j \<le> c \<Longrightarrow>
    (\<And>i. j \<le> i \<Longrightarrow> i < c \<Longrightarrow> field_at r (br_buffer br) i = val (q + (i - j))) \<Longrightarrow> q < n \<Longrightarrow> q + (c - j) \<le> n \<Longrightarrow> I q bb \<Longrightarrow>
    \<exists>br' bb'. encode_cells op r bw (n * op) br bb (q * op) =
        Some (br', bb', if q + (c - j) = n then 0 else (q + (c - j)) * op, q + (c - j) = n) \<and> I (q + (c - j)) bb' \<and>
      br_partial br' = 0 \<and> br_partialSize br' = 0"
proof (induction "c - j" arbitrary: j q br bb)
  case 0
  then have j: "j = c" by simp
  then have "br_empty br" using 0 br_ok_empty by simp
  then show ?case using 0 j by (subst encode_cells.simps) auto
next
  case (Suc d)
  then have j: "j < c" by simp
  have cr: "Suc j * r \<le> c * r" using j by (intro mult_le_mono1) simp
  have ne: "\<not> br_empty br" using Suc.prems(1,4,5) j r(1) br_ok_empty by simp
  obtain v br1 where 1: "br_read br r = Some (v, br1)" "unat v = field_at r (br_buffer br) j" "br_ok br1" "br_pos br1 = (j + 1) * r"
    "br_buffer br1 = br_buffer br" "br_size br1 = br_size br" "br_partial br1 = 0" "br_partialSize br1 = 0"
    using br_read_field [OF Suc.prems(1-3) r(2) Suc.prems(4)] Suc.prems(5) cr by auto
  have "unat v = val q" using 1(2) Suc.prems(7) [of j] j by simp
  then obtain bb1 where 2: "bb_write bb v (q * op) bw = Some bb1" "I (Suc q) bb1" using step Suc.prems(8,10) by blast
  have qn: "Suc q * op \<le> n * op" using Suc.prems(8) by (intro mult_le_mono1) simp
  then have add: "uint_add (q * op) op = Suc q * op" using op(2) by (simp add: uint_add_def)
  have last: "n * op \<le> Suc q * op \<longleftrightarrow> Suc q = n" using Suc.prems(8) op(1) mult_le_cancel2 [of n op "Suc q"] by linarith
  show ?case
  proof (cases "Suc q = n")
    case True
    then have "c = Suc j" using Suc.prems(9) j by simp
    then show ?thesis using 1 2 ne add last True by (subst encode_cells.simps) simp
  next
    case False
    have e: "Suc q + (c - Suc j) = q + (c - j)" using j by simp
    have vals: "field_at r (br_buffer br1) i = val (Suc q + (i - Suc j))" if "Suc j \<le> i" "i < c" for i
      using Suc.prems(7) [of i] that 1(5) by (simp add: Suc_diff_Suc)
    have "\<exists>br' bb'. encode_cells op r bw (n * op) br1 bb1 (Suc q * op) =
        Some (br', bb', if Suc q + (c - Suc j) = n then 0 else (Suc q + (c - Suc j)) * op, Suc q + (c - Suc j) = n) \<and>
        I (Suc q + (c - Suc j)) bb' \<and> br_partial br' = 0 \<and> br_partialSize br' = 0"
      by (rule Suc.hyps(1)) (use Suc.hyps(2) Suc.prems 1 2 j False e vals in simp_all)
    then show ?thesis using 1 2 ne add last False unfolding e by (subst encode_cells.simps) simp
  qed
qed

text \<open>The buffers that the stream delivers.\<close>

fun supplies ::
  "('s \<Rightarrow> nat \<Rightarrow> (u8 list \<times> 's) option) \<Rightarrow> ('s \<Rightarrow> bool) \<Rightarrow> 's reed_solomon_stream \<Rightarrow> u8 list list \<Rightarrow> 's reed_solomon_stream \<Rightarrow> bool" where
  "supplies sread sgood s [] s' \<longleftrightarrow> s' = s"
| "supplies sread sgood s (w # ws) s' \<longleftrightarrow> rss_good s \<and> sgood (rss_stream s) \<and> w \<noteq> [] \<and>
     (\<exists>s1. rss_readsome sread s = Some (int (length w), s1) \<and> length w \<le> length (rss_buffer s1) \<and> take (length w) (rss_buffer s1) = w \<and>
       supplies sread sgood s1 ws s')"

lemma br_assign_ok:
  "n \<le> length buf \<Longrightarrow> br_ok (br_assign_new_buffer br buf n) \<and> br_pos (br_assign_new_buffer br buf n) = 0 \<and>
    br_size (br_assign_new_buffer br buf n) = n \<and> br_buffer (br_assign_new_buffer br buf n) = buf \<and>
    br_partial (br_assign_new_buffer br buf n) = br_partial br \<and> br_partialSize (br_assign_new_buffer br buf n) = br_partialSize br"
  by (simp add: br_assign_new_buffer_def br_ok_def br_pos_def)

text \<open>A pass over the buffers that fill the slots from \<open>q\<close> on exactly.\<close>

lemma encode_pass_run:
  assumes step: "\<And>q bb v. q < n \<Longrightarrow> I q bb \<Longrightarrow> unat v = val q \<Longrightarrow> \<exists>bb'. bb_write bb v (q * op) bw = Some bb' \<and> I (Suc q) bb'"
    and r: "0 < r" "r \<le> 32" and op: "0 < op" "n * op < 2 ^ 32" and progress: "progress < 2"
    and val: "\<And>i. i < n \<Longrightarrow> val i = field_at r S i"
  shows "supplies sread sgood s ws s' \<Longrightarrow> \<forall>w\<in>set ws. r dvd 8 * length w \<Longrightarrow> S = pre @ concat ws \<Longrightarrow> 8 * length pre = q * r \<Longrightarrow>
    8 * length S = n * r \<Longrightarrow> q < n \<Longrightarrow> I q bb \<Longrightarrow> br_partial br = 0 \<Longrightarrow> br_partialSize br = 0 \<Longrightarrow>
    \<exists>br' bb'. encode_passes sread sgood k op (n * op) s br bb (q * op) progress r bw =
      encode_passes sread sgood k op (n * op) s' br' bb' 0 (progress + 1) k k \<and> I n bb' \<and> br_partial br' = 0 \<and> br_partialSize br' = 0"
proof (induction ws arbitrary: s pre q bb br)
  case Nil
  then show ?case using r(1) by simp
next
  case (Cons w ws)
  obtain s1 where s1: "rss_good s" "sgood (rss_stream s)" "w \<noteq> []" "rss_readsome sread s = Some (int (length w), s1)"
    "length w \<le> length (rss_buffer s1)" "take (length w) (rss_buffer s1) = w" "supplies sread sgood s1 ws s'"
    using Cons.prems(1) by auto
  have "r dvd 8 * length w" using Cons.prems(2) by simp
  then obtain c where c: "8 * length w = c * r" by (metis dvdE mult.commute)
  let ?br = "br_assign_new_buffer br (rss_buffer s1) (length w)"
  note B = br_assign_ok [OF s1(5), of br]
  have len: "8 * length S = (q + c) * r + 8 * length (concat ws)" using Cons.prems(3,4) c by (simp add: add_mult_distrib)
  then have "(q + c) * r \<le> n * r" using Cons.prems(5) by linarith
  then have qc: "q + c \<le> n" using r(1) by simp
  have c0: "0 < c" using c s1(3) by (cases c) auto
  have vals: "field_at r (br_buffer ?br) i = val (q + (i - 0))" if "0 \<le> i" "i < c" for i
  proof -
    have "Suc i * r \<le> c * r" using that(2) by (intro mult_le_mono1) simp
    then have fit: "i * r + r \<le> 8 * length w" using c by simp
    have "val (q + i) = field_at r S (q + i)" using val that(2) qc by simp
    also have "\<dots> = field_at r w i" using field_at_shift [OF Cons.prems(4) fit, of "concat ws"] Cons.prems(3) by simp
    also have "\<dots> = field_at r (rss_buffer s1) i" using field_at_take [OF fit s1(5)] s1(6) by simp
    finally show ?thesis using B by simp
  qed
  have "\<exists>br' bb'. encode_cells op r bw (n * op) ?br bb (q * op) =
      Some (br', bb', if q + (c - 0) = n then 0 else (q + (c - 0)) * op, q + (c - 0) = n) \<and> I (q + (c - 0)) bb' \<and>
      br_partial br' = 0 \<and> br_partialSize br' = 0"
    by (rule encode_cells_run [of n I val op bw r, OF step r op]) (use B c qc vals Cons.prems(6-9) in auto)
  then obtain br1 bb1 where 1: "encode_cells op r bw (n * op) ?br bb (q * op) = Some (br1, bb1, if q + c = n then 0 else (q + c) * op, q + c = n)"
    "I (q + c) bb1" "br_partial br1 = 0" "br_partialSize br1 = 0" by auto
  have run: "encode_passes sread sgood k op (n * op) s br bb (q * op) progress r bw =
     (if q + c = n then encode_passes sread sgood k op (n * op) s1 br1 bb1 0 (progress + 1) k k
      else encode_passes sread sgood k op (n * op) s1 br1 bb1 ((q + c) * op) progress r bw)"
    using s1 1(1) progress by (subst encode_passes.simps) simp
  show ?case
  proof (cases "q + c = n")
    case True
    then have "concat ws = []" using len Cons.prems(5) by simp
    moreover have "w' \<noteq> []" if "w' \<in> set ws" for w'
      using s1(7) that by (induction ws arbitrary: s1) auto
    ultimately have "ws = []" by (cases ws) auto
    then have "s' = s1" using s1(7) by simp
    then show ?thesis using run True 1(2-4) by auto
  next
    case False
    have "\<exists>br' bb'. encode_passes sread sgood k op (n * op) s1 br1 bb1 ((q + c) * op) progress r bw =
      encode_passes sread sgood k op (n * op) s' br' bb' 0 (progress + 1) k k \<and> I n bb' \<and> br_partial br' = 0 \<and> br_partialSize br' = 0"
      by (rule Cons.IH [where pre = "pre @ w"]) (use s1(7) Cons.prems c 1 qc False in \<open>simp_all add: add_mult_distrib\<close>)
    then show ?thesis using run False by simp
  qed
qed

section \<open>Symbols, colours and tiles\<close>

lemma same_slot:
  fixes a b w k :: nat
  assumes "a * w \<le> k" "k < a * w + w" "b * w \<le> k" "k < b * w + w"
  shows "a = b"
proof -
  have "k div w = a" "k div w = b" using assms by (auto intro!: div_nat_eqI simp: mult.commute)
  then show ?thesis by simp
qed

lemma slots_bit:
  assumes s: "slots w slot V f buf" and inj: "inj_on slot V" and i: "i \<in> V" and j: "j < w"
  shows "bit_at buf (slot i * w + w - 1 - j) \<longleftrightarrow> bit (of_nat (f i) :: u32) j"
proof -
  let ?k = "slot i * w + w - 1 - j"
  have k: "slot i * w \<le> ?k" "?k < slot i * w + w" "slot i * w + w - 1 - ?k = j" using j by linarith+
  have "i' = i" if "i' \<in> V" "slot i' * w \<le> ?k" "?k < slot i' * w + w" for i'
    using same_slot [OF that(2,3) k(1,2)] inj_onD [OF inj] that(1) i by blast
  then show ?thesis using s i k unfolding slots_def by metis
qed

lemma bit_stacked:
  fixes v a :: nat
  assumes "a < 2 ^ s"
  shows "bit (v * 2 ^ s + a) j \<longleftrightarrow> (if j < s then bit a j else bit v (j - s))"
proof -
  have "take_bit s (v * 2 ^ s + a) = a" "drop_bit s (v * 2 ^ s + a) = v" using assms by (simp_all add: take_bit_eq_mod drop_bit_eq_div)
  then show ?thesis by (metis bit_drop_bit_eq bit_take_bit_iff comp_apply le_add_diff_inverse not_less)
qed

text \<open>A colour goes above the symbol of its slot.\<close>

lemma slots_or:
  assumes s: "slots op id V f (bb_buffer b)" and q: "q \<in> V" and v: "f q < 2 ^ sb" "v < 2 ^ cb" and op: "op = sb + cb" "op \<le> 32"
    and fit: "q * op + op \<le> 8 * length (bb_buffer b)" "8 * length (bb_buffer b) < 2 ^ 32"
  shows "\<exists>buf. bb_write b (of_nat v) (q * op) cb = Some (b\<lparr>bb_buffer := buf\<rparr>) \<and> length buf = length (bb_buffer b) \<and>
    slots op id V (f(q := v * 2 ^ sb + f q)) buf"
proof -
  have lt: "q * op + cb \<le> 8 * length (bb_buffer b)" "q * op + cb < 2 ^ 32" "cb \<le> 32" using fit op by linarith+
  have "(2 :: nat) ^ cb \<le> 2 ^ 32" using lt(3) by (intro power_increasing) simp_all
  then have "v < 2 ^ 32" using v(2) by linarith
  then have vv: "unat (of_nat v :: u32) < 2 ^ cb" using v(2) by (simp add: unat_of_nat)
  obtain buf where buf: "bb_write b (of_nat v) (q * op) cb = Some (b\<lparr>bb_buffer := buf\<rparr>)" "length buf = length (bb_buffer b)"
    "\<And>k. bit_at buf k \<longleftrightarrow> bit_at (bb_buffer b) k \<or> q * op \<le> k \<and> k < q * op + cb \<and> bit (of_nat v :: u32) (q * op + cb - 1 - k)"
    using bb_write_bits [OF lt vv] by blast
  let ?g = "f(q := v * 2 ^ sb + f q)"
  have bits: "bit (of_nat (?g i) :: u32) (i * op + op - 1 - k) \<longleftrightarrow>
      bit (of_nat (f i) :: u32) (i * op + op - 1 - k) \<or> i = q \<and> k < q * op + cb \<and> bit (of_nat v :: u32) (q * op + cb - 1 - k)"
    if "i * op \<le> k" "k < i * op + op" for i k
  proof (cases "i = q")
    case True
    define j where "j = q * op + op - 1 - k"
    have j: "j < op" "j < sb \<longleftrightarrow> \<not> k < q * op + cb" "\<not> j < sb \<Longrightarrow> q * op + cb - 1 - k = j - sb"
    proof -
      define t where "t = k - q * op"
      have t: "k = q * op + t" "t < op" using that unfolding True t_def by linarith+
      then have jt: "j = op - 1 - t" by (simp add: j_def)
      show "j < op" "j < sb \<longleftrightarrow> \<not> k < q * op + cb" using t jt op(1) by auto
      show "q * op + cb - 1 - k = j - sb" unfolding t(1) jt op(1) by simp
    qed
    have hi: "\<not> bit (f q) j" if "\<not> j < sb" using that v(1)
      by (metis bit_take_bit_iff take_bit_nat_eq_self)
    have "bit (of_nat (?g q) :: u32) j \<longleftrightarrow> bit (v * 2 ^ sb + f q) j" "bit (of_nat (f q) :: u32) j \<longleftrightarrow> bit (f q) j"
      using j(1) op(2) unfolding bit_of_nat_u32 by simp_all
    moreover have "bit (of_nat v :: u32) (j - sb) \<longleftrightarrow> bit v (j - sb)" using less_imp_diff_less [of j 32 sb] j(1) op(2) unfolding bit_of_nat_u32 by simp
    moreover have "bit (v * 2 ^ sb + f q) j \<longleftrightarrow> bit (f q) j \<or> k < q * op + cb \<and> bit v (j - sb)"
      using bit_stacked [OF v(1), of v j] j(2) hi by auto
    ultimately show ?thesis using j(2,3) True unfolding j_def by metis
  qed simp
  have "slots op id V ?g buf"
    unfolding slots_def
  proof (intro allI)
    fix k
    have "(\<exists>i\<in>V. id i * op \<le> k \<and> k < id i * op + op \<and> bit (of_nat (?g i) :: u32) (id i * op + op - 1 - k)) \<longleftrightarrow>
      (\<exists>i\<in>V. i * op \<le> k \<and> k < i * op + op \<and> bit (of_nat (f i) :: u32) (i * op + op - 1 - k)) \<or>
      (q * op \<le> k \<and> k < q * op + op \<and> k < q * op + cb \<and> bit (of_nat v :: u32) (q * op + cb - 1 - k))"
      using bits q unfolding id_apply by blast
    moreover have "k < q * op + op \<and> k < q * op + cb \<longleftrightarrow> k < q * op + cb" using op(1) by linarith
    ultimately show "bit_at buf k \<longleftrightarrow> (\<exists>i\<in>V. id i * op \<le> k \<and> k < id i * op + op \<and> bit (of_nat (?g i) :: u32) (id i * op + op - 1 - k))"
      using s unfolding buf(3) slots_def id_apply by blast
  qed
  then show ?thesis using buf(1,2) by blast
qed

text \<open>Painting.\<close>

lemma encode_dump_run:
  assumes s: "slots op id {..<n} f (bb_buffer bb)" and fit: "n * op \<le> 8 * length (bb_buffer bb)" "n * op < 2 ^ 32"
    and op: "0 < op" "op \<le> 32" and f: "\<And>i. i < n \<Longrightarrow> f i < 2 ^ op"
  shows "q \<le> n \<Longrightarrow> cp_index (cw_positions w) = q \<Longrightarrow> length (cp_positions (cw_positions w)) = n \<Longrightarrow> cw_numTiles w = 2 ^ op \<Longrightarrow>
    cw_offsetX w = 0 \<Longrightarrow> cw_offsetY w = 0 \<Longrightarrow>
    \<exists>w'. encode_dump op (n * op) bb (q * op) w = Some w' \<and>
      cw_pastes w' = cw_pastes w @ map (\<lambda>i. (cp_positions (cw_positions w) ! i, f i)) [q..<n]"
proof (induction "n - q" arbitrary: q w)
  case 0
  then show ?case by (subst encode_dump.simps) simp
next
  case (Suc d)
  then have q: "q < n" by simp
  have qn: "Suc q * op \<le> n * op" using q by (intro mult_le_mono1) simp
  then have add: "uint_add (q * op) op = Suc q * op" and lt: "q * op < n * op" using fit(2) op(1) q by (simp_all add: uint_add_def)
  have "q * op + op \<le> 8 * length (bb_buffer bb)" using qn fit(1) by simp
  then obtain u where u: "bb_read bb (q * op) op = Some u" "\<And>j. bit u j \<longleftrightarrow> j < op \<and> bit_at (bb_buffer bb) (q * op + op - 1 - j)"
    using bb_read_bits [of "q * op" op bb] op(2) by auto
  have "bit (unat (ucast u :: u32)) j \<longleftrightarrow> bit (f q) j" for j
  proof (cases "j < op")
    case True
    then show ?thesis using u(2) [of j] slots_bit [OF s _ _ True, of q] q op(2) by (simp add: bit_unsigned_iff bit_ucast_iff bit_of_nat_u32)
  next
    case False
    then have "\<not> bit (f q) j" using f [OF q] by (metis bit_take_bit_iff take_bit_nat_eq_self)
    then show ?thesis using u(2) [of j] False by (simp add: bit_unsigned_iff bit_ucast_iff)
  qed
  then have val: "unat (ucast u :: u32) = f q" by (rule bit_eqI)
  let ?xy = "cp_positions (cw_positions w) ! q"
  let ?w = "w\<lparr>cw_positions := (cw_positions w)\<lparr>cp_index := q + 1\<rparr>, cw_pastes := cw_pastes w @ [(?xy, f q)]\<rparr>"
  have wr: "cw_write w (f q) = Some (True, ?w)"
    using Suc.prems q f [OF q] by (simp add: cw_write_def cp_done_def cp_next_def encode_tile_def cw_paste_def)
  have d: "d = n - Suc q" "Suc q \<le> n" using Suc.hyps(2) q by simp_all
  obtain w' where w': "encode_dump op (n * op) bb (Suc q * op) ?w = Some w'"
    "cw_pastes w' = cw_pastes ?w @ map (\<lambda>i. (cp_positions (cw_positions ?w) ! i, f i)) [Suc q..<n]"
    using Suc.hyps(1) [OF d, of ?w] Suc.prems by auto
  have "encode_dump op (n * op) bb (q * op) w = Some w'"
    using w'(1) u(1) wr lt by (subst encode_dump.simps) (simp add: val add)
  then show ?case using w'(2) q by (auto simp: upt_conv_Cons)
qed

text \<open>A frame of symbols \<open>S\<close> and colours \<open>C\<close>: what is painted, and where.\<close>

definition frame_value :: "conf \<Rightarrow> u8 list \<Rightarrow> u8 list \<Rightarrow> nat \<Rightarrow> nat" where
  "frame_value c S C i = field_at (color_bits c) C i * 2 ^ symbol_bits c + field_at (symbol_bits c) S i"

lemma frame_value_less: "frame_value c S C i < 2 ^ bits_per_cell c" if "bits_per_cell c = color_bits c + symbol_bits c" for c S C i
proof -
  have "frame_value c S C i < (field_at (color_bits c) C i + 1) * 2 ^ symbol_bits c"
    using field_at_less [of "symbol_bits c" S i] by (simp add: frame_value_def)
  also have "\<dots> \<le> 2 ^ color_bits c * 2 ^ symbol_bits c"
    using field_at_less [of "color_bits c" C i] by (intro mult_le_mono1) simp
  finally show ?thesis by (simp add: that power_add)
qed

lemma encode_frame_run:
  assumes fits: "frame_fits c" and bits: "bits_per_cell c = color_bits c + symbol_bits c" "capacity c (bits_per_cell c) = Some cap"
    and S: "supplies sread sgood s ws s1" "\<forall>w\<in>set ws. symbol_bits c dvd 8 * length w" "8 * length (concat ws) = conf_cells c * symbol_bits c"
    and C: "supplies sread sgood s1 vs s2" "\<forall>w\<in>set vs. color_bits c dvd 8 * length w" "8 * length (concat vs) = conf_cells c * color_bits c"
  shows "\<exists>bb. encode_passes sread sgood (color_bits c) (bits_per_cell c) (conf_cells c * bits_per_cell c) s (br_create [] 0) (bb_create cap) 0 0
      (symbol_bits c) (bits_per_cell c) = Some (bb, rss_stream s2) \<and> 8 * length (bb_buffer bb) = conf_cells c * bits_per_cell c \<and>
    slots (bits_per_cell c) id {..<conf_cells c} (frame_value c (concat ws) (concat vs)) (bb_buffer bb)"
proof -
  let ?n = "conf_cells c" and ?op = "bits_per_cell c" and ?s = "symbol_bits c" and ?k = "color_bits c"
  have f: "0 < ?s" "?s \<le> 32" "0 < ?k" "?k \<le> 32" "0 < ?op" "?op \<le> 32" "8 * cap = ?n * ?op" "0 < cap" "8 * cap < 2 ^ 32"
    using fits bits(2) by (auto simp: frame_fits_def slots_fit_def)
  have n0: "0 < ?n" using f(7,8) by (cases ?n) auto
  have nop: "?n * ?op < 2 ^ 32" using f(7,9) by simp
  define I where "I q bb \<longleftrightarrow> length (bb_buffer bb) = cap \<and> slots ?op id {..<q} (field_at ?s (concat ws)) (bb_buffer bb)" for q and bb :: bitbuffer
  define J where "J q bb \<longleftrightarrow> length (bb_buffer bb) = cap \<and>
    slots ?op id {..<?n} (\<lambda>i. if i < q then frame_value c (concat ws) (concat vs) i else field_at ?s (concat ws) i) (bb_buffer bb)" for q and bb :: bitbuffer
  have room: "q * ?op + ?op \<le> 8 * length (bb_buffer bb)" "8 * length (bb_buffer bb) < 2 ^ 32" if "q < ?n" "length (bb_buffer bb) = cap" for q and bb :: bitbuffer
    using mult_le_mono1 [of "Suc q" ?n ?op] that f(7,9) by simp_all
  have I_step: "\<exists>bb'. bb_write bb v (q * ?op) ?op = Some bb' \<and> I (Suc q) bb'"
    if qI: "q < ?n" "I q bb" "unat v = field_at ?s (concat ws) q" for q v and bb :: bitbuffer
  proof -
    have "field_at ?s (concat ws) q < 2 ^ ?op"
      using field_at_less [of ?s "concat ws" q] bits(1) by (simp add: power_add less_le_trans)
    then obtain buf where b: "bb_write bb (of_nat (field_at ?s (concat ws) q)) (uint_mul (id q) ?op) ?op = Some (bb\<lparr>bb_buffer := buf\<rparr>)"
      "length buf = length (bb_buffer bb)" "slots ?op id (insert q {..<q}) ((field_at ?s (concat ws))(q := field_at ?s (concat ws) q)) buf"
      using slots_write [of ?op id "{..<q}" "field_at ?s (concat ws)" bb q "field_at ?s (concat ws) q"] room [of q bb] qI(1,2) f(6)
      unfolding I_def id_apply by blast
    have "uint_mul (id q) ?op = q * ?op" using room [of q bb] qI(1,2) by (simp add: uint_mul_def I_def)
    moreover have "of_nat (field_at ?s (concat ws) q) = v" using qI(3) by (metis of_nat_unat ucast_id)
    moreover have "I (Suc q) (bb\<lparr>bb_buffer := buf\<rparr>)" using b(2,3) qI(2) by (simp add: I_def lessThan_Suc)
    ultimately show ?thesis using b(1) by auto
  qed
  have J_step: "\<exists>bb'. bb_write bb v (q * ?op) ?k = Some bb' \<and> J (Suc q) bb'"
    if q: "q < ?n" and J: "J q bb" and v: "unat v = field_at ?k (concat vs) q" for q v and bb :: bitbuffer
  proof -
    let ?f = "\<lambda>q i. if i < q then frame_value c (concat ws) (concat vs) i else field_at ?s (concat ws) i"
    have "?f q q < 2 ^ ?s" "field_at ?k (concat vs) q < 2 ^ ?k" using field_at_less by simp_all
    then obtain buf where b: "bb_write bb (of_nat (field_at ?k (concat vs) q)) (q * ?op) ?k = Some (bb\<lparr>bb_buffer := buf\<rparr>)"
      "length buf = length (bb_buffer bb)"
      "slots ?op id {..<?n} ((?f q)(q := field_at ?k (concat vs) q * 2 ^ ?s + ?f q q)) buf"
      using slots_or [of ?op "{..<?n}" "?f q" bb q ?s "field_at ?k (concat vs) q" ?k] J q room [of q bb] bits(1) f(6)
      by (auto simp: J_def)
    have e: "(?f q)(q := field_at ?k (concat vs) q * 2 ^ ?s + ?f q q) = ?f (Suc q)"
      by (rule ext) (auto simp: frame_value_def less_Suc_eq)
    have "of_nat (field_at ?k (concat vs) q) = v" using v by (metis of_nat_unat ucast_id)
    moreover have "J (Suc q) (bb\<lparr>bb_buffer := buf\<rparr>)" using b(2,3) J unfolding e by (simp add: J_def)
    ultimately show ?thesis using b(1) by auto
  qed
  have I0: "I 0 (bb_create cap)" using bb_create_empty [OF f(8)] by (simp add: I_def slots_def no_bits)
  obtain br1 bb1 where 1: "encode_passes sread sgood ?k ?op (?n * ?op) s (br_create [] 0) (bb_create cap) (0 * ?op) 0 ?s ?op =
      encode_passes sread sgood ?k ?op (?n * ?op) s1 br1 bb1 0 (0 + 1) ?k ?k" "I ?n bb1" "br_partial br1 = 0" "br_partialSize br1 = 0"
    using encode_pass_run [of ?n I "field_at ?s (concat ws)" ?op ?op ?s 0 "concat ws" sread sgood s ws s1 "[]" 0 "bb_create cap" "br_create [] 0" ?k]
      I_step f(1,2,5) nop S n0 I0 by (auto simp: br_create_def br_clear_partial_def)
  have J0: "J 0 bb1" using 1(2) by (simp add: I_def J_def)
  obtain br2 bb2 where 2: "encode_passes sread sgood ?k ?op (?n * ?op) s1 br1 bb1 (0 * ?op) (0 + 1) ?k ?k =
      encode_passes sread sgood ?k ?op (?n * ?op) s2 br2 bb2 0 (0 + 1 + 1) ?k ?k" "J ?n bb2"
    using encode_pass_run [of ?n J "field_at ?k (concat vs)" ?op ?k ?k 1 "concat vs" sread sgood s1 vs s2 "[]" 0 bb1 br1 ?k]
      J_step f(3,4,5) nop C n0 J0 1(3,4) by auto
  have "encode_passes sread sgood ?k ?op (?n * ?op) s2 br2 bb2 0 (0 + 1 + 1) ?k ?k = Some (bb2, rss_stream s2)"
    by (subst encode_passes.simps) simp
  moreover have "slots ?op id {..<?n} (frame_value c (concat ws) (concat vs)) (bb_buffer bb2)"
    using 2(2) by (simp add: J_def slots_def)
  moreover have "8 * length (bb_buffer bb2) = ?n * ?op" using 2(2) f(7) by (simp add: J_def)
  ultimately show ?thesis using 1(1) 2(1) by auto
qed

section \<open>The blocks of the stream\<close>

text \<open>A stream that delivers whole blocks of \<open>d\<close> bytes, and what \<open>reed_solomon_stream\<close> makes of them.\<close>

fun delivers :: "('s \<Rightarrow> nat \<Rightarrow> (u8 list \<times> 's) option) \<Rightarrow> ('s \<Rightarrow> bool) \<Rightarrow> nat \<Rightarrow> 's \<Rightarrow> u8 list list \<Rightarrow> 's \<Rightarrow> bool" where
  "delivers sread sgood d st [] st' \<longleftrightarrow> st' = st"
| "delivers sread sgood d st (m # ms) st' \<longleftrightarrow> sgood st \<and> length m = d \<and>
     (\<exists>st1. sread st d = Some (m, st1) \<and> delivers sread sgood d st1 ms st')"

lemma delivers_append: "delivers sread sgood d st (ms @ ms') st' \<longleftrightarrow>
    (\<exists>st1. delivers sread sgood d st ms st1 \<and> delivers sread sgood d st1 ms' st')"
  by (induction ms arbitrary: st) auto

definition coded :: "nat \<Rightarrow> u8 list \<Rightarrow> u8 list \<Rightarrow> bool" where
  "coded t m w \<longleftrightarrow> (\<exists>p. length p = t \<and> w = m @ p \<and> codeword t w)"

lemma rss_readsome_block:
  assumes ok: "rss_ok t n s" and m: "sread (rss_stream s) (n - t) = Some (m, st)" "length m = n - t"
  shows "\<exists>s'. rss_readsome sread s = Some (int n, s') \<and> rss_ok t n s' \<and> rss_stream s' = st \<and> rss_good s' = rss_good s \<and>
    coded t m (rss_buffer s')"
proof -
  note S = ok [unfolded rss_ok_def]
  have sub: "uint_sub n t = n - t" using S by (intro uint_sub_le) auto
  have b: "blit (rss_buffer s) 0 m = Some (m @ drop (n - t) (rss_buffer s))" using S m(2) by (simp add: blit_def)
  let ?data = "m @ drop (n - t) (rss_buffer s)"
  have d: "length m + t \<le> length ?data" "length m \<le> length ?data" "length m + t \<le> 255" "take (length m) ?data = m"
    "drop (length m + t) ?data = []" "m \<noteq> []" using S m(2) by auto
  obtain rs' parity where e: "correct_reed_solomon_encode (rsw_rs (rss_rs s)) ?data (length m) ?data =
      Some (255, rs', m @ parity)" "length parity = t" "codeword t (m @ parity)" "rs_ok t rs'"
    using encode_spec [of t "rsw_rs (rss_rs s)" "length m" ?data ?data] S d by auto
  let ?s = "s\<lparr>rss_stream := st, rss_buffer := m @ parity, rss_rs := (rss_rs s)\<lparr>rsw_rs := rs'\<rparr>\<rparr>"
  have "rss_readsome sread s = Some (int n, ?s)"
    using S m sub b e(1) d(6) by (simp add: rss_readsome_def ReedSolomon_encode_def Let_def)
  moreover have "rss_ok t n ?s" using S m(2) e by (simp add: rss_ok_def)
  ultimately show ?thesis using e by (auto simp: coded_def)
qed

lemma supplies_blocks:
  "rss_ok t n s \<Longrightarrow> rss_good s \<Longrightarrow> delivers sread sgood (n - t) (rss_stream s) ms st \<Longrightarrow>
    \<exists>ws s'. supplies sread sgood s ws s' \<and> rss_stream s' = st \<and> rss_ok t n s' \<and> rss_good s' \<and> list_all2 (coded t) ms ws \<and>
      (\<forall>w\<in>set ws. length w = n)"
proof (induction ms arbitrary: s)
  case Nil
  then show ?case by (intro exI [of _ "[]"] exI [of _ s]) simp
next
  case (Cons m ms)
  obtain st1 where m: "sgood (rss_stream s)" "length m = n - t" "sread (rss_stream s) (n - t) = Some (m, st1)"
    "delivers sread sgood (n - t) st1 ms st" using Cons.prems(3) by auto
  obtain s1 where s1: "rss_readsome sread s = Some (int n, s1)" "rss_ok t n s1" "rss_stream s1 = st1" "rss_good s1"
    "coded t m (rss_buffer s1)"
    using rss_readsome_block [where sread = sread and m = m and st = st1, OF Cons.prems(1) m(3,2)] Cons.prems(2) by auto
  obtain ws s' where ws: "supplies sread sgood s1 ws s'" "rss_stream s' = st" "rss_ok t n s'" "rss_good s'" "list_all2 (coded t) ms ws"
    "\<forall>w\<in>set ws. length w = n" using Cons.IH [OF s1(2,4)] s1(3) m(4) by auto
  have len: "length (rss_buffer s1) = n" "n \<noteq> 0" using s1(2) by (auto simp: rss_ok_def)
  then have "rss_buffer s1 \<noteq> []" by auto
  then have "supplies sread sgood s (rss_buffer s1 # ws) s'" using s1 m(1) ws(1) len Cons.prems(2) by auto
  then show ?case using ws s1(5) len(1) by (intro exI [of _ "rss_buffer s1 # ws"] exI [of _ s']) auto
qed

text \<open>The whole of \<open>encode_next\<close>.\<close>

lemma interleave_positions:
  assumes "interleave_indices (length ps) num_chunks partitions = Some indices" "\<forall>i\<in>set indices. i < length ps"
  shows "interleave ps num_chunks partitions = Some (map ((!) ps) indices)"
proof -
  have "for_each ixs (\<lambda>idx res. map_option (\<lambda>p. res @ [p]) (rd ps idx)) res = Some (res @ map ((!) ps) ixs)"
    if "\<forall>i\<in>set ixs. i < length ps" for ixs res
    using that by (induction ixs arbitrary: res) auto
  then show ?thesis using assms by (simp add: interleave_def)
qed

definition separate_ok :: "conf \<Rightarrow> bool" where
  "separate_ok c \<longleftrightarrow> \<not> legacy_mode c \<and> frame_fits c \<and> 0 < interleave_blocks c \<and> bits_per_cell c = color_bits c + symbol_bits c \<and>
     1 \<le> ecc_bytes c \<and> ecc_bytes c < ecc_block_size c \<and> ecc_block_size c \<le> 255 \<and>
     symbol_bits c dvd 8 * ecc_block_size c \<and> color_bits c dvd 8 * ecc_block_size c"

lemma modes_separate_ok: "\<not> legacy_mode (temp_conf m) \<Longrightarrow> separate_ok (temp_conf m)"
proof -
  assume l: "\<not> legacy_mode (temp_conf m)"
  have "separate_ok (temp_conf 66)" "separate_ok (temp_conf 67)" "separate_ok (temp_conf 68)"
    unfolding separate_ok_def by (simp_all add: modes_frame_fits; simp add: temp_conf_def conf_eval interleave_blocks_def)+
  moreover have "legacy_mode (temp_conf 4)" "legacy_mode (temp_conf 8)" by (simp_all add: temp_conf_def conf_eval)
  ultimately show ?thesis using temp_conf_cases [of m] l by auto
qed

definition blocks_of :: "conf \<Rightarrow> nat \<Rightarrow> nat" where
  "blocks_of c w = conf_cells c * w div (8 * ecc_block_size c)"

lemma encode_next_paints:
  assumes ok: "separate_ok c"
    and d: "delivers sread sgood (ecc_block_size c - ecc_bytes c) st (ms @ ms') st'"
    and n: "length ms * (8 * ecc_block_size c) = conf_cells c * symbol_bits c" "length ms' * (8 * ecc_block_size c) = conf_cells c * color_bits c"
  shows "\<exists>ws vs indices. encode_next mem sread sgood c (en_create c 0 (- 1)) st (0, 0) =
      Some (Some (map (\<lambda>k. (conf_positions c 0 ! (indices ! k), frame_value c (concat ws) (concat vs) k)) [0..<conf_cells c]), st') \<and>
    interleave_indices (conf_cells c) (interleave_blocks c) interleave_partitions = Some indices \<and>
    list_all2 (coded (ecc_bytes c)) ms ws \<and> list_all2 (coded (ecc_bytes c)) ms' vs \<and>
    8 * length (concat ws) = conf_cells c * symbol_bits c \<and> 8 * length (concat vs) = conf_cells c * color_bits c"
proof -
  let ?n = "conf_cells c" and ?t = "ecc_bytes c" and ?b = "ecc_block_size c"
  note S = ok [unfolded separate_ok_def]
  have fits: "frame_fits c" "grid_fits c" using S unfolding frame_fits_def by blast+
  have slot: "0 < symbol_bits c" "0 < color_bits c" using fits(1) by (auto simp: frame_fits_def slots_fit_def)
  obtain cap where cap: "capacity c (bits_per_cell c) = Some cap" "8 * cap = ?n * bits_per_cell c" "0 < cap" "8 * cap < 2 ^ 32"
    "bits_per_cell c \<le> 32" using fits(1) by (auto simp: frame_fits_def slots_fit_def)
  have nop: "?n * bits_per_cell c < 2 ^ 32" "0 < ?n" using cap by (auto intro: gr0I)
  obtain st1 where st1: "delivers sread sgood (?b - ?t) st ms st1" "delivers sread sgood (?b - ?t) st1 ms' st'"
    using d unfolding delivers_append by blast
  have "ms \<noteq> []" using n(1) nop(2) slot by auto
  then have good: "sgood st" using st1(1) by (cases ms) auto
  have t: "1 \<le> ?t" "?t < 255" using S by auto
  obtain rs where rs: "correct_reed_solomon_create mem rs_primitive_polynomial 1 1 ?t = Some rs" "rs_ok ?t rs"
    using rs_create_ok [OF t, of mem] by blast
  define s where "s = \<lparr>rss_buffer = replicate ?b 0, rss_stream = st, rss_rs = \<lparr>rsw_rs = rs, rsw_parityBytes = ?t\<rparr>, rss_good = True\<rparr>"
  have cs: "rss_create mem sgood st ?t ?b = Some s" using rs good by (simp add: rss_create_def ReedSolomon_create_def s_def)
  have s: "rss_ok ?t ?b s" "rss_good s" "rss_stream s = st" using rs S by (simp_all add: s_def rss_ok_def)
  obtain ws s1 where ws: "supplies sread sgood s ws s1" "rss_stream s1 = st1" "rss_ok ?t ?b s1" "rss_good s1" "list_all2 (coded ?t) ms ws"
    "\<forall>w\<in>set ws. length w = ?b" using supplies_blocks [OF s(1,2)] s(3) st1(1) by blast
  obtain vs s2 where vs: "supplies sread sgood s1 vs s2" "rss_stream s2 = st'" "list_all2 (coded ?t) ms' vs"
    "\<forall>w\<in>set vs. length w = ?b" using supplies_blocks [OF ws(3,4)] ws(2) st1(2) by blast
  have conc: "8 * length (concat us) = length us * (8 * ?b)" if "\<forall>w\<in>set us. length w = ?b" for us :: "u8 list list"
    using that by (induction us) auto
  have len: "8 * length (concat ws) = ?n * symbol_bits c" "8 * length (concat vs) = ?n * color_bits c"
    using conc [OF ws(6)] conc [OF vs(4)] n list_all2_lengthD [OF ws(5)] list_all2_lengthD [OF vs(3)] by simp_all
  have dv: "\<forall>w\<in>set ws. symbol_bits c dvd 8 * length w" "\<forall>w\<in>set vs. color_bits c dvd 8 * length w"
    using ws(6) vs(4) S by auto
  obtain bb where bb: "encode_passes sread sgood (color_bits c) (bits_per_cell c) (?n * bits_per_cell c) s (br_create [] 0) (bb_create cap) 0 0
      (symbol_bits c) (bits_per_cell c) = Some (bb, st')" "8 * length (bb_buffer bb) = ?n * bits_per_cell c"
    "slots (bits_per_cell c) id {..<?n} (frame_value c (concat ws) (concat vs)) (bb_buffer bb)"
    using encode_frame_run [OF fits(1) _ cap(1) ws(1) dv(1) len(1) vs(1) dv(2) len(2)] S vs(2) by auto
  have il: "interleave_blocks c = 0 \<or> 0 < interleave_partitions \<and> interleave_partitions dvd ?n"
    using fits(1) by (simp add: frame_fits_def interleave_partitions_def)
  obtain indices where ix: "interleave_indices ?n (interleave_blocks c) interleave_partitions = Some indices" "length indices = ?n"
    "\<forall>i<?n. indices ! i < ?n" using interleave_lookup [OF il] by blast
  have np: "length (conf_positions c 0) = ?n" by (rule length_conf_positions [OF fits(2)])
  have "\<forall>i\<in>set indices. i < length (conf_positions c 0)" using ix(2,3) np by (auto simp: in_set_conv_nth)
  then have il: "interleave (conf_positions c 0) (interleave_blocks c) interleave_partitions = Some (map ((!) (conf_positions c 0)) indices)"
    by (rule interleave_positions [OF ix(1) [folded np]])
  let ?P = "map ((!) (conf_positions c 0)) indices"
  define w where "w = \<lparr>cw_pastes = [], cw_positions = \<lparr>cp_index = 0, cp_positions = ?P\<rparr>, cw_numTiles = 2 ^ color_bits c * 2 ^ symbol_bits c,
       cw_offsetX = 0, cw_offsetY = 0\<rparr>"
  obtain px py where p: "corner_padding_x c = Some px" "corner_padding_y c = Some py" using fits(2) by (auto simp: grid_fits_def)
  have "cp_create (int (cell_spacing_x c), int (cell_spacing_y c)) (int (cells_per_col_x c), int (cells_per_col_y c))
       (int (cell_offset c)) (int px, int py) (interleave_blocks c) interleave_partitions = Some \<lparr>cp_index = 0, cp_positions = ?P\<rparr>"
    using il S p by (simp add: cp_create_def compute_def Let_def conf_positions_def conf_sp_def conf_dims_def conf_ms_def)
  then have w: "cw_create c (symbol_bits c) (color_bits c) (0, 0) = Some w" using p by (simp add: cw_create_def w_def)
  have f: "frame_value c (concat ws) (concat vs) i < 2 ^ bits_per_cell c" for i using S by (intro frame_value_less) simp
  have op: "0 < bits_per_cell c" using S slot by simp
  have le: "?n * bits_per_cell c \<le> 8 * length (bb_buffer bb)" using bb(2) by simp
  have w0: "0 \<le> ?n" "cp_index (cw_positions w) = 0" "length (cp_positions (cw_positions w)) = ?n" "cw_numTiles w = 2 ^ bits_per_cell c"
    "cw_offsetX w = 0" "cw_offsetY w = 0" using S ix(2) by (simp_all add: w_def power_add)
  obtain w' where w': "encode_dump (bits_per_cell c) (?n * bits_per_cell c) bb 0 w = Some w'"
    "cw_pastes w' = map (\<lambda>i. (cp_positions (cw_positions w) ! i, frame_value c (concat ws) (concat vs) i)) [0..<?n]"
    using encode_dump_run [OF bb(3) le nop(1) op cap(5) f w0] by (auto simp: w_def)
  have e: "en_create c 0 (- 1) = \<lparr>en_eccBytes = ?t, en_eccBlockSize = ?b, en_bitsPerSymbol = symbol_bits c, en_bitsPerColor = color_bits c, en_coupled = False\<rparr>"
    using S by (simp add: en_create_def)
  have nn: "uint_mul (cp_count (cw_positions w)) (color_bits c + symbol_bits c) = ?n * bits_per_cell c"
    using nop(1) S ix(2) by (simp add: uint_mul_def cp_count_def w_def)
  have "bits_per_cell c = color_bits c + symbol_bits c" using S by blast
  then have "encode_next mem sread sgood c (en_create c 0 (- 1)) st (0, 0) = Some (Some (cw_pastes w'), st')"
    using good w cap(1) cs bb(1) w'(1) nn by (simp add: encode_next_def e Let_def)
  moreover have "cw_pastes w' = map (\<lambda>k. (conf_positions c 0 ! (indices ! k), frame_value c (concat ws) (concat vs) k)) [0..<?n]"
    unfolding w'(2) using ix(2) by (intro map_cong) (auto simp: w_def)
  ultimately show ?thesis using ix(1) ws(5) vs(3) len by auto
qed

text \<open>C35: encode_next in every mode with separate colours. When the stream delivers the blocks of a frame, the
  frame is painted cell by cell in the interleaved order, each cell with the tile whose number has the symbol bits of
  the coded symbol blocks below and the colour bits of the coded colour blocks above; every coded block is the
  block of the stream with its parity.\<close>

theorem frame_painted:
  assumes "\<not> legacy_mode (temp_conf m)"
    and "delivers sread sgood (ecc_block_size (temp_conf m) - ecc_bytes (temp_conf m)) st (ms @ ms') st'"
    and "length ms * (8 * ecc_block_size (temp_conf m)) = conf_cells (temp_conf m) * symbol_bits (temp_conf m)"
    and "length ms' * (8 * ecc_block_size (temp_conf m)) = conf_cells (temp_conf m) * color_bits (temp_conf m)"
  shows "\<exists>ws vs indices. let c = temp_conf m in encode_next mem sread sgood c (en_create c 0 (- 1)) st (0, 0) =
      Some (Some (map (\<lambda>k. (conf_positions c 0 ! (indices ! k), frame_value c (concat ws) (concat vs) k)) [0..<conf_cells c]), st') \<and>
    interleave_indices (conf_cells c) (interleave_blocks c) interleave_partitions = Some indices \<and>
    list_all2 (coded (ecc_bytes c)) ms ws \<and> list_all2 (coded (ecc_bytes c)) ms' vs"
  using encode_next_paints [OF modes_separate_ok [OF assms(1)] assms(2-4), of mem] unfolding Let_def by blast

lemma constant_stream: "delivers (\<lambda>s n. Some (replicate n x, s)) (\<lambda>s. True) d s (replicate k (replicate d x)) s"
  by (induction k) auto

theorem frame_painted_witness:
  "\<exists>pastes. encode_next (\<lambda>_ _. 0) (\<lambda>s n. Some (replicate n 7, s)) (\<lambda>s. True) (temp_conf 66) (en_create (temp_conf 66) 0 (- 1)) () (0, 0) =
     Some (Some pastes, ()) \<and> length pastes = 5376"
proof -
  let ?c = "temp_conf 66"
  have ev: "\<not> legacy_mode ?c" "symbol_bits ?c = 4" "color_bits ?c = 2" "conf_cells ?c = 5376" "ecc_block_size ?c = 168" "ecc_bytes ?c = 33"
    by (simp_all add: temp_conf_def conf_eval conf_cells_def conf_dims_def conf_ms_def top_width_def mid_height_def total_positions_def)
  have d: "delivers (\<lambda>s n. Some (replicate n 7, s)) (\<lambda>s. True) (ecc_block_size ?c - ecc_bytes ?c) ()
      (replicate 16 (replicate 135 7) @ replicate 8 (replicate 135 7)) ()"
    using constant_stream [of 7 135 "()" 24] by (simp add: ev flip: replicate_add)
  show ?thesis
    using frame_painted [OF ev(1) d, of "\<lambda>_ _. 0"] by (auto simp: Let_def ev)
qed

end
