(* ===== verification/FrameRoundtrip.thy ===== *)
theory FrameRoundtrip
  imports FrameEncoder
begin

text \<open>
  Encoder and decoder together: an image that shows the tiles the encoder painted is decoded to the coded
  blocks that were painted.
\<close>

section \<open>A cell that shows its tile\<close>

lemma hamming_zero: "hamming_distance a b = 0 \<longleftrightarrow> a = b"
proof -
  have "hamming_distance a b = 0 \<longleftrightarrow> (\<forall>j<64. \<not> bit (a XOR b) j)"
    by (auto simp: hamming_distance_def popcnt64_def filter_empty_conv)
  also have "\<dots> \<longleftrightarrow> a = b" by (auto simp: bit_xor_iff intro!: bit_word_eqI)
  finally show ?thesis .
qed

lemma search_tiles_exact:
  "distinct ts \<Longrightarrow> u < length ts \<Longrightarrow> 0 < se_distance s \<Longrightarrow>
    search_tiles (ts ! u) d i ts s = (\<lparr>se_fit = i + u, se_drift = d, se_distance = 0\<rparr>, True)"
proof (induction ts arbitrary: u i s)
  case (Cons t ts)
  show ?case
  proof (cases u)
    case 0
    then show ?thesis using Cons.prems(3) hamming_zero [of t t] by (simp add: Let_def)
  next
    case (Suc v)
    have v: "v < length ts" "ts ! v \<noteq> t" using Cons.prems Suc by (auto dest: nth_mem)
    then have "hamming_distance (ts ! v) t \<noteq> 0" by (simp add: hamming_zero)
    then show ?thesis using Cons.IH [OF _ v(1)] Cons.prems Suc by (auto simp: Let_def)
  qed
qed simp

lemma decode_symbol_exact:
  assumes c: "sizes_ok c" and inside: "cell_inside (c + 2) cell"
    and tiles: "distinct tiles" "u < length tiles" "average_hash c c (window c cell 4) 1 = tiles ! u"
  shows "decode_symbol c tiles cell cooldown = Some \<lparr>se_fit = u, se_drift = 4, se_distance = 0\<rparr>"
proof -
  let ?mode = "if cooldown = 0xFE then ahash_ALL else ahash_FAST"
  obtain hr where hr: "fuzzy_ahash c cell ?mode = Some hr" "ah_mode hr = ?mode"
    "\<forall>k<9. ?mode = ahash_ALL \<or> k \<in> {1, 3, 4, 5, 7} \<longrightarrow> ah_results hr ! k = average_hash c c (window c cell k) 1"
    using ahash_of_cell [OF c inside, of ?mode] by blast
  have four: "ah_results hr ! 4 = tiles ! u" using hr(3) [rule_format, of 4] tiles(3) by simp
  have "0 < ah_mode hr" using hr(2) by (simp add: ahash_ALL_def ahash_FAST_def)
  then have "ahash_iterate hr = (4, tiles ! u) # map (\<lambda>i. (ahash_ORDER ! i, ah_results hr ! (ahash_ORDER ! i))) [1..<ah_mode hr]"
    using four by (simp add: ahash_iterate_def upt_conv_Cons ahash_ORDER_def)
  then have "get_best_symbol tiles hr cooldown = \<lparr>se_fit = u, se_drift = 4, se_distance = 0\<rparr>"
    using search_tiles_exact [OF tiles(1,2)] by (simp add: get_best_symbol_def)
  then show ?thesis using hr(1) by (simp add: decode_symbol_def)
qed

definition cell_shown :: "(nat \<Rightarrow> bool) \<Rightarrow> nat \<Rightarrow> coordinate \<Rightarrow> u64 \<Rightarrow> bool" where
  "cell_shown px cols xy h \<longleftrightarrow> (\<forall>dx<8. \<forall>dy<8. px (nat (fst xy) + dx + (nat (snd xy) + dy) * cols) \<longleftrightarrow> bit h (63 - (dx + 8 * dy)))"

lemma shown_hash:
  assumes "cell_shown (bit_at (bb_buffer (cr_grayscale r))) (cr_cols r) (x, y) h"
    and "to_uint (x - 1) = nat (x - 1)" "to_uint (y - 1) = nat (y - 1)" "1 \<le> x" "1 \<le> y"
  shows "average_hash 8 8 (window 8 (cr_cell r x y) 4) 1 = h"
proof (rule bit_word_eqI)
  fix j assume "j < LENGTH(64)"
  then have j: "j < 64" by simp
  let ?u = "63 - j"
  have u: "?u mod 8 < 8" "?u div 8 < 8" "63 - (?u mod 8 + 8 * (?u div 8)) = j" using j by simp_all
  have n: "nat (x - 1) + (1 + a) = nat x + a" "nat (y - 1) + (1 + b) = nat y + b" for a b using assms(4,5) by simp_all
  have "bit (average_hash 8 8 (window 8 (cr_cell r x y) 4) 1) j \<longleftrightarrow> window 8 (cr_cell r x y) 4 ! ?u > 1"
    using average_hash_bits [of 8 8 1 "window 8 (cr_cell r x y) 4" j] j by simp
  also have "\<dots> \<longleftrightarrow> pixel (cr_cell r x y) (1 + ?u mod 8) (1 + ?u div 8)" using j by (simp add: window_def)
  also have "\<dots> \<longleftrightarrow> bit_at (bb_buffer (cr_grayscale r)) (nat x + ?u mod 8 + (nat y + ?u div 8) * cr_cols r)"
    unfolding pixel_def cr_cell_def bitmatrix.simps assms(2,3) n by (rule refl)
  also have "\<dots> \<longleftrightarrow> bit h j" using assms(1) u unfolding cell_shown_def fst_conv snd_conv by metis
  finally show "bit (average_hash 8 8 (window 8 (cr_cell r x y) 4) 1) j \<longleftrightarrow> bit h j" .
qed

section \<open>The reader of a clean image\<close>

definition clean_inv :: "conf \<Rightarrow> u64 list \<Rightarrow> nat \<Rightarrow> (nat \<Rightarrow> nat) \<Rightarrow> nat set \<Rightarrow> CimbReader \<Rightarrow> bool" where
  "clean_inv c tiles padding v V r \<longleftrightarrow> reader_inv c {(0, 0)} V r \<and> grid_fits c \<and> distinct tiles \<and> cr_tileHashes r = tiles \<and>
     cr_gridPadding r = padding \<and> (\<forall>i<length (conf_positions c padding). v i < length tiles \<and>
       cell_shown (bit_at (bb_buffer (cr_grayscale r))) (cr_cols r) (conf_positions c padding ! i) (tiles ! v i))"

definition read_exactly :: "conf \<Rightarrow> nat \<Rightarrow> (nat \<Rightarrow> nat) \<Rightarrow> nat \<Rightarrow> nat \<Rightarrow> PositionData \<Rightarrow> bool" where
  "read_exactly c padding v i bits pos \<longleftrightarrow> bits = v i \<and> pd_x pos = fst (conf_positions c padding ! i) \<and>
     pd_y pos = snd (conf_positions c padding ! i)"

lemma reader_visited: "reader_inv c D V r \<Longrightarrow> V \<subseteq> {..<length (conf_positions c (cr_gridPadding r))}"
proof -
  assume "reader_inv c D V r"
  then have f: "flood_inv (conf_sp c) (conf_dims c) (int (cell_offset c + cr_gridPadding r)) (conf_ms c) V V (cr_positions r)"
    by (simp add: reader_inv_def)
  show ?thesis using flood_invD(11) [OF f] by (simp add: flood_invD(1) [OF f] conf_positions_def)
qed

lemma clean_read:
  assumes inv: "clean_inv c tiles padding v V r" and left: "V \<noteq> {..<length (conf_positions c padding)}" and pick: "pick_ok p"
  shows "\<exists>bits pos r'. cr_read p r pos0 = Some (bits, pos, r') \<and> pd_i pos \<notin> V \<and> pd_i pos < length (conf_positions c padding) \<and>
    read_exactly c padding v (pd_i pos) bits pos \<and> clean_inv c tiles padding v (insert (pd_i pos) V) r'"
proof -
  note I = inv [unfolded clean_inv_def]
  let ?ps = "conf_positions c padding"
  have D: "{(0, 0)} \<subseteq> small_drifts" "(0, 0) \<in> {(0 :: int, 0 :: int)}" by (simp_all add: small_drifts_def)
  have pd: "cr_gridPadding r = padding" using I by blast
  have "V \<subseteq> {..<length ?ps}" using reader_visited [of c "{(0, 0)}" V r] I by blast
  then have "0 < length ?ps" using left by (cases "length ?ps") auto
  then have ne: "cr_tileHashes r \<noteq> []" using I by fastforce
  have inv0: "reader_inv c {(0, 0)} V r" and fits: "grid_fits c" using I by blast+
  have left': "V \<noteq> {..<length (conf_positions c (cr_gridPadding r))}" using left pd by simp
  have pk: "\<forall>h. h \<noteq> [] \<longrightarrow> is_top (p h) h" using pick by (simp add: pick_ok_def)
  obtain i drift cooldown s dx dy fd where f: "cr_read p r pos0 = Some (se_fit s,
      \<lparr>pd_i = i, pd_x = fst (?ps ! i) + fst drift + dx, pd_y = snd (?ps ! i) + snd drift + dy\<rparr>, r\<lparr>cr_positions := fd\<rparr>)"
    "i \<notin> V" "i < length ?ps" "drift \<in> {(0, 0)}" "cell_inside (config_cell_size + 2) (cr_cell r (fst (?ps ! i) + fst drift) (snd (?ps ! i) + snd drift))"
    "decode_symbol config_cell_size (cr_tileHashes r) (cr_cell r (fst (?ps ! i) + fst drift) (snd (?ps ! i) + snd drift)) cooldown = Some s"
    "rd driftPairs (se_drift s) = Some (dx, dy)"
    "updateDrift drift dx dy \<in> {(0, 0)} \<longrightarrow> reader_inv c {(0, 0)} (insert i V) (r\<lparr>cr_positions := fd\<rparr>)"
    using cr_read_found [OF inv0 D fits ne left' pk, of pos0] unfolding Let_def pd by blast
  have drift: "fst drift = 0" "snd drift = 0" using f(4) by auto
  let ?x = "fst (?ps ! i)" and ?y = "snd (?ps ! i)"
  have inv': "reader_inv c small_drifts V r" using inv0 D(1) by (auto simp: reader_inv_def drifts_in_def)
  have u: "to_uint (?x - 1) = nat (?x - 1)" "to_uint (?y - 1) = nat (?y - 1)" "1 \<le> ?x" "1 \<le> ?y"
    using cell_in_image [OF inv' fits, of i ?x 0 ?y 0] f(3) by (simp_all add: pd small_drifts_def)
  have v: "v i < length tiles" "cell_shown (bit_at (bb_buffer (cr_grayscale r))) (cr_cols r) (?x, ?y) (tiles ! v i)"
    using I f(3) by simp_all
  have "average_hash 8 8 (window 8 (cr_cell r ?x ?y) 4) 1 = tiles ! v i" by (rule shown_hash [OF v(2) u])
  then have "decode_symbol config_cell_size tiles (cr_cell r ?x ?y) cooldown = Some \<lparr>se_fit = v i, se_drift = 4, se_distance = 0\<rparr>"
    using decode_symbol_exact [of 8 "cr_cell r ?x ?y" tiles "v i" cooldown] f(5) v(1) I drift by (simp add: sizes_ok_def config_cell_size_def)
  then have s: "s = \<lparr>se_fit = v i, se_drift = 4, se_distance = 0\<rparr>" using f(6) I drift by simp
  have d: "dx = 0" "dy = 0" using f(7) by (simp_all add: s driftPairs_def rd_def)
  have "reader_inv c {(0, 0)} (insert i V) (r\<lparr>cr_positions := fd\<rparr>)"
    using f(8) drift d by (simp add: updateDrift_def drift_limit_def)
  then have "clean_inv c tiles padding v (insert i V) (r\<lparr>cr_positions := fd\<rparr>)" using I by (simp add: clean_inv_def)
  then show ?thesis using f(1-3) drift d by (simp add: s read_exactly_def)
qed

interpretation clean: cell_reader "clean_inv c tiles padding v" cr_done cr_read pick_ok "length (conf_positions c padding)"
  "read_exactly c padding v" for c tiles padding v
proof unfold_locales
  show "V \<subseteq> {..<length (conf_positions c padding)}" if "clean_inv c tiles padding v V r" for V r
    using reader_visited [of c "{(0, 0)}" V r] that unfolding clean_inv_def by blast
  show "cr_done r \<longleftrightarrow> V = {..<length (conf_positions c padding)}" if "clean_inv c tiles padding v V r" for V r
    using that reader_not_done by (auto simp: clean_inv_def)
  show "\<exists>bits pos r'. cr_read p r pos0 = Some (bits, pos, r') \<and> pd_i pos \<notin> V \<and> pd_i pos < length (conf_positions c padding) \<and>
      read_exactly c padding v (pd_i pos) bits pos \<and> clean_inv c tiles padding v (insert (pd_i pos) V) r'"
    if "clean_inv c tiles padding v V r" "V \<noteq> {..<length (conf_positions c padding)}" "pick_ok p" for V r p pos0
    by (rule clean_read [OF that])
qed

lemma index_in_image:
  fixes x y cols rows :: nat
  assumes "x < cols" "y < rows"
  shows "x + y * cols < cols * rows"
proof -
  have "x + y * cols < Suc y * cols" using assms(1) by simp
  also have "\<dots> \<le> rows * cols" using assms(2) by (intro mult_le_mono1) simp
  finally show ?thesis by (simp add: mult.commute)
qed

lemma clean_start:
  assumes fits: "grid_fits c" and img: "length symbols = cols * rows" "8 dvd cols * rows" "cols * rows < 2 ^ 32"
    and size: "image_size_x c \<le> cols" "image_size_y c \<le> rows" and tiles: "distinct tiles"
    and padding: "padding = min (cols - image_size_x c) (rows - image_size_y c) div 2"
    and shown: "\<And>i. i < conf_cells c \<Longrightarrow> v i < length tiles \<and>
      cell_shown (\<lambda>k. bit (symbols ! k) 0) cols (conf_positions c padding ! i) (tiles ! v i)"
  shows "\<exists>r. cr_create c symbols cols rows tiles = Some r \<and> clean_inv c tiles padding v {} r"
proof -
  obtain r where r: "cr_create c symbols cols rows tiles = Some r" "reader_inv c {(0, 0)} {} r" "cr_tileHashes r = tiles"
    "cr_gridPadding r = padding" "cr_cols r = cols" "cr_rows r = rows" "preprocessSymbolGrid symbols cols rows = Some (cr_grayscale r)"
    using cr_create_inv [OF fits img size, of "{(0, 0)}" tiles] padding by blast
  have inv': "reader_inv c small_drifts {} r" using r(2) by (auto simp: reader_inv_def drifts_in_def small_drifts_def)
  have n: "length (conf_positions c padding) = conf_cells c" by (rule length_conf_positions [OF fits])
  let ?g = "bit_at (bb_buffer (cr_grayscale r))"
  have in_img: "nat (fst (conf_positions c padding ! i)) + dx + (nat (snd (conf_positions c padding ! i)) + dy) * cols < cols * rows"
    if "i < conf_cells c" "dx < 8" "dy < 8" for i dx dy
  proof -
    let ?x = "fst (conf_positions c padding ! i)" and ?y = "snd (conf_positions c padding ! i)"
    have i: "cell_inside 10 (cr_cell r ?x ?y)" "to_uint (?x - 1) = nat (?x - 1)" "to_uint (?y - 1) = nat (?y - 1)" "1 \<le> ?x" "1 \<le> ?y"
      using cell_in_image [OF inv' fits, of i ?x 0 ?y 0] that(1) n r(4) by (simp_all add: small_drifts_def)
    have area: "8 * length (bb_buffer (cr_grayscale r)) = cols * rows" using r(2,5,6) by (simp add: reader_inv_def)
    have c: "nat (?x - 1) + 10 \<le> cols" "(nat (?y - 1) + 10) * cols \<le> rows * cols"
      using i(1) area by (simp_all only: cell_inside_def cr_cell_def bitmatrix.simps i(2,3) r(5) mult.commute [of cols rows])
    then have "nat (?y - 1) + 10 \<le> rows" by simp
    then show ?thesis using c(1) i(4,5) that by (intro index_in_image) linarith+
  qed
  have gray: "?g k \<longleftrightarrow> bit (symbols ! k) 0" if k: "k < cols * rows" for k
  proof -
    obtain g where g: "cols * rows = 8 * g" using img(2) by (rule dvdE)
    have gg: "rows * cols div 8 = g" "0 < g" "length symbols \<le> 8 * g" "8 dvd length symbols" "length symbols < 2 ^ 32"
      using g k img by (simp_all add: mult.commute)
    obtain buf where "mat_to_bitbuffer symbols (get_writer (bb_create g) 0) = Some (bb_create g\<lparr>bb_buffer := buf\<rparr>, length symbols)"
      "\<forall>i<length symbols. bit_at buf i \<longleftrightarrow> bit (symbols ! i) 0"
      using mat_to_bitbuffer_pixels [OF gg(4,5,3,2)] by blast
    moreover from this(1) have "cr_grayscale r = bb_create g\<lparr>bb_buffer := buf\<rparr>" using r(7) by (simp add: preprocessSymbolGrid_def gg(1))
    ultimately show ?thesis using k img(1) by simp
  qed
  have "v i < length tiles \<and> cell_shown ?g (cr_cols r) (conf_positions c padding ! i) (tiles ! v i)" if "i < conf_cells c" for i
    using shown [OF that] gray [OF in_img [OF that]] unfolding cell_shown_def r(5) by simp
  then show ?thesis using r fits tiles n by (auto simp: clean_inv_def)
qed

section \<open>Buffers are determined by their fields\<close>

lemma bit_at_ext:
  assumes "length a = length b" "\<And>k. k < 8 * length a \<Longrightarrow> bit_at a k \<longleftrightarrow> bit_at b k"
  shows "a = b"
proof (rule nth_equalityI)
  fix i assume i: "i < length a"
  show "a ! i = b ! i"
  proof (rule bit_word_eqI)
    fix j assume "j < LENGTH(8)"
    then have "7 - j < 8" "7 - (7 - j) = j" "8 * i + (7 - j) < 8 * length a" using i by simp_all
    then show "bit (a ! i) j \<longleftrightarrow> bit (b ! i) j" using assms i bit_at_byte [of i a "7 - j"] bit_at_byte [of i b "7 - j"] by metis
  qed
qed (rule assms(1))

lemma slots_fields:
  assumes s: "slots w ((!) lookup) {..<n} f buf" and w: "0 < w" "w \<le> 32"
    and len: "8 * length buf = n * w" "8 * length S = n * w"
    and lookup: "\<And>q. q < n \<Longrightarrow> indices ! q < n \<and> lookup ! (indices ! q) = q" "\<And>i. i < n \<Longrightarrow> indices ! (lookup ! i) = i"
    and f: "\<And>i. i < n \<Longrightarrow> f i = field_at w S (lookup ! i)"
  shows "buf = S"
proof (rule bit_at_ext)
  show "length buf = length S" using len by simp
  fix k assume "k < 8 * length buf"
  then have k: "k < n * w" using len by simp
  let ?q = "k div w" and ?j = "w - 1 - k mod w"
  have "k mod w < w" using w(1) by simp
  then have j: "?j < w" "?q * w + w - 1 - ?j = k" using div_mult_mod_eq [of k w] by linarith+
  have q: "?q < n" using k by (simp add: less_mult_imp_div_less)
  have inj: "inj_on ((!) lookup) {..<n}" using lookup(2) by (intro inj_onI) (metis lessThan_iff)
  have "bit_at buf (lookup ! (indices ! ?q) * w + w - 1 - ?j) \<longleftrightarrow> bit (of_nat (f (indices ! ?q)) :: u32) ?j"
    using slots_bit [OF s inj _ j(1)] lookup(1) [OF q] by blast
  then have "bit_at buf k \<longleftrightarrow> bit (of_nat (field_at w S ?q) :: u32) ?j" using f lookup(1) [OF q] j(2) by simp
  also have "\<dots> \<longleftrightarrow> bit_at S k" using j w(2) by (simp add: bit_of_nat_u32 bit_field_at)
  finally show "bit_at buf k \<longleftrightarrow> bit_at S k" .
qed

section \<open>The round trip of a frame\<close>

lemma frame_value_parts:
  "frame_value c S C k mod 2 ^ symbol_bits c = field_at (symbol_bits c) S k"
  "frame_value c S C k div 2 ^ symbol_bits c = field_at (color_bits c) C k"
  using field_at_less [of "symbol_bits c" S k] by (simp_all add: frame_value_def)

text \<open>The image shows a tile: the symbol as the pixels of its hash, the colour as what \<open>read_color\<close> sees there.\<close>

definition shows_paste ::
  "conf \<Rightarrow> u8 list \<Rightarrow> u64 list \<Rightarrow> (CimbReader \<Rightarrow> PositionData \<Rightarrow> nat) \<Rightarrow> coordinate \<times> nat \<Rightarrow> bool" where
  "shows_paste c symbols tiles read_color paste \<longleftrightarrow>
     cell_shown (\<lambda>k. bit (symbols ! k) 0) (image_size_x c) (fst paste) (tiles ! (snd paste mod 2 ^ symbol_bits c)) \<and>
     (\<forall>r pos. (pd_x pos, pd_y pos) = fst paste \<longrightarrow> read_color r pos = snd paste div 2 ^ symbol_bits c)"

lemma modes_image: "8 dvd image_size_x (temp_conf m) * image_size_y (temp_conf m) \<and> image_size_x (temp_conf m) * image_size_y (temp_conf m) < 2 ^ 32"
proof -
  let ?P = "\<lambda>c. (image_size_x c * image_size_y c) mod 8 = 0 \<and> image_size_x c * image_size_y c < 2 ^ 32"
  have "?P (temp_conf 4)" "?P (temp_conf 8)" "?P (temp_conf 66)" "?P (temp_conf 67)" "?P (temp_conf 68)"
    by (simp_all add: temp_conf_def conf_eval)
  then have "?P (temp_conf m)" using temp_conf_cases [of m] by auto
  then show ?thesis by (simp add: mod_eq_0_iff_dvd)
qed

lemma frame_roundtrip:
  assumes ok: "separate_ok c" and img: "8 dvd image_size_x c * image_size_y c" "image_size_x c * image_size_y c < 2 ^ 32"
    and d: "delivers sread sgood (ecc_block_size c - ecc_bytes c) st (ms @ ms') st'"
    and n: "length ms * (8 * ecc_block_size c) = conf_cells c * symbol_bits c" "length ms' * (8 * ecc_block_size c) = conf_cells c * color_bits c"
    and painted: "encode_next mem sread sgood c (en_create c 0 (- 1)) st (0, 0) = Some (Some pastes, st'')"
    and symbols: "length symbols = image_size_x c * image_size_y c" and tiles: "distinct tiles" "length tiles = 2 ^ symbol_bits c"
    and shown: "\<forall>paste\<in>set pastes. shows_paste c symbols tiles rc paste" and rc: "\<forall>r p. rc r p < 2 ^ color_bits c"
    and picks: "\<forall>p\<in>set picks. pick_ok p" "length picks = conf_cells c"
  shows "\<exists>r ws vs. cr_create c symbols (image_size_x c) (image_size_y c) tiles = Some r \<and>
    do_decode c True rc picks r = Some [concat ws, concat vs] \<and>
    list_all2 (coded (ecc_bytes c)) ms ws \<and> list_all2 (coded (ecc_bytes c)) ms' vs"
proof -
  let ?n = "conf_cells c" and ?ps = "conf_positions c 0"
  have fits: "frame_fits c" "grid_fits c" "\<not> legacy_mode c" using ok unfolding separate_ok_def frame_fits_def by blast+
  obtain ws vs indices where e: "encode_next mem sread sgood c (en_create c 0 (- 1)) st (0, 0) =
      Some (Some (map (\<lambda>k. (?ps ! (indices ! k), frame_value c (concat ws) (concat vs) k)) [0..<?n]), st')"
    "interleave_indices ?n (interleave_blocks c) interleave_partitions = Some indices"
    "list_all2 (coded (ecc_bytes c)) ms ws" "list_all2 (coded (ecc_bytes c)) ms' vs"
    "8 * length (concat ws) = ?n * symbol_bits c" "8 * length (concat vs) = ?n * color_bits c"
    using encode_next_paints [OF ok d n, of mem] by blast
  let ?S = "concat ws" and ?C = "concat vs"
  have pastes: "set pastes = (\<lambda>k. (?ps ! (indices ! k), frame_value c ?S ?C k)) ` {..<?n}"
    using e(1) painted by (auto simp: atLeast0LessThan)
  have il: "interleave_blocks c = 0 \<or> 0 < interleave_partitions \<and> interleave_partitions dvd ?n"
    using fits(1) by (simp add: frame_fits_def interleave_partitions_def)
  obtain lookup where l: "interleave_reverse ?n (interleave_blocks c) interleave_partitions = Some lookup"
    "\<forall>i<?n. lookup ! i < ?n \<and> indices ! i < ?n \<and> lookup ! (indices ! i) = i \<and> indices ! (lookup ! i) = i"
    using interleave_lookup [OF il] e(2) by auto
  let ?v = "\<lambda>i. field_at (symbol_bits c) ?S (lookup ! i)"
  have paste: "shows_paste c symbols tiles rc (?ps ! i, frame_value c ?S ?C (lookup ! i))" if i: "i < ?n" for i
  proof -
    have "lookup ! i < ?n" "indices ! (lookup ! i) = i" using l(2) i by blast+
    then have "(?ps ! i, frame_value c ?S ?C (lookup ! i)) \<in> set pastes" unfolding pastes by (metis (mono_tags, lifting) imageI lessThan_iff)
    then show ?thesis using shown by blast
  qed
  have sh: "?v i < length tiles \<and> cell_shown (\<lambda>k. bit (symbols ! k) 0) (image_size_x c) (?ps ! i) (tiles ! ?v i)" if "i < ?n" for i
    using paste [OF that] field_at_less tiles(2) by (simp add: shows_paste_def frame_value_parts)
  obtain r where r: "cr_create c symbols (image_size_x c) (image_size_y c) tiles = Some r" "clean_inv c tiles 0 ?v {} r"
    using clean_start [OF fits(2) symbols img order.refl order.refl tiles(1), of 0 ?v] sh by auto
  note R = clean.cell_reader_axioms [of c tiles 0 ?v, unfolded length_conf_positions [OF fits(2)]]
  have nr: "num_reads r = ?n" using conf_positions_reads [OF _ fits(2)] r(2) by (auto simp: clean_inv_def)
  have val: "bits < 2 ^ symbol_bits c" if "read_exactly c 0 ?v i bits pos" for i bits pos
    using that field_at_less by (simp add: read_exactly_def)
  have "\<exists>lookup' sb cb r' f cps. interleave_reverse ?n (if True then interleave_blocks c else 0) interleave_partitions = Some lookup' \<and>
    do_decode c True rc picks r = Some [sb, cb] \<and> capacity c (symbol_bits c) = Some (length sb) \<and> capacity c (color_bits c) = Some (length cb) \<and>
    slots (symbol_bits c) ((!) lookup') {..<?n} f sb \<and> slots (color_bits c) ((!) lookup') {..<?n} (\<lambda>i. rc r' (cps ! i)) cb \<and>
    (\<forall>i<?n. \<exists>pos. read_exactly c 0 ?v i (f i) pos \<and> pd_x (cps ! i) = pd_x pos \<and> pd_y (cps ! i) = pd_y pos)"
    by (rule do_decode_run [OF R r(2) fits(1,3) nr _ picks rc]) (rule val)
  then obtain sb cb r' f cps where dec: "do_decode c True rc picks r = Some [sb, cb]" "capacity c (symbol_bits c) = Some (length sb)"
    "capacity c (color_bits c) = Some (length cb)" "slots (symbol_bits c) ((!) lookup) {..<?n} f sb"
    "slots (color_bits c) ((!) lookup) {..<?n} (\<lambda>i. rc r' (cps ! i)) cb"
    "\<forall>i<?n. \<exists>pos. read_exactly c 0 ?v i (f i) pos \<and> pd_x (cps ! i) = pd_x pos \<and> pd_y (cps ! i) = pd_y pos"
    using l(1) by auto
  have f: "f i = field_at (symbol_bits c) ?S (lookup ! i)" "rc r' (cps ! i) = field_at (color_bits c) ?C (lookup ! i)" if i: "i < ?n" for i
  proof -
    obtain pos where pos: "read_exactly c 0 ?v i (f i) pos" "pd_x (cps ! i) = pd_x pos" "pd_y (cps ! i) = pd_y pos" using dec(6) i by blast
    then show "f i = field_at (symbol_bits c) ?S (lookup ! i)" by (simp add: read_exactly_def)
    have "(pd_x (cps ! i), pd_y (cps ! i)) = ?ps ! i" using pos by (simp add: read_exactly_def prod_eq_iff)
    then show "rc r' (cps ! i) = field_at (color_bits c) ?C (lookup ! i)"
      using paste [OF i] by (simp add: shows_paste_def frame_value_parts)
  qed
  have sl: "0 < symbol_bits c" "symbol_bits c \<le> 32" "0 < color_bits c" "color_bits c \<le> 32"
    "8 * length sb = ?n * symbol_bits c" "8 * length cb = ?n * color_bits c"
    using fits(1) dec(2,3) by (auto simp: frame_fits_def slots_fit_def)
  have lk: "\<And>q. q < ?n \<Longrightarrow> indices ! q < ?n \<and> lookup ! (indices ! q) = q" "\<And>i. i < ?n \<Longrightarrow> indices ! (lookup ! i) = i" using l(2) by blast+
  have "sb = ?S" by (rule slots_fields [OF dec(4) sl(1,2,5) e(5) lk f(1)])
  moreover have "cb = ?C" by (rule slots_fields [OF dec(5) sl(3,4,6) e(6) lk f(2)])
  ultimately show ?thesis using r(1) dec(1) e(3,4) by blast
qed

text \<open>C36: a frame survives its display: what encode_next painted from the blocks of a stream, shown as an image in which
  every cell has the pixels of its tile and a colour that is read right, is decoded to the very coded blocks,
  symbol blocks first and colour blocks second, in every mode with separate colours, for any distinct tile hashes
  and any order in which the reader may visit the cells.\<close>

theorem clean_frame_roundtrip:
  assumes "\<not> legacy_mode (temp_conf m)"
    and "delivers sread sgood (ecc_block_size (temp_conf m) - ecc_bytes (temp_conf m)) st (ms @ ms') st'"
    and "length ms * (8 * ecc_block_size (temp_conf m)) = conf_cells (temp_conf m) * symbol_bits (temp_conf m)"
    and "length ms' * (8 * ecc_block_size (temp_conf m)) = conf_cells (temp_conf m) * color_bits (temp_conf m)"
    and "encode_next mem sread sgood (temp_conf m) (en_create (temp_conf m) 0 (- 1)) st (0, 0) = Some (Some pastes, st'')"
    and "length symbols = image_size_x (temp_conf m) * image_size_y (temp_conf m)"
    and "distinct tiles" "length tiles = 2 ^ symbol_bits (temp_conf m)"
    and "\<forall>paste\<in>set pastes. shows_paste (temp_conf m) symbols tiles rc paste" "\<forall>r p. rc r p < 2 ^ color_bits (temp_conf m)"
    and "\<forall>p\<in>set picks. pick_ok p" "length picks = conf_cells (temp_conf m)"
  shows "\<exists>r ws vs. let c = temp_conf m in cr_create c symbols (image_size_x c) (image_size_y c) tiles = Some r \<and>
    do_decode c True rc picks r = Some [concat ws, concat vs] \<and>
    list_all2 (coded (ecc_bytes c)) ms ws \<and> list_all2 (coded (ecc_bytes c)) ms' vs"
  unfolding Let_def
  by (rule frame_roundtrip [OF modes_separate_ok [OF assms(1)] modes_image [THEN conjunct1] modes_image [THEN conjunct2] assms(2-12)])

text \<open>The word of a message of zeros is zero: a polynomial of too many roots.\<close>

lemma coded_zero:
  assumes c: "coded t (replicate k 0) w" and t: "1 \<le> t" "t < 255"
  shows "w = replicate (k + t) 0"
proof -
  obtain p where p: "length p = t" "w = replicate k 0 @ p" "codeword t w" using c by (auto simp: coded_def)
  define a where "a i = GF (w ! (k + t - 1 - i))" for i
  have len: "length w = k + t" using p by simp
  have z: "(\<Sum>i\<le>t - 1. a i * x ^ i) = 0" if x: "x \<in> gen_root ` {..<t}" for x
  proof -
    have "0 = word_eval w x" using p(3) x by (auto simp: codeword_def)
    also have "\<dots> = (\<Sum>i<k + t. a i * x ^ i)" unfolding word_eval_rev len by (simp add: a_def)
    also have "\<dots> = (\<Sum>i\<le>t - 1. a i * x ^ i)"
    proof (rule sum.mono_neutral_right)
      show "\<forall>i\<in>{..<k + t} - {..t - 1}. a i * x ^ i = 0"
      proof
        fix i assume "i \<in> {..<k + t} - {..t - 1}"
        then have "k + t - 1 - i < k" by auto
        then show "a i * x ^ i = 0" by (simp add: a_def p(2) nth_append)
      qed
    qed (use t in auto)
    finally show ?thesis by simp
  qed
  have "inj_on gen_root {..<t}" using t loc_inj by (intro inj_onI) (simp add: gen_root_def)
  then have card: "t - 1 < card (gen_root ` {..<t})" using t by (simp add: card_image)
  have "p ! j = 0" if "j < t" for j
  proof -
    have "a (t - 1 - j) = 0" using many_roots_zero [where k = "t - 1 - j", OF z card] by simp
    moreover have "k + t - 1 - (t - 1 - j) = k + j" using that by simp
    ultimately show ?thesis by (simp add: a_def p(2) nth_append)
  qed
  then have "p = replicate t 0" using p(1) by (simp add: list_eq_iff_nth_eq)
  then show ?thesis using p(2) by (simp add: replicate_add)
qed

lemma field_at_zero: "field_at w (replicate k 0) i = 0"
  by (rule bit_eqI) (simp add: bit_field_at no_bits)

lemma coded_zeros:
  assumes "list_all2 (coded t) (replicate n (replicate k 0)) ws" "1 \<le> t" "t < 255"
  shows "concat ws = replicate (n * (k + t)) 0"
  using assms(1)
proof (induction n arbitrary: ws)
  case (Suc n)
  then show ?case using coded_zero [OF _ assms(2,3)] by (auto simp: list_all2_Cons1 replicate_add)
qed simp

lemma position_in_image:
  assumes "grid_fits c" "i < conf_cells c" "dx < 8" "dy < 8"
  shows "nat (fst (conf_positions c 0 ! i)) + dx + (nat (snd (conf_positions c 0 ! i)) + dy) * image_size_x c < image_size_x c * image_size_y c"
proof -
  note g = assms(1) [unfolded grid_fits_def]
  have "i < length (compute_linear (conf_sp c) (conf_dims c) (int (cell_offset c + 0)) (conf_ms c))"
    using length_conf_positions [OF assms(1), of 0] assms(2) by (simp add: conf_positions_def)
  then obtain a b where ab: "conf_positions c 0 ! i = (a * fst (conf_sp c) + int (cell_offset c), b * snd (conf_sp c) + int (cell_offset c))"
    "0 \<le> a" "a \<le> fst (conf_dims c) - 1" "0 \<le> b" "b \<le> snd (conf_dims c) - 1"
    using position_in_grid [of "conf_sp c" "conf_dims c" "conf_ms c" i "int (cell_offset c + 0)"] g unfolding conf_positions_def by auto
  have sp: "0 < fst (conf_sp c)" "0 < snd (conf_sp c)" using g by (simp_all add: grid_ok_def)
  have "a * fst (conf_sp c) \<le> (fst (conf_dims c) - 1) * fst (conf_sp c)" "b * snd (conf_sp c) \<le> (snd (conf_dims c) - 1) * snd (conf_sp c)"
    "0 \<le> a * fst (conf_sp c)" "0 \<le> b * snd (conf_sp c)"
    using ab sp by (auto intro!: mult_right_mono)
  then show ?thesis using g assms(3,4) unfolding ab(1) fst_conv snd_conv by (intro index_in_image) linarith+
qed

theorem clean_frame_roundtrip_witness:
  "\<exists>pastes r ws vs. encode_next (\<lambda>_ _. 0) (\<lambda>s n. Some (replicate n 0, s)) (\<lambda>s. True) (temp_conf 66) (en_create (temp_conf 66) 0 (- 1)) () (0, 0) =
      Some (Some pastes, ()) \<and>
    cr_create (temp_conf 66) (replicate (736 * 637) 0) 736 637 (map of_nat [0..<16]) = Some r \<and>
    do_decode (temp_conf 66) True (\<lambda>r p. 0) (replicate 5376 first_top) r = Some [concat ws, concat vs] \<and>
    list_all2 (coded 33) (replicate 16 (replicate 135 0)) ws \<and> list_all2 (coded 33) (replicate 8 (replicate 135 0)) vs"
proof -
  let ?c = "temp_conf 66" and ?tiles = "map of_nat [0..<16] :: u64 list"
  have ev: "\<not> legacy_mode ?c" "symbol_bits ?c = 4" "color_bits ?c = 2" "conf_cells ?c = 5376" "ecc_block_size ?c = 168" "ecc_bytes ?c = 33"
    "image_size_x ?c = 736" "image_size_y ?c = 637"
    by (simp_all add: temp_conf_def conf_eval conf_cells_def conf_dims_def conf_ms_def top_width_def mid_height_def total_positions_def)
  have d: "delivers (\<lambda>s n. Some (replicate n 0, s)) (\<lambda>s. True) (ecc_block_size ?c - ecc_bytes ?c) ()
      (replicate 16 (replicate 135 0) @ replicate 8 (replicate 135 0)) ()"
    using constant_stream [of 0 135 "()" 24] by (simp add: ev flip: replicate_add)
  have n: "length (replicate 16 (replicate 135 (0 :: u8))) * (8 * ecc_block_size ?c) = conf_cells ?c * symbol_bits ?c"
    "length (replicate 8 (replicate 135 (0 :: u8))) * (8 * ecc_block_size ?c) = conf_cells ?c * color_bits ?c" by (simp_all add: ev)
  obtain ws vs indices where p: "encode_next (\<lambda>_ _. 0) (\<lambda>s n. Some (replicate n 0, s)) (\<lambda>s. True) ?c (en_create ?c 0 (- 1)) () (0, 0) =
      Some (Some (map (\<lambda>k. (conf_positions ?c 0 ! (indices ! k), frame_value ?c (concat ws) (concat vs) k)) [0..<conf_cells ?c]), ())"
    "list_all2 (coded (ecc_bytes ?c)) (replicate 16 (replicate 135 0)) ws" "list_all2 (coded (ecc_bytes ?c)) (replicate 8 (replicate 135 0)) vs"
    "interleave_indices (conf_cells ?c) (interleave_blocks ?c) interleave_partitions = Some indices"
    using encode_next_paints [OF modes_separate_ok [OF ev(1)] d n, of "\<lambda>_ _. 0"] by blast
  let ?pastes = "map (\<lambda>k. (conf_positions ?c 0 ! (indices ! k), frame_value ?c (concat ws) (concat vs) k)) [0..<conf_cells ?c]"
  have z: "concat ws = replicate (16 * (135 + 33)) 0" "concat vs = replicate (8 * (135 + 33)) 0"
    using coded_zeros [of 33 16 135 ws] coded_zeros [of 33 8 135 vs] p(2,3) by (simp_all add: ev)
  have fv: "frame_value ?c (concat ws) (concat vs) k = 0" for k unfolding z frame_value_def field_at_zero by simp
  have ix: "\<forall>i\<in>set indices. i < conf_cells ?c" "length indices = conf_cells ?c"
    using interleave_lookup [of "interleave_blocks ?c" interleave_partitions "conf_cells ?c"] p(4)
    by (auto simp: ev interleave_partitions_def in_set_conv_nth)
  have shown: "shows_paste ?c (replicate (736 * 637) 0) ?tiles (\<lambda>r p. 0) (conf_positions ?c 0 ! (indices ! k), 0)" if "k < conf_cells ?c" for k
  proof -
    have "indices ! k < conf_cells ?c" using ix that by simp
    from position_in_image [OF modes_grid_fits this] have
      "nat (fst (conf_positions ?c 0 ! (indices ! k))) + dx + (nat (snd (conf_positions ?c 0 ! (indices ! k))) + dy) * 736 < 736 * 637"
      if "dx < 8" "dy < 8" for dx dy using that unfolding ev(7,8) by blast
    moreover have "\<not> bit (replicate (736 * 637) (0 :: u8) ! px) 0" if "px < 736 * 637" for px
      using nth_replicate [OF that, of "0 :: u8"] by simp
    moreover have "?tiles ! 0 = 0" by simp
    ultimately show ?thesis unfolding shows_paste_def cell_shown_def ev(7) fst_conv snd_conv by simp
  qed
  have dist: "distinct ?tiles" "length ?tiles = 2 ^ symbol_bits ?c" by (simp_all add: ev upt_rec)
  have all: "\<forall>paste\<in>set ?pastes. shows_paste ?c (replicate (736 * 637) 0) ?tiles (\<lambda>r p. 0) paste"
    using shown by (auto simp: fv)
  have pk: "\<forall>p\<in>set (replicate 5376 first_top). pick_ok p" using first_top_ok by (simp add: pick_ok_def)
  have "\<exists>r ws vs. let c = ?c in cr_create c (replicate (736 * 637) 0) (image_size_x c) (image_size_y c) ?tiles = Some r \<and>
    do_decode c True (\<lambda>r p. 0) (replicate 5376 first_top) r = Some [concat ws, concat vs] \<and>
    list_all2 (coded (ecc_bytes c)) (replicate 16 (replicate 135 0)) ws \<and> list_all2 (coded (ecc_bytes c)) (replicate 8 (replicate 135 0)) vs"
    by (rule clean_frame_roundtrip [OF ev(1) d n p(1) _ dist all _ pk]) (simp_all add: ev)
  then show ?thesis unfolding Let_def ev using p(1) by blast
qed

end
