(* ===== verification/ScanState.thy ===== *)
theory ScanState
  imports Complex_Main Prelude
begin

text \<open>
  \<open>ScanState.h\<close> and \<open>EdgeScanState.h\<close>: the state machines that look for the marks of a frame in a row of
  pixels, one pixel at a time. The first looks for five runs of dark and light pixels in given
  proportions, the second for the end of one run. A run-length encoding is the reference. The
  \<open>float\<close> quotients are quotients of rationals, which compare in the same way with the limits while
  the runs are shorter than \<open>2 ^ 20\<close> pixels.
\<close>

section \<open>The machine for five runs\<close>

type_synonym limit_list = "(rat \<times> rat) list"

record ScanState =
  ss_state :: nat
  ss_tally :: "nat list"
  ss_limits :: limit_list

definition NOOP :: int where "NOOP = - 1"

definition ScanState_create :: "limit_list \<Rightarrow> ScanState" where
  "ScanState_create limits = \<lparr>ss_state = 0, ss_tally = [0], ss_limits = limits\<rparr>"

definition ScanState_114 :: ScanState where
  "ScanState_114 = ScanState_create [(0, 0), (3, 6), (3, 6), (0, 0), (3, 6), (3, 6)]"

definition ScanState_122 :: ScanState where
  "ScanState_122 = ScanState_create [(0, 0), (1, 3), (1 / 2, 3 / 2), (0, 0), (1 / 2, 3 / 2), (1, 3)]"

definition ratio_ok :: "rat \<times> rat \<Rightarrow> nat \<Rightarrow> nat \<Rightarrow> bool" where
  "ratio_ok limit center t \<longleftrightarrow> (let ratio_min = of_nat center / of_nat (t + 1); ratio_max = of_nat center / of_nat (max 1 (t - 1)) in
     \<not> (ratio_max < fst limit \<or> ratio_min > snd limit))"

definition evaluate_state :: "ScanState \<Rightarrow> int option" where
  "evaluate_state s =
     (if ss_state s \<noteq> 6 then Some NOOP
      else do {
        t1 \<leftarrow> rd (ss_tally s) 1; t2 \<leftarrow> rd (ss_tally s) 2; center \<leftarrow> rd (ss_tally s) 3; t4 \<leftarrow> rd (ss_tally s) 4; t5 \<leftarrow> rd (ss_tally s) 5;
        l1 \<leftarrow> rd (ss_limits s) 1; l2 \<leftarrow> rd (ss_limits s) 2; l4 \<leftarrow> rd (ss_limits s) 4; l5 \<leftarrow> rd (ss_limits s) 5;
        (if t1 = 0 \<or> t2 = 0 \<or> center = 0 \<or> t4 = 0 \<or> t5 = 0 then Some NOOP
         else if \<not> (ratio_ok l1 center t1 \<and> ratio_ok l2 center t2 \<and> ratio_ok l4 center t4 \<and> ratio_ok l5 center t5) then Some NOOP
         else Some (int (t1 + t2 + center + t4 + t5)))
      })"

definition pop_state :: "ScanState \<Rightarrow> ScanState option" where
  "pop_state s = (if length (ss_tally s) < 2 then None
     else Some (s\<lparr>ss_state := ss_state s - 2, ss_tally := drop 2 (ss_tally s)\<rparr>))"

definition tally_back :: "ScanState \<Rightarrow> ScanState option" where
  "tally_back s = (if ss_tally s = [] then None else Some (s\<lparr>ss_tally := butlast (ss_tally s) @ [last (ss_tally s) + 1]\<rparr>))"

definition process :: "ScanState \<Rightarrow> bool \<Rightarrow> (int \<times> ScanState) option" where
  "process s active =
     (let st = ss_state s; ev = (st = 0 \<or> st = 2 \<or> st = 4); od = (st = 1 \<or> st = 3 \<or> st = 5) in
      if ev \<and> active \<or> od \<and> \<not> active then
        (let s = s\<lparr>ss_state := st + 1, ss_tally := ss_tally s @ [1]\<rparr> in
         if ss_state s = 6 then do {
           res \<leftarrow> evaluate_state s;
           s \<leftarrow> pop_state s;
           Some (res, s)
         } else Some (NOOP, s))
      else do {
        s \<leftarrow> (if od \<and> active then tally_back s else Some s);
        s \<leftarrow> (if \<not> active \<and> (st = 2 \<or> st = 4) then tally_back s else Some s);
        Some (NOOP, s)
      })"

section \<open>The machine for an edge\<close>

record EdgeScanState =
  es_state :: nat
  es_tally :: "nat list"

definition EdgeScanState_create :: EdgeScanState where
  "EdgeScanState_create = \<lparr>es_state = 0, es_tally = [0]\<rparr>"

definition es_back :: "EdgeScanState \<Rightarrow> EdgeScanState option" where
  "es_back s = (if es_tally s = [] then None else Some (s\<lparr>es_tally := butlast (es_tally s) @ [last (es_tally s) + 1]\<rparr>))"

definition es_pop_state :: "EdgeScanState \<Rightarrow> EdgeScanState option" where
  "es_pop_state s = (if length (es_tally s) < 2 then None
     else Some (s\<lparr>es_state := es_state s - 2, es_tally := drop 2 (es_tally s)\<rparr>))"

definition es_process :: "EdgeScanState \<Rightarrow> bool \<Rightarrow> (int \<times> EdgeScanState) option" where
  "es_process s active =
     (if es_state s = 0 \<and> active \<or> es_state s = 1 \<and> \<not> active then do {
        s \<leftarrow> es_back (s\<lparr>es_state := es_state s + 1, es_tally := es_tally s @ [0]\<rparr>);
        (if es_state s = 2 then do {
           res \<leftarrow> rd (es_tally s) 1;
           s \<leftarrow> es_pop_state s;
           Some (int res, s)
         } else Some (NOOP, s))
      } else do {
        s \<leftarrow> (if es_state s = 1 \<and> active then es_back s else Some s);
        s \<leftarrow> (if es_state s = 0 \<and> \<not> active then es_back s else Some s);
        Some (NOOP, s)
      })"

section \<open>Runs\<close>

text \<open>The lengths of the runs from the first active pixel on, the latest first.\<close>

fun runs_step :: "nat list \<Rightarrow> bool \<Rightarrow> nat list" where
  "runs_step [] b = (if b then [1] else [])"
| "runs_step (r # rs) b = (if odd (length (r # rs)) = b then Suc r # rs else 1 # r # rs)"

definition runs :: "bool list \<Rightarrow> nat list" where
  "runs bs = foldl runs_step [] bs"

lemma runs_snoc: "runs (bs @ [b]) = runs_step (runs bs) b"
  by (simp add: runs_def)

lemma runs_Nil [simp]: "runs [] = []"
  by (simp add: runs_def)

lemma odd_runs_step: "odd (length (runs_step rs b)) \<longleftrightarrow> b"
  by (cases rs) auto

lemma odd_runs: "odd (length (runs bs)) \<longleftrightarrow> bs \<noteq> [] \<and> last bs"
  by (cases bs rule: rev_cases) (simp_all add: runs_snoc odd_runs_step)

lemma runs_positive: "r \<in> set (runs bs) \<Longrightarrow> 0 < r"
proof (induction bs arbitrary: r rule: rev_induct)
  case (snoc b bs)
  then show ?case by (cases "runs bs") (auto simp: runs_snoc split: if_splits)
qed simp

lemma runs_replicate:
  assumes "odd (length (runs bs)) \<noteq> b" "0 < n" "b \<or> runs bs \<noteq> []"
  shows "runs (bs @ replicate n b) = n # runs bs"
  using assms(2)
proof (induction n)
  case (Suc n)
  have e: "bs @ replicate (Suc n) b = (bs @ replicate n b) @ [b]" by (simp flip: replicate_append_same)
  show ?case
  proof (cases "n = 0")
    case True
    then show ?thesis unfolding e runs_snoc using assms(1,3) by (cases "runs bs") auto
  next
    case False
    then show ?thesis unfolding e runs_snoc using Suc.IH assms(1) by auto
  qed
qed simp

text \<open>The last run of a row.\<close>

lemma last_run:
  assumes "runs bs = r # rs"
  shows "\<exists>pre. bs = pre @ replicate r (even (length rs)) \<and> runs pre = rs"
  using assms
proof (induction bs arbitrary: r rs rule: rev_induct)
  case (snoc b bs)
  show ?case
  proof (cases "runs bs")
    case Nil
    then show ?thesis using snoc.prems by (intro exI [of _ bs]) (auto simp: runs_snoc split: if_splits)
  next
    case (Cons r' rs')
    show ?thesis
    proof (cases "odd (length (runs bs)) = b")
      case True
      then have e: "r = Suc r'" "rs = rs'" using snoc.prems Cons by (auto simp: runs_snoc)
      obtain pre where "bs = pre @ replicate r' (even (length rs'))" "runs pre = rs'" using snoc.IH [OF Cons] by blast
      then show ?thesis using e True Cons by (intro exI [of _ pre]) (auto simp flip: replicate_append_same)
    next
      case False
      then have "r = 1" "rs = runs bs" using snoc.prems Cons by (auto simp: runs_snoc)
      then show ?thesis using False by (intro exI [of _ bs]) auto
    qed
  qed
qed simp

definition five :: "nat \<Rightarrow> nat \<Rightarrow> nat \<Rightarrow> nat \<Rightarrow> nat \<Rightarrow> bool list" where
  "five a1 i1 a2 i2 a3 = replicate a1 True @ replicate i1 False @ replicate a2 True @ replicate i2 False @ replicate a3 True"

lemma five_runs:
  "(\<exists>rest. runs bs = a3 # i2 # a2 # i1 # a1 # rest \<and> even (length rest)) \<longleftrightarrow>
    0 < a1 \<and> 0 < i1 \<and> 0 < a2 \<and> 0 < i2 \<and> 0 < a3 \<and> (\<exists>pre. bs = pre @ five a1 i1 a2 i2 a3 \<and> (pre = [] \<or> \<not> last pre))"
  (is "?L \<longleftrightarrow> ?R")
proof
  assume ?L
  then obtain rest where r: "runs bs = a3 # i2 # a2 # i1 # a1 # rest" "even (length rest)" by blast
  obtain p5 where p5: "bs = p5 @ replicate a3 True" "runs p5 = i2 # a2 # i1 # a1 # rest" using last_run [OF r(1)] r(2) by auto
  obtain p4 where p4: "p5 = p4 @ replicate i2 False" "runs p4 = a2 # i1 # a1 # rest" using last_run [OF p5(2)] r(2) by auto
  obtain p3 where p3: "p4 = p3 @ replicate a2 True" "runs p3 = i1 # a1 # rest" using last_run [OF p4(2)] r(2) by auto
  obtain p2 where p2: "p3 = p2 @ replicate i1 False" "runs p2 = a1 # rest" using last_run [OF p3(2)] r(2) by auto
  obtain p1 where p1: "p2 = p1 @ replicate a1 True" "runs p1 = rest" using last_run [OF p2(2)] r(2) by auto
  have "0 < a1 \<and> 0 < i1 \<and> 0 < a2 \<and> 0 < i2 \<and> 0 < a3" using runs_positive [of _ bs] r(1) by simp
  moreover have "p1 = [] \<or> \<not> last p1" using odd_runs [of p1] p1(2) r(2) by blast
  moreover have "bs = p1 @ five a1 i1 a2 i2 a3" by (simp add: five_def p5(1) p4(1) p3(1) p2(1) p1(1))
  ultimately show ?R by blast
next
  assume ?R
  then obtain pre where p: "bs = pre @ five a1 i1 a2 i2 a3" "pre = [] \<or> \<not> last pre" and pos: "0 < a1" "0 < i1" "0 < a2" "0 < i2" "0 < a3"
    by blast
  have ev: "even (length (runs pre))" using odd_runs [of pre] p(2) by blast
  let ?p1 = "pre @ replicate a1 True" and ?p2 = "(pre @ replicate a1 True) @ replicate i1 False"
  let ?p3 = "?p2 @ replicate a2 True" and ?p4 = "(?p2 @ replicate a2 True) @ replicate i2 False"
  have 1: "runs ?p1 = a1 # runs pre" by (rule runs_replicate) (use ev pos in auto)
  have 2: "runs ?p2 = i1 # a1 # runs pre" using runs_replicate [of ?p1 False i1] ev pos 1 by simp
  have 3: "runs ?p3 = a2 # i1 # a1 # runs pre" using runs_replicate [of ?p2 True a2] ev pos 2 by simp
  have 4: "runs ?p4 = i2 # a2 # i1 # a1 # runs pre" using runs_replicate [of ?p3 False i2] ev pos 3 by simp
  have "runs (?p4 @ replicate a3 True) = a3 # i2 # a2 # i1 # a1 # runs pre" using runs_replicate [of ?p4 True a3] ev pos 4 by simp
  moreover have "bs = ?p4 @ replicate a3 True" by (simp add: p(1) five_def)
  ultimately show ?L using ev by auto
qed

section \<open>The machines track the runs\<close>

definition pattern_ok :: "limit_list \<Rightarrow> nat \<Rightarrow> nat \<Rightarrow> nat \<Rightarrow> nat \<Rightarrow> nat \<Rightarrow> bool" where
  "pattern_ok limits a1 i1 a2 i2 a3 \<longleftrightarrow>
     ratio_ok (limits ! 1) a2 a1 \<and> ratio_ok (limits ! 2) a2 i1 \<and> ratio_ok (limits ! 4) a2 i2 \<and> ratio_ok (limits ! 5) a2 a3"

text \<open>What the machine answers at a pixel, after the runs \<open>rs\<close>.\<close>

definition scan_answer :: "limit_list \<Rightarrow> nat list \<Rightarrow> bool \<Rightarrow> int" where
  "scan_answer limits rs b = (if b \<or> even (length rs) then NOOP
     else case rs of a3 # i2 # a2 # i1 # a1 # rest \<Rightarrow>
         if pattern_ok limits a1 i1 a2 i2 a3 then int (a1 + i1 + a2 + i2 + a3) else NOOP
       | _ \<Rightarrow> NOOP)"

definition depth :: "nat list \<Rightarrow> nat" where
  "depth rs = (if length rs \<le> 5 then length rs else if odd (length rs) then 5 else 4)"

definition tracks :: "limit_list \<Rightarrow> nat list \<Rightarrow> ScanState \<Rightarrow> bool" where
  "tracks limits rs s \<longleftrightarrow> ss_limits s = limits \<and> length limits = 6 \<and> ss_state s = depth rs \<and>
     (\<exists>t0. ss_tally s = t0 # rev (take (depth rs) rs)) \<and> (\<forall>r\<in>set rs. 0 < r)"

lemma tracks_start: "length limits = 6 \<Longrightarrow> tracks limits [] (ScanState_create limits)"
  by (simp add: tracks_def ScanState_create_def depth_def)

lemma evaluate_six:
  assumes "length limits = 6" "0 < a1" "0 < i1" "0 < a2" "0 < i2" "0 < a3"
  shows "evaluate_state \<lparr>ss_state = 6, ss_tally = [t0, a1, i1, a2, i2, a3, n], ss_limits = limits\<rparr> =
    Some (if pattern_ok limits a1 i1 a2 i2 a3 then int (a1 + i1 + a2 + i2 + a3) else NOOP)"
proof -
  have "rd [t0, a1, i1, a2, i2, a3, n] 1 = Some a1" "rd [t0, a1, i1, a2, i2, a3, n] 2 = Some i1" "rd [t0, a1, i1, a2, i2, a3, n] 3 = Some a2"
    "rd [t0, a1, i1, a2, i2, a3, n] 4 = Some i2" "rd [t0, a1, i1, a2, i2, a3, n] 5 = Some a3" by (simp_all add: rd_def)
  then show ?thesis unfolding evaluate_state_def using assms by (simp add: pattern_ok_def)
qed

lemma process_tracks:
  assumes "tracks limits rs s"
  shows "\<exists>s'. process s active = Some (scan_answer limits rs active, s') \<and> tracks limits (runs_step rs active) s'"
proof -
  have lims: "length limits = 6" "ss_limits s = limits" "\<And>r. r \<in> set rs \<Longrightarrow> 0 < r" using assms by (auto simp: tracks_def)
  obtain t0 where s: "s = \<lparr>ss_state = depth rs, ss_tally = t0 # rev (take (depth rs) rs), ss_limits = limits\<rparr>"
    using assms by (cases s) (auto simp: tracks_def)
  consider "rs = []" | a where "rs = [a]" | a b where "rs = [a, b]" | a b c where "rs = [a, b, c]" | a b c d where "rs = [a, b, c, d]"
    | a b c d e rest where "rs = a # b # c # d # e # rest" "even (length rest)"
    | a b c d e rest where "rs = a # b # c # d # e # rest" "odd (length rest)"
    by (metis list.exhaust)
  then show ?thesis
  proof cases
    case (6 a b c d e rest)
    have dep: "depth rs = 5" "depth (1 # rs) = 4" "depth (Suc a # b # c # d # e # rest) = 5" using 6 by (auto simp: depth_def)
    show ?thesis
    proof (cases active)
      case True
      then show ?thesis using s lims 6 dep
        by (auto simp: process_def tally_back_def tracks_def scan_answer_def)
    next
      case False
      have pos: "0 < a" "0 < b" "0 < c" "0 < d" "0 < e" using lims(3) 6 by auto
      have five: "take 5 rs = [a, b, c, d, e]" "take 4 (1 # rs) = [1, a, b, c]" unfolding 6(1) by (simp_all add: eval_nat_numeral)
      have "ss_tally s = [t0, e, d, c, b, a]" "ss_state s = 5" "s\<lparr>ss_state := 6, ss_tally := [t0, e, d, c, b, a, 1]\<rparr> =
          \<lparr>ss_state = 6, ss_tally = [t0, e, d, c, b, a, 1], ss_limits = limits\<rparr>"
        unfolding s dep(1) five by simp_all
      then have "process s active = Some (scan_answer limits rs active, \<lparr>ss_state = 4, ss_tally = [d, c, b, a, 1], ss_limits = limits\<rparr>)"
        using False 6 evaluate_six [OF lims(1) pos(5,4,3,2,1), of t0 1] by (simp add: process_def pop_state_def scan_answer_def)
      moreover have "runs_step rs active = 1 # rs" using 6 False by simp
      moreover have "tracks limits (1 # rs) \<lparr>ss_state = 4, ss_tally = [d, c, b, a, 1], ss_limits = limits\<rparr>"
        using lims unfolding tracks_def dep(2) five by simp
      ultimately show ?thesis by simp
    qed
  next
    case (7 a b c d e rest)
    have dep: "depth rs = 4" "depth (1 # rs) = 5" "depth (Suc a # b # c # d # e # rest) = 4" using 7 by (auto simp: depth_def)
    have four: "take 4 rs = [a, b, c, d]" "take 5 (1 # rs) = [1, a, b, c, d]" "take 4 (Suc a # b # c # d # e # rest) = [Suc a, b, c, d]"
      unfolding 7(1) by (simp_all add: eval_nat_numeral)
    have t: "ss_tally s = [t0, d, c, b, a]" "ss_state s = 4" unfolding s dep(1) four by simp_all
    show ?thesis
    proof (cases active)
      case True
      have "tracks limits (1 # rs) (s\<lparr>ss_state := 5, ss_tally := [t0, d, c, b, a, 1]\<rparr>)"
        using lims unfolding tracks_def dep(2) four by simp
      moreover have "runs_step rs active = 1 # rs" using 7 True by simp
      ultimately show ?thesis using True t by (simp add: process_def scan_answer_def)
    next
      case False
      have "tracks limits (Suc a # b # c # d # e # rest) (s\<lparr>ss_tally := [t0, d, c, b, Suc a]\<rparr>)"
        using lims t(2) 7(1) unfolding tracks_def dep(1,3) four by simp
      moreover have "runs_step rs active = Suc a # b # c # d # e # rest" using 7 False by simp
      ultimately show ?thesis using False t 7 by (simp add: process_def tally_back_def scan_answer_def)
    qed
  qed (use s lims in \<open>cases active; auto simp: process_def tally_back_def tracks_def scan_answer_def depth_def\<close>)+
qed

text \<open>The edge machine answers with the length of a run when it ends.\<close>

definition es_tracks :: "nat list \<Rightarrow> EdgeScanState \<Rightarrow> bool" where
  "es_tracks rs s \<longleftrightarrow> (if odd (length rs) then es_state s = 1 \<and> (\<exists>t0. es_tally s = [t0, hd rs]) else es_state s = 0 \<and> length (es_tally s) = 1)"

lemma es_tracks_start: "es_tracks [] EdgeScanState_create"
  by (simp add: es_tracks_def EdgeScanState_create_def)

lemma es_process_tracks:
  assumes "es_tracks rs s"
  shows "\<exists>s'. es_process s active = Some (if \<not> active \<and> odd (length rs) then int (hd rs) else NOOP, s') \<and> es_tracks (runs_step rs active) s'"
  using assms
  by (cases rs; cases active)
    (auto simp: es_process_def es_tracks_def es_back_def es_pop_state_def length_Suc_conv rd_def split: if_splits)

section \<open>Where the machine stops\<close>

text \<open>What the machine answers at pixel \<open>k\<close> of a row, or behind it.\<close>

definition hit :: "limit_list \<Rightarrow> bool list \<Rightarrow> nat \<Rightarrow> int" where
  "hit limits bs k = scan_answer limits (runs (take k bs)) (k < length bs \<and> bs ! k)"

text \<open>Five whole runs in the right proportions from \<open>lo\<close> to \<open>hi\<close>.\<close>

definition is_pattern :: "limit_list \<Rightarrow> bool list \<Rightarrow> nat \<Rightarrow> nat \<Rightarrow> bool" where
  "is_pattern limits bs lo hi \<longleftrightarrow> lo \<le> hi \<and> hi \<le> length bs \<and> (lo = 0 \<or> \<not> bs ! (lo - 1)) \<and> (hi = length bs \<or> \<not> bs ! hi) \<and>
     (\<exists>a1 i1 a2 i2 a3. 0 < a1 \<and> 0 < i1 \<and> 0 < a2 \<and> 0 < i2 \<and> 0 < a3 \<and> pattern_ok limits a1 i1 a2 i2 a3 \<and>
       take (hi - lo) (drop lo bs) = five a1 i1 a2 i2 a3)"

lemma length_five: "length (five a1 i1 a2 i2 a3) = a1 + i1 + a2 + i2 + a3"
  by (simp add: five_def)

lemma answer_runs:
  assumes "0 < n"
  shows "scan_answer limits rs b = int n \<longleftrightarrow> \<not> b \<and> (\<exists>a1 i1 a2 i2 a3. pattern_ok limits a1 i1 a2 i2 a3 \<and> n = a1 + i1 + a2 + i2 + a3 \<and>
    (\<exists>rest. rs = a3 # i2 # a2 # i1 # a1 # rest \<and> even (length rest)))"
proof (cases "\<exists>a3 i2 a2 i1 a1 rest. rs = a3 # i2 # a2 # i1 # a1 # rest")
  case True
  then obtain a3 i2 a2 i1 a1 rest where "rs = a3 # i2 # a2 # i1 # a1 # rest" by blast
  then show ?thesis using assms by (auto simp: scan_answer_def NOOP_def simp del: of_nat_add)
next
  case False
  then have "scan_answer limits rs b = NOOP" by (auto simp: scan_answer_def split: list.splits)
  then show ?thesis using False by (auto simp: NOOP_def)
qed

lemma hit_iff:
  assumes "k \<le> length bs" "0 < n"
  shows "hit limits bs k = int n \<longleftrightarrow> n \<le> k \<and> is_pattern limits bs (k - n) k"
proof -
  have lt: "last (take m bs) = bs ! (m - 1)" if "0 < m" "m \<le> length bs" for m
  proof -
    have "take m bs \<noteq> []" "length (take m bs) = m" using that by auto
    then show ?thesis using that(1) by (simp add: last_conv_nth)
  qed
  have one: "take k bs = pre @ five a1 i1 a2 i2 a3 \<and> (pre = [] \<or> \<not> last pre) \<longleftrightarrow>
      n \<le> k \<and> pre = take (k - n) bs \<and> take n (drop (k - n) bs) = five a1 i1 a2 i2 a3 \<and> (k - n = 0 \<or> \<not> bs ! (k - n - 1))"
    if n: "n = a1 + i1 + a2 + i2 + a3" for pre a1 i1 a2 i2 a3
  proof
    assume l: "take k bs = pre @ five a1 i1 a2 i2 a3 \<and> (pre = [] \<or> \<not> last pre)"
    then have "length (take k bs) = length pre + n" by (simp add: length_five n)
    then have len: "length pre = k - n" "n \<le> k" using assms(1) by simp_all
    have pre: "pre = take (k - n) bs" using arg_cong [OF conjunct1 [OF l], of "take (k - n)"] len by (simp add: min_def)
    have "drop (k - n) (take k bs) = five a1 i1 a2 i2 a3" using l len(1) by simp
    moreover have "k - n = 0 \<or> \<not> bs ! (k - n - 1)"
      using conjunct2 [OF l] len assms(1) lt [of "k - n"] by (cases "k - n = 0") (auto simp: pre)
    ultimately show "n \<le> k \<and> pre = take (k - n) bs \<and> take n (drop (k - n) bs) = five a1 i1 a2 i2 a3 \<and> (k - n = 0 \<or> \<not> bs ! (k - n - 1))"
      using pre len(2) by (simp add: drop_take)
  next
    assume r: "n \<le> k \<and> pre = take (k - n) bs \<and> take n (drop (k - n) bs) = five a1 i1 a2 i2 a3 \<and> (k - n = 0 \<or> \<not> bs ! (k - n - 1))"
    have "take k bs = take (k - n + n) bs" using r by simp
    also have "\<dots> = pre @ five a1 i1 a2 i2 a3" using r by (simp only: take_add)
    finally show "take k bs = pre @ five a1 i1 a2 i2 a3 \<and> (pre = [] \<or> \<not> last pre)"
      using r assms(1) lt [of "k - n"] by (cases "k - n = 0") auto
  qed
  have "hit limits bs k = int n \<longleftrightarrow> \<not> (k < length bs \<and> bs ! k) \<and> (\<exists>a1 i1 a2 i2 a3. pattern_ok limits a1 i1 a2 i2 a3 \<and> n = a1 + i1 + a2 + i2 + a3 \<and>
      0 < a1 \<and> 0 < i1 \<and> 0 < a2 \<and> 0 < i2 \<and> 0 < a3 \<and> (\<exists>pre. take k bs = pre @ five a1 i1 a2 i2 a3 \<and> (pre = [] \<or> \<not> last pre)))"
    unfolding hit_def answer_runs [OF assms(2)] five_runs by blast
  also have "\<dots> \<longleftrightarrow> n \<le> k \<and> is_pattern limits bs (k - n) k"
  proof
    assume "\<not> (k < length bs \<and> bs ! k) \<and> (\<exists>a1 i1 a2 i2 a3. pattern_ok limits a1 i1 a2 i2 a3 \<and> n = a1 + i1 + a2 + i2 + a3 \<and>
      0 < a1 \<and> 0 < i1 \<and> 0 < a2 \<and> 0 < i2 \<and> 0 < a3 \<and> (\<exists>pre. take k bs = pre @ five a1 i1 a2 i2 a3 \<and> (pre = [] \<or> \<not> last pre)))"
    then obtain a1 i1 a2 i2 a3 pre where f: "\<not> (k < length bs \<and> bs ! k)" "pattern_ok limits a1 i1 a2 i2 a3" "n = a1 + i1 + a2 + i2 + a3"
      "0 < a1" "0 < i1" "0 < a2" "0 < i2" "0 < a3" "take k bs = pre @ five a1 i1 a2 i2 a3 \<and> (pre = [] \<or> \<not> last pre)" by blast
    have o: "n \<le> k" "take n (drop (k - n) bs) = five a1 i1 a2 i2 a3" "k - n = 0 \<or> \<not> bs ! (k - n - 1)" using f(9) one [OF f(3)] by blast+
    have "k - (k - n) = n" using o(1) by simp
    then have "take (k - (k - n)) (drop (k - n) bs) = five a1 i1 a2 i2 a3" using o(2) by simp
    moreover have "k = length bs \<or> \<not> bs ! k" using f(1) assms(1) by auto
    ultimately show "n \<le> k \<and> is_pattern limits bs (k - n) k"
      unfolding is_pattern_def using o(1,3) f(2,4-8) assms(1) diff_le_self by blast
  next
    assume r: "n \<le> k \<and> is_pattern limits bs (k - n) k"
    then have "k - (k - n) = n" by simp
    then obtain a1 i1 a2 i2 a3 where f: "0 < a1" "0 < i1" "0 < a2" "0 < i2" "0 < a3" "pattern_ok limits a1 i1 a2 i2 a3"
      "take n (drop (k - n) bs) = five a1 i1 a2 i2 a3" "k - n = 0 \<or> \<not> bs ! (k - n - 1)" "k = length bs \<or> \<not> bs ! k"
      using r unfolding is_pattern_def by auto
    have "length (take n (drop (k - n) bs)) = n" using r assms(1) by simp
    then have n: "n = a1 + i1 + a2 + i2 + a3" by (simp add: f(7) length_five)
    have "take k bs = take (k - n) bs @ five a1 i1 a2 i2 a3 \<and> (take (k - n) bs = [] \<or> \<not> last (take (k - n) bs))"
      using one [OF n, of "take (k - n) bs"] r f(7,8) by blast
    then show "\<not> (k < length bs \<and> bs ! k) \<and> (\<exists>a1 i1 a2 i2 a3. pattern_ok limits a1 i1 a2 i2 a3 \<and> n = a1 + i1 + a2 + i2 + a3 \<and>
      0 < a1 \<and> 0 < i1 \<and> 0 < a2 \<and> 0 < i2 \<and> 0 < a3 \<and> (\<exists>pre. take k bs = pre @ five a1 i1 a2 i2 a3 \<and> (pre = [] \<or> \<not> last pre)))"
      using f n by blast
  qed
  finally show ?thesis .
qed

lemma pattern_five: "is_pattern limits bs lo hi \<Longrightarrow> lo + 5 \<le> hi"
  using length_five by (auto simp: is_pattern_def dest!: arg_cong [where f = length])

lemma hit_pattern:
  assumes "k \<le> length bs" "0 < hit limits bs k"
  shows "\<exists>lo. is_pattern limits bs lo k \<and> lo + 5 \<le> k \<and> hit limits bs k = int (k - lo)"
proof -
  have n: "0 < nat (hit limits bs k)" "hit limits bs k = int (nat (hit limits bs k))" using assms(2) by simp_all
  then have r: "nat (hit limits bs k) \<le> k" "is_pattern limits bs (k - nat (hit limits bs k)) k"
    using hit_iff [OF assms(1) n(1), of limits] by blast+
  then show ?thesis using pattern_five [OF r(2)] n(2) by (intro exI [of _ "k - nat (hit limits bs k)"]) simp
qed

lemma pattern_hit: "is_pattern limits bs lo k \<Longrightarrow> hit limits bs k = int (k - lo)"
  using hit_iff [of k bs "k - lo" limits] pattern_five [of limits bs lo k] by (auto simp: is_pattern_def)

end
