(* ===== verification/Scanner.thy ===== *)
theory Scanner
  imports ScanState "HOL-Library.Signed_Division" "HOL-Library.Multiset"
begin

text \<open>
  \<open>Scanner.h\<close>, \<open>Scanner.cpp\<close> and \<open>Anchor.h\<close>: the search for the four corner marks of a frame in a camera
  image. The image comes in blurred and thresholded; a read outside it is \<open>None\<close>, as is a division by
  zero and a loop that does not end. A template argument is the start state of its machine, a
  callback is a function on the state it changes. Where \<open>std::sort\<close> puts equal candidates and what the
  product of a coordinate and a quotient of lengths is in \<open>double\<close> are parameters. The detection of the edges,
  which works in \<open>double\<close> throughout, is left out. Coordinates are integers: they stay far below the bounds
  of \<open>int\<close> for images of up to \<open>2 ^ 15\<close> pixels a side.
\<close>

section \<open>Anchors\<close>

record Anchor =
  an_x :: int
  an_xmax :: int
  an_y :: int
  an_ymax :: int

definition Anchor_create :: "int \<Rightarrow> int \<Rightarrow> int \<Rightarrow> int \<Rightarrow> Anchor" where
  "Anchor_create x xmax y ymax = \<lparr>an_x = x, an_xmax = xmax, an_y = y, an_ymax = ymax\<rparr>"

definition an_merge :: "Anchor \<Rightarrow> Anchor \<Rightarrow> Anchor" where
  "an_merge a b = \<lparr>an_x = min (an_x a) (an_x b), an_xmax = max (an_xmax a) (an_xmax b),
     an_y = min (an_y a) (an_y b), an_ymax = max (an_ymax a) (an_ymax b)\<rparr>"

definition an_xavg :: "Anchor \<Rightarrow> int" where "an_xavg a = (an_x a + an_xmax a) sdiv 2"
definition an_xrange :: "Anchor \<Rightarrow> int" where "an_xrange a = \<bar>an_x a - an_xmax a\<bar> sdiv 2"
definition an_yavg :: "Anchor \<Rightarrow> int" where "an_yavg a = (an_y a + an_ymax a) sdiv 2"
definition an_yrange :: "Anchor \<Rightarrow> int" where "an_yrange a = \<bar>an_y a - an_ymax a\<bar> sdiv 2"
definition an_center :: "Anchor \<Rightarrow> int \<times> int" where "an_center a = (an_xavg a, an_yavg a)"

definition an_size :: "Anchor \<Rightarrow> nat" where
  "an_size a = nat ((an_x a - an_xmax a) ^ 2 + (an_y a - an_ymax a) ^ 2)"

definition an_max_range :: "Anchor \<Rightarrow> int" where
  "an_max_range a = max \<bar>an_x a - an_xmax a\<bar> \<bar>an_y a - an_ymax a\<bar>"

definition is_mergeable :: "Anchor \<Rightarrow> Anchor \<Rightarrow> int \<Rightarrow> bool option" where
  "is_mergeable a rhs max_distance =
     (if \<bar>an_xavg a - an_xavg rhs\<bar> > max_distance \<or> \<bar>an_yavg a - an_yavg rhs\<bar> > max_distance then Some False
      else if an_max_range a = 0 then None
      else let ratio = (an_max_range rhs * 10) sdiv an_max_range a in Some (ratio > 6 \<and> ratio < 17))"

section \<open>The scanner and its lines\<close>

record Scanner =
  sc_img :: "u8 list"
  sc_rows :: int
  sc_cols :: int
  sc_dark :: bool
  sc_skip :: int
  sc_mergeCutoff :: int
  sc_anchorSize :: int

definition Scanner_create :: "u8 list \<Rightarrow> int \<Rightarrow> int \<Rightarrow> bool \<Rightarrow> int \<Rightarrow> Scanner" where
  "Scanner_create img rows cols dark skip = \<lparr>sc_img = img, sc_rows = rows, sc_cols = cols, sc_dark = dark,
     sc_skip = (if skip \<noteq> 0 then skip else min rows cols sdiv 60), sc_mergeCutoff = cols sdiv 30, sc_anchorSize = 30\<rparr>"

definition test_pixel :: "Scanner \<Rightarrow> int \<times> int \<Rightarrow> bool option" where
  "test_pixel sc xy = (let x = fst xy; y = snd xy in
     if x < 0 \<or> x \<ge> sc_cols sc \<or> y < 0 \<or> y \<ge> sc_rows sc then None
     else map_option (\<lambda>pixel. if sc_dark sc then pixel > 127 else pixel < 127) (rd (sc_img sc) (nat (y * sc_cols sc + x))))"

text \<open>The loop the three scans share: the state at every pixel, and an anchor for every hit.\<close>

fun scan_positions ::
  "Scanner \<Rightarrow> (int \<Rightarrow> int \<times> int \<Rightarrow> Anchor) \<Rightarrow> (int \<times> int) list \<Rightarrow> ScanState \<times> Anchor list \<Rightarrow> (ScanState \<times> Anchor list) option" where
  "scan_positions sc anchor [] sp = Some sp"
| "scan_positions sc anchor (xy # ps) (state, points) = do {
     active \<leftarrow> test_pixel sc xy;
     (res, state) \<leftarrow> process state active;
     scan_positions sc anchor ps (state, if res > 0 then points @ [anchor res xy] else points)
   }"

text \<open>The scan of a line and the check for a pattern at its end.\<close>

definition scan_line ::
  "ScanState \<Rightarrow> Scanner \<Rightarrow> (int \<Rightarrow> int \<times> int \<Rightarrow> Anchor) \<Rightarrow> (int \<times> int) list \<Rightarrow> int \<times> int \<Rightarrow> Anchor list \<Rightarrow> (bool \<times> Anchor list) option" where
  "scan_line st sc anchor ps end points = do {
     (state, found) \<leftarrow> scan_positions sc anchor ps (st, points);
     (res, state) \<leftarrow> process state False;
     let found = (if res > 0 then found @ [anchor res end] else found);
     Some (length points \<noteq> length found, found)
   }"

definition scan_horizontal ::
  "ScanState \<Rightarrow> Scanner \<Rightarrow> Anchor list \<Rightarrow> int \<Rightarrow> int \<Rightarrow> int \<Rightarrow> (bool \<times> Anchor list) option" where
  "scan_horizontal st sc points y xstart xend =
     (let xstart = (if xstart < 0 then 0 else xstart);
          xend = (if xend < 0 \<or> xend > sc_cols sc then sc_cols sc else xend)
      in scan_line st sc (\<lambda>res (x, _). Anchor_create (x - res) (x - 1) y y) (map (\<lambda>x. (x, y)) [xstart..xend - 1]) (xend, y) points)"

definition scan_vertical ::
  "ScanState \<Rightarrow> Scanner \<Rightarrow> Anchor list \<Rightarrow> int \<Rightarrow> int \<Rightarrow> int \<Rightarrow> int \<Rightarrow> (bool \<times> Anchor list) option" where
  "scan_vertical st sc points x xmax ystart yend =
     (let xmax = (if xmax < 0 then x else xmax);
          xavg = (x + xmax) sdiv 2;
          ystart = (if ystart < 0 then 0 else ystart);
          yend = (if yend < 0 \<or> yend > sc_rows sc then sc_rows sc else yend)
      in scan_line st sc (\<lambda>res (_, y). Anchor_create xavg xavg (y - res) (y - 1)) (map (\<lambda>y. (xavg, y)) [ystart..yend - 1]) (xavg, yend) points)"

definition scan_diagonal ::
  "ScanState \<Rightarrow> Scanner \<Rightarrow> Anchor list \<Rightarrow> int \<Rightarrow> int \<Rightarrow> int \<Rightarrow> int \<Rightarrow> (bool \<times> Anchor list) option" where
  "scan_diagonal st sc points xstart xend ystart yend =
     (let xend = min xend (sc_cols sc);
          yend = min yend (sc_rows sc);
          (xstart, ystart) = (if xstart < 0 then (xstart + - xstart, ystart + - xstart) else (xstart, ystart));
          (xstart, ystart) = (if ystart < 0 then (xstart + - ystart, ystart + - ystart) else (xstart, ystart));
          steps = max 0 (min (xend - xstart) (yend - ystart))
      in scan_line st sc (\<lambda>res (x, y). Anchor_create (x - res) (x - 1) (y - res) (y - 1))
           (map (\<lambda>k. (xstart + k, ystart + k)) [0..steps - 1]) (xstart + steps, ystart + steps) points)"

section \<open>The four tests of a mark_candidate\<close>

partial_function (option) t1_rows ::
  "ScanState \<Rightarrow> Scanner \<Rightarrow> int \<Rightarrow> int \<Rightarrow> int \<Rightarrow> int \<Rightarrow> int \<Rightarrow> Anchor list \<Rightarrow> Anchor list option" where
  "t1_rows st sc skip y yend xstart xend points =
     (if y < yend then do {
        (_, points) \<leftarrow> scan_horizontal st sc points y xstart xend;
        t1_rows st sc skip (y + skip) yend xstart xend points
      } else Some points)"

definition t1_scan_rows ::
  "ScanState \<Rightarrow> Scanner \<Rightarrow> (Anchor \<Rightarrow> 's \<Rightarrow> 's option) \<Rightarrow> int \<Rightarrow> int \<Rightarrow> int \<Rightarrow> int \<Rightarrow> int \<Rightarrow> 's \<Rightarrow> 's option" where
  "t1_scan_rows st sc func skip y yend xstart xend s = do {
     let skip = (if skip \<le> 0 then sc_skip sc else skip);
     let y = (if y < 0 then skip else y);
     let yend = (if yend < 0 \<or> yend > sc_rows sc then sc_rows sc else yend);
     points \<leftarrow> t1_rows st sc skip y yend xstart xend [];
     for_each points func s
   }"

definition t2_scan_column :: "ScanState \<Rightarrow> Scanner \<Rightarrow> Anchor \<Rightarrow> (Anchor \<Rightarrow> 's \<Rightarrow> 's option) \<Rightarrow> 's \<Rightarrow> 's option" where
  "t2_scan_column st sc hint func s = do {
     (_, points) \<leftarrow> scan_vertical st sc [] (an_x hint) (an_xmax hint) (an_y hint - 3 * an_xrange hint) (an_ymax hint + 3 * an_xrange hint);
     for_each points func s
   }"

fun t3_merge :: "int \<Rightarrow> Anchor \<Rightarrow> Anchor list \<Rightarrow> bool \<times> Anchor \<Rightarrow> (bool \<times> Anchor) option" where
  "t3_merge cutoff hint [] cm = Some cm"
| "t3_merge cutoff hint (co # cs) (confirm, merged) = do {
     m \<leftarrow> is_mergeable co hint cutoff;
     t3_merge cutoff hint cs (if m then (True, an_merge merged co) else (confirm, merged))
   }"

definition t3_scan_diagonal :: "ScanState \<Rightarrow> Scanner \<Rightarrow> Anchor \<Rightarrow> (Anchor \<Rightarrow> 's \<Rightarrow> 's option) \<Rightarrow> 's \<Rightarrow> 's option" where
  "t3_scan_diagonal st sc hint func s = do {
     (any, confirms) \<leftarrow> scan_diagonal st sc [] (an_xavg hint - 2 * an_yrange hint) (an_xavg hint + 2 * an_yrange hint)
       (an_y hint - an_yrange hint) (an_ymax hint + an_yrange hint);
     (if \<not> any then Some s
      else do {
        (confirm, merged) \<leftarrow> t3_merge (sc_mergeCutoff sc) hint confirms (False, hint);
        (if confirm then func merged s else Some s)
      })
   }"

text \<open>The three lines of a confirmation, as long as each of them finds something.\<close>

fun t4_lines :: "(int \<Rightarrow> Anchor list \<Rightarrow> (bool \<times> Anchor list) option) \<Rightarrow> int list \<Rightarrow> Anchor list \<Rightarrow> Anchor list option option" where
  "t4_lines scan [] confirms = Some (Some confirms)"
| "t4_lines scan (l # ls) confirms = do {
     (any, confirms) \<leftarrow> scan l confirms;
     (if any then t4_lines scan ls confirms else Some None)
   }"

fun t4_merge :: "int \<Rightarrow> bool \<Rightarrow> Anchor list \<Rightarrow> bool \<times> Anchor \<Rightarrow> (bool \<times> Anchor) option" where
  "t4_merge cutoff merge_confirms [] ch = Some ch"
| "t4_merge cutoff merge_confirms (co # cs) (confirm, hint) = do {
     m \<leftarrow> is_mergeable co hint cutoff;
     (if m then if merge_confirms then t4_merge cutoff merge_confirms cs (True, an_merge hint co) else Some (True, hint)
      else t4_merge cutoff merge_confirms cs (confirm, hint))
   }"

definition t4_confirm_scan :: "ScanState \<Rightarrow> Scanner \<Rightarrow> Anchor \<Rightarrow> bool \<Rightarrow> (Anchor \<Rightarrow> 's \<Rightarrow> 's option) \<Rightarrow> 's \<Rightarrow> 's option" where
  "t4_confirm_scan st sc hint merge_confirms func s = do {
     let xstart = an_x hint - an_xrange hint;
     let xend = an_xmax hint + an_xrange hint;
     let yavg = an_yavg hint;
     lines \<leftarrow> t4_lines (\<lambda>y points. scan_horizontal st sc points y xstart xend) [yavg - 1, yavg, yavg + 1] [];
     (case lines of None \<Rightarrow> Some s
      | Some confirms \<Rightarrow> do {
          (confirm, hint) \<leftarrow> t4_merge (sc_mergeCutoff sc) merge_confirms confirms (False, hint);
          (if \<not> confirm then Some s
           else do {
             let ystart = an_y hint - an_yrange hint;
             let yend = an_ymax hint + an_yrange hint;
             let xavg = an_xavg hint;
             lines \<leftarrow> t4_lines (\<lambda>x points. scan_vertical st sc points x x ystart yend) [xavg - 1, xavg, xavg + 1] [];
             (case lines of None \<Rightarrow> Some s
              | Some confirms \<Rightarrow> do {
                  (confirm, hint) \<leftarrow> t4_merge (sc_mergeCutoff sc) merge_confirms confirms (False, hint);
                  (if \<not> confirm then Some s else func hint s)
                })
           })
        })
   }"

fun any_mergeable :: "int \<Rightarrow> Anchor \<Rightarrow> Anchor list \<Rightarrow> bool option" where
  "any_mergeable cutoff found [] = Some False"
| "any_mergeable cutoff found (c # cs) = do {
     m \<leftarrow> is_mergeable c found cutoff;
     (if m then Some True else any_mergeable cutoff found cs)
   }"

definition on_t1_scan :: "ScanState \<Rightarrow> Scanner \<Rightarrow> bool \<Rightarrow> Anchor \<Rightarrow> Anchor list \<Rightarrow> Anchor list option" where
  "on_t1_scan st sc merge_confirms found candidates = do {
     known \<leftarrow> any_mergeable (sc_mergeCutoff sc) found candidates;
     (if known then Some candidates
      else t2_scan_column st sc found
        (\<lambda>p. t3_scan_diagonal st sc p
          (\<lambda>p. t4_confirm_scan st sc p merge_confirms (\<lambda>p candidates. Some (candidates @ [p])))) candidates)
   }"

section \<open>Candidates\<close>

fun merge_into :: "int \<Rightarrow> Anchor \<Rightarrow> Anchor list \<Rightarrow> Anchor list option" where
  "merge_into cutoff c [] = Some [c]"
| "merge_into cutoff c (m # ms) = do {
     b \<leftarrow> is_mergeable m c cutoff;
     (if b then Some (an_merge m c # ms) else map_option ((#) m) (merge_into cutoff c ms))
   }"

definition deduplicate_candidates :: "Scanner \<Rightarrow> Anchor list \<Rightarrow> Anchor list option" where
  "deduplicate_candidates sc candidates = for_each candidates (merge_into (sc_mergeCutoff sc)) []"

text \<open>\<open>order\<close> is \<open>std::sort\<close> with \<open>size_sort\<close>.\<close>

definition sorts_by_size :: "(Anchor list \<Rightarrow> Anchor list) \<Rightarrow> bool" where
  "sorts_by_size order \<longleftrightarrow> (\<forall>cs. mset (order cs) = mset cs \<and> sorted_wrt (\<lambda>a b. an_size a \<ge> an_size b) (order cs))"

definition filter_candidates :: "(Anchor list \<Rightarrow> Anchor list) \<Rightarrow> Anchor list \<Rightarrow> nat \<times> Anchor list" where
  "filter_candidates order candidates =
     (if length candidates < 3 then (0, candidates)
      else let cs = order candidates;
               cutoff = (an_size (cs ! 0) + an_size (cs ! 1) + an_size (cs ! 2)) mod 2 ^ 32 div 8;
               i = min 3 (length (takeWhile (\<lambda>c. an_size c \<ge> cutoff) cs))
           in (cutoff, take i cs))"

definition point_sub :: "int \<times> int \<Rightarrow> int \<times> int \<Rightarrow> int \<times> int" where
  "point_sub p q = (fst p - fst q, snd p - snd q)"

definition point_dot :: "int \<times> int \<Rightarrow> int \<times> int \<Rightarrow> int" where
  "point_dot p q = fst q * fst p + snd q * snd p"

definition fix_index :: "int \<Rightarrow> int \<Rightarrow> int" where
  "fix_index n i = (if i < 0 then n - 1 else if i \<ge> n then 0 else i)"

definition get_longest_edge :: "(int \<times> int) list \<Rightarrow> int" where
  "get_longest_edge edges = fst (foldl (\<lambda>(longest, max_d) i. let d = point_dot (edges ! i) (edges ! i) in
     if d > max_d then (int i, d) else (longest, max_d)) (0, 0) [0..<length edges])"

definition sort_top_to_bottom :: "Anchor list \<Rightarrow> (bool \<times> Anchor list) option" where
  "sort_top_to_bottom anchors =
     (if length anchors < 3 then Some (False, anchors)
      else do {
        let c = (\<lambda>k. an_center (anchors ! k));
        let edges = [point_sub (c 1) (c 2), point_sub (c 2) (c 0), point_sub (c 0) (c 1)];
        let top_left = get_longest_edge edges;
        departing \<leftarrow> rd edges (nat (fix_index 3 (top_left - 1)));
        incoming \<leftarrow> rd edges (nat (fix_index 3 (top_left + 1)));
        let incoming = (- snd incoming, fst incoming);
        let overlap = point_sub departing incoming;
        let (top_right, bottom_left) =
          (if point_dot overlap overlap < point_dot departing departing then (fix_index 3 (top_left + 1), fix_index 3 (top_left - 1))
           else (fix_index 3 (top_left - 1), fix_index 3 (top_left + 1)));
        tl \<leftarrow> rd anchors (nat top_left);
        tr \<leftarrow> rd anchors (nat top_right);
        bl \<leftarrow> rd anchors (nat bottom_left);
        Some (True, [tl, tr, bl])
      })"

text \<open>\<open>scale v p q\<close> is \<open>v * (p / q)\<close> in \<open>double\<close>, made an \<open>int\<close>.\<close>

definition add_bottom_right_corner ::
  "(int \<Rightarrow> int \<Rightarrow> int \<Rightarrow> int) \<Rightarrow> Scanner \<Rightarrow> Anchor list \<Rightarrow> nat \<Rightarrow> (bool \<times> Anchor list) option" where
  "add_bottom_right_corner scale sc anchors cutoff = do {
     a0 \<leftarrow> rd anchors 0; a1 \<leftarrow> rd anchors 1; a2 \<leftarrow> rd anchors 2;
     let top = (\<lambda>v. scale v (an_max_range a2) (max (an_max_range a1) (an_max_range a0)));
     let topEdge = point_sub (an_center a1) (an_center a0);
     let guess1 = (an_xavg a2 + top (fst topEdge), an_yavg a2 + top (snd topEdge));
     let left = (\<lambda>v. scale v (an_max_range a1) (max (an_max_range a2) (an_max_range a0)));
     let leftEdge = point_sub (an_center a2) (an_center a0);
     let guess2 = (an_xavg a1 + left (fst leftEdge), an_yavg a1 + left (snd leftEdge));
     let center = ((fst guess1 + fst guess2) sdiv 2, (snd guess1 + snd guess2) sdiv 2);
     let range = max (an_max_range a0) (max (an_max_range a1) (an_max_range a2)) * 2;
     candidates \<leftarrow> t1_scan_rows ScanState_122 sc (on_t1_scan ScanState_122 sc False) (sc_skip sc sdiv 2)
       (snd center - range) (snd center + range) (fst center - range) (fst center + range) [];
     (case filter (\<lambda>c. an_size c > cutoff) candidates of
        [] \<Rightarrow> Some (False, anchors)
      | c # _ \<Rightarrow> Some (True, anchors @ [c]))
   }"

definition scan_primary :: "(Anchor list \<Rightarrow> Anchor list) \<Rightarrow> Scanner \<Rightarrow> Anchor list \<Rightarrow> (nat \<times> Anchor list) option" where
  "scan_primary order sc candidates = do {
     candidates \<leftarrow> t1_scan_rows ScanState_114 sc (on_t1_scan ScanState_114 sc True) (- 1) (- 1) (- 1) (- 1) (- 1) candidates;
     let (cutoff, candidates) = filter_candidates order candidates;
     (_, candidates) \<leftarrow> sort_top_to_bottom candidates;
     Some (cutoff, candidates)
   }"

definition scan :: "(Anchor list \<Rightarrow> Anchor list) \<Rightarrow> (int \<Rightarrow> int \<Rightarrow> int \<Rightarrow> int) \<Rightarrow> Scanner \<Rightarrow> Anchor list option" where
  "scan order scale sc = do {
     (cutoff, candidates) \<leftarrow> scan_primary order sc [];
     (if length candidates = 3 \<and> cutoff \<noteq> 0 then map_option snd (add_bottom_right_corner scale sc candidates cutoff)
      else Some candidates)
   }"

section \<open>What the scan of a line finds\<close>

lemma scan_positions_append:
  "scan_positions sc anchor (ps @ qs) sp = Option.bind (scan_positions sc anchor ps sp) (scan_positions sc anchor qs)"
  by (induction sc anchor ps sp rule: scan_positions.induct) (auto split: prod.splits bind_split)

definition hits :: "limit_list \<Rightarrow> bool list \<Rightarrow> nat \<Rightarrow> nat list" where
  "hits limits bs m = filter (\<lambda>k. 0 < hit limits bs k) [0..<m]"

lemma scan_positions_run:
  assumes px: "\<And>k. k < length ps \<Longrightarrow> test_pixel sc (ps ! k) = Some (bs ! k)" and len: "length bs = length ps" and st: "tracks limits [] st"
  shows "m \<le> length ps \<Longrightarrow> \<exists>s'. scan_positions sc anchor (take m ps) (st, points) =
      Some (s', points @ map (\<lambda>k. anchor (hit limits bs k) (ps ! k)) (hits limits bs m)) \<and> tracks limits (runs (take m bs)) s'"
proof (induction m)
  case 0
  then show ?case using st by (simp add: hits_def)
next
  case (Suc m)
  then have m: "m < length ps" by simp
  obtain s1 where s1: "scan_positions sc anchor (take m ps) (st, points) =
      Some (s1, points @ map (\<lambda>k. anchor (hit limits bs k) (ps ! k)) (hits limits bs m))" "tracks limits (runs (take m bs)) s1"
    using Suc.IH m by auto
  obtain s2 where s2: "process s1 (bs ! m) = Some (scan_answer limits (runs (take m bs)) (bs ! m), s2)"
    "tracks limits (runs_step (runs (take m bs)) (bs ! m)) s2" using process_tracks [OF s1(2)] by blast
  have h: "scan_answer limits (runs (take m bs)) (bs ! m) = hit limits bs m" using m len by (simp add: hit_def)
  have tk: "take (Suc m) ps = take m ps @ [ps ! m]" "take (Suc m) bs = take m bs @ [bs ! m]" using m len by (simp_all add: take_Suc_conv_app_nth)
  have "scan_positions sc anchor (take (Suc m) ps) (st, points) =
      Some (s2, points @ map (\<lambda>k. anchor (hit limits bs k) (ps ! k)) (hits limits bs (Suc m)))"
    unfolding tk(1) scan_positions_append s1(1) using px [OF m] s2(1) by (simp add: h hits_def)
  then show ?case using s2(2) unfolding tk(2) runs_snoc by blast
qed

lemma scan_line_run:
  assumes px: "\<And>k. k < length ps \<Longrightarrow> test_pixel sc (ps ! k) = Some (bs ! k)" and len: "length bs = length ps" and st: "tracks limits [] st"
  shows "scan_line st sc anchor ps end points = (let hs = hits limits bs (Suc (length ps)) in
    Some (hs \<noteq> [], points @ map (\<lambda>k. anchor (hit limits bs k) ((ps @ [end]) ! k)) hs))"
proof -
  obtain s1 where s1: "scan_positions sc anchor ps (st, points) =
      Some (s1, points @ map (\<lambda>k. anchor (hit limits bs k) (ps ! k)) (hits limits bs (length ps)))" "tracks limits (runs bs) s1"
    using scan_positions_run [OF px len st, where m = "length ps"] len by auto
  obtain s2 where s2: "process s1 False = Some (scan_answer limits (runs bs) False, s2)" using process_tracks [OF s1(2)] by blast
  have h: "scan_answer limits (runs bs) False = hit limits bs (length ps)" using len by (simp add: hit_def)
  have e: "map (\<lambda>k. anchor (hit limits bs k) (ps ! k)) (hits limits bs (length ps)) =
      map (\<lambda>k. anchor (hit limits bs k) ((ps @ [end]) ! k)) (hits limits bs (length ps))"
    by (auto simp: hits_def nth_append)
  show ?thesis unfolding scan_line_def s1(1) using s2 by (auto simp: h hits_def Let_def e [unfolded hits_def])
qed

lemma hits_iff: "set (hits limits bs (Suc (length bs))) = {hi. \<exists>lo. is_pattern limits bs lo hi}"
proof -
  have "0 < hit limits bs hi \<longleftrightarrow> (\<exists>lo. is_pattern limits bs lo hi)" if "hi \<le> length bs" for hi
    using hit_pattern [OF that] pattern_hit pattern_five by fastforce
  moreover have "is_pattern limits bs lo hi \<Longrightarrow> hi \<le> length bs" for lo hi by (simp add: is_pattern_def)
  moreover have "set (hits limits bs (Suc (length bs))) = {hi. hi \<le> length bs \<and> 0 < hit limits bs hi}"
    by (auto simp: hits_def less_Suc_eq_le simp del: upt_Suc)
  ultimately show ?thesis by blast
qed

text \<open>An image and its lines.\<close>

definition image_ok :: "Scanner \<Rightarrow> bool" where
  "image_ok sc \<longleftrightarrow> 0 \<le> sc_rows sc \<and> 0 \<le> sc_cols sc \<and> int (length (sc_img sc)) = sc_rows sc * sc_cols sc"

definition pixel_in :: "Scanner \<Rightarrow> int \<times> int \<Rightarrow> bool" where
  "pixel_in sc xy \<longleftrightarrow> 0 \<le> fst xy \<and> fst xy < sc_cols sc \<and> 0 \<le> snd xy \<and> snd xy < sc_rows sc"

definition pixels :: "Scanner \<Rightarrow> (int \<times> int) list \<Rightarrow> bool list" where
  "pixels sc ps = map (\<lambda>xy. the (test_pixel sc xy)) ps"

lemma test_pixel_in:
  assumes "image_ok sc" "pixel_in sc xy"
  shows "test_pixel sc xy = Some (the (test_pixel sc xy))"
proof -
  obtain x y where xy: "xy = (x, y)" by fastforce
  have b: "0 \<le> x" "x < sc_cols sc" "0 \<le> y" "y < sc_rows sc" using assms(2) by (simp_all add: pixel_in_def xy)
  have "y * sc_cols sc + x < (y + 1) * sc_cols sc" using b by (simp add: distrib_right)
  also have "\<dots> \<le> sc_rows sc * sc_cols sc" using b by (intro mult_right_mono) simp_all
  finally have "nat (y * sc_cols sc + x) < length (sc_img sc)" using assms(1) b by (simp add: image_ok_def nat_less_iff)
  then show ?thesis using b by (simp add: test_pixel_def xy)
qed

lemma scan_line_in:
  assumes img: "image_ok sc" and ps: "\<forall>xy\<in>set ps. pixel_in sc xy" and st: "tracks limits [] st"
  shows "\<exists>found. scan_line st sc anchor ps end points = Some (found \<noteq> [], points @ found) \<and>
    found = map (\<lambda>hi. anchor (hit limits (pixels sc ps) hi) ((ps @ [end]) ! hi)) (hits limits (pixels sc ps) (Suc (length ps)))"
proof -
  have len: "length (pixels sc ps) = length ps" by (simp add: pixels_def)
  have px: "test_pixel sc (ps ! k) = Some (pixels sc ps ! k)" if "k < length ps" for k
    using test_pixel_in [OF img] ps that by (simp add: pixels_def)
  show ?thesis using scan_line_run [OF px len st, of anchor "end" points] by (simp add: Let_def)
qed

lemma found_pattern:
  assumes "hi \<in> set (hits limits (pixels sc ps) (Suc (length ps)))"
  shows "\<exists>lo. is_pattern limits (pixels sc ps) lo hi \<and> lo + 5 \<le> hi \<and> hi \<le> length ps \<and> hit limits (pixels sc ps) hi = int (hi - lo)"
proof -
  have len: "length (pixels sc ps) = length ps" by (simp add: pixels_def)
  then obtain lo where "is_pattern limits (pixels sc ps) lo hi" using assms hits_iff [of limits "pixels sc ps"] by auto
  moreover from this have "hi \<le> length ps" using len by (simp add: is_pattern_def)
  ultimately show ?thesis using pattern_five pattern_hit by blast
qed

lemma scan_line_found:
  assumes img: "image_ok sc" and ps: "\<forall>xy\<in>set ps. pixel_in sc xy" and st: "tracks limits [] st"
    and place: "\<And>k. 0 < k \<Longrightarrow> k \<le> length ps \<Longrightarrow> (ps @ [end]) ! k = place k"
    and target: "\<And>lo hi. lo \<le> hi \<Longrightarrow> anchor (int (hi - lo)) (place hi) = target lo hi"
  shows "\<exists>found. scan_line st sc anchor ps end points = Some (found \<noteq> [], points @ found) \<and>
    set found = {target lo hi | lo hi. is_pattern limits (pixels sc ps) lo hi}"
proof -
  obtain found where f: "scan_line st sc anchor ps end points = Some (found \<noteq> [], points @ found)"
    "found = map (\<lambda>hi. anchor (hit limits (pixels sc ps) hi) ((ps @ [end]) ! hi)) (hits limits (pixels sc ps) (Suc (length ps)))"
    using scan_line_in [OF img ps st] by blast
  have "length (pixels sc ps) = length ps" by (simp add: pixels_def)
  then have h: "set (hits limits (pixels sc ps) (Suc (length ps))) = {hi. \<exists>lo. is_pattern limits (pixels sc ps) lo hi}"
    using hits_iff [of limits "pixels sc ps"] by simp
  have e: "anchor (hit limits (pixels sc ps) hi) ((ps @ [end]) ! hi) = target lo hi"
    if "is_pattern limits (pixels sc ps) lo hi" for lo hi
    using pattern_hit [OF that] pattern_five [OF that] place [of hi] target [of lo hi] that \<open>length (pixels sc ps) = length ps\<close>
    by (simp add: is_pattern_def)
  have "set found = {target lo hi | lo hi. is_pattern limits (pixels sc ps) lo hi}"
    unfolding f(2) set_map h using e by (auto simp: image_iff) metis+
  then show ?thesis using f(1) by blast
qed

definition row :: "int \<Rightarrow> int \<Rightarrow> int \<Rightarrow> (int \<times> int) list" where
  "row y a b = map (\<lambda>x. (x, y)) [a..b - 1]"

definition column :: "int \<Rightarrow> int \<Rightarrow> int \<Rightarrow> (int \<times> int) list" where
  "column x a b = map (\<lambda>y. (x, y)) [a..b - 1]"

lemma row_place: "0 < k \<Longrightarrow> k \<le> length (row y a b) \<Longrightarrow> (row y a b @ [(b, y)]) ! k = (a + int k, y)"
  by (auto simp: row_def nth_append)

lemma column_place: "0 < k \<Longrightarrow> k \<le> length (column x a b) \<Longrightarrow> (column x a b @ [(x, b)]) ! k = (x, a + int k)"
  by (auto simp: column_def nth_append)

lemma scan_horizontal_found:
  assumes img: "image_ok sc" "0 \<le> y" "y < sc_rows sc" and st: "tracks limits [] st"
    and ab: "a = (if xstart < 0 then 0 else xstart)" "b = (if xend < 0 \<or> xend > sc_cols sc then sc_cols sc else xend)"
  shows "\<exists>found. scan_horizontal st sc points y xstart xend = Some (found \<noteq> [], points @ found) \<and>
    set found = {Anchor_create (a + int lo) (a + int hi - 1) y y | lo hi. is_pattern limits (pixels sc (row y a b)) lo hi}"
proof -
  have ps: "\<forall>xy\<in>set (row y a b). pixel_in sc xy" using img ab by (auto simp: row_def pixel_in_def)
  have "scan_horizontal st sc points y xstart xend =
      scan_line st sc (\<lambda>res (x, _). Anchor_create (x - res) (x - 1) y y) (row y a b) (b, y) points"
    unfolding scan_horizontal_def row_def ab Let_def by (rule refl)
  moreover have "\<exists>found. scan_line st sc (\<lambda>res (x, _). Anchor_create (x - res) (x - 1) y y) (row y a b) (b, y) points =
      Some (found \<noteq> [], points @ found) \<and>
    set found = {Anchor_create (a + int lo) (a + int hi - 1) y y | lo hi. is_pattern limits (pixels sc (row y a b)) lo hi}"
    by (rule scan_line_found [OF img(1) ps st]) (erule (1) row_place, simp add: of_nat_diff)
  ultimately show ?thesis by simp
qed

lemma sdiv_nonneg: "0 \<le> a \<Longrightarrow> 0 < b \<Longrightarrow> a sdiv b = a div b" for a b :: int
  by (cases "a = 0") (simp_all add: signed_divide_int_def)

lemma scan_vertical_found:
  assumes img: "image_ok sc" "0 \<le> x" "x \<le> xmax" "xmax < sc_cols sc" and st: "tracks limits [] st"
    and ab: "a = (if ystart < 0 then 0 else ystart)" "b = (if yend < 0 \<or> yend > sc_rows sc then sc_rows sc else yend)"
  shows "\<exists>found. scan_vertical st sc points x xmax ystart yend = Some (found \<noteq> [], points @ found) \<and>
    set found = {Anchor_create ((x + xmax) div 2) ((x + xmax) div 2) (a + int lo) (a + int hi - 1) | lo hi.
      is_pattern limits (pixels sc (column ((x + xmax) div 2) a b)) lo hi}"
proof -
  let ?x = "(x + xmax) div 2"
  have x: "0 \<le> ?x" "?x < sc_cols sc" "(x + xmax) sdiv 2 = ?x" using img by (auto simp: sdiv_nonneg)
  have ps: "\<forall>xy\<in>set (column ?x a b). pixel_in sc xy" using img x ab by (auto simp: column_def pixel_in_def)
  have "scan_vertical st sc points x xmax ystart yend =
      scan_line st sc (\<lambda>res (_, y). Anchor_create ?x ?x (y - res) (y - 1)) (column ?x a b) (?x, b) points"
    using img x(3) unfolding scan_vertical_def column_def ab Let_def by simp
  moreover have "\<exists>found. scan_line st sc (\<lambda>res (_, y). Anchor_create ?x ?x (y - res) (y - 1)) (column ?x a b) (?x, b) points =
      Some (found \<noteq> [], points @ found) \<and>
    set found = {Anchor_create ?x ?x (a + int lo) (a + int hi - 1) | lo hi. is_pattern limits (pixels sc (column ?x a b)) lo hi}"
    by (rule scan_line_found [OF img(1) ps st]) (erule (1) column_place, simp add: of_nat_diff)
  ultimately show ?thesis by simp
qed

lemma scan_diagonal_found:
  assumes img: "image_ok sc" and st: "tracks limits [] st"
  shows "\<exists>found a b n. scan_diagonal st sc points xstart xend ystart yend = Some (found \<noteq> [], points @ found) \<and>
    0 \<le> a \<and> 0 \<le> b \<and> (0 < n \<longrightarrow> a + n \<le> sc_cols sc \<and> b + n \<le> sc_rows sc) \<and>
    set found = {Anchor_create (a + int lo) (a + int hi - 1) (b + int lo) (b + int hi - 1) | lo hi.
      is_pattern limits (pixels sc (map (\<lambda>k. (a + k, b + k)) [0..n - 1])) lo hi}"
proof -
  define xs where "xs = (if xstart < 0 then (0, ystart - xstart) else (xstart, ystart))"
  define ab where "ab = (if snd xs < 0 then (fst xs - snd xs, 0) else xs)"
  let ?a = "fst ab" and ?b = "snd ab"
  define n where "n = max 0 (min (min xend (sc_cols sc) - ?a) (min yend (sc_rows sc) - ?b))"
  let ?ps = "map (\<lambda>k. (?a + k, ?b + k)) [0..n - 1]"
  have a0: "0 \<le> ?a" "0 \<le> ?b" by (auto simp: ab_def xs_def)
  have n: "0 < n \<longrightarrow> ?a + n \<le> sc_cols sc \<and> ?b + n \<le> sc_rows sc" by (auto simp: n_def)
  have ps: "\<forall>xy\<in>set ?ps. pixel_in sc xy" using a0 n by (auto simp: pixel_in_def)
  have place: "(?ps @ [(?a + n, ?b + n)]) ! k = (?a + int k, ?b + int k)" if "0 < k" "k \<le> length ?ps" for k
    using that by (auto simp: nth_append)
  have run: "scan_diagonal st sc points xstart xend ystart yend =
      scan_line st sc (\<lambda>res (x, y). Anchor_create (x - res) (x - 1) (y - res) (y - 1)) ?ps (?a + n, ?b + n) points"
    unfolding scan_diagonal_def Let_def n_def by (simp add: ab_def xs_def split: prod.split)
  have "\<exists>found. scan_line st sc (\<lambda>res (x, y). Anchor_create (x - res) (x - 1) (y - res) (y - 1)) ?ps (?a + n, ?b + n) points =
      Some (found \<noteq> [], points @ found) \<and>
    set found = {Anchor_create (?a + int lo) (?a + int hi - 1) (?b + int lo) (?b + int hi - 1) | lo hi. is_pattern limits (pixels sc ?ps) lo hi}"
    by (rule scan_line_found [OF img ps st]) (erule (1) place, simp add: of_nat_diff)
  then obtain found where f: "scan_diagonal st sc points xstart xend ystart yend = Some (found \<noteq> [], points @ found)"
    "set found = {Anchor_create (?a + int lo) (?a + int hi - 1) (?b + int lo) (?b + int hi - 1) | lo hi. is_pattern limits (pixels sc ?ps) lo hi}"
    unfolding run by blast
  show ?thesis by (intro exI [of _ found] exI [of _ ?a] exI [of _ ?b] exI [of _ n] conjI f a0 n)
qed

section \<open>Anchors stay in the image\<close>

definition in_image :: "Scanner \<Rightarrow> Anchor \<Rightarrow> bool" where
  "in_image sc a \<longleftrightarrow> 0 \<le> an_x a \<and> an_x a \<le> an_xmax a \<and> an_xmax a < sc_cols sc \<and> 0 \<le> an_y a \<and> an_y a \<le> an_ymax a \<and> an_ymax a < sc_rows sc"

definition wide :: "Anchor \<Rightarrow> bool" where "wide a \<longleftrightarrow> an_x a + 4 \<le> an_xmax a"
definition tall :: "Anchor \<Rightarrow> bool" where "tall a \<longleftrightarrow> an_y a + 4 \<le> an_ymax a"

lemmas anchor_shape = in_image_def wide_def tall_def Anchor_create_def

lemma pattern_bounds: "is_pattern limits (pixels sc ps) lo hi \<Longrightarrow> lo + 5 \<le> hi \<and> hi \<le> length ps"
proof -
  assume p: "is_pattern limits (pixels sc ps) lo hi"
  have "hi \<le> length (pixels sc ps)" using p by (simp add: is_pattern_def)
  then show ?thesis using pattern_five [OF p] by (simp add: pixels_def)
qed

lemma horizontal_ok:
  assumes "image_ok sc" "0 \<le> y" "y < sc_rows sc" "tracks limits [] st"
  shows "\<exists>found. scan_horizontal st sc points y xstart xend = Some (found \<noteq> [], points @ found) \<and> (\<forall>p\<in>set found. in_image sc p \<and> wide p)"
proof -
  define a where "a = (if xstart < 0 then 0 else xstart)"
  define b where "b = (if xend < 0 \<or> xend > sc_cols sc then sc_cols sc else xend)"
  obtain found where f: "scan_horizontal st sc points y xstart xend = Some (found \<noteq> [], points @ found)"
    "set found = {Anchor_create (a + int lo) (a + int hi - 1) y y | lo hi. is_pattern limits (pixels sc (row y a b)) lo hi}"
    using scan_horizontal_found [OF assms a_def b_def] by blast
  have "in_image sc p \<and> wide p" if p: "p \<in> set found" for p
  proof -
    obtain lo hi where lh: "p = Anchor_create (a + int lo) (a + int hi - 1) y y" "lo + 5 \<le> hi" "hi \<le> length (row y a b)"
      using p pattern_bounds unfolding f(2) by blast
    have "int hi \<le> b - a" using lh(2,3) by (simp add: row_def)
    moreover have "0 \<le> a" "b \<le> sc_cols sc" by (auto simp: a_def b_def)
    ultimately show ?thesis using lh(1,2) assms(2,3) by (simp add: anchor_shape)
  qed
  then show ?thesis using f(1) by blast
qed

lemma vertical_ok:
  assumes "image_ok sc" "0 \<le> x" "x \<le> xmax" "xmax < sc_cols sc" "tracks limits [] st"
  shows "\<exists>found. scan_vertical st sc points x xmax ystart yend = Some (found \<noteq> [], points @ found) \<and> (\<forall>p\<in>set found. in_image sc p \<and> tall p)"
proof -
  define a where "a = (if ystart < 0 then 0 else ystart)"
  define b where "b = (if yend < 0 \<or> yend > sc_rows sc then sc_rows sc else yend)"
  let ?x = "(x + xmax) div 2"
  obtain found where f: "scan_vertical st sc points x xmax ystart yend = Some (found \<noteq> [], points @ found)"
    "set found = {Anchor_create ?x ?x (a + int lo) (a + int hi - 1) | lo hi. is_pattern limits (pixels sc (column ?x a b)) lo hi}"
    using scan_vertical_found [OF assms a_def b_def] by blast
  have x: "0 \<le> ?x" "?x < sc_cols sc" using assms(2-4) by simp_all
  have "in_image sc p \<and> tall p" if p: "p \<in> set found" for p
  proof -
    obtain lo hi where lh: "p = Anchor_create ?x ?x (a + int lo) (a + int hi - 1)" "lo + 5 \<le> hi" "hi \<le> length (column ?x a b)"
      using p pattern_bounds unfolding f(2) by blast
    have "int hi \<le> b - a" using lh(2,3) by (simp add: column_def)
    moreover have "0 \<le> a" "b \<le> sc_rows sc" by (auto simp: a_def b_def)
    ultimately show ?thesis using lh(1,2) x by (simp add: anchor_shape)
  qed
  then show ?thesis using f(1) by blast
qed

lemma diagonal_ok:
  assumes "image_ok sc" "tracks limits [] st"
  shows "\<exists>found. scan_diagonal st sc points xstart xend ystart yend = Some (found \<noteq> [], points @ found) \<and>
    (\<forall>p\<in>set found. in_image sc p \<and> wide p \<and> tall p)"
proof -
  obtain found a b n where f: "scan_diagonal st sc points xstart xend ystart yend = Some (found \<noteq> [], points @ found)"
    "0 \<le> a" "0 \<le> b" "0 < n \<longrightarrow> a + n \<le> sc_cols sc \<and> b + n \<le> sc_rows sc"
    "set found = {Anchor_create (a + int lo) (a + int hi - 1) (b + int lo) (b + int hi - 1) | lo hi.
      is_pattern limits (pixels sc (map (\<lambda>k. (a + k, b + k)) [0..n - 1])) lo hi}"
    using scan_diagonal_found [OF assms] by blast
  have "in_image sc p \<and> wide p \<and> tall p" if p: "p \<in> set found" for p
  proof -
    obtain lo hi where lh: "p = Anchor_create (a + int lo) (a + int hi - 1) (b + int lo) (b + int hi - 1)" "lo + 5 \<le> hi"
      "hi \<le> length (map (\<lambda>k. (a + k, b + k)) [0..n - 1])"
      using p pattern_bounds unfolding f(5) by blast
    have "int hi \<le> n" using lh(2,3) by simp
    moreover from this have "a + n \<le> sc_cols sc" "b + n \<le> sc_rows sc" using f(4) lh(2) by auto
    ultimately show ?thesis using lh(1,2) f(2,3) by (simp add: anchor_shape)
  qed
  then show ?thesis using f(1) by blast
qed

lemma mergeable_ok: "wide a \<or> tall a \<Longrightarrow> \<exists>m. is_mergeable a b cutoff = Some m"
  by (auto simp: is_mergeable_def an_max_range_def wide_def tall_def Let_def)

lemma merge_shape:
  "in_image sc a \<Longrightarrow> in_image sc b \<Longrightarrow> in_image sc (an_merge a b)"
  "in_image sc a \<Longrightarrow> in_image sc b \<Longrightarrow> wide a \<or> wide b \<Longrightarrow> wide (an_merge a b)"
  "in_image sc a \<Longrightarrow> in_image sc b \<Longrightarrow> tall a \<or> tall b \<Longrightarrow> tall (an_merge a b)"
  by (auto simp: in_image_def wide_def tall_def an_merge_def)

lemma t3_merge_ok:
  "\<forall>co\<in>set cs. in_image sc co \<and> wide co \<and> tall co \<Longrightarrow> in_image sc (snd cm) \<and> tall (snd cm) \<and> (fst cm \<longrightarrow> wide (snd cm)) \<Longrightarrow>
    \<exists>cm'. t3_merge cutoff hint cs cm = Some cm' \<and> in_image sc (snd cm') \<and> tall (snd cm') \<and> (fst cm' \<longrightarrow> wide (snd cm'))"
proof (induction cutoff hint cs cm rule: t3_merge.induct)
  case (2 cutoff hint co cs confirm merged)
  obtain m where m: "is_mergeable co hint cutoff = Some m" using mergeable_ok [of co hint cutoff] 2(2) by auto
  have "in_image sc (an_merge merged co) \<and> wide (an_merge merged co) \<and> tall (an_merge merged co)"
    using merge_shape [of sc merged co] 2(2,3) by auto
  then show ?case using 2(1) [of m] 2(2,3) m by (auto split: if_splits)
qed simp

lemma t4_merge_ok:
  "\<forall>co\<in>set cs. in_image sc co \<and> (wide co \<or> tall co) \<Longrightarrow> in_image sc (snd ch) \<and> wide (snd ch) \<and> tall (snd ch) \<Longrightarrow>
    \<exists>ch'. t4_merge cutoff mc cs ch = Some ch' \<and> in_image sc (snd ch') \<and> wide (snd ch') \<and> tall (snd ch')"
proof (induction cutoff mc cs ch rule: t4_merge.induct)
  case (2 cutoff mc co cs confirm hint)
  obtain m where m: "is_mergeable co hint cutoff = Some m" using mergeable_ok [of co hint cutoff] 2(3) by auto
  have "in_image sc (an_merge hint co) \<and> wide (an_merge hint co) \<and> tall (an_merge hint co)"
    using merge_shape [of sc hint co] 2(3,4) by auto
  then show ?case using 2(1,2) [of m] 2(3,4) m by (cases m; cases mc) auto
qed simp

lemma t4_lines_ok:
  assumes "\<And>l points. l \<in> set ls \<Longrightarrow> \<exists>found. line l points = Some (found \<noteq> [], points @ found) \<and> (\<forall>p\<in>set found. Q p)"
  shows "\<forall>p\<in>set confirms. Q p \<Longrightarrow> \<exists>r. t4_lines line ls confirms = Some r \<and> (\<forall>cs. r = Some cs \<longrightarrow> (\<forall>p\<in>set cs. Q p))"
  using assms
proof (induction ls arbitrary: confirms)
  case (Cons l ls)
  obtain found where f: "line l confirms = Some (found \<noteq> [], confirms @ found)" "\<forall>p\<in>set found. Q p" using Cons.prems(2) [of l] by auto
  have "\<exists>r. t4_lines line ls (confirms @ found) = Some r \<and> (\<forall>cs. r = Some cs \<longrightarrow> (\<forall>p\<in>set cs. Q p))"
    by (rule Cons.IH) (use Cons.prems f(2) in auto)
  then show ?case using f(1) by auto
qed simp

lemma t1_rows_ok:
  assumes "image_ok sc" "tracks limits [] st" "0 < skip" "yend \<le> sc_rows sc"
  shows "0 \<le> y \<Longrightarrow> \<forall>p\<in>set points. in_image sc p \<and> wide p \<Longrightarrow>
    \<exists>pts. t1_rows st sc skip y yend xstart xend points = Some pts \<and> (\<forall>p\<in>set pts. in_image sc p \<and> wide p)"
proof (induction "nat (yend - y)" arbitrary: y points rule: less_induct)
  case less
  show ?case
  proof (cases "y < yend")
    case True
    have y: "y < sc_rows sc" using True assms(4) by linarith
    obtain found where f: "scan_horizontal st sc points y xstart xend = Some (found \<noteq> [], points @ found)" "\<forall>p\<in>set found. in_image sc p \<and> wide p"
      using horizontal_ok [OF assms(1) less.prems(1) y assms(2)] by blast
    have "\<exists>pts. t1_rows st sc skip (y + skip) yend xstart xend (points @ found) = Some pts \<and> (\<forall>p\<in>set pts. in_image sc p \<and> wide p)"
      by (rule less.hyps) (use True assms(3) less.prems f(2) in auto)
    then show ?thesis using f(1) True by (subst t1_rows.simps) simp
  next
    case False
    then show ?thesis using less.prems by (subst t1_rows.simps) simp
  qed
qed

text \<open>A callback that keeps an invariant \<open>P\<close> on the anchors it is called with.\<close>

definition keeps :: "('s \<Rightarrow> bool) \<Rightarrow> (Anchor \<Rightarrow> bool) \<Rightarrow> (Anchor \<Rightarrow> 's \<Rightarrow> 's option) \<Rightarrow> bool" where
  "keeps P Q func \<longleftrightarrow> (\<forall>p s. Q p \<longrightarrow> P s \<longrightarrow> (\<exists>s'. func p s = Some s' \<and> P s'))"

lemma keeps_each: "keeps P Q func \<Longrightarrow> \<forall>p\<in>set ps. Q p \<Longrightarrow> P s \<Longrightarrow> \<exists>s'. for_each ps func s = Some s' \<and> P s'"
  by (rule for_each_total_inv) (auto simp: keeps_def)

lemma t1_scan_rows_ok:
  assumes "image_ok sc" "tracks limits [] st" "0 < sc_skip sc" "keeps P (\<lambda>p. in_image sc p \<and> wide p) func" "P s"
  shows "\<exists>s'. t1_scan_rows st sc func skip y yend xstart xend s = Some s' \<and> P s'"
proof -
  define sk where "sk = (if skip \<le> 0 then sc_skip sc else skip)"
  define y0 where "y0 = (if y < 0 then sk else y)"
  define y1 where "y1 = (if yend < 0 \<or> yend > sc_rows sc then sc_rows sc else yend)"
  have "0 < sk" "0 \<le> y0" "y1 \<le> sc_rows sc" using assms(3) by (auto simp: sk_def y0_def y1_def)
  then obtain pts where "t1_rows st sc sk y0 y1 xstart xend [] = Some pts" "\<forall>p\<in>set pts. in_image sc p \<and> wide p"
    using t1_rows_ok [OF assms(1,2), of sk y1 y0 "[]" xstart xend] by auto
  then show ?thesis using keeps_each [OF assms(4) _ assms(5), of pts] by (simp add: t1_scan_rows_def Let_def flip: sk_def y0_def y1_def)
qed

lemma t2_keeps:
  assumes "image_ok sc" "tracks limits [] st" "keeps P (\<lambda>p. in_image sc p \<and> tall p) func"
  shows "keeps P (in_image sc) (\<lambda>p. t2_scan_column st sc p func)"
  unfolding keeps_def
proof (intro allI impI)
  fix p s assume p: "in_image sc p" and s: "P s"
  then obtain found where "scan_vertical st sc [] (an_x p) (an_xmax p) (an_y p - 3 * an_xrange p) (an_ymax p + 3 * an_xrange p) =
      Some (found \<noteq> [], [] @ found)" "\<forall>q\<in>set found. in_image sc q \<and> tall q"
    using vertical_ok [OF assms(1) _ _ _ assms(2), of "an_x p" "an_xmax p"] unfolding in_image_def by blast
  then show "\<exists>s'. t2_scan_column st sc p func s = Some s' \<and> P s'"
    using keeps_each [OF assms(3) _ s, of found] by (simp add: t2_scan_column_def)
qed

lemma t3_keeps:
  assumes "image_ok sc" "tracks limits [] st" "keeps P (\<lambda>p. in_image sc p \<and> wide p \<and> tall p) func"
  shows "keeps P (\<lambda>p. in_image sc p \<and> tall p) (\<lambda>p. t3_scan_diagonal st sc p func)"
  unfolding keeps_def
proof (intro allI impI)
  fix p s assume p: "in_image sc p \<and> tall p" and s: "P s"
  obtain found where f: "scan_diagonal st sc [] (an_xavg p - 2 * an_yrange p) (an_xavg p + 2 * an_yrange p)
       (an_y p - an_yrange p) (an_ymax p + an_yrange p) = Some (found \<noteq> [], [] @ found)" "\<forall>q\<in>set found. in_image sc q \<and> wide q \<and> tall q"
    using diagonal_ok [OF assms(1,2)] by blast
  obtain confirm merged where m: "t3_merge (sc_mergeCutoff sc) p found (False, p) = Some (confirm, merged)"
    "in_image sc merged" "tall merged" "confirm \<longrightarrow> wide merged"
    using t3_merge_ok [OF f(2), of "(False, p)" "sc_mergeCutoff sc" p] p by auto
  show "\<exists>s'. t3_scan_diagonal st sc p func s = Some s' \<and> P s'"
    using f(1) m s assms(3) by (auto simp: t3_scan_diagonal_def keeps_def)
qed

lemma middle_in:
  assumes "in_image sc p"
  shows "wide p \<Longrightarrow> x \<in> set [an_xavg p - 1, an_xavg p, an_xavg p + 1] \<Longrightarrow> 0 \<le> x \<and> x < sc_cols sc"
    and "tall p \<Longrightarrow> y \<in> set [an_yavg p - 1, an_yavg p, an_yavg p + 1] \<Longrightarrow> 0 \<le> y \<and> y < sc_rows sc"
  using assms by (auto simp: in_image_def wide_def tall_def an_xavg_def an_yavg_def sdiv_nonneg)

lemma t4_keeps:
  assumes img: "image_ok sc" "tracks limits [] st" and func: "keeps P (\<lambda>p. in_image sc p \<and> wide p \<and> tall p) func"
  shows "keeps P (\<lambda>p. in_image sc p \<and> wide p \<and> tall p) (\<lambda>p. t4_confirm_scan st sc p mc func)"
  unfolding keeps_def
proof (intro allI impI)
  fix p s assume p: "in_image sc p \<and> wide p \<and> tall p" and s: "P s"
  let ?h = "\<lambda>y points. scan_horizontal st sc points y (an_x p - an_xrange p) (an_xmax p + an_xrange p)"
  have "\<exists>r. t4_lines ?h [an_yavg p - 1, an_yavg p, an_yavg p + 1] [] = Some r \<and> (\<forall>cs. r = Some cs \<longrightarrow> (\<forall>q\<in>set cs. in_image sc q \<and> wide q))"
    by (rule t4_lines_ok) (use middle_in(2) [of sc p] p horizontal_ok [OF img(1) _ _ img(2)] in \<open>blast, simp\<close>)
  then obtain r where r: "t4_lines ?h [an_yavg p - 1, an_yavg p, an_yavg p + 1] [] = Some r"
    "\<And>cs. r = Some cs \<Longrightarrow> \<forall>q\<in>set cs. in_image sc q \<and> wide q" by blast
  show "\<exists>s'. t4_confirm_scan st sc p mc func s = Some s' \<and> P s'"
  proof (cases r)
    case None
    then show ?thesis using r(1) s by (simp add: t4_confirm_scan_def Let_def del: t4_lines.simps)
  next
    case (Some cs)
    obtain confirm q where q: "t4_merge (sc_mergeCutoff sc) mc cs (False, p) = Some (confirm, q)" "in_image sc q \<and> wide q \<and> tall q"
      using t4_merge_ok [of cs sc "(False, p)" "sc_mergeCutoff sc" mc] r(2) [OF Some] p by auto
    let ?v = "\<lambda>x points. scan_vertical st sc points x x (an_y q - an_yrange q) (an_ymax q + an_yrange q)"
    have "\<exists>r. t4_lines ?v [an_xavg q - 1, an_xavg q, an_xavg q + 1] [] = Some r \<and> (\<forall>cs. r = Some cs \<longrightarrow> (\<forall>q\<in>set cs. in_image sc q \<and> tall q))"
      by (rule t4_lines_ok) (use middle_in(1) [of sc q] q(2) vertical_ok [OF img(1) _ order.refl _ img(2)] in \<open>blast, simp\<close>)
    then obtain r' where r': "t4_lines ?v [an_xavg q - 1, an_xavg q, an_xavg q + 1] [] = Some r'"
      "\<And>cs. r' = Some cs \<Longrightarrow> \<forall>q\<in>set cs. in_image sc q \<and> tall q" by blast
    show ?thesis
    proof (cases r')
      case None
      then show ?thesis using r(1) Some q(1) r'(1) s by (simp add: t4_confirm_scan_def Let_def del: t4_lines.simps)
    next
      case (Some cs')
      obtain confirm' q' where q': "t4_merge (sc_mergeCutoff sc) mc cs' (False, q) = Some (confirm', q')" "in_image sc q' \<and> wide q' \<and> tall q'"
        using t4_merge_ok [of cs' sc "(False, q)" "sc_mergeCutoff sc" mc] r'(2) [OF Some] q(2) by auto
      obtain s' where "func q' s = Some s'" "P s'" using func q'(2) s unfolding keeps_def by blast
      then show ?thesis using r(1) \<open>r = Some cs\<close> q(1) r'(1) Some q'(1) s by (simp add: t4_confirm_scan_def Let_def del: t4_lines.simps)
    qed
  qed
qed

definition mark_candidate :: "Scanner \<Rightarrow> Anchor \<Rightarrow> bool" where
  "mark_candidate sc a \<longleftrightarrow> in_image sc a \<and> wide a \<and> tall a"

lemma on_t1_keeps:
  assumes "image_ok sc" "tracks limits [] st"
  shows "keeps (\<lambda>cs. \<forall>c\<in>set cs. mark_candidate sc c) (\<lambda>p. in_image sc p \<and> wide p) (on_t1_scan st sc mc)"
proof -
  let ?P = "\<lambda>cs. \<forall>c\<in>set cs. mark_candidate sc c"
  have "keeps ?P (\<lambda>p. in_image sc p \<and> wide p \<and> tall p) (\<lambda>p cs. Some (cs @ [p]))" by (auto simp: keeps_def mark_candidate_def)
  from t2_keeps [OF assms t3_keeps [OF assms t4_keeps [OF assms this]]]
  have k: "keeps ?P (in_image sc) (\<lambda>p. t2_scan_column st sc p (\<lambda>p. t3_scan_diagonal st sc p
    (\<lambda>p. t4_confirm_scan st sc p mc (\<lambda>p cs. Some (cs @ [p])))))" .
  have any: "\<exists>b. any_mergeable cutoff p cs = Some b" if "?P cs" for cutoff p cs
    using that
  proof (induction cs)
    case (Cons c cs)
    then show ?case using mergeable_ok [of c p cutoff] by (auto simp: mark_candidate_def)
  qed auto
  then show ?thesis unfolding keeps_def
  proof (intro allI impI)
    fix p cs assume p: "in_image sc p \<and> wide p" and cs: "?P cs"
    obtain b where "any_mergeable (sc_mergeCutoff sc) p cs = Some b" using any [OF cs] by blast
    then show "\<exists>cs'. on_t1_scan st sc mc p cs = Some cs' \<and> ?P cs'" using k p cs by (cases b) (auto simp: on_t1_scan_def keeps_def)
  qed
qed

section \<open>The order of the corners\<close>

definition cross :: "int \<times> int \<Rightarrow> int \<times> int \<Rightarrow> int" where
  "cross u v = fst u * snd v - snd u * fst v"

definition edge :: "Anchor \<Rightarrow> Anchor \<Rightarrow> int \<times> int" where
  "edge a b = point_sub (an_center b) (an_center a)"

definition edge_length2 :: "Anchor \<Rightarrow> Anchor \<Rightarrow> int" where
  "edge_length2 a b = point_dot (edge a b) (edge a b)"

lemma edge_length2_sym: "edge_length2 a b = edge_length2 b a"
  by (simp add: edge_length2_def edge_def point_sub_def point_dot_def algebra_simps)

lemma edge_length2_nonneg: "0 \<le> edge_length2 a b"
  by (simp add: edge_length2_def point_dot_def)

lemma get_longest_edge_3:
  "get_longest_edge [p, q, r] = (if point_dot r r > max (point_dot p p) (point_dot q q) then 2 else if point_dot q q > point_dot p p then 1 else 0)"
proof -
  have nn: "0 \<le> point_dot p p" "0 \<le> point_dot q q" "0 \<le> point_dot r r" by (simp_all add: point_dot_def)
  have "[0..<length [p, q, r]] = [0, 1, 2]" by (simp add: upt_rec)
  then show ?thesis unfolding get_longest_edge_def using nn by (auto simp: Let_def max_def)
qed

text \<open>The first anchor is opposite the longest edge; \<open>turn\<close> is what the code compares to order the other two.\<close>

definition turn :: "Anchor \<Rightarrow> Anchor \<Rightarrow> Anchor \<Rightarrow> Anchor list" where
  "turn a b c = (if edge_length2 a c < 2 * cross (edge a b) (edge a c) then [a, b, c] else [a, c, b])"

lemma turn_condition:
  "point_dot (point_sub (point_sub a b) (- snd (point_sub c a), fst (point_sub c a))) (point_sub (point_sub a b) (- snd (point_sub c a), fst (point_sub c a)))
     < point_dot (point_sub a b) (point_sub a b) \<longleftrightarrow>
   point_dot (point_sub c a) (point_sub c a) < 2 * cross (point_sub b a) (point_sub c a)"
  by (simp add: point_dot_def point_sub_def cross_def algebra_simps)

lemma sort_turns:
  "sort_top_to_bottom [a, b, c] = Some (True,
     if edge_length2 a b > max (edge_length2 b c) (edge_length2 c a) then turn c a b
     else if edge_length2 c a > edge_length2 b c then turn b c a else turn a b c)"
proof -
  let ?E = "[point_sub (an_center b) (an_center c), point_sub (an_center c) (an_center a), point_sub (an_center a) (an_center b)]"
  have d: "point_dot (point_sub (an_center b) (an_center c)) (point_sub (an_center b) (an_center c)) = edge_length2 b c"
    "point_dot (point_sub (an_center c) (an_center a)) (point_sub (an_center c) (an_center a)) = edge_length2 c a"
    "point_dot (point_sub (an_center a) (an_center b)) (point_sub (an_center a) (an_center b)) = edge_length2 a b"
    by (simp_all add: edge_length2_def edge_def point_sub_def point_dot_def algebra_simps)
  have L: "get_longest_edge ?E = (if edge_length2 a b > max (edge_length2 b c) (edge_length2 c a) then 2 else if edge_length2 c a > edge_length2 b c then 1 else 0)"
    unfolding get_longest_edge_3 d by (rule refl)
  have n: "[a, b, c] ! 0 = a" "[a, b, c] ! 1 = b" "[a, b, c] ! 2 = c" "\<not> length [a, b, c] < 3" by simp_all
  have T: "turn x y z = (if point_dot (point_sub (point_sub (an_center x) (an_center y)) (- snd (point_sub (an_center z) (an_center x)), fst (point_sub (an_center z) (an_center x))))
        (point_sub (point_sub (an_center x) (an_center y)) (- snd (point_sub (an_center z) (an_center x)), fst (point_sub (an_center z) (an_center x))))
      < point_dot (point_sub (an_center x) (an_center y)) (point_sub (an_center x) (an_center y)) then [x, y, z] else [x, z, y])" for x y z
    unfolding turn_condition by (simp add: turn_def edge_length2_def edge_def)
  consider "get_longest_edge ?E = 2" "edge_length2 a b > max (edge_length2 b c) (edge_length2 c a)"
    | "get_longest_edge ?E = 1" "\<not> edge_length2 a b > max (edge_length2 b c) (edge_length2 c a)" "edge_length2 c a > edge_length2 b c"
    | "get_longest_edge ?E = 0" "\<not> edge_length2 a b > max (edge_length2 b c) (edge_length2 c a)" "\<not> edge_length2 c a > edge_length2 b c"
    using L by (auto split: if_splits)
  then show ?thesis
  proof cases
    case 1
    show ?thesis unfolding sort_top_to_bottom_def n Let_def 1(1) if_P [OF 1(2)] T by (simp add: fix_index_def rd_def del: max_less_iff_conj)
  next
    case 2
    show ?thesis unfolding sort_top_to_bottom_def n Let_def 2(1) if_not_P [OF 2(2)] if_P [OF 2(3)] T by (simp add: fix_index_def rd_def)
  next
    case 3
    show ?thesis unfolding sort_top_to_bottom_def n Let_def 3(1) if_not_P [OF 3(2)] if_not_P [OF 3(3)] T by (simp add: fix_index_def rd_def)
  qed
qed

section \<open>The properties of the scanner\<close>

text \<open>C37: the scan of a row finds exactly the marks in it: an anchor for every five whole runs, dark and light in turn and
  in the proportions asked for, that reach from one light pixel or end of the range to the next, and
  nothing else.\<close>

theorem scan_horizontal_exact:
  assumes "image_ok sc" "0 \<le> y" "y < sc_rows sc" "length limits = 6" "0 \<le> xstart" "0 \<le> xend" "xend \<le> sc_cols sc"
  shows "\<exists>found. scan_horizontal (ScanState_create limits) sc points y xstart xend = Some (found \<noteq> [], points @ found) \<and>
    set found = {Anchor_create (xstart + int lo) (xstart + int hi - 1) y y | lo hi. is_pattern limits (pixels sc (row y xstart xend)) lo hi}"
  by (rule scan_horizontal_found [OF assms(1-3) tracks_start [OF assms(4)]]) (use assms in simp_all)

theorem scan_horizontal_exact_witness:
  "\<exists>found. scan_horizontal (ScanState_create [(0, 0), (1, 3), (1 / 2, 3 / 2), (0, 0), (1 / 2, 3 / 2), (1, 3)])
      \<lparr>sc_img = [0, 200, 0, 200, 200, 0, 200, 0], sc_rows = 1, sc_cols = 8, sc_dark = True, sc_skip = 1, sc_mergeCutoff = 1, sc_anchorSize = 30\<rparr>
      [] 0 0 8 = Some (found \<noteq> [], [] @ found)"
  using scan_horizontal_exact [of "\<lparr>sc_img = [0, 200, 0, 200, 200, 0, 200, 0], sc_rows = 1, sc_cols = 8, sc_dark = True, sc_skip = 1,
    sc_mergeCutoff = 1, sc_anchorSize = 30\<rparr>" 0 "[(0, 0), (1, 3), (1 / 2, 3 / 2), (0, 0), (1 / 2, 3 / 2), (1, 3)]" 0 8 "[]"]
  by (auto simp: image_ok_def)

lemma tracks_114: "tracks [(0, 0), (3, 6), (3, 6), (0, 0), (3, 6), (3, 6)] [] ScanState_114"
  unfolding ScanState_114_def by (rule tracks_start) simp

lemma tracks_122: "tracks [(0, 0), (1, 3), (1 / 2, 3 / 2), (0, 0), (1 / 2, 3 / 2), (1, 3)] [] ScanState_122"
  unfolding ScanState_122_def by (rule tracks_start) simp

lemma filter_candidates_sub:
  assumes "sorts_by_size order" "filter_candidates order cs = (cutoff, ds)"
  shows "set ds \<subseteq> set cs \<and> length ds \<le> 3"
proof (cases "length cs < 3")
  case True
  then show ?thesis using assms(2) by (auto simp: filter_candidates_def)
next
  case False
  have "set (order cs) = set cs" using assms(1) mset_eq_setD unfolding sorts_by_size_def by blast
  then show ?thesis using assms(2) False by (auto simp: filter_candidates_def Let_def dest: in_set_takeD)
qed

lemma sort_keeps: "length cs \<le> 3 \<Longrightarrow> \<exists>b ds. sort_top_to_bottom cs = Some (b, ds) \<and> set ds \<subseteq> set cs \<and> length ds = length cs"
proof (cases "length cs < 3")
  case True
  then show ?thesis by (auto simp: sort_top_to_bottom_def)
next
  case False
  assume "length cs \<le> 3"
  then have "length cs = 3" using False by simp
  then obtain a b c where "cs = [a, b, c]" by (auto simp: length_Suc_conv numeral_3_eq_3)
  then show ?thesis using sort_turns [of a b c] by (auto simp: turn_def)
qed

lemma corner_ok:
  assumes t: "\<And>skip y yend xstart xend. \<exists>fs. t1_scan_rows ScanState_122 sc (on_t1_scan ScanState_122 sc False) skip y yend xstart xend [] = Some fs \<and>
      (\<forall>c\<in>set fs. mark_candidate sc c)"
    and es: "length es = 3" "\<forall>c\<in>set es. mark_candidate sc c"
  shows "\<exists>r. add_bottom_right_corner scale sc es cutoff = Some r \<and> length (snd r) \<le> 4 \<and> (\<forall>c\<in>set (snd r). mark_candidate sc c)"
proof -
  obtain a0 a1 a2 where rd3: "rd es 0 = Some a0" "rd es 1 = Some a1" "rd es 2 = Some a2" using es(1) by (simp add: rd_def)
  have "\<exists>skip y yend xstart xend. add_bottom_right_corner scale sc es cutoff = do {
     candidates \<leftarrow> t1_scan_rows ScanState_122 sc (on_t1_scan ScanState_122 sc False) skip y yend xstart xend [];
     (case filter (\<lambda>c. an_size c > cutoff) candidates of [] \<Rightarrow> Some (False, es) | c # _ \<Rightarrow> Some (True, es @ [c]))
   }"
    unfolding add_bottom_right_corner_def rd3 Let_def Option.bind.bind_lunit by (intro exI) (rule refl)
  then obtain skip y yend xstart xend where g: "add_bottom_right_corner scale sc es cutoff = do {
     candidates \<leftarrow> t1_scan_rows ScanState_122 sc (on_t1_scan ScanState_122 sc False) skip y yend xstart xend [];
     (case filter (\<lambda>c. an_size c > cutoff) candidates of [] \<Rightarrow> Some (False, es) | c # _ \<Rightarrow> Some (True, es @ [c]))
   }" by blast
  obtain fs where fs: "t1_scan_rows ScanState_122 sc (on_t1_scan ScanState_122 sc False) skip y yend xstart xend [] = Some fs" "\<forall>c\<in>set fs. mark_candidate sc c"
    using t by blast
  show ?thesis
  proof (cases "filter (\<lambda>c. an_size c > cutoff) fs")
    case Nil
    then show ?thesis using es by (simp add: g fs(1))
  next
    case (Cons c cs)
    then have "c \<in> set (filter (\<lambda>c. an_size c > cutoff) fs)" by simp
    then have "c \<in> set fs" by simp
    then show ?thesis using es fs Cons by (simp add: g fs(1))
  qed
qed

lemma scan_ok:
  assumes img: "image_ok sc" "0 < sc_skip sc" and order: "sorts_by_size order"
  shows "\<exists>anchors. scan order scale sc = Some anchors \<and> length anchors \<le> 4 \<and> (\<forall>a\<in>set anchors. mark_candidate sc a)"
proof -
  obtain cs where cs: "t1_scan_rows ScanState_114 sc (on_t1_scan ScanState_114 sc True) (- 1) (- 1) (- 1) (- 1) (- 1) [] = Some cs"
    "\<forall>c\<in>set cs. mark_candidate sc c"
    using t1_scan_rows_ok [OF img(1) tracks_114 img(2) on_t1_keeps [OF img(1) tracks_114, of True], of "[]" "- 1" "- 1" "- 1" "- 1" "- 1"] by auto
  obtain cutoff ds where ds: "filter_candidates order cs = (cutoff, ds)" by (cases "filter_candidates order cs")
  note d = filter_candidates_sub [OF order ds]
  obtain b es where es: "sort_top_to_bottom ds = Some (b, es)" "set es \<subseteq> set ds" "length es = length ds" using sort_keeps d by blast
  have prim: "scan_primary order sc [] = Some (cutoff, es)" by (simp add: scan_primary_def cs(1) ds es(1))
  have ec: "\<forall>c\<in>set es. mark_candidate sc c" using cs(2) d es(2) by blast
  show ?thesis
  proof (cases "length es = 3 \<and> cutoff \<noteq> 0")
    case False
    then have "scan order scale sc = Some es" by (auto simp: scan_def prim)
    then show ?thesis using ec d es(3) by auto
  next
    case True
    then have e: "length es = 3" by simp
    have t: "\<exists>fs. t1_scan_rows ScanState_122 sc (on_t1_scan ScanState_122 sc False) skip y yend xstart xend [] = Some fs \<and> (\<forall>c\<in>set fs. mark_candidate sc c)"
      for skip y yend xstart xend
      using t1_scan_rows_ok [OF img(1) tracks_122 img(2) on_t1_keeps [OF img(1) tracks_122, of False], of "[]" skip y yend xstart xend] by auto
    have "\<exists>r. add_bottom_right_corner scale sc es cutoff = Some r \<and> length (snd r) \<le> 4 \<and> (\<forall>c\<in>set (snd r). mark_candidate sc c)"
      by (rule corner_ok [OF t]) (use ec e in auto)
    then obtain r where "add_bottom_right_corner scale sc es cutoff = Some r" "length (snd r) \<le> 4" "\<forall>c\<in>set (snd r). mark_candidate sc c" by blast
    then show ?thesis using True by (simp add: scan_def prim)
  qed
qed

text \<open>C38: scanning an image of at least 60 pixels a side ends, touches no pixel outside of it and gives at most four
  anchors, each of them within the image and at least five pixels wide and high.\<close>

theorem scan_stays_in_image:
  assumes "int (length img) = rows * cols" "60 \<le> rows" "60 \<le> cols" "sorts_by_size order"
  shows "\<exists>anchors. scan order scale (Scanner_create img rows cols dark 0) = Some anchors \<and> length anchors \<le> 4 \<and>
    (\<forall>a\<in>set anchors. 0 \<le> an_x a \<and> an_x a + 4 \<le> an_xmax a \<and> an_xmax a < cols \<and> 0 \<le> an_y a \<and> an_y a + 4 \<le> an_ymax a \<and> an_ymax a < rows)"
proof -
  let ?sc = "Scanner_create img rows cols dark 0"
  have "1 \<le> min rows cols div 60" using assms(2,3) by (simp add: pos_imp_zdiv_pos_iff zdiv_mono1 [of 60 "min rows cols" 60, simplified])
  then have "0 < sc_skip ?sc" using assms(2,3) by (simp add: Scanner_create_def sdiv_nonneg)
  moreover have "image_ok ?sc" using assms(1-3) by (simp add: image_ok_def Scanner_create_def)
  ultimately show ?thesis
    using scan_ok [of ?sc order scale] assms(4)
    by (auto simp: mark_candidate_def in_image_def wide_def tall_def Scanner_create_def)
qed

theorem scan_stays_in_image_witness:
  "\<exists>anchors. scan (\<lambda>cs. rev (sort_key an_size cs)) (\<lambda>v p q. v * p div q) (Scanner_create (replicate 3600 0) 60 60 True 0) = Some anchors \<and> length anchors \<le> 4"
proof -
  have "sorted_wrt (\<lambda>a b. an_size a \<ge> an_size b) (rev (sort_key an_size cs))" for cs
    using sorted_sort_key [of an_size cs] by (simp only: sorted_wrt_rev sorted_map)
  then have "sorts_by_size (\<lambda>cs. rev (sort_key an_size cs))" unfolding sorts_by_size_def by simp
  from scan_stays_in_image [OF _ _ _ this, of "replicate 3600 0" 60 60 "\<lambda>v p q. v * p div q" True] show ?thesis by auto
qed



text \<open>What the skip and the comparison of the corners come to at their ends: an image of less than 60 pixels a side is
  scanned for ever, and a frame whose side is more than twice as long as its upper edge can come out mirrored.\<close>

lemma t1_rows_stuck:
  assumes "t1_rows st sc skip y yend xstart xend points = Some pts"
  shows "skip = 0 \<longrightarrow> yend \<le> y"
  by (rule t1_rows.raw_induct [where P = "\<lambda>st sc skip y yend xstart xend points pts. skip = 0 \<longrightarrow> yend \<le> y", OF _ assms])
    (fastforce simp: bind_eq_Some_conv split: if_splits)

theorem small_image_never_scanned:
  assumes "0 < rows" "0 < cols" "min rows cols < 60"
  shows "scan order scale (Scanner_create img rows cols dark 0) = None"
proof -
  let ?sc = "Scanner_create img rows cols dark 0"
  have skip: "sc_skip ?sc = 0" using assms by (simp add: Scanner_create_def sdiv_nonneg)
  have "t1_rows ScanState_114 ?sc 0 0 rows (- 1) (- 1) [] = None"
    using t1_rows_stuck [of ScanState_114 ?sc 0 0 rows "- 1" "- 1" "[]"] assms(1) by (cases "t1_rows ScanState_114 ?sc 0 0 rows (- 1) (- 1) []") auto
  moreover have "sc_rows ?sc = rows" by (simp add: Scanner_create_def)
  ultimately show ?thesis by (simp add: scan_def scan_primary_def t1_scan_rows_def skip)
qed

theorem tall_frame_mirrored:
  "sort_top_to_bottom [Anchor_create 0 0 0 0, Anchor_create 40 40 0 0, Anchor_create 0 0 90 90] =
     Some (True, [Anchor_create 0 0 0 0, Anchor_create 0 0 90 90, Anchor_create 40 40 0 0])"
  "sort_top_to_bottom [Anchor_create 0 0 0 0, Anchor_create 60 60 0 0, Anchor_create 0 0 90 90] =
     Some (True, [Anchor_create 0 0 0 0, Anchor_create 60 60 0 0, Anchor_create 0 0 90 90])"
  by (simp_all add: sort_turns turn_def edge_length2_def edge_def cross_def point_sub_def point_dot_def an_center_def an_xavg_def an_yavg_def
      Anchor_create_def signed_divide_int_def)

end
