(* ===== verification/Floats.thy ===== *)
theory Floats
  imports Complex_Main
begin

text \<open>
  Floating point numbers as the rationals they stand for: \<open>fl p x\<close> is \<open>x\<close> rounded to \<open>p\<close> binary digits, to the
  nearest and to an even last digit half way, as IEEE 754 has it in the range where a number is neither
  too small nor too large (a \<open>float\<close> has 24 digits, a \<open>double\<close> 53). The lemmas give the error and the numbers that are
  represented exactly.
\<close>

definition round_even :: "rat \<Rightarrow> int" where
  "round_even q = (let n = \<lfloor>q\<rfloor>; r = q - of_int n in
     if r < 1 / 2 then n else if r > 1 / 2 then n + 1 else if even n then n else n + 1)"

function expo :: "rat \<Rightarrow> int" where
  "expo x = (if x \<ge> 2 then expo (x / 2) + 1 else if 0 < x \<and> x < 1 then expo (2 * x) - 1 else 0)"
  by auto

lemma floor_half_less: "1 \<le> y \<Longrightarrow> \<lfloor>y / 2\<rfloor> < \<lfloor>y\<rfloor>" for y :: rat
proof -
  assume y: "1 \<le> y"
  have "of_int \<lfloor>y / 2\<rfloor> \<le> y / 2" "1 \<le> \<lfloor>y\<rfloor>" "y < of_int \<lfloor>y\<rfloor> + 1" using y by linarith+
  then have "(of_int (2 * \<lfloor>y / 2\<rfloor>) :: rat) < of_int (\<lfloor>y\<rfloor> + 1)" by simp
  then have "2 * \<lfloor>y / 2\<rfloor> < \<lfloor>y\<rfloor> + 1" by (simp only: of_int_less_iff)
  then show ?thesis using \<open>1 \<le> \<lfloor>y\<rfloor>\<close> by linarith
qed

termination expo
proof (relation "measure (\<lambda>x. if x \<ge> 2 then nat \<lfloor>x\<rfloor> else if 0 < x \<and> x < 1 then nat \<lfloor>1 / x\<rfloor> else 0)")
  fix x :: rat assume x: "2 \<le> x"
  then have "\<lfloor>x / 2\<rfloor> < \<lfloor>x\<rfloor>" "2 \<le> \<lfloor>x\<rfloor>" using floor_half_less [of x] by linarith+
  then show "(x / 2, x) \<in> measure (\<lambda>x. if x \<ge> 2 then nat \<lfloor>x\<rfloor> else if 0 < x \<and> x < 1 then nat \<lfloor>1 / x\<rfloor> else 0)" using x by auto
next
  fix x :: rat assume x: "\<not> 2 \<le> x" "0 < x \<and> x < 1"
  then have "1 \<le> 1 / x" by simp
  then have "\<lfloor>1 / x / 2\<rfloor> < \<lfloor>1 / x\<rfloor>" "1 \<le> \<lfloor>1 / x\<rfloor>" using floor_half_less [of "1 / x"] by linarith+
  then show "(2 * x, x) \<in> measure (\<lambda>x. if x \<ge> 2 then nat \<lfloor>x\<rfloor> else if 0 < x \<and> x < 1 then nat \<lfloor>1 / x\<rfloor> else 0)" using x by (auto simp: mult.commute)
qed auto

declare expo.simps [simp del]

definition fl :: "nat \<Rightarrow> rat \<Rightarrow> rat" where
  "fl p x = (let u = 2 powi (expo \<bar>x\<bar> - int p + 1) in of_int (round_even (x / u)) * u)"

lemma round_even_error: "\<bar>of_int (round_even q) - q\<bar> \<le> 1 / 2"
proof -
  have "of_int \<lfloor>q\<rfloor> \<le> q" "q < of_int \<lfloor>q\<rfloor> + 1" by linarith+
  then show ?thesis unfolding round_even_def Let_def by auto
qed

lemma round_even_int: "round_even (of_int n) = n"
  by (simp add: round_even_def)

lemma expo_bounds: "0 < x \<Longrightarrow> 2 powi expo x \<le> x \<and> x < 2 * 2 powi expo x"
proof (induction x rule: expo.induct)
  case (1 x)
  note E = expo.simps [of x]
  consider "2 \<le> x" | "x < 1" | "1 \<le> x" "x < 2" by linarith
  then show ?case
  proof cases
    case 1
    then show ?thesis using "1.IH"(1) E by (simp add: power_int_add)
  next
    case 2
    then show ?thesis using "1.IH"(2) "1.prems" E by (simp add: power_int_diff)
  next
    case 3
    then show ?thesis using E by simp
  qed
qed

lemma fl_error:
  assumes "0 < x"
  shows "\<bar>fl p x - x\<bar> \<le> x / 2 ^ p"
proof -
  define u :: rat where "u = 2 powi (expo x - int p + 1)"
  have u: "0 < u" by (simp add: u_def)
  have "fl p x - x = (of_int (round_even (x / u)) - x / u) * u"
    using assms u by (simp add: fl_def Let_def flip: u_def) (simp add: left_diff_distrib)
  then have "\<bar>fl p x - x\<bar> = \<bar>of_int (round_even (x / u)) - x / u\<bar> * u" using u by (simp add: abs_mult)
  also have "\<dots> \<le> 1 / 2 * u" by (rule mult_right_mono [OF round_even_error]) (use u in simp)
  also have "\<dots> = 2 powi expo x / 2 ^ p" by (simp add: u_def power_int_add power_int_diff)
  also have "\<dots> \<le> x / 2 ^ p" using expo_bounds [OF assms] by (simp add: divide_right_mono)
  finally show ?thesis .
qed

lemma fl_int:
  assumes "\<bar>n\<bar> < 2 ^ p"
  shows "fl p (of_int n) = of_int n"
proof (cases "n = 0")
  case True
  then show ?thesis using round_even_int [of 0] by (simp add: fl_def)
next
  case False
  define e where "e = expo \<bar>of_int n\<bar>"
  have "2 powi e \<le> (of_int \<bar>n\<bar> :: rat)" using expo_bounds [of "\<bar>of_int n\<bar>"] False by (simp add: e_def)
  also have "\<dots> < of_int (2 ^ p)" using assms by (simp only: of_int_less_iff)
  finally have "(2 :: rat) powi e < 2 powi int p" by (simp add: power_int_def)
  then have "e < int p" by (intro power_int_le_imp_less_exp [of "2 :: rat" e "int p"]) simp_all
  then obtain k where k: "int p - 1 - e = int k" using nonneg_int_cases [of "int p - 1 - e"] by auto
  have ek: "e - int p + 1 = - int k" using k by simp
  have u: "(2 :: rat) powi (e - int p + 1) = 1 / 2 ^ k" unfolding ek power_int_minus power_int_of_nat by (simp add: divide_inverse)
  have "fl p (of_int n) = of_int (round_even (of_int n / (1 / 2 ^ k))) * (1 / 2 ^ k)" unfolding fl_def Let_def e_def [symmetric] u ..
  also have "(of_int n :: rat) / (1 / 2 ^ k) = of_int (n * 2 ^ k)" by simp
  finally show ?thesis unfolding round_even_int by simp
qed

end
