(* ===== verification/CellColor.thy ===== *)
theory CellColor
  imports Floats CimbReader
begin

text \<open>
  The colours of the cells: the palettes of \<open>Common.cpp\<close> and the tiles painted with them, the mean colour of a part
  of the image (\<open>Cell.h\<close>) and the colour of the palette that \<open>CimbDecoder\<close> takes it for. The bitmap of a tile is
  a parameter: the pixels \<open>load_img\<close> decodes from the embedded picture. The image is an OpenCV matrix of bytes with its
  number of channels, the distance of its rows and whether they follow each other without a gap.
  The correction of colours is a parameter, absent or a function on the three channels. Floating
  point operations are rational operations that are rounded.
\<close>

section \<open>Palettes and tiles\<close>

type_synonym RGB = "u8 \<times> u8 \<times> u8"

definition getColor4 :: "nat \<Rightarrow> RGB option" where
  "getColor4 index = rd [(0, 0xFF, 0), (0, 0xFF, 0xFF), (0xFF, 0xFF, 0), (0xFF, 0, 0xFF)] index"

definition getColor4_enc :: "nat \<Rightarrow> RGB option" where
  "getColor4_enc index = rd [(0, 0xFF, 0), (0, 0xFF, 0xFF), (0xFF, 0xFF, 0), (0xFF, 0x55, 0xFF)] index"

definition getColor4_old :: "nat \<Rightarrow> RGB option" where
  "getColor4_old index = rd [(0, 0xFF, 0xFF), (0xFF, 0xFF, 0), (0xFF, 0, 0xFF), (0, 0xFF, 0)] index"

definition getColor8 :: "nat \<Rightarrow> RGB option" where
  "getColor8 index = rd [(0, 0xFF, 0xFF), (0xFF, 0xFF, 0), (0x7F, 0x7F, 0xFF), (0xFF, 0xFF, 0xFF), (0, 0xFF, 0), (0xFF, 0x9F, 0),
     (0xFF, 0, 0xFF), (0xFF, 65, 65)] index"

definition getColor8_old :: "nat \<Rightarrow> RGB option" where
  "getColor8_old index = rd [(0, 0xFF, 0xFF), (0x7F, 0x7F, 0xFF), (0xFF, 0, 0xFF), (0xFF, 65, 65), (0xFF, 0x9F, 0), (0xFF, 0xFF, 0),
     (0xFF, 0xFF, 0xFF), (0, 0xFF, 0)] index"

definition getBgColor4 :: "nat \<Rightarrow> RGB option" where
  "getBgColor4 index = rd [(0, 0x20, 0), (0, 0, 0xFF), (0x7F, 0, 0), (0, 0, 0)] index"

definition getColor :: "nat \<Rightarrow> nat \<Rightarrow> nat \<Rightarrow> RGB option" where
  "getColor index num_colors colorMode =
     (if colorMode mod 0x100 = 0 then if num_colors \<le> 4 then getColor4_old index else getColor8_old index
      else if num_colors > 4 then getColor8 index
      else if colorMode > 0x100 then getColor4_enc index
      else getColor4 index)"

definition getBgColor :: "nat \<Rightarrow> nat \<Rightarrow> nat \<Rightarrow> RGB option" where
  "getBgColor index num_colors colorMode =
     (if colorMode > 0x100 \<and> num_colors \<le> 4 then getBgColor4 index else Some (0, 0, 0))"

definition getTile :: "RGB list \<Rightarrow> bool \<Rightarrow> nat \<Rightarrow> nat \<Rightarrow> nat \<Rightarrow> RGB list option" where
  "getTile bitmap is_dark num_colors color colorMode = do {
     rgb \<leftarrow> getColor color num_colors colorMode;
     bg \<leftarrow> getBgColor color num_colors colorMode;
     Some (map (\<lambda>c. if c \<noteq> (0xFF, 0xFF, 0xFF) then rgb else if is_dark then bg else c) bitmap)
   }"

text \<open>The tile of a number, which is a symbol and a colour above it.\<close>

definition load_tile :: "(nat \<Rightarrow> nat \<Rightarrow> RGB list) \<Rightarrow> nat \<Rightarrow> nat \<Rightarrow> bool \<Rightarrow> nat \<Rightarrow> nat \<Rightarrow> nat \<Rightarrow> RGB list option" where
  "load_tile bitmaps numSymbols numColors is_dark colorMode symbolBits index =
     (if numSymbols = 0 then None
      else getTile (bitmaps symbolBits (index mod numSymbols)) is_dark numColors (index div numSymbols) colorMode)"

section \<open>The mean colour of a cell\<close>

record Mat =
  mt_data :: "u8 list"
  mt_cols :: int
  mt_rows :: int
  mt_channels :: int
  mt_step :: int
  mt_continuous :: bool

record Cell =
  ce_img :: Mat
  ce_xstart :: int
  ce_ystart :: int
  ce_cols :: int
  ce_rows :: int

definition Cell_create :: "Mat \<Rightarrow> int \<Rightarrow> int \<Rightarrow> int \<Rightarrow> int \<Rightarrow> Cell" where
  "Cell_create img xstart ystart cols rows = \<lparr>ce_img = img, ce_xstart = xstart, ce_ystart = ystart, ce_cols = cols, ce_rows = rows\<rparr>"

definition ce_crop :: "Cell \<Rightarrow> int \<Rightarrow> int \<Rightarrow> int \<Rightarrow> int \<Rightarrow> Cell" where
  "ce_crop cell x y cols rows = cell\<lparr>ce_xstart := ce_xstart cell + x, ce_ystart := ce_ystart cell + y, ce_cols := cols, ce_rows := rows\<rparr>"

text \<open>The sums of the channels and the number of pixels, all \<open>uint16_t\<close>, and the byte that comes next.\<close>

type_synonym rgb_sums = "u16 \<times> u16 \<times> u16 \<times> u16"

definition pixel :: "Mat \<Rightarrow> int \<Rightarrow> RGB option" where
  "pixel img p = (if p < 0 then None
     else do { r \<leftarrow> rd (mt_data img) (nat p); g \<leftarrow> rd (mt_data img) (nat p + 1); b \<leftarrow> rd (mt_data img) (nat p + 2); Some (r, g, b) })"

definition add_pixel :: "Mat \<Rightarrow> rgb_sums \<times> int \<Rightarrow> (rgb_sums \<times> int) option" where
  "add_pixel img = (\<lambda>((red, green, blue, count), p). do {
     (r, g, b) \<leftarrow> pixel img p;
     Some ((red + ucast r, green + ucast g, blue + ucast b, count + 1), p + mt_channels img)
   })"

definition mean_of :: "rgb_sums \<Rightarrow> RGB" where
  "mean_of = (\<lambda>(red, green, blue, count).
     if count = 0 then (0, 0, 0) else (ucast (red div count), ucast (green div count), ucast (blue div count)))"

definition mean_rgb_continuous :: "Cell \<Rightarrow> bool \<Rightarrow> RGB option" where
  "mean_rgb_continuous cell skip = (
     let img = ce_img cell;
         channels = mt_channels img;
         index = ce_ystart cell * mt_cols img + ce_xstart cell;
         increment = 1 + of_bool skip;
         toNextRow = channels * (mt_cols img - ce_cols cell) + (if skip then channels * mt_cols img else 0)
     in map_option (\<lambda>(acc, _). mean_of acc)
          (for_each [0..<nat ((ce_rows cell + increment - 1) div increment)]
             (\<lambda>_ st. map_option (\<lambda>(acc, p). (acc, p + toNextRow)) (for_each [0..<nat (ce_cols cell)] (\<lambda>_. add_pixel img) st))
             ((0, 0, 0, 0), index * channels)))"

definition mean_rgb :: "Cell \<Rightarrow> bool \<Rightarrow> RGB option" where
  "mean_rgb cell skip = (
     let img = ce_img cell; increment = 1 + of_bool skip in
     if mt_channels img < 3 then Some (0, 0, 0)
     else if mt_continuous img \<and> ce_cols cell > 0 then mean_rgb_continuous cell skip
     else map_option mean_of
       (for_each [0..<nat ((mt_cols img + increment - 1) div increment)]
          (\<lambda>k acc. map_option fst (for_each [0..<nat (mt_rows img)] (\<lambda>_. add_pixel img) (acc, int k * increment * mt_step img)))
          (0, 0, 0, 0)))"

section \<open>The colour of the palette\<close>

definition squared_difference :: "int \<Rightarrow> int \<Rightarrow> nat" where
  "squared_difference a b = nat ((a - b) ^ 2)"

definition fix_single_color :: "rat \<Rightarrow> rat \<Rightarrow> rat \<Rightarrow> u8 option" where
  "fix_single_color c adjustUp down = (
     let c = fl 24 (c - down);
         c = fl 24 (c * adjustUp);
         c = (if c > fl 24 (245 - down) then 255 else c);
         c = (if c < 0 then 0 else c)
     in if c \<ge> 256 then None else Some (word_of_int \<lfloor>c\<rfloor>))"

definition relative_color :: "RGB \<Rightarrow> int \<times> int \<times> int" where
  "relative_color = (\<lambda>(r, g, b). (uint r - uint g, uint g - uint b, uint b - uint r))"

definition color_diff :: "RGB \<Rightarrow> RGB \<Rightarrow> nat" where
  "color_diff x y = (case relative_color x of (x1, x2, x3) \<Rightarrow> case relative_color y of (y1, y2, y3) \<Rightarrow>
     squared_difference x1 y1 + squared_difference x2 y2 + squared_difference x3 y3)"

type_synonym ccm = "(rat \<times> rat \<times> rat \<Rightarrow> rat \<times> rat \<times> rat) option"

definition fix_color :: "rat \<times> rat \<times> rat \<Rightarrow> rat \<Rightarrow> rat \<Rightarrow> RGB option" where
  "fix_color c adjustUp down = (case c of (r, g, b) \<Rightarrow> do {
     r \<leftarrow> fix_single_color r adjustUp down;
     g \<leftarrow> fix_single_color g adjustUp down;
     b \<leftarrow> fix_single_color b adjustUp down;
     Some (r, g, b)
   })"

fun nearest_color :: "RGB \<Rightarrow> RGB list \<Rightarrow> nat \<Rightarrow> nat \<times> nat \<Rightarrow> nat \<times> nat" where
  "nearest_color c [] i best = best"
| "nearest_color c (candidate # cs) i (best_fit, best_distance) =
     nearest_color c cs (i + 1) (if color_diff c candidate < best_distance then (i, color_diff c candidate) else (best_fit, best_distance))"

definition get_best_color :: "ccm \<Rightarrow> nat \<Rightarrow> rat \<times> rat \<times> rat \<Rightarrow> nat \<Rightarrow> nat option" where
  "get_best_color ccm numColors rgb colorMode = do {
     let (r, g, b) = (case ccm of None \<Rightarrow> rgb | Some transform \<Rightarrow> transform rgb);
     let mx = max r (max g (max b 1));
     let mn = min r (min g (min b 48));
     let mn = (if mn \<ge> mx then 0 else mn);
     let adjust = fl 24 (fl 53 (255 / fl 24 (mx - mn)));
     c \<leftarrow> fix_color (r, g, b) adjust mn;
     candidates \<leftarrow> those (map (\<lambda>i. getColor i numColors colorMode) [0..<numColors]);
     Some (fst (nearest_color c candidates 0 (0, 1000000)))
   }"

definition avg_color :: "Cell \<Rightarrow> RGB option" where
  "avg_color color_cell = mean_rgb (ce_crop color_cell 1 1 (ce_cols color_cell - 2) (ce_rows color_cell - 2)) False"

definition decode_color :: "ccm \<Rightarrow> nat \<Rightarrow> Cell \<Rightarrow> nat \<Rightarrow> nat option" where
  "decode_color ccm numColors color_cell colorMode =
     (if numColors \<le> 1 then Some 0
      else do {
        (r, g, b) \<leftarrow> avg_color color_cell;
        get_best_color ccm numColors (of_int (uint r), of_int (uint g), of_int (uint b)) colorMode
      })"

definition read_color :: "ccm \<Rightarrow> nat \<Rightarrow> nat \<Rightarrow> Mat \<Rightarrow> PositionData \<Rightarrow> nat option" where
  "read_color ccm numColors colorMode img pos =
     decode_color ccm numColors (Cell_create img (pd_x pos) (pd_y pos) (int config_cell_size) (int config_cell_size)) colorMode"

section \<open>A dimmed colour of full and empty channels\<close>

lemma fl_nat: "n < 2 ^ 24 \<Longrightarrow> fl 24 (of_nat n) = of_nat n"
  using fl_int [of "int n" 24] by simp

lemma fl_lower:
  assumes "0 < x" "7 \<le> p"
  shows "x * (99 / 100) \<le> fl p x"
proof -
  have "(2 :: rat) ^ 7 \<le> 2 ^ p" using assms(2) by (intro power_increasing) simp_all
  then have "x / 2 ^ p \<le> x / 2 ^ 7" using assms(1) by (intro divide_left_mono) simp_all
  then have "x / 2 ^ p \<le> x / 100" using assms(1) by simp
  moreover have "x - fl p x \<le> x / 2 ^ p" using fl_error [OF assms(1), of p] by (simp only: abs_le_iff) linarith
  moreover have "x * (99 / 100) = x - x / 100" by simp
  ultimately show ?thesis by linarith
qed

text \<open>A channel that is as bright as the brightest is stretched to the full, one that is dark stays dark.\<close>

lemma stretched:
  assumes "1 \<le> m"
  shows "245 < fl 24 (of_nat m * fl 24 (fl 53 (255 / of_nat m)))"
proof -
  define q :: rat where "q = 255 / of_nat m"
  have m: "0 < (of_nat m :: rat)" using assms by simp
  have q: "0 < q" "of_nat m * q = 255" using m by (simp_all add: q_def)
  have a: "q * (99 / 100) \<le> fl 53 q" using fl_lower [OF q(1)] by simp
  then have "0 < fl 53 q" using q(1) by linarith
  then have b: "fl 53 q * (99 / 100) \<le> fl 24 (fl 53 q)" using fl_lower by simp
  then have c: "q * (99 / 100) * (99 / 100) \<le> fl 24 (fl 53 q)" using a by linarith
  then have "of_nat m * (q * (99 / 100) * (99 / 100)) \<le> of_nat m * fl 24 (fl 53 q)" using m by (intro mult_left_mono) simp_all
  moreover have "of_nat m * (q * (99 / 100) * (99 / 100)) = 255 * (99 / 100) * (99 / 100)" unfolding q(2) [symmetric] by simp
  ultimately have d: "255 * (99 / 100) * (99 / 100) \<le> of_nat m * fl 24 (fl 53 q)" by linarith
  then have "0 < of_nat m * fl 24 (fl 53 q)" by simp
  then have "of_nat m * fl 24 (fl 53 q) * (99 / 100) \<le> fl 24 (of_nat m * fl 24 (fl 53 q))" using fl_lower by simp
  then show ?thesis using d by (simp flip: q_def)
qed

text \<open>A channel of a color that has an empty channel: empty or as bright as the brightest.\<close>

definition dimmed :: "nat \<Rightarrow> bool \<Rightarrow> rat" where
  "dimmed m full = (if full then of_nat m else 0)"

definition channel :: "bool \<Rightarrow> u8" where
  "channel full = (if full then 0xFF else 0)"

lemma fix_dimmed:
  assumes "1 \<le> m" "m \<le> 255"
  shows "fix_single_color (dimmed m full) (fl 24 (fl 53 (255 / of_nat m))) 0 = Some (channel full)"
proof -
  have z: "fl 24 0 = 0" "fl 24 245 = 245" using fl_int [of 0 24] fl_int [of 245 24] by simp_all
  have "fl 24 (of_nat m) = of_nat m" using assms by (intro fl_nat) simp
  then show ?thesis using stretched [OF assms(1)] z by (cases full) (simp_all add: fix_single_color_def dimmed_def channel_def)
qed

lemma best_dimmed:
  assumes m: "1 \<le> m" "m \<le> 255" and some: "r \<or> g \<or> b" "\<not> (r \<and> g \<and> b)"
    and pal: "those (map (\<lambda>i. getColor i n colorMode) [0..<n]) = Some candidates"
  shows "get_best_color None n (dimmed m r, dimmed m g, dimmed m b) colorMode =
    Some (fst (nearest_color (channel r, channel g, channel b) candidates 0 (0, 1000000)))"
proof -
  have mx: "max (dimmed m r) (max (dimmed m g) (max (dimmed m b) 1)) = of_nat m" using m some by (auto simp: dimmed_def)
  have mn: "min (dimmed m r) (min (dimmed m g) (min (dimmed m b) 48)) = 0" using some by (auto simp: dimmed_def)
  have z: "\<not> (0 :: rat) \<ge> of_nat m" using m by simp
  have f: "fl 24 (of_nat m - 0) = of_nat m" using m fl_nat [of m] by simp
  show ?thesis
    unfolding get_best_color_def option.case prod.case Let_def mx mn if_not_P [OF z] f fix_color_def fix_dimmed [OF m] pal Option.bind.bind_lunit
    by simp
qed

section \<open>The mean of a part of the image\<close>

lemma add_pixel_in:
  assumes "mt_channels img = int ch" "3 \<le> ch" "q + ch \<le> length (mt_data img)"
  shows "add_pixel img ((r, g, b, n), int q) =
    Some ((r + ucast (mt_data img ! q), g + ucast (mt_data img ! (q + 1)), b + ucast (mt_data img ! (q + 2)), n + 1), int (q + ch))"
  using assms by (simp add: add_pixel_def pixel_def)

lemma mean_row:
  assumes "mt_channels img = int ch" "3 \<le> ch" "q + n * ch \<le> length (mt_data img)"
  shows "for_each [0..<n] (\<lambda>_. add_pixel img) ((r, g, b, k), int q) =
    Some ((r + (\<Sum>j<n. ucast (mt_data img ! (q + j * ch))), g + (\<Sum>j<n. ucast (mt_data img ! (q + j * ch + 1))),
      b + (\<Sum>j<n. ucast (mt_data img ! (q + j * ch + 2))), k + of_nat n), int (q + n * ch))"
  using assms(3)
proof (induction n)
  case (Suc n)
  then show ?case using assms(1,2) add_pixel_in [OF assms(1,2), of "q + n * ch"] by (simp add: for_each_append add.assoc)
qed simp

definition region_sum :: "Mat \<Rightarrow> nat \<Rightarrow> nat \<Rightarrow> nat \<Rightarrow> nat \<Rightarrow> nat \<Rightarrow> nat \<Rightarrow> nat" where
  "region_sum img q wide_step ch m n c = (\<Sum>i<m. \<Sum>j<n. unat (mt_data img ! (q + i * wide_step + j * ch + c)))"

lemma mean_rows:
  assumes "mt_channels img = int ch" "3 \<le> ch" "n * ch \<le> wide_step" "\<forall>i<m. q + i * wide_step + n * ch \<le> length (mt_data img)"
  shows "for_each [0..<m] (\<lambda>_ st. map_option (\<lambda>(acc, p). (acc, p + int (wide_step - n * ch))) (for_each [0..<n] (\<lambda>_. add_pixel img) st)) ((0, 0, 0, 0), int q) =
    Some ((of_nat (region_sum img q wide_step ch m n 0), of_nat (region_sum img q wide_step ch m n 1), of_nat (region_sum img q wide_step ch m n 2),
      of_nat (m * n)), int (q + m * wide_step))"
  using assms(4)
proof (induction m)
  case 0
  then show ?case by (simp add: region_sum_def)
next
  case (Suc m)
  have R: "(of_nat (region_sum img q wide_step ch m n c) :: u16) + (\<Sum>j<n. ucast (mt_data img ! (q + m * wide_step + j * ch + c))) =
      of_nat (region_sum img q wide_step ch (Suc m) n c)" for c
    by (simp add: region_sum_def)
  have "q + m * wide_step + n * ch \<le> length (mt_data img)" using Suc.prems by simp
  note st = mean_row [OF assms(1,2) this]
  have p: "int (q + m * wide_step + n * ch) + int (wide_step - n * ch) = int (q + Suc m * wide_step)" using assms(3) by simp
  have IH: "\<forall>i<m. q + i * wide_step + n * ch \<le> length (mt_data img)" using Suc.prems by simp
  have "[0..<Suc m] = [0..<m] @ [m]" by simp
  then show ?case
    by (simp only: for_each_append Suc.IH [OF IH] option.case for_each.simps st option.map prod.case p R [of 0, unfolded add_0_right] R)
      (simp add: add.commute)
qed

lemma region_sum_le: "region_sum img q w ch m n c \<le> m * n * 255"
proof -
  have "unat (b :: u8) \<le> 255" for b using unsigned_less [of b, where ?'a = nat] by simp
  then have "(\<Sum>j<n. unat (mt_data img ! (q + i * w + j * ch + c))) \<le> n * 255" for i
    using sum_bounded_above [of "{..<n}" "\<lambda>j. unat (mt_data img ! (q + i * w + j * ch + c))" 255] by simp
  then show ?thesis
    unfolding region_sum_def using sum_bounded_above [of "{..<m}" "\<lambda>i. \<Sum>j<n. unat (mt_data img ! (q + i * w + j * ch + c))" "n * 255"] by simp
qed

lemma mean_channel:
  assumes "0 < k" "k \<le> 257" "S \<le> k * 255"
  shows "(ucast ((of_nat S :: u16) div of_nat k) :: u8) = of_nat (S div k)"
proof -
  have "S < 65536" "k < 65536" using assms by simp_all
  then have "unat ((of_nat S :: u16) div of_nat k) = S div k" by (simp only: unat_div unat_of_nat_u16)
  then show ?thesis by (metis of_nat_unat)
qed

text \<open>The part of a continuous image, with sums that fit 16 bits: the floors of the means.\<close>

lemma mean_rgb_region:
  assumes img: "mt_channels img = int ch" "3 \<le> ch" "mt_continuous img" "mt_cols img = int W" "(y + m) * (W * ch) \<le> length (mt_data img)"
    and mn: "0 < m" "0 < n" "m * n \<le> 257" "x + n \<le> W"
  shows "mean_rgb (Cell_create img (int x) (int y) (int n) (int m)) False =
    Some (of_nat (region_sum img ((y * W + x) * ch) (W * ch) ch m n 0 div (m * n)), of_nat (region_sum img ((y * W + x) * ch) (W * ch) ch m n 1 div (m * n)),
      of_nat (region_sum img ((y * W + x) * ch) (W * ch) ch m n 2 div (m * n)))"
proof -
  let ?q = "(y * W + x) * ch" and ?s = "region_sum img ((y * W + x) * ch) (W * ch) ch m n"
  have nW: "n * ch \<le> W * ch" using mn(4) by simp
  have bnd: "\<forall>i<m. ?q + i * (W * ch) + n * ch \<le> length (mt_data img)"
  proof (intro allI impI)
    fix i assume "i < m"
    then have "(y + i + 1) * (W * ch) \<le> (y + m) * (W * ch)" by (intro mult_right_mono) simp_all
    moreover have "x * ch + n * ch \<le> W * ch" using mn(4) by (simp flip: add_mult_distrib)
    ultimately show "?q + i * (W * ch) + n * ch \<le> length (mt_data img)" using img(5) by (simp add: algebra_simps)
  qed
  have idx: "(int y * int W + int x) * int ch = int ?q" "int ch * (int W - int n) = int (W * ch - n * ch)"
    using nW by (simp_all add: algebra_simps of_nat_diff)
  have "unat (of_nat (m * n) :: u16) = m * n" using mn by (intro unat_of_nat_u16) simp
  then have k: "(of_nat (m * n) :: u16) \<noteq> 0" using mn(1,2) by (metis mult_eq_0_iff neq0_conv unsigned_0)
  have mo: "mean_of (of_nat (?s 0), of_nat (?s 1), of_nat (?s 2), of_nat (m * n)) = (of_nat (?s 0 div (m * n)), of_nat (?s 1 div (m * n)), of_nat (?s 2 div (m * n)))"
    using k mean_channel [of "m * n" "?s _"] mn region_sum_le [of img ?q "W * ch" ch m n] by (simp add: mean_of_def del: of_nat_mult)
  show ?thesis
    using img(2,3) mn(1,2) mean_rows [OF img(1,2) nW bnd] mo
    by (simp add: mean_rgb_def mean_rgb_continuous_def Cell_create_def img(1,4) Let_def idx del: of_nat_mult of_nat_add of_nat_diff)
qed

section \<open>A painted tile is read as its colour\<close>

definition white :: RGB where "white = (0xFF, 0xFF, 0xFF)"

definition image_rgb :: "Mat \<Rightarrow> bool" where
  "image_rgb img \<longleftrightarrow> mt_channels img = 3 \<and> mt_continuous img \<and> 0 \<le> mt_cols img \<and> 0 \<le> mt_rows img \<and>
     int (length (mt_data img)) = mt_rows img * (mt_cols img * 3)"

definition shows_tile :: "Mat \<Rightarrow> nat \<Rightarrow> nat \<Rightarrow> RGB list \<Rightarrow> bool" where
  "shows_tile img x y tile \<longleftrightarrow> (\<forall>i<8. \<forall>j<8. pixel img (((int y + int i) * mt_cols img + (int x + int j)) * 3) = Some (tile ! (i * 8 + j)))"

definition inked :: "RGB list \<Rightarrow> nat" where
  "inked bitmap = (\<Sum>i<6. \<Sum>j<6. of_bool (bitmap ! ((i + 1) * 8 + (j + 1)) \<noteq> white))"

lemma inked_le: "inked bitmap \<le> 36"
proof -
  have "(\<Sum>j<6. of_bool (bitmap ! ((i + 1) * 8 + (j + 1)) \<noteq> white)) \<le> (6 :: nat)" for i
    using sum_bounded_above [of "{..<6 :: nat}" "\<lambda>j. of_bool (bitmap ! ((i + 1) * 8 + (j + 1)) \<noteq> white)" "1 :: nat"] by simp
  then show ?thesis unfolding inked_def
    using sum_bounded_above [of "{..<6 :: nat}" "\<lambda>i. \<Sum>j<6. of_bool (bitmap ! ((i + 1) * 8 + (j + 1)) \<noteq> white)" "6 :: nat"] by simp
qed

lemma inked_pos:
  assumes "i < 6" "j < 6" "bitmap ! ((i + 1) * 8 + (j + 1)) \<noteq> white"
  shows "0 < inked bitmap"
proof -
  have row: "0 < (\<Sum>j<6. of_bool (bitmap ! ((i + 1) * 8 + (j + 1)) \<noteq> white) :: nat)"
    by (rule sum_pos2 [of _ j]) (use assms in auto)
  show ?thesis unfolding inked_def
  proof (rule sum_pos2 [of "{..<6 :: nat}" i])
    show "0 < (\<Sum>j<6. of_bool (bitmap ! ((i + 1) * 8 + (j + 1)) \<noteq> white) :: nat)" by (rule row)
  qed (use assms in simp_all)
qed

definition paint :: "RGB list \<Rightarrow> bool \<times> bool \<times> bool \<Rightarrow> nat \<Rightarrow> RGB" where
  "paint bitmap = (\<lambda>(r, g, b) k. if bitmap ! k \<noteq> white then (channel r, channel g, channel b) else (0, 0, 0))"

lemma tile_pixel:
  assumes "0 \<le> p" "pixel img p = Some (r, g, b)"
  shows "mt_data img ! nat p = r \<and> mt_data img ! (nat p + 1) = g \<and> mt_data img ! (nat p + 2) = b"
  using assms by (auto simp: pixel_def bind_eq_Some_conv rd_eq_Some)

lemma painted_sum:
  assumes img: "image_rgb img" and sh: "shows_tile img x y tile" and pt: "\<forall>k<64. tile ! k = paint bitmap (r, g, b) k"
    and q: "q = (Suc y * nat (mt_cols img) + Suc x) * 3"
  shows "region_sum img q (nat (mt_cols img) * 3) 3 6 6 0 = 255 * of_bool r * inked bitmap"
    and "region_sum img q (nat (mt_cols img) * 3) 3 6 6 1 = 255 * of_bool g * inked bitmap"
    and "region_sum img q (nat (mt_cols img) * 3) 3 6 6 2 = 255 * of_bool b * inked bitmap"
proof -
  let ?w = "nat (mt_cols img)"
  have px: "mt_data img ! (q + i * (?w * 3) + j * 3) = fst (paint bitmap (r, g, b) ((i + 1) * 8 + (j + 1))) \<and>
      mt_data img ! (q + i * (?w * 3) + j * 3 + 1) = fst (snd (paint bitmap (r, g, b) ((i + 1) * 8 + (j + 1)))) \<and>
      mt_data img ! (q + i * (?w * 3) + j * 3 + 2) = snd (snd (paint bitmap (r, g, b) ((i + 1) * 8 + (j + 1))))" if ij: "i < 6" "j < 6" for i j
  proof -
    let ?p = "((int y + int (i + 1)) * mt_cols img + (int x + int (j + 1))) * 3"
    have w: "mt_cols img = int ?w" using img by (simp add: image_rgb_def)
    have p: "?p = int (q + i * (?w * 3) + j * 3)" by (subst (1) w) (simp add: q algebra_simps)
    have k: "(i + 1) * 8 + (j + 1) < 64" using ij by simp
    have "pixel img ?p = Some (tile ! ((i + 1) * 8 + (j + 1)))" using sh [unfolded shows_tile_def, rule_format, of "i + 1" "j + 1"] ij by simp
    then have "pixel img ?p = Some (paint bitmap (r, g, b) ((i + 1) * 8 + (j + 1)))" using pt k by simp
    then have "mt_data img ! nat ?p = fst (paint bitmap (r, g, b) ((i + 1) * 8 + (j + 1))) \<and>
        mt_data img ! (nat ?p + 1) = fst (snd (paint bitmap (r, g, b) ((i + 1) * 8 + (j + 1)))) \<and>
        mt_data img ! (nat ?p + 2) = snd (snd (paint bitmap (r, g, b) ((i + 1) * 8 + (j + 1))))"
      by (intro tile_pixel) (simp only: p of_nat_0_le_iff, simp add: prod_eq_iff)
    then show ?thesis unfolding p nat_int .
  qed
  have u: "unat (channel f) = 255 * of_bool f" for f by (simp add: channel_def)
  note P = px [THEN conjunct1] px [THEN conjunct2, THEN conjunct1] px [THEN conjunct2, THEN conjunct2]
  have s: "(\<Sum>i<6. \<Sum>j<6. unat (if bitmap ! ((i + 1) * 8 + (j + 1)) \<noteq> white then channel f else 0)) = 255 * of_bool f * inked bitmap" for f
    unfolding inked_def sum_distrib_left by (intro sum.cong refl) (simp add: u)
  show "region_sum img q (nat (mt_cols img) * 3) 3 6 6 0 = 255 * of_bool r * inked bitmap"
    unfolding region_sum_def s [symmetric] by (intro sum.cong refl) (simp add: P paint_def)
  show "region_sum img q (nat (mt_cols img) * 3) 3 6 6 1 = 255 * of_bool g * inked bitmap"
    unfolding region_sum_def s [symmetric] by (intro sum.cong refl) (simp add: P [simplified] paint_def)
  show "region_sum img q (nat (mt_cols img) * 3) 3 6 6 2 = 255 * of_bool b * inked bitmap"
    unfolding region_sum_def s [symmetric] by (intro sum.cong refl) (simp add: P [simplified] paint_def)
qed

lemma avg_painted:
  assumes img: "image_rgb img" "int x + 8 \<le> mt_cols img" "int y + 8 \<le> mt_rows img" and sh: "shows_tile img x y tile"
    and pt: "\<forall>k<64. tile ! k = paint bitmap (r, g, b) k"
  shows "avg_color (Cell_create img (int x) (int y) 8 8) =
    Some (of_nat (255 * of_bool r * inked bitmap div 36), of_nat (255 * of_bool g * inked bitmap div 36), of_nat (255 * of_bool b * inked bitmap div 36))"
proof -
  let ?w = "nat (mt_cols img)"
  have c: "mt_channels img = int 3" "3 \<le> (3 :: nat)" "mt_continuous img" "mt_cols img = int ?w" using img(1) by (simp_all add: image_rgb_def)
  have len: "int (length (mt_data img)) = mt_rows img * (mt_cols img * 3)" "0 \<le> mt_cols img" using img(1) by (simp_all add: image_rgb_def)
  have "int ((Suc y + 6) * (?w * 3)) = (int y + 7) * (mt_cols img * 3)" using len(2) by (simp add: algebra_simps)
  also have "\<dots> \<le> mt_rows img * (mt_cols img * 3)" by (rule mult_right_mono) (use img(3) len(2) in simp_all)
  finally have l: "(Suc y + 6) * (?w * 3) \<le> length (mt_data img)" using len(1) by linarith
  have x: "Suc x + 6 \<le> ?w" using img(2) by linarith
  have "mean_rgb (Cell_create img (int (Suc x)) (int (Suc y)) (int 6) (int 6)) False =
    Some (of_nat (255 * of_bool r * inked bitmap div (6 * 6)), of_nat (255 * of_bool g * inked bitmap div (6 * 6)), of_nat (255 * of_bool b * inked bitmap div (6 * 6)))"
    using mean_rgb_region [OF c l _ _ _ x] painted_sum [OF img(1) sh pt refl] by simp
  moreover have "ce_crop (Cell_create img (int x) (int y) 8 8) 1 1 (8 - 2) (8 - 2) = Cell_create img (int (Suc x)) (int (Suc y)) (int 6) (int 6)"
    by (simp add: ce_crop_def Cell_create_def)
  ultimately show ?thesis by (simp add: avg_color_def Cell_create_def)
qed

lemma channel_mean:
  assumes "k \<le> 36"
  shows "(of_int (uint (of_nat (255 * of_bool f * k div 36) :: u8)) :: rat) = dimmed (255 * k div 36) f"
proof -
  have "255 * of_bool f * k div 36 < 256" using assms by (cases f) simp_all
  then have "unat (of_nat (255 * of_bool f * k div 36) :: u8) = 255 * of_bool f * k div 36" by (rule unat_of_nat_u8)
  then have "uint (of_nat (255 * of_bool f * k div 36) :: u8) = int (255 * of_bool f * k div 36)" by (metis uint_nat)
  then show ?thesis by (simp add: dimmed_def)
qed

lemma decode_painted:
  assumes "image_rgb img" "int x + 8 \<le> mt_cols img" "int y + 8 \<le> mt_rows img" "shows_tile img x y tile"
    and "\<forall>k<64. tile ! k = paint bitmap (r, g, b) k" "0 < inked bitmap" "r \<or> g \<or> b" "\<not> (r \<and> g \<and> b)"
    and "those (map (\<lambda>i. getColor i 4 colorMode) [0..<4]) = Some candidates"
  shows "decode_color None 4 (Cell_create img (int x) (int y) 8 8) colorMode =
    Some (fst (nearest_color (channel r, channel g, channel b) candidates 0 (0, 1000000)))"
proof -
  let ?m = "255 * inked bitmap div 36"
  have m: "1 \<le> ?m" "?m \<le> 255" using assms(6) inked_le [of bitmap] by linarith+
  show ?thesis
    unfolding decode_color_def avg_painted [OF assms(1-5)] Option.bind.bind_lunit prod.case channel_mean [OF inked_le]
    using best_dimmed [OF m assms(7-9)] by simp
qed

definition palette_old :: "(bool \<times> bool \<times> bool) list" where
  "palette_old = [(False, True, True), (True, True, False), (True, False, True), (False, True, False)]"

definition palette_new :: "(bool \<times> bool \<times> bool) list" where
  "palette_new = [(False, True, False), (False, True, True), (True, True, False), (True, False, True)]"

definition full_rgb :: "bool \<times> bool \<times> bool \<Rightarrow> RGB" where
  "full_rgb = (\<lambda>(r, g, b). (channel r, channel g, channel b))"

lemma below_4: "i < 4 \<Longrightarrow> i = 0 \<or> i = 1 \<or> i = 2 \<or> i = (3 :: nat)"
  by linarith

lemma getColor_palette:
  assumes "i < 4"
  shows "getColor i 4 0 = Some (full_rgb (palette_old ! i))" "getColor i 4 1 = Some (full_rgb (palette_new ! i))"
  using below_4 [OF assms]
  by (elim disjE; simp add: getColor_def getColor4_def getColor4_old_def palette_old_def palette_new_def full_rgb_def channel_def)+

lemma uint_channel: "uint (channel f) = 255 * of_bool f"
  by (simp add: channel_def)

lemma diff_full: "color_diff (full_rgb (r, g, b)) (full_rgb (r', g', b')) =
    65025 * (nat ((of_bool r - of_bool g - (of_bool r' - of_bool g')) ^ 2) + nat ((of_bool g - of_bool b - (of_bool g' - of_bool b')) ^ 2) +
      nat ((of_bool b - of_bool r - (of_bool b' - of_bool r')) ^ 2))"
  by (cases r; cases g; cases b; cases r'; cases g'; cases b')
    (simp_all add: color_diff_def relative_color_def squared_difference_def full_rgb_def uint_channel)

lemma nearest_full:
  assumes "i < 4"
  shows "fst (nearest_color (full_rgb (palette_old ! i)) (map full_rgb palette_old) 0 (0, 1000000)) = i"
    "fst (nearest_color (full_rgb (palette_new ! i)) (map full_rgb palette_new) 0 (0, 1000000)) = i"
  using below_4 [OF assms] by (elim disjE; simp add: palette_old_def palette_new_def diff_full)+

lemma those_Some: "those (map (\<lambda>i. Some (f i)) xs) = Some (map f xs)"
  by (induction xs) simp_all

lemma those_getColor:
  "those (map (\<lambda>i. getColor i 4 0) [0..<4]) = Some (map full_rgb palette_old)"
  "those (map (\<lambda>i. getColor i 4 1) [0..<4]) = Some (map full_rgb palette_new)"
proof -
  have m: "map (\<lambda>i. xs ! i) [0..<4] = xs" if "length xs = 4" for xs :: "(bool \<times> bool \<times> bool) list" using map_nth [of xs] that by simp
  have "those (map (\<lambda>i. getColor i 4 0) [0..<4]) = those (map (\<lambda>i. Some (full_rgb (palette_old ! i))) [0..<4])"
    by (intro arg_cong [where f = those] map_cong refl) (simp only: getColor_palette set_upt atLeastLessThan_iff)
  also have "\<dots> = Some (map full_rgb (map (\<lambda>i. palette_old ! i) [0..<4]))" by (simp add: those_Some)
  finally show "those (map (\<lambda>i. getColor i 4 0) [0..<4]) = Some (map full_rgb palette_old)" by (simp add: m palette_old_def)
  have "those (map (\<lambda>i. getColor i 4 1) [0..<4]) = those (map (\<lambda>i. Some (full_rgb (palette_new ! i))) [0..<4])"
    by (intro arg_cong [where f = those] map_cong refl) (simp only: getColor_palette set_upt atLeastLessThan_iff)
  also have "\<dots> = Some (map full_rgb (map (\<lambda>i. palette_new ! i) [0..<4]))" by (simp add: those_Some)
  finally show "those (map (\<lambda>i. getColor i 4 1) [0..<4]) = Some (map full_rgb palette_new)" by (simp add: m palette_new_def)
qed

lemma palette_channels: "i < 4 \<Longrightarrow> (case palette_old ! i of (r, g, b) \<Rightarrow> (r \<or> g \<or> b) \<and> \<not> (r \<and> g \<and> b))"
  "i < 4 \<Longrightarrow> (case palette_new ! i of (r, g, b) \<Rightarrow> (r \<or> g \<or> b) \<and> \<not> (r \<and> g \<and> b))"
  using below_4 [of i] by (auto simp: palette_old_def palette_new_def)

lemma palette4:
  assumes "colorMode \<in> {0, 1}" "color < 4"
  shows "\<exists>r g b candidates. getColor color 4 colorMode = Some (channel r, channel g, channel b) \<and> (r \<or> g \<or> b) \<and> \<not> (r \<and> g \<and> b) \<and>
    those (map (\<lambda>i. getColor i 4 colorMode) [0..<4]) = Some candidates \<and>
    fst (nearest_color (channel r, channel g, channel b) candidates 0 (0, 1000000)) = color"
proof (cases "colorMode = 0")
  case True
  obtain r g b where "palette_old ! color = (r, g, b)" by (cases "palette_old ! color")
  then show ?thesis
    using True getColor_palette(1) [OF assms(2)] palette_channels(1) [OF assms(2)] those_getColor(1) nearest_full(1) [OF assms(2)] by (auto simp: full_rgb_def)
next
  case False
  then have 1: "colorMode = 1" using assms(1) by simp
  obtain r g b where "palette_new ! color = (r, g, b)" by (cases "palette_new ! color")
  then show ?thesis
    using 1 getColor_palette(2) [OF assms(2)] palette_channels(2) [OF assms(2)] those_getColor(2) nearest_full(2) [OF assms(2)] by (auto simp: full_rgb_def)
qed

lemma tile_paint:
  assumes "getTile bitmap True 4 color colorMode = Some tile" "colorMode \<in> {0, 1}" "getColor color 4 colorMode = Some (channel r, channel g, channel b)"
    and "length bitmap = 64"
  shows "\<forall>k<64. tile ! k = paint bitmap (r, g, b) k"
proof -
  have "tile = map (\<lambda>c. if c \<noteq> white then (channel r, channel g, channel b) else (0, 0, 0)) bitmap"
    using assms(1-3) by (auto simp: getTile_def getBgColor_def white_def)
  then show ?thesis using assms(4) by (simp add: paint_def)
qed

text \<open>C40: the tile of a colour is read as that colour, in both palettes of the modes with four colours, wherever it is shown
  in the image and however few of its middle pixels have ink: the mean is a dimmed colour, and it is stretched back.\<close>

theorem painted_color_read:
  assumes "colorMode \<in> {0, 1}" "color < 4" "getTile bitmap True 4 color colorMode = Some tile" "length bitmap = 64"
    and "i < 6" "j < 6" "bitmap ! ((i + 1) * 8 + (j + 1)) \<noteq> white"
    and "image_rgb img" "int x + 8 \<le> mt_cols img" "int y + 8 \<le> mt_rows img" "shows_tile img x y tile"
  shows "read_color None 4 colorMode img \<lparr>pd_i = k, pd_x = int x, pd_y = int y\<rparr> = Some color"
proof -
  obtain r g b candidates where c: "getColor color 4 colorMode = Some (channel r, channel g, channel b)" "r \<or> g \<or> b" "\<not> (r \<and> g \<and> b)"
    "those (map (\<lambda>i. getColor i 4 colorMode) [0..<4]) = Some candidates"
    "fst (nearest_color (channel r, channel g, channel b) candidates 0 (0, 1000000)) = color"
    using palette4 [OF assms(1,2)] by blast
  from decode_painted [OF assms(8-11) tile_paint [OF assms(3,1) c(1) assms(4)] inked_pos [OF assms(5-7)] c(2-4)]
  show ?thesis by (simp add: read_color_def config_cell_size_def c(5))
qed

theorem painted_color_read_witness:
  "\<exists>tile. getTile (replicate 64 (0, 0, 0)) True 4 2 1 = Some tile \<and>
    read_color None 4 1 \<lparr>mt_data = concat (replicate 64 [0xFF, 0xFF, 0]), mt_cols = 8, mt_rows = 8, mt_channels = 3, mt_step = 24, mt_continuous = True\<rparr>
      \<lparr>pd_i = 0, pd_x = int 0, pd_y = int 0\<rparr> = Some 2"
proof -
  let ?img = "\<lparr>mt_data = concat (replicate 64 [0xFF, 0xFF, 0]), mt_cols = 8, mt_rows = 8, mt_channels = 3, mt_step = 24, mt_continuous = True\<rparr>"
  have t: "getTile (replicate 64 (0, 0, 0)) True 4 2 1 = Some (replicate 64 (0xFF, 0xFF, 0))"
    by (simp add: getTile_def getColor_def getColor4_def getBgColor_def)
  have d: "concat (replicate n [0xFF, 0xFF, 0 :: u8]) ! (3 * k) = 0xFF \<and> concat (replicate n [0xFF, 0xFF, 0 :: u8]) ! (3 * k + 1) = 0xFF \<and>
      concat (replicate n [0xFF, 0xFF, 0 :: u8]) ! (3 * k + 2) = 0" if "k < n" for n k
    using that
  proof (induction n arbitrary: k)
    case (Suc n)
    then show ?case by (cases k) auto
  qed simp
  have l: "length (concat (replicate n [0xFF, 0xFF, 0 :: u8])) = 3 * n" for n by (induction n) simp_all
  have px: "pixel ?img (((int 0 + int i) * 8 + (int 0 + int j)) * 3) = Some (0xFF, 0xFF, 0)" if "i < 8" "j < 8" for i j
  proof -
    have k: "8 * i + j < 64" using that by simp
    have "nat (((int 0 + int i) * 8 + (int 0 + int j)) * 3) = 3 * (8 * i + j)" by simp
    then show ?thesis using d [OF k] k by (simp add: pixel_def l rd_def)
  qed
  have sh: "shows_tile ?img 0 0 (replicate 64 (0xFF, 0xFF, 0))" using px by (simp add: shows_tile_def)
  have im: "image_rgb ?img" by (simp add: image_rgb_def l)
  show ?thesis
    using painted_color_read [of 1 2 "replicate 64 (0, 0, 0)" _ 0 0 ?img 0 0 0] t sh im by (simp add: white_def)
qed

end
