(* ===== verification/FileTransfer.thy ===== *)
theory FileTransfer
  imports FrameRoundtrip FountainSink
begin

text \<open>
  Sender and receiver put together. The sender is \<open>EncoderPlus::encode_fountain\<close>: frames are
  painted from a fountain encoder stream, and one that would not be found by the scanner is skipped. The receiver is
  \<open>Decoder::decode_fountain\<close>: a frame is decoded, and its two buffers go through the Reed-Solomon stream and the
  aligner into the fountain sink. A display stands between them, which is an image that shows a frame.
  The callback that \<open>on_frame\<close> stands for is a predicate on the frame and its number, and whether the scanner finds a
  frame is another.
\<close>

section \<open>The sender\<close>

definition fes_sread :: "('e, 'd) wirehair \<Rightarrow> 'e fountain_encoder_stream \<Rightarrow> nat \<Rightarrow> (u8 list \<times> 'e fountain_encoder_stream) option" where
  "fes_sread api s n = map_option (\<lambda>(s, d). (d, s)) (fes_read api s n)"

type_synonym frame = "(coordinate \<times> nat) list"

text \<open>The loop of \<open>encode_fountain\<close>: the frames handed out, and the state of the stream.\<close>

function encode_fountain_loop ::
  "('s \<Rightarrow> (frame option \<times> 's) option) \<Rightarrow> (frame \<Rightarrow> bool) \<Rightarrow> (frame \<Rightarrow> nat \<Rightarrow> bool) \<Rightarrow> nat \<Rightarrow> nat \<Rightarrow> nat \<Rightarrow> 's \<Rightarrow> (frame list \<times> 's) option" where
  "encode_fountain_loop next will_it_scan on_frame requiredFrames i consecutiveScansFailed fes =
     (if i < requiredFrames then do {
        (frame, fes) \<leftarrow> next fes;
        (case frame of None \<Rightarrow> Some ([], fes)
         | Some frame \<Rightarrow>
             if \<not> will_it_scan frame \<and> consecutiveScansFailed + 1 < 5
             then encode_fountain_loop next will_it_scan on_frame requiredFrames i (consecutiveScansFailed + 1) fes
             else if \<not> on_frame frame i then Some ([], fes)
             else map_option (\<lambda>(fs, fes). (frame # fs, fes)) (encode_fountain_loop next will_it_scan on_frame requiredFrames (i + 1) 0 fes))
      } else Some ([], fes))"
  by pat_completeness auto
termination
  by (relation "measures [\<lambda>(next, w, f, n, i, k, fes). n - i, \<lambda>(next, w, f, n, i, k, fes). 5 - k]") auto

declare encode_fountain_loop.simps [simp del]

text \<open>\<open>encode_next\<close> of an encoder with its default bits, on a canvas of the size of the image.\<close>

definition next_frame ::
  "(nat \<Rightarrow> nat \<Rightarrow> u8) \<Rightarrow> ('e, 'd) wirehair \<Rightarrow> conf \<Rightarrow> 'e fountain_encoder_stream \<Rightarrow> (frame option \<times> 'e fountain_encoder_stream) option" where
  "next_frame mem api c fes = encode_next mem (fes_sread api) fes_good c (en_create c 0 (- 1)) fes (0, 0)"

definition encode_fountain ::
  "(nat \<Rightarrow> nat \<Rightarrow> u8) \<Rightarrow> ('e, 'd) wirehair \<Rightarrow> conf \<Rightarrow> (frame \<Rightarrow> bool) \<Rightarrow> (frame \<Rightarrow> nat \<Rightarrow> bool) \<Rightarrow> nat \<Rightarrow> 'e fountain_encoder_stream \<Rightarrow>
   (frame list \<times> 'e fountain_encoder_stream) option" where
  "encode_fountain mem api c will_it_scan on_frame requiredFrames fes =
     encode_fountain_loop (next_frame mem api c) will_it_scan on_frame (if requiredFrames = 0 then 1 else requiredFrames) 0 0 fes"

section \<open>The receiver\<close>

text \<open>What the reader learns of the headers that pass: \<open>None\<close> is an undefined access.\<close>

record ColorHeader =
  ch_header :: FountainMetadata
  ch_radioactive :: nat

definition computeRadioactiveBlockId :: "FountainMetadata \<Rightarrow> nat \<Rightarrow> nat option" where
  "computeRadioactiveBlockId md chunk_size =
     (if chunk_size = 0 then None
      else Some (if unat (md_file_size md) mod chunk_size = 0 then 0xFFFFFFFF else unat (md_file_size md) div chunk_size))"

definition update_metadata :: "(nat \<Rightarrow> u8) \<Rightarrow> nat \<Rightarrow> u8 list option \<Rightarrow> ColorHeader \<Rightarrow> ColorHeader option" where
  "update_metadata junk chunk_size buff h =
     (if (buff = None \<or> buff = Some []) \<and> md_id (ch_header h) = 0 then Some h
      else do {
        h \<leftarrow> (if md_id (ch_header h) = 0
             then map_option (\<lambda>md. h\<lparr>ch_header := md\<rparr>) (md_of_buffer junk (the buff) (length (the buff))) else Some h);
        h \<leftarrow> (if ch_radioactive h = 0
             then map_option (\<lambda>r. h\<lparr>ch_radioactive := r\<rparr>) (computeRadioactiveBlockId (ch_header h) chunk_size) else Some h);
        md \<leftarrow> increment_block_id (ch_header h) (ch_radioactive h);
        Some (h\<lparr>ch_header := md\<rparr>)
      })"

definition flush_buffers ::
  "(nat \<Rightarrow> nat \<Rightarrow> u8) \<Rightarrow> conf \<Rightarrow> ('s \<Rightarrow> u8 list \<Rightarrow> 's option) \<Rightarrow> ('s \<Rightarrow> bool) \<Rightarrow> (u8 list option \<Rightarrow> 'c \<Rightarrow> 'c) \<Rightarrow> u8 list list \<Rightarrow>
   ('s, 'c) aligned_stream \<Rightarrow> ('s, 'c) aligned_stream option" where
  "flush_buffers mem c swrite sgood on_flush buffers aligner = for_each buffers (\<lambda>buff aligner. do {
     rss \<leftarrow> rss_create mem (aligned_good sgood) aligner (ecc_bytes c) (ecc_block_size c);
     rss \<leftarrow> rss_write (aligned_write swrite sgood on_flush) mark_bad_chunk mem rss buff;
     Some (rss_stream rss)
   }) aligner"

type_synonym display = "u8 list \<times> (CimbReader \<Rightarrow> PositionData \<Rightarrow> nat) \<times> pick list"

definition decode_fountain ::
  "(nat \<Rightarrow> nat \<Rightarrow> u8) \<Rightarrow> ('e, 'd) wirehair \<Rightarrow> WirehairResult \<Rightarrow> 'io on_store \<Rightarrow> conf \<Rightarrow> u64 list \<Rightarrow> display \<Rightarrow>
   'd fountain_decoder_sink \<times> 'io \<Rightarrow> (nat \<times> 'd fountain_decoder_sink \<times> 'io) option" where
  "decode_fountain mem api junk on_store c tiles = (\<lambda>(symbols, rc, picks) ostream. do {
     reader \<leftarrow> cr_create c symbols (image_size_x c) (image_size_y c) tiles;
     chunk_size \<leftarrow> fountain_chunk_size c 0;
     let on_flush = (\<lambda>buff h. Option.bind h (update_metadata (mem 0) chunk_size buff));
     let seen = Some \<lparr>ch_header = replicate 6 0, ch_radioactive = 0\<rparr>;
     buffers \<leftarrow> do_decode c True rc picks reader;
     (if sk_chunkSize (fst ostream) \<noteq> chunk_size then do {
        aligner \<leftarrow> flush_buffers mem c null_write null_good on_flush buffers (aligned_create \<lparr>ns_count = 0\<rparr> chunk_size 0 seen);
        Some (aligned_tellp aligner, ostream)
      }
      else do {
        aligner \<leftarrow> flush_buffers mem c (sink_stream_write api junk on_store) (sink_good \<circ> fst) on_flush buffers
          (aligned_create ostream (sk_chunkSize (fst ostream)) 0 seen);
        Some (aligned_tellp aligner, as_stream aligner)
      })
   })"

section \<open>What the stream delivers\<close>

definition pending :: "'e fountain_encoder_stream \<Rightarrow> u8 list" where
  "pending s = drop (fes_buffIndex s) (fes_buffer s)"

lemma pending_le: "fes_wf api codec e data B s \<Longrightarrow> length (pending s) \<le> B"
  by (simp add: pending_def fes_wf_def)

lemma fes_loop_encodes:
  assumes wf: "fes_wf api codec e data B s" and i: "B \<le> fes_buffIndex s" and b: "fes_block s + 2 < 2 ^ 32" and n: "0 < n"
  defines "k \<equiv> next_block api codec (B - 6) (fes_block s)"
  defines "r \<equiv> s\<lparr>fes_block := k + 1, fes_buffer := chunk_of api codec e (length data) (B - 6) k, fes_buffIndex := 0\<rparr>"
  shows "fes_read_loop api s out n = fes_read_loop api r out n" "fes_wf api codec e data B r" "full_block api codec (B - 6) k"
    "fes_block s \<le> k" "k \<le> fes_block s + 1"
proof -
  note W = wf [unfolded fes_wf_def]
  note run = encode_new_block_run [OF wf b, folded k_def]
  have lc: "length (chunk_of api codec e (length data) (B - 6) k) = B" using run(4) W by (simp add: chunk_of_def full_block_def)
  show wr: "fes_wf api codec e data B r" using W lc by (simp add: r_def fes_wf_def)
  have enc: "encode_new_block api s = Some r" using run(1) by (simp add: r_def)
  have r: "fes_buffIndex r = 0" "length (fes_buffer r) = B" using lc by (simp_all add: r_def)
  show "fes_read_loop api s out n = fes_read_loop api r out n"
    using fes_wf_good [OF wf] fes_wf_good [OF wr] W i n
    by (simp add: fes_read_loop.simps [of api s] fes_read_loop.simps [of api r] enc r)
qed (use encode_new_block_run(2-4) [OF wf b] in \<open>simp_all add: k_def\<close>)

text \<open>\<open>moves api codec e data B s bs x s'\<close>: what was pending and the chunks of the blocks \<open>bs\<close> are the bytes \<open>x\<close> and
  what is pending now.\<close>

definition moves ::
  "('e, 'd) wirehair \<Rightarrow> 'e \<Rightarrow> u8 \<Rightarrow> u8 list \<Rightarrow> nat \<Rightarrow> 'e fountain_encoder_stream \<Rightarrow> nat list \<Rightarrow> u8 list \<Rightarrow> 'e fountain_encoder_stream \<Rightarrow> bool" where
  "moves api codec e data B s bs x s' \<longleftrightarrow> fes_wf api codec e data B s' \<and>
     pending s @ concat (map (chunk_of api codec e (length data) (B - 6)) bs) = x @ pending s' \<and> sorted_wrt (<) bs \<and>
     (\<forall>b\<in>set bs. full_block api codec (B - 6) b \<and> fes_block s \<le> b \<and> b < fes_block s') \<and>
     fes_block s \<le> fes_block s' \<and> fes_block s' \<le> fes_block s + 2 * length bs"

lemma moves_refl: "fes_wf api codec e data B s \<Longrightarrow> moves api codec e data B s [] [] s"
  by (simp add: moves_def)

lemma moves_trans:
  assumes "moves api codec e data B s bs x t" "moves api codec e data B t bs' x' u"
  shows "moves api codec e data B s (bs @ bs') (x @ x') u"
proof -
  have "pending s @ concat (map (chunk_of api codec e (length data) (B - 6)) (bs @ bs')) = (x @ x') @ pending u"
    using assms by (simp add: moves_def flip: append_assoc) (simp add: moves_def)
  moreover have "sorted_wrt (<) (bs @ bs')" using assms by (fastforce simp: moves_def sorted_wrt_append)
  moreover have "\<forall>b\<in>set (bs @ bs'). full_block api codec (B - 6) b \<and> fes_block s \<le> b \<and> b < fes_block u"
    using assms by (fastforce simp: moves_def)
  ultimately show ?thesis using assms by (auto simp: moves_def)
qed

lemma fes_loop_moves:
  assumes "fes_wf api codec e data B s" "fes_block s + 2 * n + 2 < 2 ^ 32"
  shows "\<exists>s' bs x. fes_read_loop api s out n = Some (s', out @ x) \<and> moves api codec e data B s bs x s' \<and> length x = n \<and>
    (0 < n \<longrightarrow> length (pending s') < B)"
  using assms
proof (induction n arbitrary: s out rule: less_induct)
  case (less n)
  have ready: "\<exists>s' bs x. fes_read_loop api t out n = Some (s', out @ x) \<and> moves api codec e data B t bs x s' \<and> length x = n \<and>
      (0 < n \<longrightarrow> length (pending s') < B)"
    if wf: "fes_wf api codec e data B t" and i: "fes_buffIndex t < B" and n: "0 < n" and b: "fes_block t + 2 * n < 2 ^ 32" for t
  proof -
    note W = wf [unfolded fes_wf_def]
    let ?a = "B - fes_buffIndex t"
    have lt: "length (fes_buffer t) = B" "fes_buffIndex t < length (fes_buffer t)" "length (fes_buffer t) < 2 ^ 32" using W i by simp_all
    show ?thesis
    proof (cases "n \<le> ?a")
      case True
      let ?t = "t\<lparr>fes_buffIndex := fes_buffIndex t + n\<rparr>"
      have "fes_read_loop api t out n = Some (?t, out @ take n (pending t))"
        using fes_read_ready [OF fes_wf_good [OF wf] lt(2,3) n] True lt(1) by (simp add: pending_def)
      moreover have "moves api codec e data B t [] (take n (pending t)) ?t"
        using wf by (simp add: moves_def pending_def fes_wf_def add.commute flip: drop_drop)
      moreover have "length (take n (pending t)) = n" "length (pending ?t) < B" using True lt n by (simp_all add: pending_def)
      ultimately show ?thesis by blast
    next
      case False
      let ?t = "t\<lparr>fes_buffIndex := fes_buffIndex t + ?a\<rparr>"
      have u: "uint_sub (length (fes_buffer t)) (fes_buffIndex t) = ?a" using lt by (simp add: uint_sub_le)
      have step: "fes_read_loop api t out n = fes_read_loop api ?t (out @ pending t) (n - ?a)"
        using fes_wf_good [OF wf] lt n i False
        by (subst fes_read_loop.simps) (simp add: u Let_def copy_of_def pending_def)
      have m: "moves api codec e data B t [] (pending t) ?t" using wf i by (simp add: moves_def pending_def fes_wf_def)
      have wt: "fes_wf api codec e data B ?t" using m by (simp add: moves_def)
      have bt: "fes_block ?t + 2 * (n - ?a) + 2 < 2 ^ 32" using b False i by simp
      have nt: "n - ?a < n" using n i by simp
      obtain s' bs x where r: "fes_read_loop api ?t (out @ pending t) (n - ?a) = Some (s', (out @ pending t) @ x)"
        "moves api codec e data B ?t bs x s'" "length x = n - ?a" "0 < n - ?a \<longrightarrow> length (pending s') < B"
        using less.IH [OF nt wt bt, of "out @ pending t"] by (elim exE conjE) (rule that)
      have "moves api codec e data B t bs (pending t @ x) s'" using moves_trans [OF m r(2)] by simp
      moreover have "length (pending t @ x) = n" using r(3) False lt by (simp add: pending_def)
      ultimately show ?thesis using step r(1,4) False by (intro exI [of _ s'] exI [of _ bs] exI [of _ "pending t @ x"]) simp
    qed
  qed
  show ?case
  proof (cases "n = 0")
    case True
    then show ?thesis using moves_refl [OF less.prems(1)] by auto
  next
    case n: False
    show ?thesis
    proof (cases "fes_buffIndex s < B")
      case True
      then show ?thesis using ready [OF less.prems(1) True] n less.prems(2) by simp
    next
      case False
      have sb: "fes_block s + 2 < 2 ^ 32" using less.prems(2) by simp
      let ?k = "next_block api codec (B - 6) (fes_block s)"
      let ?r = "s\<lparr>fes_block := ?k + 1, fes_buffer := chunk_of api codec e (length data) (B - 6) ?k, fes_buffIndex := 0\<rparr>"
      have Bi: "B \<le> fes_buffIndex s" "0 < n" using False n by simp_all
      have e: "fes_read_loop api s out n = fes_read_loop api ?r out n" by (rule fes_loop_encodes(1) [OF less.prems(1) Bi(1) sb Bi(2)])
      note e = e fes_loop_encodes(2-5) [OF less.prems(1) Bi(1) sb Bi(2)]
      have "6 < B" using less.prems(1) by (simp add: fes_wf_def)
      then obtain s' bs x where r: "fes_read_loop api ?r out n = Some (s', out @ x)" "moves api codec e data B ?r bs x s'" "length x = n"
        "0 < n \<longrightarrow> length (pending s') < B" using ready [OF e(2)] n e(5) less.prems(2) by auto
      have "length (fes_buffer s) = B" using less.prems(1) by (simp add: fes_wf_def)
      then have "pending s = []" using False by (simp add: pending_def)
      then have "moves api codec e data B s [?k] [] ?r" using e by (simp add: moves_def pending_def)
      from moves_trans [OF this r(2)] show ?thesis using e(1) r by auto
    qed
  qed
qed

lemma moves_length:
  assumes "moves api codec e data B s bs x s'"
  shows "length (pending s) + length bs * B = length x + length (pending s')"
proof -
  have "length (chunk_of api codec e (length data) (B - 6) b) = B" if "b \<in> set bs" for b
    using assms that by (auto simp: moves_def chunk_of_def full_block_def fes_wf_def)
  then have "length (concat (map (chunk_of api codec e (length data) (B - 6)) bs)) = length bs * B" by (induction bs) auto
  then show ?thesis using arg_cong [of _ _ length, OF assms [unfolded moves_def, THEN conjunct2, THEN conjunct1]] by simp
qed

lemma fes_sread_moves:
  assumes "fes_wf api codec e data B s" "fes_block s + 2 * d + 2 < 2 ^ 32" "0 < d"
  shows "\<exists>s' bs x. fes_sread api s d = Some (x, s') \<and> moves api codec e data B s bs x s' \<and> length x = d \<and> length (pending s') < B"
proof -
  obtain s' bs x where r: "fes_read_loop api s [] d = Some (s', [] @ x)" "moves api codec e data B s bs x s'" "length x = d"
    "0 < d \<longrightarrow> length (pending s') < B" using fes_loop_moves [OF assms(1,2), of "[]"] by blast
  have "moves api codec e data B s bs x (s'\<lparr>fes_lastRead := d\<rparr>)" using r(2) by (simp add: moves_def pending_def fes_wf_def)
  moreover have "fes_sread api s d = Some (x, s'\<lparr>fes_lastRead := d\<rparr>)" using r(1,3) by (simp add: fes_sread_def fes_read_def)
  moreover have "length (pending (s'\<lparr>fes_lastRead := d\<rparr>)) < B" using r(4) assms(3) by (simp add: pending_def)
  ultimately show ?thesis using r(3) by blast
qed

lemma fes_delivers:
  assumes "fes_wf api codec e data B s" "fes_block s + 2 * (k + 1) * (d + 1) < 2 ^ 32" "0 < d"
  shows "\<exists>ms s' bs. delivers (fes_sread api) fes_good d s ms s' \<and> length ms = k \<and> (\<forall>m\<in>set ms. length m = d) \<and>
    moves api codec e data B s bs (concat ms) s' \<and> (0 < k \<longrightarrow> length (pending s') < B)"
  using assms(1,2)
proof (induction k arbitrary: s)
  case 0
  then show ?case using moves_refl [OF 0(1)] by (intro exI [of _ "[]"] exI [of _ s]) auto
next
  case (Suc k)
  have b: "fes_block s + 2 * d + 2 < 2 ^ 32" using Suc.prems(2) by simp
  obtain s1 bs x where 1: "fes_sread api s d = Some (x, s1)" "moves api codec e data B s bs x s1" "length x = d" "length (pending s1) < B"
    using fes_sread_moves [OF Suc.prems(1) b assms(3)] by blast
  have "length bs * B < d + B" using moves_length [OF 1(2)] 1(3,4) by linarith
  then have "length bs \<le> d"
  proof (rule contrapos_pp)
    assume "\<not> length bs \<le> d"
    then have "(d + 1) * B \<le> length bs * B" by (intro mult_right_mono) simp_all
    moreover have "d \<le> d * B" using Suc.prems(1) by (simp add: fes_wf_def)
    ultimately show "\<not> length bs * B < d + B" unfolding add_mult_distrib by linarith
  qed
  then have "fes_block s1 \<le> fes_block s + 2 * (d + 1)" using 1(2) by (simp add: moves_def)
  then have b1: "fes_block s1 + 2 * (k + 1) * (d + 1) < 2 ^ 32" using Suc.prems(2) by (simp add: algebra_simps)
  have w1: "fes_wf api codec e data B s1" using 1(2) by (simp add: moves_def)
  obtain ms s' bs' where 2: "delivers (fes_sread api) fes_good d s1 ms s'" "length ms = k" "\<forall>m\<in>set ms. length m = d"
    "moves api codec e data B s1 bs' (concat ms) s'" "0 < k \<longrightarrow> length (pending s') < B"
    using Suc.IH [OF w1 b1] by blast
  have "delivers (fes_sread api) fes_good d s (x # ms) s'" using 1 2(1) fes_wf_good [OF Suc.prems(1)] by auto
  moreover have "moves api codec e data B s (bs @ bs') (concat (x # ms)) s'" using moves_trans [OF 1(2) 2(4)] by simp
  moreover have "length (pending s') < B"
  proof (cases "k = 0")
    case True
    then have "ms = []" using 2(2) by simp
    then show ?thesis using 2(1) 1(4) by simp
  next
    case False
    then show ?thesis using 2(5) by simp
  qed
  ultimately show ?case using 1(3) 2(2,3) by (intro exI [of _ "x # ms"] exI [of _ s'] exI [of _ "bs @ bs'"]) simp
qed

text \<open>Messages that are as long as whole chunks are chunks.\<close>

lemma fes_delivers_chunks:
  assumes "fes_wf api codec e data B s" "fes_block s + 2 * (k + 1) * (d + 1) < 2 ^ 32" "0 < d" "0 < k" "pending s = []" "k * d = K * B"
  shows "\<exists>ms s' bs. delivers (fes_sread api) fes_good d s ms s' \<and> length ms = k \<and> length bs = K \<and> pending s' = [] \<and>
    concat ms = concat (map (chunk_of api codec e (length data) (B - 6)) bs) \<and> moves api codec e data B s bs (concat ms) s'"
proof -
  obtain ms s' bs where m: "delivers (fes_sread api) fes_good d s ms s'" "length ms = k" "\<forall>m\<in>set ms. length m = d"
    "moves api codec e data B s bs (concat ms) s'" "length (pending s') < B" using fes_delivers [OF assms(1-3)] assms(4) by blast
  have "length (concat ms) = k * d" using m(2,3) by (simp add: length_concat sum_list_triv cong: map_cong)
  then have l: "length bs * B = K * B + length (pending s')" using moves_length [OF m(4)] assms(5,6) by simp
  have B: "0 < B" using m(5) by simp
  have "length bs = (K * B + length (pending s')) div B" using B by (simp flip: l)
  also have "\<dots> = K" using m(5) by simp
  finally have K: "length bs = K" .
  then have "pending s' = []" using l by simp
  moreover have "concat ms = concat (map (chunk_of api codec e (length data) (B - 6)) bs)"
    using m(4) assms(5) \<open>pending s' = []\<close> by (simp add: moves_def)
  ultimately show ?thesis using m K by blast
qed

section \<open>The frames of the sender\<close>

text \<open>The frame \<open>f\<close> was painted from messages that are, one after the other, the chunks of the blocks \<open>bs\<close>.\<close>

definition frame_carries :: "conf \<Rightarrow> (nat \<Rightarrow> nat \<Rightarrow> u8) \<Rightarrow> ('e, 'd) wirehair \<Rightarrow> (nat \<Rightarrow> u8 list) \<Rightarrow> frame \<Rightarrow> nat list \<Rightarrow> bool" where
  "frame_carries c mem api chunk f bs \<longleftrightarrow> (\<exists>ms ms' st st'.
     next_frame mem api c st = Some (Some f, st') \<and>
     delivers (fes_sread api) fes_good (ecc_block_size c - ecc_bytes c) st (ms @ ms') st' \<and>
     length ms * (8 * ecc_block_size c) = conf_cells c * symbol_bits c \<and> length ms' * (8 * ecc_block_size c) = conf_cells c * color_bits c \<and>
     concat (ms @ ms') = concat (map chunk bs))"

text \<open>The numbers of a mode: the blocks of both passes, and their messages are the chunks of a frame.\<close>

definition frame_ok :: "conf \<Rightarrow> nat \<Rightarrow> nat \<Rightarrow> nat \<Rightarrow> nat \<Rightarrow> bool" where
  "frame_ok c B n k k' \<longleftrightarrow> fountain_chunk_size c 0 = Some B \<and> fountain_chunks_per_frame c 0 = n \<and> 0 < n \<and> n \<le> 12 \<and> 50 \<le> B \<and> B < 2 ^ 16 \<and> 0 < k \<and>
     k * (8 * ecc_block_size c) = conf_cells c * symbol_bits c \<and> k' * (8 * ecc_block_size c) = conf_cells c * color_bits c \<and>
     (k + k') * (ecc_block_size c - ecc_bytes c) = n * B \<and> k + k' \<le> 60 \<and> ecc_bytes c < ecc_block_size c \<and> ecc_block_size c \<le> 255"

lemma modes_frame_ok: "\<not> legacy_mode (temp_conf m) \<Longrightarrow> \<exists>B n k k'. frame_ok (temp_conf m) B n k k'"
proof -
  have cells: "conf_cells (temp_conf 68) = 12400" "conf_cells (temp_conf 66) = 5376" "conf_cells (temp_conf 67) = 8592"
    by (simp_all add: temp_conf_def conf_eval conf_cells_def conf_dims_def conf_ms_def top_width_def mid_height_def total_positions_def)
  have ch: "fountain_chunk_size (temp_conf 68) 0 = Some 625" "fountain_chunk_size (temp_conf 66) 0 = Some 540" "fountain_chunk_size (temp_conf 67) 0 = Some 429"
    by (simp_all add: temp_conf_def conf_eval)
  have "frame_ok (temp_conf 68) 625 12 40 20" "frame_ok (temp_conf 66) 540 6 16 8" "frame_ok (temp_conf 67) 429 12 24 12"
    unfolding frame_ok_def cells ch by (simp_all add: temp_conf_def conf_eval)
  moreover assume "\<not> legacy_mode (temp_conf m)"
  moreover have "legacy_mode (temp_conf 4)" "legacy_mode (temp_conf 8)" by (simp_all add: temp_conf_def conf_eval)
  ultimately show ?thesis using temp_conf_cases [of m] by (metis empty_iff insertE)
qed

lemma encode_next_carries:
  assumes ok: "separate_ok c" "frame_ok c B n k k'"
    and wf: "fes_wf api codec e data B s" and p: "pending s = []" and b: "fes_block s \<le> 2 ^ 16"
  shows "\<exists>f bs s'. encode_next mem (fes_sread api) fes_good c (en_create c 0 (- 1)) s (0, 0) = Some (Some f, s') \<and>
    frame_carries c mem api (chunk_of api codec e (length data) (B - 6)) f bs \<and> length bs = n \<and> fes_wf api codec e data B s' \<and> pending s' = [] \<and>
    sorted_wrt (<) bs \<and> (\<forall>b\<in>set bs. full_block api codec (B - 6) b \<and> fes_block s \<le> b \<and> b < fes_block s') \<and> fes_block s \<le> fes_block s' \<and>
    fes_block s' \<le> fes_block s + 2 * n"
proof -
  let ?d = "ecc_block_size c - ecc_bytes c"
  note F = ok(2) [unfolded frame_ok_def]
  have d: "0 < ?d" "?d \<le> 255" "0 < k + k'" using F by auto
  have "2 * (k + k' + 1) * (?d + 1) \<le> 2 * (60 + 1) * (255 + 1)" by (intro mult_mono) (use F d in auto)
  then have big: "fes_block s + 2 * (k + k' + 1) * (?d + 1) < 2 ^ 32" using b by simp
  obtain ms s' bs where m: "delivers (fes_sread api) fes_good ?d s ms s'" "length ms = k + k'" "length bs = n" "pending s' = []"
    "concat ms = concat (map (chunk_of api codec e (length data) (B - 6)) bs)" "moves api codec e data B s bs (concat ms) s'"
    using fes_delivers_chunks [OF wf big d(1,3) p, of n] F by blast
  have ms: "take k ms @ drop k ms = ms" "length (take k ms) = k" "length (drop k ms) = k'" using m(2) by simp_all
  have l: "length (take k ms) * (8 * ecc_block_size c) = conf_cells c * symbol_bits c"
    "length (drop k ms) * (8 * ecc_block_size c) = conf_cells c * color_bits c" unfolding ms(2,3) using F by simp_all
  have m1: "delivers (fes_sread api) fes_good ?d s (take k ms @ drop k ms) s'" using m(1) by simp
  obtain f where f: "encode_next mem (fes_sread api) fes_good c (en_create c 0 (- 1)) s (0, 0) = Some (Some f, s')"
    using encode_next_paints [OF ok(1) m1 l, of mem] by blast
  have "frame_carries c mem api (chunk_of api codec e (length data) (B - 6)) f bs"
    unfolding frame_carries_def next_frame_def using f m(1,5) l ms(1) by (intro exI [of _ "take k ms"] exI [of _ "drop k ms"] exI [of _ s] exI [of _ s']) simp
  then show ?thesis using f m(3,4,6) by (auto simp: moves_def)
qed

text \<open>All frames of the loop.\<close>

definition frames_carry ::
  "conf \<Rightarrow> (nat \<Rightarrow> nat \<Rightarrow> u8) \<Rightarrow> ('e, 'd) wirehair \<Rightarrow> 'e \<Rightarrow> u8 \<Rightarrow> u8 list \<Rightarrow> nat \<Rightarrow> nat \<Rightarrow> nat \<Rightarrow> frame list \<Rightarrow> nat list list \<Rightarrow> bool" where
  "frames_carry c mem api codec e data B n lo fs bss \<longleftrightarrow>
     list_all2 (frame_carries c mem api (chunk_of api codec e (length data) (B - 6))) fs bss \<and> (\<forall>bs\<in>set bss. length bs = n) \<and>
     sorted_wrt (<) (concat bss) \<and> (\<forall>b\<in>set (concat bss). full_block api codec (B - 6) b \<and> lo \<le> b \<and> b < 2 ^ 16)"

lemma frames_carry_Cons:
  assumes "frame_carries c mem api (chunk_of api codec e (length data) (B - 6)) f bs" "length bs = n" "sorted_wrt (<) bs"
    and "\<forall>b\<in>set bs. full_block api codec (B - 6) b \<and> lo \<le> b \<and> b < lo'" "lo \<le> lo'" "lo' \<le> 2 ^ 16"
    and "frames_carry c mem api codec e data B n lo' fs bss"
  shows "frames_carry c mem api codec e data B n lo (f # fs) (bs # bss)"
  using assms by (fastforce simp: frames_carry_def sorted_wrt_append)

lemma frames_carry_less:
  "frames_carry c mem api codec e data B n lo' fs bss \<Longrightarrow> lo \<le> lo' \<Longrightarrow> frames_carry c mem api codec e data B n lo fs bss"
  by (fastforce simp: frames_carry_def)

lemma encode_loop_carries:
  assumes ok: "separate_ok c" "frame_ok c B n k k'"
  shows "fes_wf api codec e data B s \<Longrightarrow> pending s = [] \<Longrightarrow> i \<le> N \<Longrightarrow> fails < 5 \<Longrightarrow> fes_block s + 2 * n * (5 * (N - i) - fails) \<le> 2 ^ 16 \<Longrightarrow>
    \<exists>fs bss s'. encode_fountain_loop (next_frame mem api c) w on_frame N i fails s = Some (fs, s') \<and> frames_carry c mem api codec e data B n (fes_block s) fs bss \<and>
      ((\<forall>f i. on_frame f i) \<longrightarrow> length fs = N - i)"
proof (induction "5 * (N - i) - fails" arbitrary: i fails s rule: less_induct)
  case less
  have nil: "frames_carry c mem api codec e data B n lo [] []" for lo by (simp add: frames_carry_def)
  show ?case
  proof (cases "i < N")
    case False
    then show ?thesis using nil less.prems(3) by (subst encode_fountain_loop.simps) auto
  next
    case True
    let ?b = "5 * (N - i) - fails"
    have pos: "0 < ?b" using True less.prems(4) by simp
    then have "2 * n * 1 \<le> 2 * n * ?b" by (intro mult_left_mono) simp_all
    then have small: "fes_block s + 2 * n \<le> 2 ^ 16" using less.prems(5) unfolding mult_1_right by linarith
    then have small': "fes_block s \<le> 2 ^ 16" by simp
    obtain f bs s1 where f: "encode_next mem (fes_sread api) fes_good c (en_create c 0 (- 1)) s (0, 0) = Some (Some f, s1)"
      "frame_carries c mem api (chunk_of api codec e (length data) (B - 6)) f bs" "length bs = n" "fes_wf api codec e data B s1" "pending s1 = []"
      "sorted_wrt (<) bs" "\<forall>b\<in>set bs. full_block api codec (B - 6) b \<and> fes_block s \<le> b \<and> b < fes_block s1" "fes_block s \<le> fes_block s1"
      "fes_block s1 \<le> fes_block s + 2 * n"
      using encode_next_carries [OF ok less.prems(1,2) small', of mem] by (elim exE conjE) (rule that)
    have room: "fes_block s1 + 2 * n * b' \<le> 2 ^ 16" if "b' + 1 \<le> ?b" for b'
    proof -
      have "2 * n * (b' + 1) \<le> 2 * n * ?b" using that by (intro mult_left_mono) simp_all
      then show ?thesis using f(9) less.prems(5) by (simp add: algebra_simps)
    qed
    note step = encode_fountain_loop.simps [of "next_frame mem api c" w on_frame N i fails s, unfolded if_P [OF True]]
    have enc: "next_frame mem api c s = Some (Some f, s1)" using f(1) by (simp add: next_frame_def)
    consider (skip) "\<not> w f" "fails + 1 < 5" | (stop) "w f \<or> \<not> fails + 1 < 5" "\<not> on_frame f i" | (take) "w f \<or> \<not> fails + 1 < 5" "on_frame f i" by blast
    then show ?thesis
    proof cases
      case skip
      have "5 * (N - i) - (fails + 1) < ?b" "fes_block s1 + 2 * n * (5 * (N - i) - (fails + 1)) \<le> 2 ^ 16" using pos room by simp_all
      then obtain fs bss s' where "encode_fountain_loop (next_frame mem api c) w on_frame N i (fails + 1) s1 = Some (fs, s')"
        "frames_carry c mem api codec e data B n (fes_block s1) fs bss" "(\<forall>f i. on_frame f i) \<longrightarrow> length fs = N - i"
        using less.hyps [OF _ f(4,5) less.prems(3) skip(2)] by blast
      then show ?thesis using skip frames_carry_less [OF _ f(8), of c mem api codec e data B n fs bss] unfolding step enc
        by (intro exI [of _ fs] exI [of _ bss] exI [of _ s']) auto
    next
      case stop
      then show ?thesis using nil unfolding step enc by auto
    next
      case take
      have "5 * (N - (i + 1)) - 0 < ?b" "5 * (N - (i + 1)) - 0 + 1 \<le> ?b" using True less.prems(4) by simp_all
      moreover have "i + 1 \<le> N" "(0 :: nat) < 5" using True by simp_all
      ultimately obtain fs bss s' where r: "encode_fountain_loop (next_frame mem api c) w on_frame N (i + 1) 0 s1 = Some (fs, s')"
        "frames_carry c mem api codec e data B n (fes_block s1) fs bss" "(\<forall>f i. on_frame f i) \<longrightarrow> length fs = N - (i + 1)"
        using less.hyps [OF _ f(4,5), of "i + 1" 0] room by blast
      have "fes_block s1 \<le> 2 ^ 16" using f(9) small by simp
      from frames_carry_Cons [OF f(2,3,6,7,8) this r(2)] r(1,3) show ?thesis using take True unfolding step enc
        by (intro exI [of _ "f # fs"] exI [of _ "bs # bss"] exI [of _ s']) auto
    qed
  qed
qed

section \<open>The frames at the receiver\<close>

lemma coded_correctable: "coded t m w \<Longrightarrow> correctable t m w"
  by (auto simp: coded_def correctable_def)

lemma flush_one:
  assumes "list_all2 (correctable t) ms ws" "\<forall>w\<in>set ws. length w = n" "1 \<le> t" "t < n" "n \<le> 255"
  shows "(do { rss \<leftarrow> rss_create mem (aligned_good sgood) al t n;
      rss \<leftarrow> rss_write (aligned_write swrite sgood on_flush) mark_bad_chunk mem rss (concat ws);
      Some (rss_stream rss) }) = for_each (map Good ms) (aligned_event swrite sgood on_flush) al"
proof -
  have t: "t < 255" using assms by simp
  obtain rs where rs: "correct_reed_solomon_create mem rs_primitive_polynomial 1 1 t = Some rs" "rs_ok t rs"
    using rs_create_ok [OF assms(3) t, of mem] by blast
  let ?s = "\<lparr>rss_buffer = replicate n 0, rss_stream = al, rss_rs = \<lparr>rsw_rs = rs, rsw_parityBytes = t\<rparr>, rss_good = aligned_good sgood al\<rparr>"
  have c: "rss_create mem (aligned_good sgood) al t n = Some ?s" using rs by (simp add: rss_create_def ReedSolomon_create_def)
  have ok: "rss_ok t n ?s" using rs assms(3-5) by (simp add: rss_ok_def)
  have "length w = n \<and> \<not> undecodable t w" if w: "w \<in> set ws" for w
  proof -
    obtain i where i: "i < length ws" "ws ! i = w" using w by (auto simp: in_set_conv_nth)
    have "correctable t (ms ! i) w" using list_all2_nthD2 [OF assms(1) i(1)] i(2) by simp
    then show ?thesis using correctable_decodable [OF rs(2), of "ms ! i" w] assms(2,5) w by simp
  qed
  then obtain es where es: "list_all2 (block_event t n) ws es"
    "map_option rss_stream (rss_write_loop (aligned_write swrite sgood on_flush) mark_bad_chunk mem ?s (concat ws)) =
      for_each es (aligned_event swrite sgood on_flush) al"
    using rss_loop [OF ok, of ws "[]" "aligned_write swrite sgood on_flush" mark_bad_chunk mem] assms(4) by (auto simp: stream_event_aligned)
  have "es = map Good ms" by (rule all_correctable_events [OF es(1) assms(1)])
  then show ?thesis using es(2) assms(3) unfolding c by (simp add: rss_write_def map_option_case split: option.splits)
qed

lemma good_chunks_whole:
  "0 < c \<Longrightarrow> \<forall>d\<in>set ds. length d = c \<Longrightarrow> good_chunks c (map Some (concat ds)) = ds"
proof (induction ds)
  case Nil
  then show ?case by (simp add: good_chunks_short)
next
  case (Cons d ds)
  then show ?case using good_chunks_step [of c "map Some d" "map Some (concat ds)"] by (auto simp: o_def)
qed

lemma write_all_sink: "write_all (sink_stream_write api junk on_store) ds s = sink_run api junk on_store ds s"
proof -
  have "sink_stream_write api junk on_store s d = (\<lambda>(s, io). map_option snd (decode_frame api junk on_store s io d)) s" for s d
    by (cases s) (simp add: sink_stream_write_def sink_write_def map_option_case split: option.splits)
  then show ?thesis by (simp add: write_all_def sink_run_def)
qed

definition shows_frame :: "conf \<Rightarrow> u64 list \<Rightarrow> frame \<Rightarrow> display \<Rightarrow> bool" where
  "shows_frame c tiles f = (\<lambda>(symbols, rc, picks). length symbols = image_size_x c * image_size_y c \<and>
     (\<forall>paste\<in>set f. shows_paste c symbols tiles rc paste) \<and> (\<forall>r p. rc r p < 2 ^ color_bits c) \<and>
     (\<forall>p\<in>set picks. pick_ok p) \<and> length picks = conf_cells c)"

lemma decode_fountain_run:
  assumes ok: "separate_ok c" "frame_ok c B n k k'"
    and img: "8 dvd image_size_x c * image_size_y c" "image_size_x c * image_size_y c < 2 ^ 32"
    and f: "frame_carries c mem' api chunk f bs" "length bs = n" "\<forall>b\<in>set bs. length (chunk b) = B"
    and tiles: "distinct tiles" "length tiles = 2 ^ symbol_bits c"
    and d: "shows_frame c tiles f display"
    and sink: "sink_inv sink" "sk_chunkSize sink = B" "recover_fits api"
  shows "\<exists>cnt s'. decode_fountain mem api junk on_store c tiles display (sink, io) = Some (cnt, s') \<and>
    sink_run api junk on_store (map chunk bs) (sink, io) = Some s'"
proof -
  note F = ok(2) [unfolded frame_ok_def]
  note S = ok(1) [unfolded separate_ok_def]
  let ?t = "ecc_bytes c" and ?N = "ecc_block_size c"
  obtain symbols rc picks where disp: "display = (symbols, rc, picks)" by (cases display)
  note D = d [unfolded disp shows_frame_def prod.case]
  obtain ms ms' and st st' :: "'a fountain_encoder_stream" where m: "encode_next mem' (fes_sread api) fes_good c (en_create c 0 (- 1)) st (0, 0) = Some (Some f, st')"
    "delivers (fes_sread api) fes_good (?N - ?t) st (ms @ ms') st'"
    "length ms * (8 * ?N) = conf_cells c * symbol_bits c" "length ms' * (8 * ?N) = conf_cells c * color_bits c"
    "concat (ms @ ms') = concat (map chunk bs)" using f(1) unfolding frame_carries_def next_frame_def by (elim exE conjE) (rule that)
  obtain r ws vs where r: "cr_create c symbols (image_size_x c) (image_size_y c) tiles = Some r"
    "do_decode c True rc picks r = Some [concat ws, concat vs]" "list_all2 (coded ?t) ms ws" "list_all2 (coded ?t) ms' vs"
    using frame_roundtrip [OF ok(1) img m(2-4,1) _ tiles, of symbols rc picks] D by blast
  have len: "length m = ?N - ?t" if "m \<in> set (ms @ ms')" for m
  proof -
    have "\<forall>m\<in>set xs. length m = d" if "delivers sread sgood d st xs st'" for sread sgood d xs and st st' :: "'a fountain_encoder_stream"
      using that by (induction xs arbitrary: st) auto
    then show ?thesis using m(2) that by blast
  qed
  have cl: "\<forall>w\<in>set ws. length w = ?N" "\<forall>w\<in>set vs. length w = ?N"
    using r(3,4) len F by (fastforce simp: coded_def list_all2_conv_all_nth in_set_conv_nth)+
  have cor: "list_all2 (correctable ?t) ms ws" "list_all2 (correctable ?t) ms' vs" using r(3,4) coded_correctable by (auto elim: list_all2_mono)
  define on_flush where "on_flush = (\<lambda>buff h. Option.bind h (update_metadata (mem 0) B buff))"
  let ?al = "aligned_create (sink, io) B 0 (Some \<lparr>ch_header = replicate 6 0, ch_radioactive = 0\<rparr>)"
  let ?ev = "aligned_event (sink_stream_write api junk on_store) (sink_good \<circ> fst) on_flush"
  have t: "1 \<le> ?t" "?t < ?N" "?N \<le> 255" using S by blast+
  have fl: "flush_buffers mem c (sink_stream_write api junk on_store) (sink_good \<circ> fst) on_flush [concat ws, concat vs] ?al =
      for_each (map Good (ms @ ms')) ?ev ?al"
    unfolding flush_buffers_def for_each.simps flush_one [OF cor(1) cl(1) t] flush_one [OF cor(2) cl(2) t] map_append for_each_append
    by (auto split: option.splits)
  have "length (concat (map chunk bs)) = n * B"
  proof -
    have "length (concat (map chunk bs')) = length bs' * B" if "set bs' \<subseteq> set bs" for bs' using that f(3) by (induction bs') auto
    then show ?thesis using f(2) by blast
  qed
  then have total: "length (bytes_of (map Good (ms @ ms'))) = n * B" unfolding bytes_of_good m(5) by simp
  have nB: "n * B + B < 2 ^ 32"
  proof -
    have "(n + 1) * B \<le> 13 * 2 ^ 16" by (intro mult_mono) (use F in auto)
    then show ?thesis by (simp add: algebra_simps)
  qed
  have room: "sink_room api B n (sink, io)" using sink by (simp add: sink_room_def)
  have B0: "0 < B" using F by simp
  have big: "length (bytes_of (map Good (ms @ ms'))) + B < 2 ^ 32" unfolding total by (rule nB)
  have fits: "length (bytes_of (map Good (ms @ ms'))) < (n + 1) * B" unfolding total using B0 by simp
  have "\<exists>al ws'. for_each (map Good (ms @ ms')) ?ev ?al = Some al \<and>
      write_all (sink_stream_write api junk on_store) ws' (sink, io) = Some (as_stream al) \<and> subseq ws' (good_chunks B (bytes_of (map Good (ms @ ms')))) \<and>
      (no_exact_fit B 0 (map Good (ms @ ms')) \<longrightarrow> ws' = good_chunks B (bytes_of (map Good (ms @ ms')))) \<and> (sink_good \<circ> fst) (as_stream al)"
    by (rule sink_chunks.feed_fresh [OF B0 big room fits])
  then obtain al ws' where al: "for_each (map Good (ms @ ms')) ?ev ?al = Some al"
    "write_all (sink_stream_write api junk on_store) ws' (sink, io) = Some (as_stream al)" "ws' = good_chunks B (bytes_of (map Good (ms @ ms')))"
    using no_exact_fit_good [of B 0 "ms @ ms'"] by (elim exE conjE) (rule that, assumption, assumption, erule mp, assumption)
  have "ws' = map chunk bs"
    unfolding al(3) bytes_of_good m(5) by (rule good_chunks_whole [OF B0]) (use f(3) in auto)
  then have "sink_run api junk on_store (map chunk bs) (sink, io) = Some (as_stream al)" using al(2) by (simp add: write_all_sink)
  moreover have "decode_fountain mem api junk on_store c tiles display (sink, io) = Some (aligned_tellp al, as_stream al)"
    using r(1,2) fl al(1) F sink(2) by (simp add: decode_fountain_def disp Let_def on_flush_def del: for_each.simps)
  ultimately show ?thesis by blast
qed

section \<open>A file over the frames\<close>

definition receive ::
  "(nat \<Rightarrow> nat \<Rightarrow> u8) \<Rightarrow> ('e, 'd) wirehair \<Rightarrow> WirehairResult \<Rightarrow> 'io on_store \<Rightarrow> conf \<Rightarrow> u64 list \<Rightarrow> display list \<Rightarrow>
   'd fountain_decoder_sink \<times> 'io \<Rightarrow> ('d fountain_decoder_sink \<times> 'io) option" where
  "receive mem api junk on_store c tiles displays =
     for_each displays (\<lambda>display s. map_option snd (decode_fountain mem api junk on_store c tiles display s))"

lemma sink_run_append:
  "sink_run api junk on_store (xs @ ys) s = Option.bind (sink_run api junk on_store xs s) (sink_run api junk on_store ys)"
  by (simp add: sink_run_def for_each_append split: option.splits)

lemma receive_run:
  assumes ok: "separate_ok c" "frame_ok c B n k k'"
    and img: "8 dvd image_size_x c * image_size_y c" "image_size_x c * image_size_y c < 2 ^ 32"
    and tiles: "distinct tiles" "length tiles = 2 ^ symbol_bits c" and api: "recover_fits api"
    and fs: "\<forall>j<length fs. frame_carries c mem' api chunk (fs ! j) (bss ! j) \<and> length (bss ! j) = n \<and> (\<forall>b\<in>set (bss ! j). length (chunk b) = B)"
  shows "list_all2 (\<lambda>j d. j < length fs \<and> shows_frame c tiles (fs ! j) d) js displays \<Longrightarrow> sink_inv sink \<Longrightarrow> sk_chunkSize sink = B \<Longrightarrow>
    receive mem api junk on_store c tiles displays (sink, io) = sink_run api junk on_store (map chunk (concat (map ((!) bss) js))) (sink, io)"
proof (induction js displays arbitrary: sink io rule: list_all2_induct)
  case Nil
  then show ?case by (simp add: receive_def sink_run_def)
next
  case (Cons j js d displays)
  have j: "frame_carries c mem' api chunk (fs ! j) (bss ! j)" "length (bss ! j) = n" "\<forall>b\<in>set (bss ! j). length (chunk b) = B"
    using fs Cons.hyps(1) by blast+
  obtain cnt s1 io1 where 1: "decode_fountain mem api junk on_store c tiles d (sink, io) = Some (cnt, s1, io1)"
    "sink_run api junk on_store (map chunk (bss ! j)) (sink, io) = Some (s1, io1)"
    using decode_fountain_run [OF ok img j tiles _ Cons.prems api] Cons.hyps(1) by (metis prod.collapse)
  have "sink_inv s1 \<and> sk_chunkSize s1 = B"
    using sink_run_inv [OF Cons.prems(1) api, of junk on_store "map chunk (bss ! j)" io] 1(2) Cons.prems(2) by auto
  then have "receive mem api junk on_store c tiles displays (s1, io1) = sink_run api junk on_store (map chunk (concat (map ((!) bss) js))) (s1, io1)"
    by (intro Cons.IH) simp_all
  then show ?case using 1 by (simp add: receive_def sink_run_append)
qed

text \<open>Every frame can be shown: cells do not overlap, so that an image with their tiles exists.\<close>

definition covers :: "conf \<Rightarrow> nat \<Rightarrow> nat \<Rightarrow> nat \<Rightarrow> nat" where
  "covers c i dx dy = nat (fst (conf_positions c 0 ! i)) + dx + (nat (snd (conf_positions c 0 ! i)) + dy) * image_size_x c"

lemma conf_position:
  assumes "grid_fits c" "i < conf_cells c"
  shows "\<exists>a b. conf_positions c 0 ! i = (a * fst (conf_sp c) + int (cell_offset c), b * snd (conf_sp c) + int (cell_offset c)) \<and> 0 \<le> a \<and> 0 \<le> b \<and>
    a * fst (conf_sp c) + int (cell_offset c) + 16 \<le> int (image_size_x c) \<and> b * snd (conf_sp c) + int (cell_offset c) + 16 \<le> int (image_size_y c)"
proof -
  note g = assms(1) [unfolded grid_fits_def]
  have "i < length (compute_linear (conf_sp c) (conf_dims c) (int (cell_offset c + 0)) (conf_ms c))"
    using length_conf_positions [OF assms(1), of 0] assms(2) by (simp add: conf_positions_def)
  then obtain a b where ab: "conf_positions c 0 ! i = (a * fst (conf_sp c) + int (cell_offset c), b * snd (conf_sp c) + int (cell_offset c))"
    "0 \<le> a" "a \<le> fst (conf_dims c) - 1" "0 \<le> b" "b \<le> snd (conf_dims c) - 1"
    using position_in_grid [of "conf_sp c" "conf_dims c" "conf_ms c" i "int (cell_offset c + 0)"] g unfolding conf_positions_def by auto
  have "0 < fst (conf_sp c)" "0 < snd (conf_sp c)" using g by (simp_all add: grid_ok_def)
  then have "a * fst (conf_sp c) \<le> (fst (conf_dims c) - 1) * fst (conf_sp c)" "b * snd (conf_sp c) \<le> (snd (conf_dims c) - 1) * snd (conf_sp c)"
    using ab by (auto intro!: mult_right_mono)
  then show ?thesis using ab(1,2,4) g by (intro exI [of _ a] exI [of _ b]) linarith
qed

lemma multiple_close: "\<bar>a * s - b * s\<bar> < s \<Longrightarrow> a = b" for a b s :: int
proof -
  assume l: "\<bar>a * s - b * s\<bar> < s"
  then have s: "0 < s" by linarith
  have "\<bar>a - b\<bar> * s = \<bar>a * s - b * s\<bar>" using s by (simp add: abs_mult flip: left_diff_distrib)
  then have "\<bar>a - b\<bar> * s < 1 * s" using l by simp
  then have "\<bar>a - b\<bar> < 1" using s by (simp only: mult_less_cancel_right_pos)
  then show ?thesis by simp
qed

lemma covers_unique:
  assumes g: "grid_fits c" "8 \<le> fst (conf_sp c)" "8 \<le> snd (conf_sp c)" and i: "i < conf_cells c" "j < conf_cells c"
    and d: "dx < 8" "dy < 8" "dx' < 8" "dy' < 8" and eq: "covers c i dx dy = covers c j dx' dy'"
  shows "i = j \<and> dx = dx' \<and> dy = dy'"
proof -
  obtain a b where p: "conf_positions c 0 ! i = (a * fst (conf_sp c) + int (cell_offset c), b * snd (conf_sp c) + int (cell_offset c))" "0 \<le> a" "0 \<le> b"
    "a * fst (conf_sp c) + int (cell_offset c) + 16 \<le> int (image_size_x c)" using conf_position [OF g(1) i(1)] by blast
  obtain a' b' where p': "conf_positions c 0 ! j = (a' * fst (conf_sp c) + int (cell_offset c), b' * snd (conf_sp c) + int (cell_offset c))" "0 \<le> a'" "0 \<le> b'"
    "a' * fst (conf_sp c) + int (cell_offset c) + 16 \<le> int (image_size_x c)" using conf_position [OF g(1) i(2)] by blast
  let ?W = "image_size_x c" and ?x = "nat (fst (conf_positions c 0 ! i))" and ?y = "nat (snd (conf_positions c 0 ! i))"
  let ?x' = "nat (fst (conf_positions c 0 ! j))" and ?y' = "nat (snd (conf_positions c 0 ! j))"
  have pos: "0 \<le> a * fst (conf_sp c)" "0 \<le> b * snd (conf_sp c)" "0 \<le> a' * fst (conf_sp c)" "0 \<le> b' * snd (conf_sp c)"
    using p p' g by simp_all
  have x: "?x + dx < ?W" "?x' + dx' < ?W" using p(1,4) p'(1,4) d pos by simp_all
  have e: "?x + dx + (?y + dy) * ?W = ?x' + dx' + (?y' + dy') * ?W" using eq by (simp add: covers_def)
  have "(?x + dx + (?y + dy) * ?W) mod ?W = ?x + dx" "(?x' + dx' + (?y' + dy') * ?W) mod ?W = ?x' + dx'"
    "(?x + dx + (?y + dy) * ?W) div ?W = ?y + dy" "(?x' + dx' + (?y' + dy') * ?W) div ?W = ?y' + dy'" using x by simp_all
  then have xy: "?x + dx = ?x' + dx'" "?y + dy = ?y' + dy'" unfolding e by simp_all
  have n: "int ?x = a * fst (conf_sp c) + int (cell_offset c)" "int ?x' = a' * fst (conf_sp c) + int (cell_offset c)"
    "int ?y = b * snd (conf_sp c) + int (cell_offset c)" "int ?y' = b' * snd (conf_sp c) + int (cell_offset c)" using p(1) p'(1) pos by simp_all
  have "a * fst (conf_sp c) + int dx = a' * fst (conf_sp c) + int dx'" "b * snd (conf_sp c) + int dy = b' * snd (conf_sp c) + int dy'"
    using xy n by linarith+
  then have ab: "a = a'" "b = b'"
    using multiple_close [of a "fst (conf_sp c)" a'] multiple_close [of b "snd (conf_sp c)" b'] d g(2,3) by linarith+
  have "conf_positions c 0 ! i = conf_positions c 0 ! j" using p(1) p'(1) ab by simp
  moreover have "distinct (conf_positions c 0)" using grid_positions [of "conf_sp c" "conf_dims c" "conf_ms c"] g(1) by (simp add: conf_positions_def grid_fits_def)
  ultimately have "i = j" using i length_conf_positions [OF g(1), of 0] by (simp add: nth_eq_iff_index_eq)
  then show ?thesis using xy by simp
qed

lemma frame_can_be_shown:
  assumes ok: "separate_ok c" and g: "8 \<le> fst (conf_sp c)" "8 \<le> snd (conf_sp c)" and f: "frame_carries c mem api chunk f bs"
  shows "\<exists>display. shows_frame c tiles f display"
proof -
  have fits: "frame_fits c" "grid_fits c" "bits_per_cell c = color_bits c + symbol_bits c" using ok unfolding separate_ok_def frame_fits_def by blast+
  let ?n = "conf_cells c" and ?ps = "conf_positions c 0" and ?s = "symbol_bits c"
  obtain ms ms' and st st' :: "'a fountain_encoder_stream" where m: "encode_next mem (fes_sread api) fes_good c (en_create c 0 (- 1)) st (0, 0) = Some (Some f, st')"
    "delivers (fes_sread api) fes_good (ecc_block_size c - ecc_bytes c) st (ms @ ms') st'"
    "length ms * (8 * ecc_block_size c) = ?n * ?s" "length ms' * (8 * ecc_block_size c) = ?n * color_bits c"
    using f(1) unfolding frame_carries_def next_frame_def by (elim exE conjE) (rule that)
  obtain ws vs indices where e: "encode_next mem (fes_sread api) fes_good c (en_create c 0 (- 1)) st (0, 0) =
      Some (Some (map (\<lambda>k. (?ps ! (indices ! k), frame_value c (concat ws) (concat vs) k)) [0..<?n]), st')"
    "interleave_indices ?n (interleave_blocks c) interleave_partitions = Some indices" using encode_next_paints [OF ok m(2-4), of mem] by blast
  define v where "v = frame_value c (concat ws) (concat vs)"
  have fv: "f = map (\<lambda>k. (?ps ! (indices ! k), v k)) [0..<?n]" using e(1) m(1) by (simp add: v_def)
  have il: "interleave_blocks c = 0 \<or> 0 < interleave_partitions \<and> interleave_partitions dvd ?n"
    using fits(1) by (simp add: frame_fits_def interleave_partitions_def)
  obtain lookup where ix: "\<And>i. i < ?n \<Longrightarrow> indices ! i < ?n \<and> lookup ! (indices ! i) = i" using interleave_lookup [OF il] e(2) by auto
  have np: "length ?ps = ?n" by (rule length_conf_positions [OF fits(2)])
  have dist: "distinct ?ps" using grid_positions [of "conf_sp c" "conf_dims c" "conf_ms c"] fits(2) by (simp add: conf_positions_def grid_fits_def)
  have keys: "k = k'" if "k < ?n" "k' < ?n" "?ps ! (indices ! k) = ?ps ! (indices ! k')" for k k'
    using that ix [of k] ix [of k'] dist np by (metis nth_eq_iff_index_eq)
  define ink where "ink k dx dy = bit (tiles ! (v k mod 2 ^ ?s)) (63 - (dx + 8 * dy))" for k dx dy :: nat
  define on where "on p = (\<exists>k<?n. \<exists>dx<8. \<exists>dy<8. p = covers c (indices ! k) dx dy \<and> ink k dx dy)" for p
  define symbols where "symbols = map (\<lambda>p. of_bool (on p) :: u8) [0..<image_size_x c * image_size_y c]"
  define rc where "rc r pos = (case map_of f (pd_x pos, pd_y pos) of Some x \<Rightarrow> x div 2 ^ ?s | None \<Rightarrow> 0)" for r :: CimbReader and pos :: PositionData
  have pixel: "bit (symbols ! covers c (indices ! k) dx dy) 0 \<longleftrightarrow> ink k dx dy" if "k < ?n" "dx < 8" "dy < 8" for k dx dy
  proof -
    have ki: "indices ! k < ?n" using ix that by blast
    have "covers c (indices ! k) dx dy < image_size_x c * image_size_y c"
      using position_in_image [OF fits(2) ki that(2,3)] by (simp add: covers_def)
    then have "bit (symbols ! covers c (indices ! k) dx dy) 0 \<longleftrightarrow> on (covers c (indices ! k) dx dy)" by (simp add: symbols_def)
    also have "\<dots> \<longleftrightarrow> ink k dx dy"
    proof
      assume "on (covers c (indices ! k) dx dy)"
      then obtain k' dx' dy' where o: "k' < ?n" "dx' < 8" "dy' < 8" "covers c (indices ! k) dx dy = covers c (indices ! k') dx' dy'" "ink k' dx' dy'"
        unfolding on_def by blast
      have ki': "indices ! k' < ?n" using ix o(1) by blast
      have u: "indices ! k = indices ! k' \<and> dx = dx' \<and> dy = dy'" by (rule covers_unique [OF fits(2) g ki ki' that(2,3) o(2,3,4)])
      then have "k = k'" using ix [OF that(1)] ix [OF o(1)] by metis
      then show "ink k dx dy" using o(5) u by simp
    qed (use that in \<open>auto simp: on_def\<close>)
    finally show ?thesis .
  qed
  have mo: "map_of f (?ps ! (indices ! k)) = Some (v k)" if "k < ?n" for k
  proof -
    have "map fst f = map (\<lambda>k. ?ps ! (indices ! k)) [0..<?n]" by (simp add: fv o_def)
    moreover have "inj_on (\<lambda>k. ?ps ! (indices ! k)) (set [0..<?n])" using keys by (auto intro!: inj_onI)
    ultimately have "distinct (map fst f)" by (simp add: distinct_map)
    then show ?thesis using that by (intro map_of_is_SomeI) (auto simp: fv)
  qed
  have rcl: "rc r p < 2 ^ color_bits c" for r p
  proof -
    have "x div 2 ^ ?s < 2 ^ color_bits c" if "x < 2 ^ bits_per_cell c" for x :: nat
      using that unfolding fits(3) power_add by (rule less_mult_imp_div_less)
    moreover have "x < 2 ^ bits_per_cell c" if "map_of f q = Some x" for q x
      using map_of_SomeD [OF that] frame_value_less [OF fits(3)] by (auto simp: fv v_def)
    ultimately show ?thesis by (auto simp: rc_def split: option.split)
  qed
  have "shows_paste c symbols tiles rc paste" if p: "paste \<in> set f" for paste
  proof -
    obtain k where k: "k < ?n" "paste = (?ps ! (indices ! k), v k)" using p fv by auto
    then show ?thesis using pixel [OF k(1)] mo [OF k(1)] by (auto simp: shows_paste_def cell_shown_def rc_def ink_def covers_def)
  qed
  then have "shows_frame c tiles f (symbols, rc, replicate ?n first_top)"
    using rcl first_top_ok by (auto simp: shows_frame_def symbols_def pick_ok_def)
  then show ?thesis by blast
qed

lemma modes_spacing: "\<not> legacy_mode (temp_conf m) \<Longrightarrow> 8 \<le> fst (conf_sp (temp_conf m)) \<and> 8 \<le> snd (conf_sp (temp_conf m))"
  using temp_conf_cases [of m] by (auto simp: temp_conf_def conf_eval conf_sp_def)

text \<open>The frames of the sender, in a mode that is not a legacy mode.\<close>

lemma sender_frames:
  assumes "\<not> legacy_mode (temp_conf m)" "fountain_chunk_size (temp_conf m) 0 = Some B" "wirehair_encoder_create api data (B - 6) = Some codec"
    and "enc_fits api codec (B - 6)" "\<forall>b. full_block api codec (B - 6) b \<or> full_block api codec (B - 6) (b + 1)"
    and "B - 6 < length data" "length data < 2 ^ 25" "0 < N" "120 * N \<le> 2 ^ 16"
  shows "\<exists>n k k' fs bss st. frame_ok (temp_conf m) B n k k' \<and>
    encode_fountain mem api (temp_conf m) will_it_scan on_frame N (fes_create api data B e) = Some (fs, st) \<and>
    frames_carry (temp_conf m) mem api codec (e AND 0x7F) data B n 0 fs bss \<and> ((\<forall>f i. on_frame f i) \<longrightarrow> length fs = N)"
proof -
  let ?c = "temp_conf m" and ?s = "fes_create api data B e"
  have ok: "separate_ok ?c" by (rule modes_separate_ok [OF assms(1)])
  obtain B' n k k' where "frame_ok ?c B' n k k'" using modes_frame_ok [OF assms(1)] by blast
  then have fo: "frame_ok ?c B n k k'" "50 \<le> B" "B < 2 ^ 16" "n \<le> 12" using assms(2) by (auto simp: frame_ok_def)
  have "uint_sub B 6 = B - 6" using fo by (intro uint_sub_le) simp_all
  then have wf: "fes_wf api codec (e AND 0x7F) data B ?s"
    using assms(3-7) fo by (simp add: fes_wf_def fes_create_def FountainEncoder_create_def)
  have p: "pending ?s = []" "fes_block ?s = 0" using fo by (simp_all add: pending_def fes_create_def)
  have "2 * n * (5 * N) \<le> 2 * 12 * (5 * N)" using fo(4) by (intro mult_right_mono) simp_all
  then have bound: "fes_block ?s + 2 * n * (5 * (N - 0) - 0) \<le> 2 ^ 16" using assms(9) unfolding p(2) diff_zero by linarith
  have five: "(0 :: nat) < 5" by simp
  obtain fs bss st where "encode_fountain_loop (next_frame mem api ?c) will_it_scan on_frame N 0 0 ?s = Some (fs, st)"
    "frames_carry ?c mem api codec (e AND 0x7F) data B n (fes_block ?s) fs bss" "(\<forall>f i. on_frame f i) \<longrightarrow> length fs = N - 0"
    using encode_loop_carries [OF ok fo(1) wf p(1) le0 five bound, of mem will_it_scan on_frame] by (elim exE conjE) (rule that)
  then show ?thesis using fo(1) p(2) assms(8) by (intro exI [of _ n] exI [of _ k] exI [of _ k'] exI [of _ fs] exI [of _ bss] exI [of _ st])
    (simp add: encode_fountain_def)
qed

lemma frames_deliver:
  assumes "\<not> legacy_mode (temp_conf m)" "fountain_chunk_size (temp_conf m) 0 = Some B"
    and "wirehair_sound api" "wirehair_encoder_create api data (B - 6) = Some codec"
    and "wirehair_decoder_create api (length data) (B - 6) = Some d" "enc_fits api codec (B - 6)"
    and "\<forall>b. full_block api codec (B - 6) b \<or> full_block api codec (B - 6) (b + 1)"
    and "B - 6 < length data" "length data < 2 ^ 25" "distinct tiles" "length tiles = 2 ^ symbol_bits (temp_conf m)" "0 < N" "120 * N \<le> 2 ^ 16"
  shows "\<exists>fs bss st. let c = temp_conf m in encode_fountain mem api c will_it_scan on_frame N (fes_create api data B e) = Some (fs, st) \<and>
    ((\<forall>f i. on_frame f i) \<longrightarrow> length fs = N) \<and> length bss = length fs \<and> (\<forall>bs\<in>set bss. length bs = fountain_chunks_per_frame c 0) \<and>
    sorted_wrt (<) (concat bss) \<and> (\<forall>b\<in>set (concat bss). b < 2 ^ 16) \<and> (\<forall>f\<in>set fs. \<exists>display. shows_frame c tiles f display) \<and>
    (\<forall>js displays. list_all2 (\<lambda>j d. j < length fs \<and> shows_frame c tiles (fs ! j) d) js displays \<longrightarrow>
      (\<exists>s io'. receive mem api junk (Some store) c tiles displays (sink_create B, io) = Some (s, io') \<and>
        (if transfer_done api codec (B - 6) {} d (concat (map ((!) bss) js))
         then io' = snd (store (get_filename (file_md (e AND 0x7F) data)) data io) else io' = io)))"
proof -
  let ?c = "temp_conf m" and ?e = "e AND 0x7F" and ?s = "fes_create api data B e"
  let ?chunk = "chunk_of api codec ?e (length data) (B - 6)"
  have ok: "separate_ok ?c" by (rule modes_separate_ok [OF assms(1)])
  obtain n k k' fs bss st where L: "frame_ok ?c B n k k'" "encode_fountain mem api ?c will_it_scan on_frame N ?s = Some (fs, st)"
    "frames_carry ?c mem api codec ?e data B n 0 fs bss" "(\<forall>f i. on_frame f i) \<longrightarrow> length fs = N"
    using sender_frames [OF assms(1,2,4,6-9,12,13), of mem will_it_scan on_frame e] by (elim exE conjE) (rule that)
  have fo: "50 \<le> B" "B < 2 ^ 16" "fountain_chunks_per_frame ?c 0 = n" using L(1) by (simp_all add: frame_ok_def)
  note C = L(3) [unfolded frames_carry_def]
  have len: "length bss = length fs" using C list_all2_lengthD by metis
  have fb: "full_block api codec (B - 6) b \<and> b < 2 ^ 16" if "j < length fs" "b \<in> set (bss ! j)" for j b using C that len by auto
  have fs: "\<forall>j<length fs. frame_carries ?c mem api ?chunk (fs ! j) (bss ! j) \<and> length (bss ! j) = n \<and> (\<forall>b\<in>set (bss ! j). length (?chunk b) = B)"
    using C len fb fo(1) by (auto simp: list_all2_conv_all_nth chunk_of_def full_block_def)
  have "\<exists>display. shows_frame ?c tiles f display" if "f \<in> set fs" for f
    using fs that frame_can_be_shown [OF ok modes_spacing [OF assms(1), THEN conjunct1] modes_spacing [OF assms(1), THEN conjunct2]]
    unfolding in_set_conv_nth by blast
  moreover have api: "recover_fits api" using assms(3) by (simp add: wirehair_sound_def)
  have sc: "sink_inv (sink_create B)" "sk_chunkSize (sink_create B) = B" using fo by (simp_all add: sink_create_inv) (simp add: sink_create_def)
  have "\<exists>s io'. receive mem api junk (Some store) ?c tiles displays (sink_create B, io) = Some (s, io') \<and>
      (if transfer_done api codec (B - 6) {} d (concat (map ((!) bss) js))
       then io' = snd (store (get_filename (file_md ?e data)) data io) else io' = io)"
    if js: "list_all2 (\<lambda>j d. j < length fs \<and> shows_frame ?c tiles (fs ! j) d) js displays" for js displays
  proof -
    have r: "receive mem api junk (Some store) ?c tiles displays (sink_create B, io) =
        sink_run api junk (Some store) (map ?chunk (concat (map ((!) bss) js))) (sink_create B, io)"
      by (rule receive_run [OF ok L(1) modes_image [THEN conjunct1] modes_image [THEN conjunct2] assms(10,11) api fs js sc])
    have "j < length fs" if "j \<in> set js" for j using js that by (auto simp: list_all2_conv_all_nth in_set_conv_nth)
    then have ns: "\<forall>b\<in>set (concat (map ((!) bss) js)). full_block api codec (B - 6) b \<and> b < 2 ^ 16" using fb by auto
    have B6: "B - 6 + 6 = B" "44 \<le> B - 6" "B - 6 + 6 < 2 ^ 32" using fo by simp_all
    have B7: "0 < length data" by (rule le_less_trans [OF le0 assms(8)])
    show ?thesis
      using transfer_from_fresh [OF assms(3,4,5) B7 assms(9) B6(2,3) ns, of junk store ?e io] unfolding r B6(1) by (auto split: if_splits)
  qed
  ultimately show ?thesis using L(2,4) len C fo(3) unfolding Let_def by (intro exI [of _ fs] exI [of _ bss] exI [of _ st]) simp
qed

text \<open>C8: sender and receiver. From any file that wirehair takes, the sender paints frames with disjoint sets of
  blocks, each frame the same number of them and none above the 16 bits of a header, and every frame can be displayed.
  A receiver that is shown any of the frames, in any order and with any repetitions, calls the store callback exactly
  when wirehair reports success on the blocks of the frames it saw, and then with the bytes of the file.\<close>

theorem file_over_frames:
  assumes "\<not> legacy_mode (temp_conf m)" "fountain_chunk_size (temp_conf m) 0 = Some B"
    and "wirehair_sound api" "wirehair_encoder_create api data (B - 6) = Some codec"
    and "wirehair_decoder_create api (length data) (B - 6) = Some d" "enc_fits api codec (B - 6)"
    and "\<forall>b. full_block api codec (B - 6) b \<or> full_block api codec (B - 6) (b + 1)"
    and "B - 6 < length data" "length data < 2 ^ 25" "distinct tiles" "length tiles = 2 ^ symbol_bits (temp_conf m)" "0 < N" "120 * N \<le> 2 ^ 16"
  shows "\<exists>fs bss st. let c = temp_conf m in encode_fountain mem api c will_it_scan on_frame N (fes_create api data B e) = Some (fs, st) \<and>
    ((\<forall>f i. on_frame f i) \<longrightarrow> length fs = N) \<and> length bss = length fs \<and> (\<forall>bs\<in>set bss. length bs = fountain_chunks_per_frame c 0) \<and>
    sorted_wrt (<) (concat bss) \<and> (\<forall>b\<in>set (concat bss). b < 2 ^ 16) \<and> (\<forall>f\<in>set fs. \<exists>display. shows_frame c tiles f display) \<and>
    (\<forall>js displays. list_all2 (\<lambda>j d. j < length fs \<and> shows_frame c tiles (fs ! j) d) js displays \<longrightarrow>
      (\<exists>s io'. receive mem api junk (Some store) c tiles displays (sink_create B, io) = Some (s, io') \<and>
        (if transfer_done api codec (B - 6) {} d (concat (map ((!) bss) js))
         then io' = snd (store (get_filename (file_md (e AND 0x7F) data)) data io) else io' = io)))"
  by (rule frames_deliver [OF assms])

text \<open>A code for the witness: it takes the messages of one repeated byte, and any block tells which byte it is.\<close>

definition run_code :: "(u8, u8) wirehair" where
  "run_code = \<lparr>wirehair_init = Wirehair_Success,
     wirehair_encoder_create = (\<lambda>m p. if 0 < p \<and> m = replicate (length m) (hd m) then Some (hd m) else None),
     wirehair_encode = (\<lambda>x b p. (Wirehair_Success, replicate p x)),
     wirehair_decoder_create = (\<lambda>n p. Some 0),
     wirehair_decode = (\<lambda>d b x. (Wirehair_Success, hd x)),
     wirehair_recover = (\<lambda>d n. (Wirehair_Success, replicate n d))\<rparr>"

lemma run_code_sound: "wirehair_sound run_code"
  unfolding wirehair_sound_def
proof (intro conjI allI impI)
  show "recover_fits run_code" by (simp add: recover_fits_def run_code_def)
  fix m p codec d bs b x
  assume h: "wirehair_encoder_create run_code m p = Some codec \<and> wirehair_decoder_create run_code (length m) p = Some d \<and>
    distinct (map fst (bs @ [(b, x)])) \<and>
    (\<forall>(b, x) \<in> set (bs @ [(b, x)]). full_block run_code codec p b \<and> x = snd (wirehair_encode run_code codec b p)) \<and>
    fst (wirehair_decode run_code (feed_blocks run_code bs d) b x) = Wirehair_Success"
  have "feed_blocks run_code (bs @ [(b, x)]) d = codec" using h by (auto simp: feed_blocks_def run_code_def split: if_splits)
  then show "wirehair_recover run_code (feed_blocks run_code (bs @ [(b, x)]) d) (length m) = (Wirehair_Success, m)"
    using h by (auto simp: run_code_def split: if_splits)
qed

theorem file_over_frames_witness:
  "\<exists>f st display s. encode_fountain (\<lambda>_ _. 0) run_code (temp_conf 66) (\<lambda>_. True) (\<lambda>_ _. True) 1 (fes_create run_code (replicate 600 7) 540 9) = Some ([f], st) \<and>
    shows_frame (temp_conf 66) (map of_nat [0..<16]) f display \<and>
    receive (\<lambda>_ _. 0) run_code Wirehair_Error (Some (\<lambda>name bytes log. (name, log @ [bytes]))) (temp_conf 66) (map of_nat [0..<16]) [display] (sink_create 540, []) =
      Some (s, [replicate 600 7])"
proof -
  let ?c = "temp_conf 66" and ?tiles = "map of_nat [0..<16] :: u64 list" and ?m = "replicate 600 7 :: u8 list"
  have ev: "\<not> legacy_mode ?c" "fountain_chunk_size ?c 0 = Some 540" "symbol_bits ?c = 4" "fountain_chunks_per_frame ?c 0 = 6"
    using modes_frame_ok [of 66] by (simp_all add: temp_conf_def conf_eval)
  have code: "wirehair_encoder_create run_code ?m (540 - 6) = Some 7" "wirehair_decoder_create run_code (length ?m) (540 - 6) = Some 0"
    "enc_fits run_code 7 (540 - 6)" "\<forall>b. full_block run_code 7 (540 - 6) b \<or> full_block run_code 7 (540 - 6) (b + 1)"
    by (simp_all add: run_code_def enc_fits_def full_block_def)
  have n: "540 - 6 < length ?m" "length ?m < 2 ^ 25" "distinct ?tiles" "length ?tiles = 2 ^ symbol_bits ?c" "(0 :: nat) < 1" "120 * 1 \<le> (2 ^ 16 :: nat)"
    by (simp_all add: ev upt_rec)
  obtain fs bss st where F: "encode_fountain (\<lambda>_ _. 0) run_code ?c (\<lambda>_. True) (\<lambda>_ _. True) 1 (fes_create run_code ?m 540 9) = Some (fs, st)"
    "length fs = 1" "length bss = length fs" "\<forall>bs\<in>set bss. length bs = 6" "\<forall>f\<in>set fs. \<exists>display. shows_frame ?c ?tiles f display"
    "\<forall>js displays. list_all2 (\<lambda>j d. j < length fs \<and> shows_frame ?c ?tiles (fs ! j) d) js displays \<longrightarrow>
      (\<exists>s io'. receive (\<lambda>_ _. 0) run_code Wirehair_Error (Some (\<lambda>name bytes log. (name, log @ [bytes]))) ?c ?tiles displays (sink_create 540, []) = Some (s, io') \<and>
        (if transfer_done run_code 7 (540 - 6) {} 0 (concat (map ((!) bss) js)) then io' = [] @ [?m] else io' = []))"
    using file_over_frames [OF ev(1,2) run_code_sound code n, of "\<lambda>_ _. 0" "\<lambda>_. True" "\<lambda>_ _. True" 9 Wirehair_Error "\<lambda>name bytes log. (name, log @ [bytes])" "[]"]
    unfolding Let_def ev(4) snd_conv simp_thms by (elim exE conjE) (rule that)
  obtain f where f: "fs = [f]" using F(2) by (cases fs) auto
  obtain b bs where b: "bss ! 0 = b # bs" using F(2,3,4) by (cases bss) (auto simp: length_Suc_conv numeral_eq_Suc)
  obtain display where d: "shows_frame ?c ?tiles f display" using F(5) f by auto
  have "transfer_done run_code 7 (540 - 6) {} 0 (concat (map ((!) bss) [0]))" by (simp add: b run_code_def)
  then obtain s where "receive (\<lambda>_ _. 0) run_code Wirehair_Error (Some (\<lambda>name bytes log. (name, log @ [bytes]))) ?c ?tiles [display] (sink_create 540, []) =
      Some (s, [?m])" using F(6) [rule_format, of "[0]" "[display]"] d f by auto
  then show ?thesis using F(1) d unfolding f by blast
qed

end
