(* ===== verification/Receiver.thy ===== *)
theory Receiver
  imports GridConfig ObservedSink Floats "HOL-Library.Multiset"
begin

text \<open>
  \<open>MultiThreadedDecoder.h\<close> and the receiver of \<open>jni.cpp\<close>: camera frames are handed to a pool of workers, each is
  searched for its corners, straightened and decoded into the shared sink, and the mode is found out when the
  user did not choose one. A step is one access to shared state by one thread; what a worker does with its own image is a
  parameter, and the bytes a frame decodes to are any number (none when straightening gives no image). Whether the tracked corner box is recent enough is a choice of the step. The pool itself and the
  sink are in \<open>ThreadPool\<close> and \<open>ObservedSink\<close>.
\<close>

section \<open>Frames and their corners\<close>

record cv_rect =
  rc_x :: int
  rc_y :: int
  rc_width :: int
  rc_height :: int

record 'img cv_frame =
  fr_image :: 'img
  fr_cols :: int
  fr_rows :: int

definition full_roi :: "'img cv_frame \<Rightarrow> cv_rect" where
  "full_roi f = \<lparr>rc_x = 0, rc_y = 0, rc_width = fr_cols f, rc_height = fr_rows f\<rparr>"

text \<open>What is OpenCV or the scanner: the corners found in a rectangle of an image, with or without the fast threshold, the
  bounding box of points and the intersection of rectangles, which lies in both.\<close>

record 'img vision =
  vi_scan :: "'img \<Rightarrow> cv_rect \<Rightarrow> bool \<Rightarrow> (int \<times> int) list"
  vi_bounding :: "(int \<times> int) list \<Rightarrow> cv_rect"
  vi_rect_and :: "cv_rect \<Rightarrow> cv_rect \<Rightarrow> cv_rect"

definition roi_inside :: "int \<times> int \<Rightarrow> cv_rect \<Rightarrow> bool" where
  "roi_inside sz a \<longleftrightarrow> 0 \<le> rc_x a \<and> 0 \<le> rc_y a \<and> 0 \<le> rc_width a \<and> 0 \<le> rc_height a \<and> rc_x a + rc_width a \<le> fst sz \<and>
     rc_y a + rc_height a \<le> snd sz"

definition intersects :: "'img vision \<Rightarrow> bool" where
  "intersects vi \<longleftrightarrow> (\<forall>a w h. 0 \<le> w \<and> 0 \<le> h \<longrightarrow>
     roi_inside (w, h) (vi_rect_and vi a \<lparr>rc_x = 0, rc_y = 0, rc_width = w, rc_height = h\<rparr>))"

definition tracked_box :: "'img vision \<Rightarrow> 'img cv_frame \<Rightarrow> cv_rect \<Rightarrow> (int \<times> int) list \<Rightarrow> cv_rect" where
  "tracked_box vi f roi corners = (let box = vi_bounding vi corners; pad = max 60 (max (rc_width box) (rc_height box) div 5) in
     vi_rect_and vi \<lparr>rc_x = rc_x box + rc_x roi - pad, rc_y = rc_y box + rc_y roi - pad, rc_width = rc_width box + pad * 2,
       rc_height = rc_height box + pad * 2\<rparr> (full_roi f))"

definition search_corners :: "'img vision \<Rightarrow> 'img cv_frame \<Rightarrow> u32 \<Rightarrow> cv_rect \<Rightarrow> cv_rect \<times> (int \<times> int) list" where
  "search_corners vi f sequence roi =
     (let anchors = vi_scan vi (fr_image f) roi True;
        (roi, anchors) = (if length anchors < 4 \<and> rc_width roi * rc_height roi < fr_cols f * fr_rows f
          then (full_roi f, vi_scan vi (fr_image f) (full_roi f) True) else (roi, anchors));
        anchors = (if length anchors < 4 \<and> unat sequence mod 6 = 0 then vi_scan vi (fr_image f) roi False else anchors)
      in (roi, anchors))"

text \<open>The corners in parts of the image, in single precision.\<close>

definition frame_points :: "'img cv_frame \<Rightarrow> cv_rect \<Rightarrow> (int \<times> int) list \<Rightarrow> rat list" where
  "frame_points f roi anchors =
     (if length anchors < 4 then replicate 8 0
      else concat (map (\<lambda>(x, y). [fl 24 (fl 24 (fl 24 (of_int x) + fl 24 (of_int (rc_x roi))) / fl 24 (of_int (fr_cols f))),
        fl 24 (fl 24 (fl 24 (of_int y) + fl 24 (of_int (rc_y roi))) / fl 24 (of_int (fr_rows f)))]) (take 4 anchors)))"

section \<open>The decoder\<close>

record 'img frame_task =
  ft_frame :: "'img cv_frame"
  ft_mode :: int
  ft_sequence :: u32

text \<open>Where a call of \<open>add\<close> is, and where the task of a worker is.\<close>

datatype 'img add_call = Counted u32 | Refused | Admitted u32 | Cloned "'img frame_task"

datatype phase = Started cv_rect | Searched cv_rect "(int \<times> int) list" | Located cv_rect "(int \<times> int) list" | Correcting cv_rect "(int \<times> int) list"
  | Decoded cv_rect "(int \<times> int) list" | Detecting cv_rect "(int \<times> int) list" | Tracking cv_rect "(int \<times> int) list" | Leaving

type_synonym geometry = "u32 \<times> nat \<times> int \<times> int \<times> rat list"

text \<open>The last component is a history: the geometries that the tasks reported.\<close>

record 'img MultiThreadedDecoder =
  md_mode :: int
  md_detected :: int
  md_submitted :: u32
  md_scanned :: u32
  md_located :: u32
  md_decoded :: u32
  md_processingErrors :: u32
  md_geometrySequence :: u32
  md_anchors :: nat
  md_width :: int
  md_height :: int
  md_points :: "rat list"
  md_trackedRoi :: cv_rect
  md_trackedSize :: "int \<times> int"
  md_trackedSequence :: u32
  md_inflight :: nat
  md_chunk_size :: nat
  md_directory :: string
  md_workers :: nat
  md_calls :: "'img add_call multiset"
  md_queue :: "'img frame_task multiset"
  md_tasks :: "('img frame_task \<times> phase) multiset"
  md_reports :: "geometry list"

definition mode_chunk_size :: "int \<Rightarrow> nat option" where
  "mode_chunk_size mode = fountain_chunk_size (temp_conf mode) 0"

definition MultiThreadedDecoder_create :: "nat \<Rightarrow> string \<Rightarrow> int \<Rightarrow> 'img MultiThreadedDecoder option" where
  "MultiThreadedDecoder_create hardware_concurrency path mode = do {
     chunk \<leftarrow> mode_chunk_size mode;
     Some \<lparr>md_mode = mode, md_detected = 0, md_submitted = 0, md_scanned = 0, md_located = 0, md_decoded = 0, md_processingErrors = 0,
       md_geometrySequence = 0, md_anchors = 0, md_width = 0, md_height = 0, md_points = replicate 8 0,
       md_trackedRoi = \<lparr>rc_x = 0, rc_y = 0, rc_width = 0, rc_height = 0\<rparr>, md_trackedSize = (0, 0), md_trackedSequence = 0, md_inflight = 0,
       md_chunk_size = sk_chunkSize (sink_create chunk :: unit fountain_decoder_sink), md_directory = path,
       md_workers = max 1 (min 4 (hardware_concurrency div 2)), md_calls = {#}, md_queue = {#}, md_tasks = {#}, md_reports = []\<rparr>
   }"

definition set_mode :: "int \<Rightarrow> 'img MultiThreadedDecoder \<Rightarrow> (bool \<times> 'img MultiThreadedDecoder) option" where
  "set_mode mode r = do {
     chunk \<leftarrow> mode_chunk_size mode;
     Some (if mode \<noteq> 0 \<and> md_chunk_size r \<noteq> chunk then (False, r)
       else (True, r\<lparr>md_mode := mode, md_detected := (if mode = 0 then 0 else md_detected r)\<rparr>))
   }"

text \<open>The mode of a frame: without a chosen one they take turns.\<close>

definition frame_mode :: "int \<Rightarrow> u32 \<Rightarrow> int" where
  "frame_mode mode sequence = (if mode = 0 then [68, 67, 66, 4] ! (unat (sequence - 1) mod 4) else mode)"

definition admits :: "'img MultiThreadedDecoder \<Rightarrow> bool" where
  "admits r \<longleftrightarrow> \<not> md_workers r + 1 \<le> md_inflight r"

definition start_roi :: "bool \<Rightarrow> 'img MultiThreadedDecoder \<Rightarrow> 'img cv_frame \<Rightarrow> cv_rect" where
  "start_roi recent r f = (if md_trackedSize r = (fr_cols f, fr_rows f) \<and> recent then md_trackedRoi r else full_roi f)"

definition geometry_of :: "'img frame_task \<Rightarrow> cv_rect \<Rightarrow> (int \<times> int) list \<Rightarrow> geometry" where
  "geometry_of t roi anchors = (ft_sequence t, min 4 (length anchors), fr_cols (ft_frame t), fr_rows (ft_frame t), frame_points (ft_frame t) roi anchors)"

definition report_geometry :: "geometry \<Rightarrow> 'img MultiThreadedDecoder \<Rightarrow> 'img MultiThreadedDecoder" where
  "report_geometry g r = (case g of (sequence, n, w, h, points) \<Rightarrow>
     (if md_geometrySequence r \<le> sequence
      then r\<lparr>md_geometrySequence := sequence, md_anchors := n, md_width := w, md_height := h, md_points := points\<rparr> else r)
     \<lparr>md_reports := md_reports r @ [g]\<rparr>)"

definition track_frame :: "'img vision \<Rightarrow> 'img frame_task \<Rightarrow> cv_rect \<Rightarrow> (int \<times> int) list \<Rightarrow> 'img MultiThreadedDecoder \<Rightarrow> 'img MultiThreadedDecoder" where
  "track_frame vi t roi anchors r =
     (if md_trackedSequence r \<le> ft_sequence t
      then r\<lparr>md_trackedSequence := ft_sequence t, md_trackedSize := (fr_cols (ft_frame t), fr_rows (ft_frame t)),
        md_trackedRoi := tracked_box vi (ft_frame t) roi (take 4 anchors)\<rparr> else r)"

definition move_call :: "'img add_call \<Rightarrow> 'img add_call multiset \<Rightarrow> 'img MultiThreadedDecoder \<Rightarrow> 'img MultiThreadedDecoder" where
  "move_call c cs r = r\<lparr>md_calls := md_calls r - {#c#} + cs\<rparr>"

definition move_task :: "'img frame_task \<Rightarrow> phase \<Rightarrow> phase \<Rightarrow> 'img MultiThreadedDecoder \<Rightarrow> 'img MultiThreadedDecoder" where
  "move_task t p q r = r\<lparr>md_tasks := add_mset (t, q) (md_tasks r - {#(t, p)#})\<rparr>"

text \<open>The steps of \<open>add\<close>.\<close>

inductive add_step :: "'img MultiThreadedDecoder \<Rightarrow> 'img MultiThreadedDecoder \<Rightarrow> bool" where
  count: "add_step r (r\<lparr>md_submitted := md_submitted r + 1, md_calls := add_mset (Counted (md_submitted r + 1)) (md_calls r)\<rparr>)"
| refuse: "Counted q \<in># md_calls r \<Longrightarrow> \<not> admits r \<Longrightarrow> add_step r (move_call (Counted q) {#Refused#} (r\<lparr>md_inflight := md_inflight r + 1\<rparr>))"
| back_out: "Refused \<in># md_calls r \<Longrightarrow> add_step r (move_call Refused {#} (r\<lparr>md_inflight := md_inflight r - 1\<rparr>))"
| admit: "Counted q \<in># md_calls r \<Longrightarrow> admits r \<Longrightarrow> add_step r (move_call (Counted q) {#Admitted q#} (r\<lparr>md_inflight := md_inflight r + 1\<rparr>))"
| clone: "Admitted q \<in># md_calls r \<Longrightarrow> 0 \<le> fr_cols f \<Longrightarrow> 0 \<le> fr_rows f \<Longrightarrow>
    add_step r (move_call (Admitted q) {#Cloned \<lparr>ft_frame = f, ft_mode = frame_mode (md_mode r) q, ft_sequence = q\<rparr>#} r)"
| clone_throws: "Admitted q \<in># md_calls r \<Longrightarrow>
    add_step r (move_call (Admitted q) {#} (r\<lparr>md_inflight := md_inflight r - 1, md_processingErrors := md_processingErrors r + 1\<rparr>))"
| execute: "Cloned t \<in># md_calls r \<Longrightarrow> add_step r (move_call (Cloned t) {#} (r\<lparr>md_queue := add_mset t (md_queue r)\<rparr>))"
| queue_full: "Cloned t \<in># md_calls r \<Longrightarrow> add_step r (move_call (Cloned t) {#} (r\<lparr>md_inflight := md_inflight r - 1\<rparr>))"

text \<open>The steps of a task.\<close>

inductive task_step :: "'img vision \<Rightarrow> 'img MultiThreadedDecoder \<Rightarrow> 'img MultiThreadedDecoder \<Rightarrow> bool" for vi :: "'img vision" where
  start: "t \<in># md_queue r \<Longrightarrow> size (md_tasks r) < md_workers r \<Longrightarrow> task_step vi r
    (r\<lparr>md_queue := md_queue r - {#t#}, md_tasks := add_mset (t, Started (start_roi recent r (ft_frame t))) (md_tasks r)\<rparr>)"
| search: "(t, Started roi) \<in># md_tasks r \<Longrightarrow> search_corners vi (ft_frame t) (ft_sequence t) roi = (roi', anchors) \<Longrightarrow>
    task_step vi r (move_task t (Started roi) (Searched roi' anchors) (r\<lparr>md_scanned := md_scanned r + 1\<rparr>))"
| report: "(t, Searched roi anchors) \<in># md_tasks r \<Longrightarrow> task_step vi r
    (move_task t (Searched roi anchors) (if length anchors < 4 then Leaving else Located roi anchors)
      (report_geometry (geometry_of t roi anchors) r))"
| locate: "(t, Located roi anchors) \<in># md_tasks r \<Longrightarrow> task_step vi r
    (move_task t (Located roi anchors) (Correcting roi anchors) (r\<lparr>md_located := md_located r + 1\<rparr>))"
| decode: "(t, Correcting roi anchors) \<in># md_tasks r \<Longrightarrow> task_step vi r
    (move_task t (Correcting roi anchors) (if bytes = (0 :: nat) then Leaving else Decoded roi anchors) r)"
| decoded: "(t, Decoded roi anchors) \<in># md_tasks r \<Longrightarrow> task_step vi r
    (move_task t (Decoded roi anchors) (if md_mode r = 0 then Detecting roi anchors else Tracking roi anchors)
      (r\<lparr>md_decoded := md_decoded r + 1\<rparr>))"
| detect: "(t, Detecting roi anchors) \<in># md_tasks r \<Longrightarrow> task_step vi r
    (move_task t (Detecting roi anchors) (Tracking roi anchors) (r\<lparr>md_detected := ft_mode t\<rparr>))"
| track: "(t, Tracking roi anchors) \<in># md_tasks r \<Longrightarrow> task_step vi r
    (move_task t (Tracking roi anchors) Leaving (track_frame vi t roi anchors r))"
| throw: "(t, p) \<in># md_tasks r \<Longrightarrow> p \<noteq> Leaving \<Longrightarrow> task_step vi r
    (move_task t p Leaving (r\<lparr>md_processingErrors := md_processingErrors r + 1\<rparr>))"
| release: "(t, Leaving) \<in># md_tasks r \<Longrightarrow> task_step vi r
    (r\<lparr>md_tasks := md_tasks r - {#(t, Leaving)#}, md_inflight := md_inflight r - 1\<rparr>)"

section \<open>The receiver of the application\<close>

record 'img app =
  ap_receiver :: "'img MultiThreadedDecoder option"
  ap_requestedMode :: int

definition app_create :: "'img app" where
  "app_create = \<lparr>ap_receiver = None, ap_requestedMode = - 1\<rparr>"

text \<open>\<open>submit\<close> up to the call of \<open>add\<close>. \<open>None\<close> for the directory is a null string.\<close>

definition valid_submit :: "nat \<Rightarrow> string option \<Rightarrow> int \<Rightarrow> bool" where
  "valid_submit address directory mode \<longleftrightarrow> address \<noteq> 0 \<and> directory \<noteq> None \<and> mode \<in> {0, 4, 66, 67, 68}"

definition switch_receiver :: "nat \<Rightarrow> string \<Rightarrow> int \<Rightarrow> 'img MultiThreadedDecoder \<Rightarrow> 'img MultiThreadedDecoder option" where
  "switch_receiver hardware_concurrency path mode r = do {
     (ok, r) \<leftarrow> set_mode mode r;
     if ok then Some r else MultiThreadedDecoder_create hardware_concurrency path mode
   }"

definition select_receiver :: "nat \<Rightarrow> string \<Rightarrow> int \<Rightarrow> 'img app \<Rightarrow> 'img app option" where
  "select_receiver hardware_concurrency path mode app = do {
     receiver \<leftarrow> (case ap_receiver app of None \<Rightarrow> MultiThreadedDecoder_create hardware_concurrency path mode
       | Some r \<Rightarrow> if ap_requestedMode app \<noteq> mode then switch_receiver hardware_concurrency path mode r else Some r);
     receiver \<leftarrow> (if mode = 0 \<and> md_mode receiver = 0 \<and> md_detected receiver \<noteq> 0
       then switch_receiver hardware_concurrency path (md_detected receiver) receiver else Some receiver);
     Some \<lparr>ap_receiver = Some receiver, ap_requestedMode = mode\<rparr>
   }"

definition jni_submit :: "nat \<Rightarrow> nat \<Rightarrow> string option \<Rightarrow> int \<Rightarrow> 'img app \<Rightarrow> 'img app option" where
  "jni_submit hardware_concurrency address directory mode app =
     (if valid_submit address directory mode then select_receiver hardware_concurrency (the directory) mode app else Some app)"

definition jni_reset :: "'img app \<Rightarrow> 'img app" where
  "jni_reset app = \<lparr>ap_receiver = None, ap_requestedMode = - 1\<rparr>"

inductive app_step :: "nat \<Rightarrow> 'img vision \<Rightarrow> 'img app \<Rightarrow> 'img app \<Rightarrow> bool" for hardware_concurrency :: nat and vi :: "'img vision" where
  submit: "jni_submit hardware_concurrency address directory mode app = Some app' \<Longrightarrow> app_step hardware_concurrency vi app app'"
| reset: "app_step hardware_concurrency vi app (jni_reset app)"
| adding: "ap_receiver app = Some r \<Longrightarrow> add_step r r' \<Longrightarrow> app_step hardware_concurrency vi app (app\<lparr>ap_receiver := Some r'\<rparr>)"
| working: "ap_receiver app = Some r \<Longrightarrow> task_step vi r r' \<Longrightarrow> app_step hardware_concurrency vi app (app\<lparr>ap_receiver := Some r'\<rparr>)"

definition app_reachable :: "nat \<Rightarrow> 'img vision \<Rightarrow> 'img app \<Rightarrow> bool" where
  "app_reachable hardware_concurrency vi = (app_step hardware_concurrency vi)\<^sup>*\<^sup>* app_create"

text \<open>The numbers that are shown; the age of the geometry, the length of the queue and the status of the sink are given.\<close>

definition transfer_progress :: "TransferSnapshot \<Rightarrow> rat" where
  "transfer_progress t = (if ts_total t = 0 then 0
     else min (fl 53 (99 / 100)) (fl 53 (fl 53 (of_nat (ts_received t)) / fl 53 (of_nat (ts_total t)))))"

definition md_snapshot :: "int \<Rightarrow> nat \<Rightarrow> TransferSnapshot \<Rightarrow> 'img MultiThreadedDecoder \<Rightarrow> rat list" where
  "md_snapshot age queued t r =
     [of_nat (unat (md_submitted r)), of_nat (unat (md_scanned r)), of_nat (unat (md_located r)), of_nat (unat (md_decoded r)),
      fl 53 (of_nat (unat (ts_uniqueBytes t))), of_nat (md_anchors r), of_int (md_width r), of_int (md_height r)] @ md_points r @
     [fl 53 (of_int age), transfer_progress t, of_nat (ts_streams t), of_nat (ts_completed t),
      of_int (if md_detected r \<noteq> 0 then md_detected r else md_mode r), of_nat queued, of_nat (ts_errors t), of_nat (ts_total t),
      of_nat (ts_received t), of_nat (unat (md_processingErrors r)), of_bool (ts_finishing t)]"

definition jni_snapshot :: "int \<Rightarrow> nat \<Rightarrow> TransferSnapshot \<Rightarrow> 'img app \<Rightarrow> rat list" where
  "jni_snapshot age queued t app = (case ap_receiver app of None \<Rightarrow> replicate 27 0 | Some r \<Rightarrow> md_snapshot age queued t r)"

text \<open>A transfer that is under way is never shown as complete.\<close>

lemma transfer_progress_less: "transfer_progress t < 1"
proof -
  have "fl 53 (99 / 100) \<le> 99 / 100 + 99 / 100 / 2 ^ 53" using fl_error [of "99 / 100" 53] by linarith
  also have "\<dots> < (1 :: rat)" by simp
  finally have "fl 53 (99 / 100) < 1" .
  then show ?thesis by (simp add: transfer_progress_def min_less_iff_disj)
qed

section \<open>Frames in flight\<close>

fun holds_image :: "'img add_call \<Rightarrow> bool" where
  "holds_image (Admitted q) = True" | "holds_image (Cloned t) = True" | "holds_image _ = False"

definition images_held :: "'img MultiThreadedDecoder \<Rightarrow> nat" where
  "images_held r = size (filter_mset holds_image (md_calls r)) + size (md_queue r) + size (md_tasks r)"

definition flight_inv :: "'img MultiThreadedDecoder \<Rightarrow> bool" where
  "flight_inv r \<longleftrightarrow> md_inflight r = size (filter_mset (\<lambda>c. c = Refused) (md_calls r)) + images_held r \<and>
     images_held r \<le> md_workers r + 1 \<and> size (md_tasks r) \<le> md_workers r \<and> 1 \<le> md_workers r \<and> md_workers r \<le> 4"

lemma flight_add: "add_step r r' \<Longrightarrow> flight_inv r \<Longrightarrow> flight_inv r'"
  by (induction rule: add_step.induct)
    (auto dest!: multi_member_split simp: flight_inv_def images_held_def move_call_def admits_def)

lemma flight_task: "task_step vi r r' \<Longrightarrow> flight_inv r \<Longrightarrow> flight_inv r'"
  by (induction rule: task_step.induct)
    (auto dest!: multi_member_split simp: flight_inv_def images_held_def move_task_def report_geometry_def track_frame_def split: prod.split)

section \<open>Modes and rectangles\<close>

text \<open>A property of all frames on their way through the decoder.\<close>

definition all_tasks :: "('img frame_task \<Rightarrow> bool) \<Rightarrow> 'img MultiThreadedDecoder \<Rightarrow> bool" where
  "all_tasks P r \<longleftrightarrow> (\<forall>c\<in>#md_calls r. \<forall>t. c = Cloned t \<longrightarrow> P t) \<and> (\<forall>t\<in>#md_queue r. P t) \<and> (\<forall>x\<in>#md_tasks r. P (fst x))"

lemma ball_minus: "\<forall>x\<in>#M. P x \<Longrightarrow> \<forall>x\<in>#M - N. P x"
  by (meson in_diffD)

lemma all_tasks_task: "task_step vi r r' \<Longrightarrow> all_tasks P r \<Longrightarrow> all_tasks P r'"
  by (induction rule: task_step.induct)
    (auto simp: all_tasks_def move_task_def report_geometry_def track_frame_def intro!: ball_minus split: prod.split)

definition receiver_modes :: "int set" where
  "receiver_modes = {0, 4, 66, 67, 68}"

definition frame_modes :: "int set" where
  "frame_modes = {4, 66, 67, 68}"

definition modes_inv :: "'img MultiThreadedDecoder \<Rightarrow> bool" where
  "modes_inv r \<longleftrightarrow> md_mode r \<in> receiver_modes \<and> md_detected r \<in> receiver_modes \<and>
     (md_mode r \<noteq> 0 \<longrightarrow> mode_chunk_size (md_mode r) = Some (md_chunk_size r)) \<and> all_tasks (\<lambda>t. ft_mode t \<in> frame_modes) r"

lemma frame_mode_in: "m \<in> receiver_modes \<Longrightarrow> frame_mode m q \<in> frame_modes"
proof -
  assume m: "m \<in> receiver_modes"
  have "unat (q - 1) mod 4 \<in> {0, 1, 2, 3}" by auto
  then show ?thesis using m by (auto simp: frame_mode_def receiver_modes_def frame_modes_def)
qed

lemma modes_add: "add_step r r' \<Longrightarrow> modes_inv r \<Longrightarrow> modes_inv r'"
  by (induction rule: add_step.induct)
    (auto simp: modes_inv_def all_tasks_def move_call_def frame_mode_in intro!: ball_minus)

lemma task_step_modes: "task_step vi r r' \<Longrightarrow> md_mode r' = md_mode r \<and> md_chunk_size r' = md_chunk_size r \<and>
    (md_detected r' = md_detected r \<or> (\<exists>x\<in>#md_tasks r. md_detected r' = ft_mode (fst x)))"
proof (induction rule: task_step.induct)
  case (detect t roi anchors r)
  then show ?case by (force simp: move_task_def)
qed (simp_all add: move_task_def report_geometry_def track_frame_def split: prod.split)

lemma modes_task:
  assumes "task_step vi r r'" "modes_inv r"
  shows "modes_inv r'"
proof -
  have "all_tasks (\<lambda>t. ft_mode t \<in> frame_modes) r'"
    by (rule all_tasks_task [OF assms(1)]) (use assms(2) in \<open>simp add: modes_inv_def\<close>)
  moreover have "md_detected r' \<in> receiver_modes"
    using task_step_modes [OF assms(1)]
  proof (elim conjE disjE bexE)
    fix x assume x: "x \<in># md_tasks r" "md_detected r' = ft_mode (fst x)"
    then have "ft_mode (fst x) \<in> frame_modes" using assms(2) by (simp add: modes_inv_def all_tasks_def)
    then show ?thesis using x(2) by (auto simp: frame_modes_def receiver_modes_def)
  qed (use assms(2) in \<open>simp add: modes_inv_def\<close>)
  ultimately show ?thesis using assms(2) task_step_modes [OF assms(1)] by (simp add: modes_inv_def)
qed

fun phase_roi :: "phase \<Rightarrow> cv_rect option" where
  "phase_roi (Started roi) = Some roi" | "phase_roi (Searched roi _) = Some roi" | "phase_roi (Located roi _) = Some roi"
| "phase_roi (Correcting roi _) = Some roi" | "phase_roi (Decoded roi _) = Some roi" | "phase_roi (Detecting roi _) = Some roi"
| "phase_roi (Tracking roi _) = Some roi" | "phase_roi Leaving = None"

definition frame_size :: "'img frame_task \<Rightarrow> int \<times> int" where
  "frame_size t = (fr_cols (ft_frame t), fr_rows (ft_frame t))"

definition rois_inv :: "'img MultiThreadedDecoder \<Rightarrow> bool" where
  "rois_inv r \<longleftrightarrow> roi_inside (md_trackedSize r) (md_trackedRoi r) \<and> all_tasks (\<lambda>t. 0 \<le> fst (frame_size t) \<and> 0 \<le> snd (frame_size t)) r \<and>
     (\<forall>x\<in>#md_tasks r. \<forall>roi. phase_roi (snd x) = Some roi \<longrightarrow> roi_inside (frame_size (fst x)) roi)"

lemma full_roi_inside: "0 \<le> fr_cols f \<Longrightarrow> 0 \<le> fr_rows f \<Longrightarrow> roi_inside (fr_cols f, fr_rows f) (full_roi f)"
  by (simp add: full_roi_def roi_inside_def)

lemma search_corners_roi:
  "search_corners vi f q roi = (roi', anchors) \<Longrightarrow> roi' = roi \<or> roi' = full_roi f"
  by (auto simp: search_corners_def Let_def split: if_splits)

lemma tracked_box_inside:
  "intersects vi \<Longrightarrow> 0 \<le> fr_cols f \<Longrightarrow> 0 \<le> fr_rows f \<Longrightarrow> roi_inside (fr_cols f, fr_rows f) (tracked_box vi f roi corners)"
  by (simp add: tracked_box_def intersects_def full_roi_def Let_def)

lemma rois_add: "add_step r r' \<Longrightarrow> rois_inv r \<Longrightarrow> rois_inv r'"
  by (induction rule: add_step.induct)
    (auto simp: rois_inv_def all_tasks_def move_call_def frame_size_def intro!: ball_minus)

lemma rois_task:
  assumes "task_step vi r r'" "intersects vi" "rois_inv r"
  shows "rois_inv r'"
proof -
  have all: "all_tasks (\<lambda>t. 0 \<le> fst (frame_size t) \<and> 0 \<le> snd (frame_size t)) r'"
    by (rule all_tasks_task [OF assms(1)]) (use assms(3) in \<open>simp add: rois_inv_def\<close>)
  show ?thesis using assms all
  proof (induction rule: task_step.induct)
    case (start t r recent)
    have "roi_inside (frame_size t) (start_roi recent r (ft_frame t))"
      using start.hyps start.prems full_roi_inside [of "ft_frame t"]
      by (auto simp: start_roi_def rois_inv_def all_tasks_def frame_size_def)
    then show ?case using start by (auto simp: rois_inv_def)
  next
    case (search t roi r roi' anchors)
    have "roi_inside (frame_size t) roi'"
      using search.hyps search.prems search_corners_roi [OF search.hyps(2)] full_roi_inside [of "ft_frame t"]
      by (fastforce simp: rois_inv_def all_tasks_def frame_size_def)
    then show ?case using search by (auto simp: rois_inv_def move_task_def intro!: ball_minus)
  next
    case (track t roi anchors r)
    have "roi_inside (frame_size t) (tracked_box vi (ft_frame t) roi (take 4 anchors))"
      using track.hyps track.prems tracked_box_inside [of vi "ft_frame t"] by (fastforce simp: rois_inv_def all_tasks_def frame_size_def)
    then show ?case using track by (auto simp: rois_inv_def move_task_def track_frame_def frame_size_def intro!: ball_minus)
  qed (fastforce simp: rois_inv_def move_task_def report_geometry_def intro!: ball_minus split: prod.split)+
qed

section \<open>The geometry that is shown\<close>

definition shown_geometry :: "'img MultiThreadedDecoder \<Rightarrow> geometry" where
  "shown_geometry r = (md_geometrySequence r, md_anchors r, md_width r, md_height r, md_points r)"

definition newest :: "geometry \<Rightarrow> geometry list \<Rightarrow> bool" where
  "newest g gs \<longleftrightarrow> (gs \<noteq> [] \<longrightarrow> g \<in> set gs) \<and> (\<forall>h\<in>set gs. fst h \<le> fst g)"

lemma report_newest:
  "newest (shown_geometry r) (md_reports r) \<Longrightarrow> md_reports r = [] \<longrightarrow> md_geometrySequence r = 0 \<Longrightarrow>
   newest (shown_geometry (report_geometry g r)) (md_reports (report_geometry g r))"
  by (auto simp: newest_def shown_geometry_def report_geometry_def split: prod.splits if_splits)

definition geometry_inv :: "'img MultiThreadedDecoder \<Rightarrow> bool" where
  "geometry_inv r \<longleftrightarrow> newest (shown_geometry r) (md_reports r) \<and> (md_reports r = [] \<longrightarrow> md_geometrySequence r = 0)"

lemma geometry_add: "add_step r r' \<Longrightarrow> geometry_inv r \<Longrightarrow> geometry_inv r'"
  by (induction rule: add_step.induct) (auto simp: geometry_inv_def shown_geometry_def move_call_def)

lemma geometry_task: "task_step vi r r' \<Longrightarrow> geometry_inv r \<Longrightarrow> geometry_inv r'"
proof (induction rule: task_step.induct)
  case (report t roi anchors r)
  have "newest (shown_geometry (report_geometry (geometry_of t roi anchors) r)) (md_reports (report_geometry (geometry_of t roi anchors) r))"
    by (rule report_newest) (use report in \<open>simp_all add: geometry_inv_def\<close>)
  moreover have "md_reports (report_geometry (geometry_of t roi anchors) r) \<noteq> []" by (simp add: report_geometry_def geometry_of_def)
  ultimately show ?case by (simp add: geometry_inv_def move_task_def shown_geometry_def)
qed (auto simp: geometry_inv_def shown_geometry_def move_task_def track_frame_def)

section \<open>The whole application\<close>

definition receiver_inv :: "'img MultiThreadedDecoder \<Rightarrow> bool" where
  "receiver_inv r \<longleftrightarrow> flight_inv r \<and> modes_inv r \<and> rois_inv r \<and> geometry_inv r"

definition app_inv :: "'img app \<Rightarrow> bool" where
  "app_inv app \<longleftrightarrow> (\<forall>r. ap_receiver app = Some r \<longrightarrow> receiver_inv r \<and> ap_requestedMode app \<in> receiver_modes \<and>
     (ap_requestedMode app \<noteq> 0 \<longrightarrow> md_mode r = ap_requestedMode app))"

lemma mode_chunks: "mode_chunk_size 0 = Some 625" "mode_chunk_size 4 = Some 750" "mode_chunk_size 66 = Some 540"
  "mode_chunk_size 67 = Some 429" "mode_chunk_size 68 = Some 625"
  by (simp_all add: mode_chunk_size_def temp_conf_def conf_eval)

lemma mode_chunk_in: "mode \<in> receiver_modes \<Longrightarrow> \<exists>n. mode_chunk_size mode = Some n \<and> 50 \<le> n"
  by (auto simp: receiver_modes_def mode_chunks)

lemma create_inv:
  assumes "mode \<in> receiver_modes"
  shows "\<exists>r. MultiThreadedDecoder_create hw path mode = Some r \<and> receiver_inv r \<and> md_mode r = mode \<and> md_detected r = 0 \<and>
    mode_chunk_size mode = Some (md_chunk_size r)"
proof -
  obtain n where "mode_chunk_size mode = Some n" "50 \<le> n" using mode_chunk_in [OF assms] by blast
  then show ?thesis using assms
    by (simp add: MultiThreadedDecoder_create_def receiver_inv_def flight_inv_def images_held_def modes_inv_def rois_inv_def geometry_inv_def
        all_tasks_def sink_create_def newest_def roi_inside_def) (simp add: receiver_modes_def)
qed

lemma set_mode_inv:
  assumes "mode \<in> receiver_modes" "receiver_inv r"
  shows "\<exists>n. mode_chunk_size mode = Some n \<and> set_mode mode r =
    Some (if mode \<noteq> 0 \<and> md_chunk_size r \<noteq> n then (False, r) else (True, r\<lparr>md_mode := mode, md_detected := (if mode = 0 then 0 else md_detected r)\<rparr>)) \<and>
    (mode = 0 \<or> md_chunk_size r = n \<longrightarrow> receiver_inv (r\<lparr>md_mode := mode, md_detected := (if mode = 0 then 0 else md_detected r)\<rparr>))"
proof -
  obtain n where "mode_chunk_size mode = Some n" using mode_chunk_in [OF assms(1)] by blast
  then show ?thesis using assms
    by (auto simp: set_mode_def receiver_inv_def flight_inv_def images_held_def modes_inv_def rois_inv_def geometry_inv_def
        all_tasks_def shown_geometry_def receiver_modes_def)
qed

text \<open>What a call of \<open>submit\<close> leaves: the receiver of before with another mode, or a new one.\<close>

definition next_mode :: "'img app \<Rightarrow> int \<Rightarrow> int" where
  "next_mode app mode = (case ap_receiver app of None \<Rightarrow> mode
     | Some r \<Rightarrow> if mode \<noteq> 0 \<or> ap_requestedMode app \<noteq> 0 then mode else if md_mode r \<noteq> 0 then md_mode r else md_detected r)"

definition succeeds :: "nat \<Rightarrow> string \<Rightarrow> 'img app \<Rightarrow> 'img MultiThreadedDecoder \<Rightarrow> bool" where
  "succeeds hw path app r \<longleftrightarrow> (case ap_receiver app of None \<Rightarrow> Some r = MultiThreadedDecoder_create hw path (md_mode r)
     | Some r0 \<Rightarrow> if md_mode r = 0 \<or> mode_chunk_size (md_mode r) = Some (md_chunk_size r0)
         then r = r0\<lparr>md_mode := md_mode r, md_detected := md_detected r\<rparr> else Some r = MultiThreadedDecoder_create hw path (md_mode r))"

lemma switch_mode:
  assumes "mode \<in> receiver_modes" "receiver_inv r0"
  shows "\<exists>r. switch_receiver hw path mode r0 = Some r \<and>
    receiver_inv r \<and> md_mode r = mode \<and> (mode = 0 \<longrightarrow> md_detected r = 0) \<and>
    (if mode = 0 \<or> mode_chunk_size mode = Some (md_chunk_size r0) then r = r0\<lparr>md_mode := mode, md_detected := md_detected r\<rparr>
     else Some r = MultiThreadedDecoder_create hw path mode)"
proof -
  obtain n where n: "mode_chunk_size mode = Some n" "set_mode mode r0 =
    Some (if mode \<noteq> 0 \<and> md_chunk_size r0 \<noteq> n then (False, r0) else (True, r0\<lparr>md_mode := mode, md_detected := (if mode = 0 then 0 else md_detected r0)\<rparr>))"
    "mode = 0 \<or> md_chunk_size r0 = n \<longrightarrow> receiver_inv (r0\<lparr>md_mode := mode, md_detected := (if mode = 0 then 0 else md_detected r0)\<rparr>)"
    using set_mode_inv [OF assms] by blast
  show ?thesis
  proof (cases "mode = 0 \<or> md_chunk_size r0 = n")
    case True
    then show ?thesis using n by (auto simp: switch_receiver_def)
  next
    case False
    obtain r :: "'a MultiThreadedDecoder" where "MultiThreadedDecoder_create hw path mode = Some r" "receiver_inv r" "md_mode r = mode"
      using create_inv [OF assms(1), of hw path] by blast
    then show ?thesis using n(1,2) False by (simp add: switch_receiver_def)
  qed
qed

lemma select_receiver_spec:
  assumes inv: "app_inv app" and mode: "mode \<in> receiver_modes"
  shows "\<exists>r. select_receiver hw path mode app = Some \<lparr>ap_receiver = Some r, ap_requestedMode = mode\<rparr> \<and> receiver_inv r \<and>
    md_mode r = next_mode app mode \<and> (mode \<noteq> 0 \<longrightarrow> md_mode r = mode) \<and> succeeds hw path app r"
proof (cases "ap_receiver app")
  case None
  moreover obtain r :: "'a MultiThreadedDecoder" where "MultiThreadedDecoder_create hw path mode = Some r" "receiver_inv r" "md_mode r = mode" "md_detected r = 0"
    using create_inv [OF mode, of hw path] by blast
  ultimately show ?thesis by (simp add: select_receiver_def next_mode_def succeeds_def)
next
  case (Some r0)
  then have r0: "receiver_inv r0" "ap_requestedMode app \<in> receiver_modes" "ap_requestedMode app \<noteq> 0 \<longrightarrow> md_mode r0 = ap_requestedMode app"
    using inv by (auto simp: app_inv_def)
  then have det: "md_detected r0 \<in> receiver_modes" and zero: "md_mode r0 \<noteq> 0 \<longrightarrow> mode_chunk_size (md_mode r0) = Some (md_chunk_size r0)"
    by (simp_all add: receiver_inv_def modes_inv_def)
  consider (detected) "ap_requestedMode app = mode" "mode = 0 \<and> md_mode r0 = 0 \<and> md_detected r0 \<noteq> 0"
    | (same) "ap_requestedMode app = mode" "\<not> (mode = 0 \<and> md_mode r0 = 0 \<and> md_detected r0 \<noteq> 0)" | (other) "ap_requestedMode app \<noteq> mode" by blast
  then show ?thesis
  proof cases
    case detected
    obtain r where r: "switch_receiver hw path (md_detected r0) r0 = Some r"
      "receiver_inv r" "md_mode r = md_detected r0" "if md_detected r0 = 0 \<or> mode_chunk_size (md_detected r0) = Some (md_chunk_size r0)
        then r = r0\<lparr>md_mode := md_detected r0, md_detected := md_detected r\<rparr> else Some r = MultiThreadedDecoder_create hw path (md_detected r0)"
      using switch_mode [OF det r0(1), of hw path] by blast
    show ?thesis using Some detected r(2-4) by (simp add: select_receiver_def next_mode_def succeeds_def r(1))
  next
    case same
    then have "select_receiver hw path mode app = Some \<lparr>ap_receiver = Some r0, ap_requestedMode = mode\<rparr>"
      using Some by (simp add: select_receiver_def) blast
    moreover have "md_mode r0 = next_mode app mode" "mode \<noteq> 0 \<longrightarrow> md_mode r0 = mode" using Some same r0(3) by (auto simp: next_mode_def)
    moreover have "succeeds hw path app r0" using Some zero by (auto simp: succeeds_def)
    ultimately show ?thesis using r0(1) by blast
  next
    case other
    obtain r where r: "switch_receiver hw path mode r0 = Some r"
      "receiver_inv r" "md_mode r = mode" "mode = 0 \<longrightarrow> md_detected r = 0" "if mode = 0 \<or> mode_chunk_size mode = Some (md_chunk_size r0)
        then r = r0\<lparr>md_mode := mode, md_detected := md_detected r\<rparr> else Some r = MultiThreadedDecoder_create hw path mode"
      using switch_mode [OF mode r0(1), of hw path] by blast
    have "select_receiver hw path mode app = Some \<lparr>ap_receiver = Some r, ap_requestedMode = mode\<rparr>"
      using Some other r(1,4) by (cases "mode = 0") (simp_all add: select_receiver_def)
    moreover have "next_mode app mode = mode" using Some other by (auto simp: next_mode_def)
    moreover have "succeeds hw path app r" using Some r(3,5) by (simp add: succeeds_def)
    ultimately show ?thesis using r(2,3) by simp
  qed
qed

lemma app_step_inv:
  assumes "app_step hw vi app app'" "intersects vi" "app_inv app"
  shows "app_inv app'"
  using assms
proof (induction rule: app_step.induct)
  case (submit address directory mode app app')
  show ?case
  proof (cases "valid_submit address directory mode")
    case True
    then have "mode \<in> receiver_modes" by (simp add: valid_submit_def receiver_modes_def)
    then show ?thesis using select_receiver_spec [OF submit.prems(2), of mode hw "the directory"] submit.hyps True
      by (auto simp: jni_submit_def app_inv_def)
  qed (use submit in \<open>simp add: jni_submit_def\<close>)
next
  case (reset app)
  show ?case by (simp add: jni_reset_def app_inv_def)
next
  case (adding app r r')
  have "md_mode r' = md_mode r" using adding.hyps(2) by (induction rule: add_step.induct) (simp_all add: move_call_def)
  then show ?case using adding flight_add modes_add rois_add geometry_add by (auto simp: app_inv_def receiver_inv_def)
next
  case (working app r r')
  then show ?case using flight_task modes_task rois_task geometry_task task_step_modes [OF working.hyps(2)]
    by (auto simp: app_inv_def receiver_inv_def)
qed

lemma app_reachable_inv:
  assumes "app_reachable hw vi app" "intersects vi"
  shows "app_inv app"
  using assms(1) unfolding app_reachable_def
proof (induction rule: rtranclp_induct)
  case base
  show ?case by (simp add: app_create_def app_inv_def)
next
  case (step app app')
  then show ?case using app_step_inv assms(2) by blast
qed


text \<open>OpenCV's rectangles for the witnesses, with a scanner that finds nothing.\<close>

definition rect_vision :: "unit vision" where
  "rect_vision = \<lparr>vi_scan = (\<lambda>_ _ _. []), vi_bounding = (\<lambda>ps. \<lparr>rc_x = fst (hd ps), rc_y = snd (hd ps), rc_width = 1, rc_height = 1\<rparr>),
     vi_rect_and = (\<lambda>a b. let x = max (rc_x a) (rc_x b); y = max (rc_y a) (rc_y b);
         w = min (rc_x a + rc_width a) (rc_x b + rc_width b) - x; h = min (rc_y a + rc_height a) (rc_y b + rc_height b) - y in
       if w \<le> 0 \<or> h \<le> 0 then \<lparr>rc_x = 0, rc_y = 0, rc_width = 0, rc_height = 0\<rparr>
       else \<lparr>rc_x = x, rc_y = y, rc_width = w, rc_height = h\<rparr>)\<rparr>"

lemma rect_vision_intersects: "intersects rect_vision"
  by (auto simp: intersects_def rect_vision_def roi_inside_def Let_def)

text \<open>The application after one frame was submitted in mode 66 and counted.\<close>

definition fresh_receiver :: "unit MultiThreadedDecoder" where
  "fresh_receiver = the (MultiThreadedDecoder_create 8 ''/files'' 66)"

definition counted_app :: "unit app" where
  "counted_app = \<lparr>ap_receiver = Some (fresh_receiver\<lparr>md_submitted := 1, md_calls := {#Counted 1#}\<rparr>), ap_requestedMode = 66\<rparr>"

lemma fresh_receiver_fields: "md_submitted fresh_receiver = 0" "md_calls fresh_receiver = {#}" "md_mode fresh_receiver = 66" "md_workers fresh_receiver = 4"
  "md_inflight fresh_receiver = 0" "md_chunk_size fresh_receiver = 540" "md_detected fresh_receiver = 0"
  by (simp_all add: fresh_receiver_def MultiThreadedDecoder_create_def mode_chunks sink_create_def)

lemma counted_reachable: "app_reachable 8 rect_vision counted_app"
proof -
  have c: "MultiThreadedDecoder_create 8 ''/files'' 66 = Some fresh_receiver"
    by (simp add: fresh_receiver_def MultiThreadedDecoder_create_def mode_chunks)
  have "jni_submit 8 1 (Some ''/files'') 66 app_create = Some \<lparr>ap_receiver = Some fresh_receiver, ap_requestedMode = 66\<rparr>"
    by (simp add: jni_submit_def valid_submit_def select_receiver_def app_create_def c)
  then have "app_step 8 rect_vision app_create \<lparr>ap_receiver = Some fresh_receiver, ap_requestedMode = 66\<rparr>" by (rule app_step.submit)
  moreover have "app_step 8 rect_vision \<lparr>ap_receiver = Some fresh_receiver, ap_requestedMode = 66\<rparr> counted_app"
    using app_step.adding [OF _ add_step.count, of "\<lparr>ap_receiver = Some fresh_receiver, ap_requestedMode = 66\<rparr>" fresh_receiver 8 rect_vision]
    by (simp add: counted_app_def fresh_receiver_fields)
  ultimately show ?thesis unfolding app_reachable_def by (meson converse_rtranclp_into_rtranclp rtranclp.rtrancl_refl)
qed




end
