(* ===== verification/Compressor.thy ===== *)
theory Compressor
  imports FileTransfer ObservedSink
begin

text \<open>
  \<open>zstd_compressor.h\<close> and \<open>Encoder::create_fountain_encoder\<close>: the file is compressed piece by piece into a string
  stream, behind a skippable frame with its name, and padded with another one when it is shorter than a chunk. zstd is a
  record of functions, whose error codes are \<open>None\<close>; the string stream is the bytes written to it.
\<close>

record zstd_c =
  ZSTD_createCCtx :: bool
  ZSTD_compressBound :: "nat \<Rightarrow> nat"
  ZSTD_compressCCtx :: "nat \<Rightarrow> u8 list \<Rightarrow> int \<Rightarrow> u8 list option"
  ZSTD_writeSkippableFrame :: "nat \<Rightarrow> u8 list \<Rightarrow> nat \<Rightarrow> u8 list option"

definition compress_chunk :: nat where
  "compress_chunk = 0x4000"

record zstd_compressor =
  zc_level :: int
  zc_stream :: "u8 list"

definition zc_create :: zstd_compressor where
  "zc_create = \<lparr>zc_level = 16, zc_stream = []\<rparr>"

definition zc_buffer :: "zstd_c \<Rightarrow> nat" where
  "zc_buffer z = ZSTD_compressBound z compress_chunk"

function zc_write :: "zstd_c \<Rightarrow> zstd_compressor \<Rightarrow> u8 list \<Rightarrow> bool \<times> zstd_compressor" where
  "zc_write z s data =
     (if data = [] then (True, s)
      else case ZSTD_compressCCtx z (zc_buffer z) (take compress_chunk data) (zc_level s) of
          None \<Rightarrow> (False, s)
        | Some bytes \<Rightarrow> zc_write z (s\<lparr>zc_stream := zc_stream s @ bytes\<rparr>) (drop compress_chunk data))"
  by pat_completeness auto
termination by (relation "measure (\<lambda>(z, s, data). length data)") (auto simp: compress_chunk_def)

definition set_compression_level :: "int \<Rightarrow> zstd_compressor \<Rightarrow> zstd_compressor" where
  "set_compression_level level s = (if level > 0 then s\<lparr>zc_level := level\<rparr> else s)"

text \<open>The loop of \<open>compress\<close>: what is left of the input, the bytes read.\<close>

function zc_compress_loop :: "zstd_c \<Rightarrow> zstd_compressor \<Rightarrow> u8 list \<Rightarrow> nat \<Rightarrow> nat \<times> zstd_compressor" where
  "zc_compress_loop z s raw totalBytesRead =
     (if raw = [] then (totalBytesRead, s)
      else let rawBuff = take compress_chunk raw; (good, s) = zc_write z s rawBuff in
        if \<not> good then (totalBytesRead + length rawBuff, s)
        else zc_compress_loop z s (drop compress_chunk raw) (totalBytesRead + length rawBuff))"
  by pat_completeness auto
termination by (relation "measure (\<lambda>(z, s, raw, n). length raw)") (auto simp: compress_chunk_def)

declare zc_write.simps [simp del] zc_compress_loop.simps [simp del]

definition zc_compress :: "zstd_c \<Rightarrow> zstd_compressor \<Rightarrow> u8 list \<Rightarrow> int \<Rightarrow> nat \<times> zstd_compressor" where
  "zc_compress z s raw level =
     (if \<not> ZSTD_createCCtx z then (0, s) else zc_compress_loop z (set_compression_level level s) raw 0)"

text \<open>An error of zstd is a huge number, which \<open>STREAM::write\<close> takes for a length.\<close>

definition zc_skippable :: "zstd_c \<Rightarrow> u8 list \<Rightarrow> zstd_compressor \<Rightarrow> (nat \<times> zstd_compressor) option" where
  "zc_skippable z temp s = do {
     frame \<leftarrow> ZSTD_writeSkippableFrame z (zc_buffer z) temp 0;
     Some (length frame, s\<lparr>zc_stream := zc_stream s @ frame\<rparr>)
   }"

definition zc_pad :: "zstd_c \<Rightarrow> nat \<Rightarrow> zstd_compressor \<Rightarrow> (nat \<times> zstd_compressor) option" where
  "zc_pad z len s = zc_skippable z (replicate ((if len < 9 then 9 else len) - 8) 0) s"

definition zc_write_header :: "zstd_c \<Rightarrow> u8 list \<Rightarrow> zstd_compressor \<Rightarrow> (nat \<times> zstd_compressor) option" where
  "zc_write_header z data s = zc_skippable z (1 # data) s"

definition zc_size :: "zstd_compressor \<Rightarrow> nat" where
  "zc_size s = length (zc_stream s)"

text \<open>The stream that is sent: the file as it is, or compressed. \<open>Some None\<close> is a null pointer.\<close>

definition compressed_stream :: "zstd_c \<Rightarrow> nat \<Rightarrow> u8 list \<Rightarrow> u8 list \<Rightarrow> int \<Rightarrow> u8 list option option" where
  "compressed_stream z chunk_size stream filename level =
     (if level \<le> 0 then Some (Some stream)
      else do {
        f \<leftarrow> (if filename \<noteq> [] then map_option snd (zc_write_header z filename zc_create) else Some zc_create);
        let (n, f) = zc_compress z f stream 0;
        (if n = 0 then Some None
         else do {
           let compressedSize = zc_size f;
           f \<leftarrow> (if compressedSize < chunk_size then map_option snd (zc_pad z (chunk_size - compressedSize + 1) f) else Some f);
           Some (Some (zc_stream f))
         })
      })"

definition create_fountain_encoder ::
  "zstd_c \<Rightarrow> ('e, 'd) wirehair \<Rightarrow> conf \<Rightarrow> u8 \<Rightarrow> u8 list \<Rightarrow> u8 list \<Rightarrow> int \<Rightarrow> 'e fountain_encoder_stream option option" where
  "create_fountain_encoder z api c encodeId stream filename level = do {
     chunk_size \<leftarrow> fountain_chunk_size c 0;
     ss \<leftarrow> compressed_stream z chunk_size stream filename level;
     Some (map_option (\<lambda>data. fes_create api data chunk_size encodeId) ss)
   }"

section \<open>What is sent\<close>

text \<open>What zstd documents: a buffer of the bound is enough, it is larger than the input, and a skippable frame has 8
  bytes more than its content.\<close>

definition zstd_ok :: "zstd_c \<Rightarrow> bool" where
  "zstd_ok z \<longleftrightarrow> ZSTD_createCCtx z \<and> (\<forall>n. n \<le> ZSTD_compressBound z n) \<and>
     (\<forall>src level. length src \<le> compress_chunk \<longrightarrow> ZSTD_compressCCtx z (zc_buffer z) src level \<noteq> None) \<and>
     (\<forall>cap src. length src + 8 \<le> cap \<longrightarrow> (\<exists>f. ZSTD_writeSkippableFrame z cap src 0 = Some f \<and> length f = length src + 8))"

fun chunks_of :: "nat \<Rightarrow> u8 list \<Rightarrow> u8 list list" where
  "chunks_of n data = (if data = [] \<or> n = 0 then [] else take n data # chunks_of n (drop n data))"

declare chunks_of.simps [simp del]

definition compress_bytes :: "zstd_c \<Rightarrow> int \<Rightarrow> u8 list \<Rightarrow> u8 list" where
  "compress_bytes z level piece = the (ZSTD_compressCCtx z (zc_buffer z) piece level)"

lemma concat_chunks: "0 < n \<Longrightarrow> concat (chunks_of n data) = data"
proof (induction n data rule: chunks_of.induct)
  case (1 n data)
  then show ?case by (subst chunks_of.simps) auto
qed

lemma zc_write_piece:
  assumes "zstd_ok z" "piece \<noteq> []" "length piece \<le> compress_chunk"
  shows "zc_write z s piece = (True, s\<lparr>zc_stream := zc_stream s @ compress_bytes z (zc_level s) piece\<rparr>)"
proof -
  obtain bytes where "ZSTD_compressCCtx z (zc_buffer z) piece (zc_level s) = Some bytes" using assms by (fastforce simp: zstd_ok_def)
  then show ?thesis using assms by (simp add: zc_write.simps [of z s] compress_bytes_def zc_write.simps [of _ _ "[]"])
qed

lemma zc_compress_loop_run:
  assumes "zstd_ok z"
  shows "zc_compress_loop z s raw n =
    (n + length raw, s\<lparr>zc_stream := zc_stream s @ concat (map (compress_bytes z (zc_level s)) (chunks_of compress_chunk raw))\<rparr>)"
proof (induction raw arbitrary: s n rule: length_induct)
  case (1 raw)
  show ?case
  proof (cases "raw = []")
    case True
    then show ?thesis by (simp add: zc_compress_loop.simps chunks_of.simps)
  next
    case False
    have c: "0 < compress_chunk" by (simp add: compress_chunk_def)
    have w: "zc_write z s (take compress_chunk raw) = (True, s\<lparr>zc_stream := zc_stream s @ compress_bytes z (zc_level s) (take compress_chunk raw)\<rparr>)"
      using False c by (intro zc_write_piece [OF assms]) simp_all
    have "length (drop compress_chunk raw) < length raw" using False c by simp
    from 1 [rule_format, OF this] show ?thesis using False c w
      by (simp add: zc_compress_loop.simps [of z s raw] chunks_of.simps [of _ raw] min_def)
  qed
qed

text \<open>What a decompressor accepts: skippable frames and compressed pieces, one after the other.\<close>

inductive zstd_frames :: "zstd_c \<Rightarrow> u8 list \<Rightarrow> u8 list \<Rightarrow> bool" for z :: zstd_c where
  no_frame: "zstd_frames z [] []"
| skip_frame: "ZSTD_writeSkippableFrame z cap src variant = Some f \<Longrightarrow> zstd_frames z rest content \<Longrightarrow> zstd_frames z (f @ rest) content"
| piece_frame: "ZSTD_compressCCtx z cap src level = Some f \<Longrightarrow> zstd_frames z rest content \<Longrightarrow> zstd_frames z (f @ rest) (src @ content)"

lemma pieces_frames:
  assumes "zstd_ok z" "zstd_frames z rest content" "\<forall>p\<in>set pieces. length p \<le> compress_chunk"
  shows "zstd_frames z (concat (map (compress_bytes z level) pieces) @ rest) (concat pieces @ content)"
  using assms(3)
proof (induction pieces)
  case (Cons p pieces)
  then obtain f where "ZSTD_compressCCtx z (zc_buffer z) p level = Some f" using assms(1) by (fastforce simp: zstd_ok_def)
  moreover from this have "compress_bytes z level p = f" by (simp add: compress_bytes_def)
  ultimately show ?case using Cons piece_frame [of z "zc_buffer z" p level f "concat (map (compress_bytes z level) pieces) @ rest"] by simp
qed (use assms(2) in simp)

lemma chunks_short: "\<forall>p\<in>set (chunks_of n data). length p \<le> n"
proof (induction n data rule: chunks_of.induct)
  case (1 n data)
  then show ?case by (subst chunks_of.simps) auto
qed

text \<open>The compressed stream: the name, the pieces at level 16 whatever the level is, and a frame that fills a chunk.\<close>

lemma compressed_stream_run:
  assumes z: "zstd_ok z" and chunk: "chunk_size < compress_chunk" and name: "length filename + 9 \<le> zc_buffer z"
    and level: "0 < level" and "stream \<noteq> []"
  shows "\<exists>header pad. compressed_stream z chunk_size stream filename level =
      Some (Some (header @ concat (map (compress_bytes z 16) (chunks_of compress_chunk stream)) @ pad)) \<and>
    (if filename = [] then header = [] else ZSTD_writeSkippableFrame z (zc_buffer z) (1 # filename) 0 = Some header) \<and>
    (pad = [] \<or> (\<exists>n. ZSTD_writeSkippableFrame z (zc_buffer z) (replicate n 0) 0 = Some pad)) \<and>
    chunk_size \<le> length (header @ concat (map (compress_bytes z 16) (chunks_of compress_chunk stream)) @ pad)"
proof -
  let ?body = "concat (map (compress_bytes z 16) (chunks_of compress_chunk stream))"
  have buf: "compress_chunk \<le> zc_buffer z" using z by (simp add: zstd_ok_def zc_buffer_def)
  obtain header where h: "(if filename \<noteq> [] then map_option snd (zc_write_header z filename zc_create) else Some zc_create) =
      Some (zc_create\<lparr>zc_stream := header\<rparr>)"
    "if filename = [] then header = [] else ZSTD_writeSkippableFrame z (zc_buffer z) (1 # filename) 0 = Some header"
  proof (cases "filename = []")
    case False
    have "length (1 # filename) + 8 \<le> zc_buffer z" using name by simp
    then obtain f where "ZSTD_writeSkippableFrame z (zc_buffer z) (1 # filename) 0 = Some f" using z unfolding zstd_ok_def by blast
    with that [of f] False show ?thesis by (simp add: zc_write_header_def zc_skippable_def zc_create_def)
  qed (use that [of "[]"] in \<open>simp add: zc_create_def\<close>)
  let ?f = "zc_create\<lparr>zc_stream := header @ ?body\<rparr>"
  have c: "zc_compress z (zc_create\<lparr>zc_stream := header\<rparr>) stream 0 = (length stream, ?f)"
    using z by (simp add: zc_compress_def set_compression_level_def zc_compress_loop_run [OF z] zc_create_def) (simp add: zstd_ok_def)
  have run: "compressed_stream z chunk_size stream filename level =
      map_option (\<lambda>f. Some (zc_stream f)) (if zc_size ?f < chunk_size then map_option snd (zc_pad z (chunk_size - zc_size ?f + 1) ?f) else Some ?f)"
    using level assms(5) by (simp add: compressed_stream_def h(1) c Let_def map_option_case split: option.split)
  show ?thesis
  proof (cases "zc_size ?f < chunk_size")
    case False
    then show ?thesis using run h(2) by (intro exI [of _ header] exI [of _ "[]"]) (simp add: zc_size_def)
  next
    case True
    let ?n = "(if chunk_size - zc_size ?f + 1 < 9 then 9 else chunk_size - zc_size ?f + 1) - 8"
    have "length (replicate ?n (0 :: u8)) + 8 \<le> zc_buffer z" using chunk buf by (simp add: compress_chunk_def) arith
    then obtain pad where p: "ZSTD_writeSkippableFrame z (zc_buffer z) (replicate ?n 0) 0 = Some pad" "length pad = length (replicate ?n (0 :: u8)) + 8"
      using z unfolding zstd_ok_def by blast
    have "chunk_size \<le> zc_size ?f + length pad" unfolding p(2) length_replicate by arith
    then have "chunk_size \<le> length (header @ ?body @ pad)" by (simp add: zc_size_def)
    moreover have "zc_pad z (chunk_size - zc_size ?f + 1) ?f = Some (length pad, zc_create\<lparr>zc_stream := header @ ?body @ pad\<rparr>)"
      unfolding zc_pad_def zc_skippable_def p(1) by simp
    then have "compressed_stream z chunk_size stream filename level = Some (Some (header @ ?body @ pad))"
      unfolding run if_P [OF True] by simp
    ultimately show ?thesis using h(2) p(1) by (intro exI [of _ header] exI [of _ pad]) auto
  qed
qed

lemma compressed_stream_frames:
  assumes "zstd_ok z" "chunk_size < compress_chunk" "length filename + 9 \<le> zc_buffer z" "0 < level" "stream \<noteq> []"
  shows "\<exists>data. compressed_stream z chunk_size stream filename level = Some (Some data) \<and> chunk_size \<le> length data \<and> zstd_frames z data stream"
proof -
  obtain header pad where r: "compressed_stream z chunk_size stream filename level =
      Some (Some (header @ concat (map (compress_bytes z 16) (chunks_of compress_chunk stream)) @ pad))"
    "if filename = [] then header = [] else ZSTD_writeSkippableFrame z (zc_buffer z) (1 # filename) 0 = Some header"
    "pad = [] \<or> (\<exists>n. ZSTD_writeSkippableFrame z (zc_buffer z) (replicate n 0) 0 = Some pad)"
    "chunk_size \<le> length (header @ concat (map (compress_bytes z 16) (chunks_of compress_chunk stream)) @ pad)"
    using compressed_stream_run [OF assms] by blast
  have "zstd_frames z pad []" using r(3) skip_frame [of z _ _ _ pad "[]" "[]"] no_frame by auto
  from pieces_frames [OF assms(1) this chunks_short, of 16 stream]
  have "zstd_frames z (concat (map (compress_bytes z 16) (chunks_of compress_chunk stream)) @ pad) stream"
    by (simp add: concat_chunks compress_chunk_def)
  then have "zstd_frames z (header @ concat (map (compress_bytes z 16) (chunks_of compress_chunk stream)) @ pad) stream"
    using r(2) by (auto split: if_splits intro: skip_frame)
  then show ?thesis using r(1,4) by blast
qed

text \<open>Any level above 0 is the level 16.\<close>

lemma level_is_ignored: "0 < level \<Longrightarrow> compressed_stream z n stream filename level = compressed_stream z n stream filename 1"
  by (simp add: compressed_stream_def)

section \<open>From file to file\<close>

text \<open>The streaming decompressor undoes what the compressor wrote, as far as it decompresses at all.\<close>

definition zstd_pair :: "zstd_c \<Rightarrow> 'z zstd \<Rightarrow> bool" where
  "zstd_pair zc z \<longleftrightarrow> (\<forall>s bytes content file. ZSTD_createDStream z = Some s \<and> zstd_frames zc bytes content \<and>
     unzip z s bytes 1 [] = Some file \<longrightarrow> file = content)"

lemma plain_get_filename: "plain (get_filename d)"
proof -
  have "plain (dec_string n)" for n
  proof (induction n rule: dec_string.induct)
    case (1 n)
    then show ?case using plain_digit [of n] plain_digit [of "n mod 10"]
      by (subst dec_string.simps) auto
  qed
  moreover have "\<not> is_control CHR ''.''" by (simp add: is_control_def)
  ultimately show ?thesis by (simp add: get_filename_def)
qed

text \<open>What the callback of the sink does with a file.\<close>

lemma observed_store_publishes:
  assumes "mkstemp_ok os" "plain fallback" "zstd_pair zc z" "zstd_frames zc bytes content"
    and "snd (observed_on_store z os android fallback bytes (Some ob)) = Some ob'"
  shows "ob_dir ob' = ob_dir ob \<and> ob_events ob' = ob_events ob \<or>
    (\<exists>name. safe_name name \<and> ob_dir ob name = None \<and> ob_dir ob' = (ob_dir ob)(name \<mapsto> content) \<and> ob_events ob' = ob_events ob @ [name])"
proof -
  obtain name d w where st: "store_received_file z os android fallback bytes (ob_dir ob) (ob_os ob) = Some (name, d, w)"
    using assms(5) by (auto simp: observed_on_store_def Let_def split: option.splits)
  have ob': "ob_dir ob' = d" "ob_events ob' = (if name = [] then ob_events ob else ob_events ob @ [name])"
    using assms(5) st by (auto simp: observed_on_store_def Let_def)
  from store_received_file_result [OF assms(1,2) st] ob' assms(3,4) show ?thesis
    unfolding zstd_pair_def by (cases "name = []") auto
qed

lemma mode_chunk_small: "fountain_chunk_size (temp_conf m) 0 = Some B \<Longrightarrow> B < compress_chunk"
proof -
  have "fountain_chunk_size (temp_conf 4) 0 = Some 750" "fountain_chunk_size (temp_conf 8) 0 = Some 875" "fountain_chunk_size (temp_conf 66) 0 = Some 540"
    "fountain_chunk_size (temp_conf 67) 0 = Some 429" "fountain_chunk_size (temp_conf 68) 0 = Some 625" by (simp_all add: temp_conf_def conf_eval)
  moreover assume "fountain_chunk_size (temp_conf m) 0 = Some B"
  ultimately show ?thesis using temp_conf_cases [of m] unfolding compress_chunk_def by (elim insertE emptyE) simp_all
qed


text \<open>A compressor for the witness: it writes a 1 before every byte, and zeros are skipped.\<close>

definition byte_zstd_c :: zstd_c where
  "byte_zstd_c = \<lparr>ZSTD_createCCtx = True, ZSTD_compressBound = (\<lambda>n. 2 * n),
     ZSTD_compressCCtx = (\<lambda>cap src level. if 2 * length src \<le> cap then Some (concat (map (\<lambda>b. [1, b]) src)) else None),
     ZSTD_writeSkippableFrame = (\<lambda>cap src variant. if length src + 8 \<le> cap then Some (replicate (length src + 8) 0) else None)\<rparr>"

definition byte_zstd :: "unit zstd" where
  "byte_zstd = \<lparr>ZSTD_isSkippableFrame = (\<lambda>_. False), ZSTD_readSkippableFrame = (\<lambda>_ _. (0, [])), ZSTD_isError = (\<lambda>n. n = 9),
     ZSTD_createDStream = Some (), ZSTD_decompressStream = (\<lambda>s input cap.
       if hd input = 0 then (0, 1, [], ()) else if length input \<ge> 2 then (0, 2, [input ! 1], ()) else (9, 0, [], ()))\<rparr>"

lemma byte_zstd_ok: "zstd_ok byte_zstd_c"
  by (simp add: zstd_ok_def byte_zstd_c_def zc_buffer_def)

lemma unzip_zeros: "unzip byte_zstd () (replicate k 0 @ rest) r acc = unzip byte_zstd () rest (if k = 0 then r else 0) acc"
proof (induction k arbitrary: r)
  case (Suc k)
  then show ?case by (subst unzip.simps) (simp add: byte_zstd_def)
qed simp

lemma unzip_pairs: "unzip byte_zstd () (concat (map (\<lambda>b. [1, b]) src) @ rest) r acc = unzip byte_zstd () rest (if src = [] then r else 0) (acc @ src)"
proof (induction src arbitrary: r acc)
  case (Cons b src)
  then show ?case by (subst unzip.simps) (simp add: byte_zstd_def)
qed simp

lemma byte_zstd_pair: "zstd_pair byte_zstd_c byte_zstd"
proof -
  have "unzip byte_zstd () bytes r acc = Some res \<Longrightarrow> res = acc @ content" if "zstd_frames byte_zstd_c bytes content" for bytes content r acc res
    using that
  proof (induction arbitrary: r acc rule: zstd_frames.induct)
    case no_frame
    then show ?case by (subst (asm) unzip.simps) (simp split: if_splits)
  next
    case (skip_frame cap src variant f rest content)
    then show ?case by (auto simp: byte_zstd_c_def unzip_zeros split: if_splits simp del: replicate_Suc)
  next
    case (piece_frame cap src level f rest content)
    then show ?case by (force simp: byte_zstd_c_def unzip_pairs split: if_splits)
  qed
  then show ?thesis by (fastforce simp: zstd_pair_def)
qed

lemma doubled: "concat (map (\<lambda>b. [1, b]) (replicate n 1)) = replicate (2 * n) (1 :: u8)"
  by (induction n) simp_all

definition fresh_observed :: "unit observed" where
  "fresh_observed = snd (observed_create 540 Map.empty () :: (u8, unit) ObservedFountainSink)"


end
