(* ===== verification/Spec2Isabelle.thy ===== *)
theory Spec2Isabelle
  imports Pipeline ObservedSink ThreadPool ConcurrentSink BitFile GridConfig Layout Neighbours FloodDecode ImageHash CimbReader FrameDecoder FrameEncoder FrameRoundtrip ScanState Scanner Floats CellColor FileTransfer Receiver Compressor
begin

text \<open>The native code of the camera file receiver.

  \<^bold>\<open>Error correction\<close> (libcorrect under \<open>third_party_lib\<close>, and \<open>lib/encoder/ReedSolomon.h\<close>).
  \<open>GaloisField\<close> is \<open>field.h\<close>, \<open>RsPolynomial\<close> is \<open>polynomial.c\<close>, \<open>ReedSolomonCodec\<close> is
  \<open>reed-solomon.c\<close>, \<open>encode.c\<close>, \<open>decode.c\<close> and the wrapper class, and \<open>ErrorCorrection\<close> proves
  that the decoder corrects.\<close>

end
